(* ===== verification/Autopilot_Prelude.thy ===== *)
theory Autopilot_Prelude
  imports Main "HOL-Library.Word"
begin

text \<open>
  What every component shares: the model of C strings and of the few functions of the C
  standard library the sources call (\<open>strchr\<close>, \<open>strstr\<close>, \<open>strcasecmp\<close>, \<open>isspace\<close>, \<open>strtoull\<close>,
  \<open>snprintf\<close> with \<open>%s\<close>, \<open>%d\<close> and \<open>%x\<close>), and the generic lemmas about them.

  A C string is a \<^typ>\<open>string\<close> without the terminating NUL; \<open>cstr\<close> says that no character of it
  is NUL, which holds of every string a \<open>char *\<close> of the program points to. Bytes of a buffer that
  is not text are \<open>8 word\<close>.
\<close>

unbundle bit_operations_syntax

section \<open>Collections of rewrite rules\<close>

named_theorems c_string \<open>characteristic equations of the C string functions\<close>
named_theorems c_bounds \<open>length bounds of the routines that write into a fixed buffer\<close>

section \<open>Characters\<close>

type_synonym u8 = "8 word"
type_synonym u16 = "16 word"
type_synonym u32 = "32 word"
type_synonym u64 = "64 word"

abbreviation NUL :: char where "NUL \<equiv> CHR 0x00"
abbreviation LF :: char where "LF \<equiv> CHR 0x0A"
abbreviation CR :: char where "CR \<equiv> CHR 0x0D"
abbreviation TAB :: char where "TAB \<equiv> CHR 0x09"
abbreviation DQUOTE :: char where "DQUOTE \<equiv> CHR 0x22"
abbreviation BACKSLASH :: char where "BACKSLASH \<equiv> CHR 0x5C"
abbreviation SQUOTE :: char where "SQUOTE \<equiv> CHR 0x27"

abbreviation ord :: "char \<Rightarrow> nat" where "ord c \<equiv> of_char c"
abbreviation chr :: "nat \<Rightarrow> char" where "chr n \<equiv> char_of n"
abbreviation byte :: "char \<Rightarrow> u8" where "byte c \<equiv> of_char c"

definition cstr :: "string \<Rightarrow> bool" where
  "cstr s \<longleftrightarrow> NUL \<notin> set s"

text \<open>What a buffer holds when it is read as a C string.\<close>

definition c_str :: "string \<Rightarrow> string" where
  "c_str s = takeWhile (\<lambda>c. c \<noteq> NUL) s"

lemma c_str_id: "cstr s \<Longrightarrow> c_str s = s"
  by (auto simp: c_str_def cstr_def takeWhile_eq_all_conv)

lemma cstr_c_str [simp]: "cstr (c_str s)"
  by (auto simp: c_str_def cstr_def dest: set_takeWhileD)

lemma length_c_str: "length (c_str s) \<le> length s"
  by (simp add: c_str_def length_takeWhile_le)

definition between :: "char \<Rightarrow> char \<Rightarrow> char \<Rightarrow> bool" where
  "between lo c hi \<longleftrightarrow> ord lo \<le> ord c \<and> ord c \<le> ord hi"

definition is_digit :: "char \<Rightarrow> bool" where
  "is_digit c \<longleftrightarrow> between (CHR ''0'') c (CHR ''9'')"

definition is_upper :: "char \<Rightarrow> bool" where
  "is_upper c \<longleftrightarrow> between (CHR ''A'') c (CHR ''Z'')"

definition is_lower :: "char \<Rightarrow> bool" where
  "is_lower c \<longleftrightarrow> between (CHR ''a'') c (CHR ''z'')"

definition is_xdigit :: "char \<Rightarrow> bool" where
  "is_xdigit c \<longleftrightarrow> is_digit c \<or> between (CHR ''a'') c (CHR ''f'') \<or> between (CHR ''A'') c (CHR ''F'')"

definition xdigit_val :: "char \<Rightarrow> nat" where
  "xdigit_val c =
     (if is_digit c then ord c - 48
      else if between (CHR ''a'') c (CHR ''f'') then ord c - 87
      else ord c - 55)"

text \<open>\<open>isspace\<close> in the C locale: HT, LF, VT, FF, CR and the space.\<close>

definition is_space :: "char \<Rightarrow> bool" where
  "is_space c \<longleftrightarrow> c = CHR '' '' \<or> (9 \<le> ord c \<and> ord c \<le> 13)"

definition to_lower :: "char \<Rightarrow> char" where
  "to_lower c = (if is_upper c then chr (ord c + 32) else c)"

lemma ord_less_256 [simp]: "ord c < 256"
  by simp

lemma chr_ord [simp]: "chr (ord c) = c"
  by simp

lemma ord_chr: "n < 256 \<Longrightarrow> ord (chr n) = n"
  by (simp add: of_char_of)

definition unbyte :: "u8 \<Rightarrow> char" where
  "unbyte b = chr (unat b)"

lemma unat_byte: "unat (byte c) = ord c"
proof -
  have "byte c = word_of_nat (ord c)" by (simp add: of_nat_of_char)
  then show ?thesis by (simp add: unat_of_nat)
qed

lemma unbyte_byte [simp]: "unbyte (byte c) = c"
  by (simp add: unbyte_def unat_byte)

lemma ord_eq_iff: "ord c = ord d \<longleftrightarrow> c = d"
  by (metis chr_ord)

lemma to_lower_idem [simp]: "to_lower (to_lower c) = to_lower c"
  by (auto simp: to_lower_def is_upper_def between_def ord_chr)

section \<open>Comparison and search\<close>

definition strcaseeq :: "string \<Rightarrow> string \<Rightarrow> bool" where
  "strcaseeq a b \<longleftrightarrow> map to_lower a = map to_lower b"

text \<open>\<open>strncmp(a, b, n) == 0\<close> and its case-insensitive form, on NUL-free strings.\<close>

definition strneq :: "nat \<Rightarrow> string \<Rightarrow> string \<Rightarrow> bool" where
  "strneq n a b \<longleftrightarrow> take n a = take n b"

definition strncaseeq :: "nat \<Rightarrow> string \<Rightarrow> string \<Rightarrow> bool" where
  "strncaseeq n a b \<longleftrightarrow> map to_lower (take n a) = map to_lower (take n b)"

text \<open>\<open>strncmp(s, p, strlen(p)) == 0\<close>.\<close>

definition starts_with :: "string \<Rightarrow> string \<Rightarrow> bool" where
  "starts_with p s \<longleftrightarrow> take (length p) s = p"

lemma starts_with_append [simp]: "starts_with p (p @ s)"
  by (simp add: starts_with_def)

lemma starts_with_iff: "starts_with p s \<longleftrightarrow> (\<exists>t. s = p @ t)"
  by (metis append_take_drop_id append_eq_conv_conj starts_with_def)

lemma starts_with_Nil [simp]: "starts_with [] s"
  by (simp add: starts_with_def)

lemma starts_with_Cons:
  "starts_with (p # ps) s \<longleftrightarrow> (case s of [] \<Rightarrow> False | c # cs \<Rightarrow> c = p \<and> starts_with ps cs)"
  by (auto simp: starts_with_def split: list.splits)

text \<open>\<open>strchr\<close>: the index of the first occurrence.\<close>

fun strchr :: "char \<Rightarrow> string \<Rightarrow> nat option" where
  "strchr c [] = None"
| "strchr c (x # xs) = (if x = c then Some 0 else map_option Suc (strchr c xs))"

lemma strchr_None_iff: "strchr c s = None \<longleftrightarrow> c \<notin> set s"
  by (induction s) auto

lemma strchr_Some_iff:
  "strchr c s = Some i \<longleftrightarrow> i < length s \<and> s ! i = c \<and> c \<notin> set (take i s)"
proof (induction s arbitrary: i)
  case Nil
  then show ?case by simp
next
  case (Cons x xs)
  then show ?case by (cases i) auto
qed

lemma strchr_append: "c \<notin> set a \<Longrightarrow> strchr c (a @ c # b) = Some (length a)"
  by (induction a) auto

text \<open>\<open>strrchr\<close>: what follows the last occurrence.\<close>

definition after_last :: "char \<Rightarrow> string \<Rightarrow> string option" where
  "after_last c s =
     (if c \<in> set s then Some (rev (takeWhile (\<lambda>x. x \<noteq> c) (rev s))) else None)"

text \<open>\<open>strstr\<close>: the index of the first occurrence of a pattern.\<close>

fun strstr :: "string \<Rightarrow> string \<Rightarrow> nat option" where
  "strstr p [] = (if p = [] then Some 0 else None)"
| "strstr p (x # xs) = (if starts_with p (x # xs) then Some 0 else map_option Suc (strstr p xs))"

lemma strstr_Some_sound: "strstr p s = Some i \<Longrightarrow> i \<le> length s \<and> starts_with p (drop i s)"
proof (induction s arbitrary: i)
  case Nil
  then show ?case by (auto split: if_splits)
next
  case (Cons x xs)
  then show ?case by (cases i) (auto split: if_splits)
qed

lemma strstr_first: "strstr p s = Some i \<Longrightarrow> j < i \<Longrightarrow> \<not> starts_with p (drop j s)"
proof (induction s arbitrary: i j)
  case Nil
  then show ?case by (auto split: if_splits)
next
  case (Cons x xs)
  then show ?case by (cases j) (auto split: if_splits)
qed

lemma strstr_None_iff: "strstr p s = None \<longleftrightarrow> (\<forall>j \<le> length s. \<not> starts_with p (drop j s))"
proof (induction s)
  case Nil
  then show ?case by (auto simp: starts_with_def)
next
  case (Cons x xs)
  have "(\<forall>j \<le> length (x # xs). \<not> starts_with p (drop j (x # xs))) \<longleftrightarrow>
        \<not> starts_with p (x # xs) \<and> (\<forall>j \<le> length xs. \<not> starts_with p (drop j xs))"
    by (metis (no_types, lifting) Suc_le_mono drop0 drop_Suc_Cons le0 length_Cons not0_implies_Suc)
  then show ?case using Cons by simp
qed

text \<open>\<open>strcspn\<close>: the length of the prefix without any of the given characters.\<close>

definition strcspn :: "string \<Rightarrow> string \<Rightarrow> nat" where
  "strcspn s reject = length (takeWhile (\<lambda>c. c \<notin> set reject) s)"

section \<open>Formatting\<close>

text \<open>\<open>snprintf(buf, n, "%s", s)\<close>: the text that fits with its terminator.\<close>

definition fit :: "nat \<Rightarrow> string \<Rightarrow> string" where
  "fit n s = take (n - 1) s"

lemma length_fit [c_bounds]: "0 < n \<Longrightarrow> length (fit n s) < n"
  by (simp add: fit_def)

lemma cstr_fit: "cstr s \<Longrightarrow> cstr (fit n s)"
  by (auto simp: cstr_def fit_def dest: in_set_takeD)

lemma fit_id: "length s < n \<Longrightarrow> fit n s = s"
  by (simp add: fit_def)

text \<open>\<open>%u\<close>, \<open>%d\<close> and \<open>%x\<close>.\<close>

definition digit :: "nat \<Rightarrow> char" where
  "digit d = (if d < 10 then chr (48 + d) else chr (87 + d))"

fun dec :: "nat \<Rightarrow> string" where
  "dec n = (if n < 10 then [digit n] else dec (n div 10) @ [digit (n mod 10)])"

declare dec.simps [simp del]

definition dec_int :: "int \<Rightarrow> string" where
  "dec_int i = (if i < 0 then CHR ''-'' # dec (nat (- i)) else dec (nat i))"

fun hex :: "nat \<Rightarrow> string" where
  "hex n = (if n < 16 then [digit n] else hex (n div 16) @ [digit (n mod 16)])"

declare hex.simps [simp del]

text \<open>\<open>%0<w>x\<close> and \<open>%0<w>d\<close>.\<close>

definition pad0 :: "nat \<Rightarrow> string \<Rightarrow> string" where
  "pad0 w s = replicate (w - length s) (CHR ''0'') @ s"

lemma length_pad0: "length (pad0 w s) = max w (length s)"
  by (simp add: pad0_def)

lemma is_digit_digit: "d < 10 \<Longrightarrow> is_digit (digit d)"
  by (simp add: digit_def is_digit_def between_def ord_chr)

lemma dec_digits: "c \<in> set (dec n) \<Longrightarrow> is_digit c"
proof (induction n rule: dec.induct)
  case (1 n)
  show ?case
  proof (cases "n < 10")
    case True
    with "1.prems" show ?thesis by (simp add: dec.simps [of n] is_digit_digit)
  next
    case False
    with "1.prems" have "c \<in> set (dec (n div 10)) \<or> c = digit (n mod 10)"
      by (auto simp: dec.simps [of n])
    then show ?thesis using "1.IH" [OF False] is_digit_digit [of "n mod 10"] by auto
  qed
qed

lemma dec_nonempty: "dec n \<noteq> []"
  by (subst dec.simps) simp

section \<open>Parsing numbers\<close>

text \<open>
  The digits of a base at the head of a string, folded into a value: the loop inside
  \<open>strtoull\<close>, \<open>atoi\<close> and the sources' own digit loops.
\<close>

definition digits_val :: "nat \<Rightarrow> string \<Rightarrow> nat" where
  "digits_val base ds = foldl (\<lambda>v c. v * base + xdigit_val c) 0 ds"

lemma foldl_digits_val:
  "foldl (\<lambda>v c. v * base + xdigit_val c) v ds = v * base ^ length ds + digits_val base ds"
proof (induction ds arbitrary: v rule: rev_induct)
  case Nil
  then show ?case by (simp add: digits_val_def)
next
  case (snoc d ds)
  have "digits_val base (ds @ [d]) = digits_val base ds * base + xdigit_val d"
    by (simp add: digits_val_def)
  with snoc show ?case by (simp add: algebra_simps)
qed

lemma digits_val_snoc: "digits_val base (ds @ [d]) = digits_val base ds * base + xdigit_val d"
  by (simp add: digits_val_def)

lemma xdigit_val_digit: "d < 16 \<Longrightarrow> xdigit_val (digit d) = d"
  by (auto simp: xdigit_val_def digit_def is_digit_def between_def ord_chr)

lemma digits_val_dec: "digits_val 10 (dec n) = n"
proof (induction n rule: dec.induct)
  case (1 n)
  show ?case
  proof (cases "n < 10")
    case True
    then show ?thesis by (simp add: dec.simps [of n] digits_val_def xdigit_val_digit)
  next
    case False
    with "1.IH" show ?thesis
      by (simp add: dec.simps [of n] digits_val_snoc xdigit_val_digit)
  qed
qed

text \<open>
  \<open>strtol(s, NULL, 10)\<close> before any range limit: blanks, an optional sign, digits; the value is 0
  when there is none. The second component is the rest of the string (\<open>*end\<close>), the whole of it
  when there was no digit.
\<close>

definition strtol10 :: "string \<Rightarrow> int \<times> string" where
  "strtol10 s =
     (let t = dropWhile is_space s;
          neg = (t \<noteq> [] \<and> hd t = CHR ''-'');
          u = (if t \<noteq> [] \<and> (hd t = CHR ''-'' \<or> hd t = CHR ''+'') then tl t else t);
          ds = takeWhile is_digit u
      in if ds = [] then (0, s)
         else ((if neg then - int (digits_val 10 ds) else int (digits_val 10 ds)),
               dropWhile is_digit u))"

definition clamp_int :: "int \<Rightarrow> int \<Rightarrow> int \<Rightarrow> int" where
  "clamp_int lo hi v = max lo (min hi v)"

text \<open>\<open>atoi\<close> of the console's newlib: \<open>strtol\<close> (64-bit \<open>long\<close>, saturating) converted to \<open>int\<close>.\<close>

definition wrap32 :: "int \<Rightarrow> int" where
  "wrap32 v = sint (word_of_int v :: 32 word)"

definition atoi :: "string \<Rightarrow> int" where
  "atoi s = wrap32 (clamp_int (- (2 ^ 63)) (2 ^ 63 - 1) (fst (strtol10 s)))"

definition atoll :: "string \<Rightarrow> int" where
  "atoll s = clamp_int (- (2 ^ 63)) (2 ^ 63 - 1) (fst (strtol10 s))"

text \<open>\<open>strtoull(s, NULL, 10)\<close>: a value too large saturates, a sign negates modulo \<open>2 ^ 64\<close>.\<close>

definition strtoull10 :: "string \<Rightarrow> nat" where
  "strtoull10 s =
     (let v = fst (strtol10 s)
      in if \<bar>v\<bar> > 2 ^ 64 - 1 then 2 ^ 64 - 1 else nat (v mod 2 ^ 64))"

lemma strtoull10_bound: "strtoull10 s < 2 ^ 64"
proof -
  have "nat (v mod 2 ^ 64) < 2 ^ 64" for v :: int
    by (simp add: nat_less_iff)
  then show ?thesis by (auto simp: strtoull10_def Let_def)
qed

section \<open>Lists\<close>

lemma takeWhile_all [simp]: "(\<And>x. x \<in> set xs \<Longrightarrow> P x) \<Longrightarrow> takeWhile P xs = xs"
  by (simp add: takeWhile_eq_all_conv)

lemma concat_map_append: "concat (map f (xs @ ys)) = concat (map f xs) @ concat (map f ys)"
  by simp

lemma length_concat_map_ge: "(\<And>x. 0 < length (f x)) \<Longrightarrow> length xs \<le> length (concat (map f xs))"
proof (induction xs)
  case Nil
  then show ?case by simp
next
  case (Cons x xs)
  have "0 < length (f x)" by (rule Cons.prems)
  moreover have "length xs \<le> length (concat (map f xs))" using Cons by blast
  ultimately show ?case unfolding list.map concat.simps length_append list.size by linarith
qed

end
