(* ===== verification/Interfaces.thy ===== *)
theory Interfaces
  imports Autopilot_Prelude
begin

text \<open>
  The contracts several components share, stated once as locales and interpreted on the
  definitions of the components that provide them.
  \<^item> \<open>chunked_consumer\<close>: a consumer of a byte stream whose result does not depend on how the stream
    is cut into reads (SHA-256, the base64 decoder, the MCP body scanner, Adler-32).
  \<^item> \<open>bounded_table\<close>: a table of fixed capacity filled by registration (routes, public prefixes,
    hooks, MCP tools, mDNS TXT pairs).
  \<^item> \<open>escaping_loop\<close>: a loop that appends the escaped form of each character to a fixed buffer and
    gives up before it would overflow (JSON, HTML and URL escaping).
\<close>

section \<open>Consumers of a stream read in chunks\<close>

locale chunked_consumer =
  fixes feed :: "'s \<Rightarrow> 'a list \<Rightarrow> 's"
  assumes feed_Nil: "feed s [] = s"
    and feed_append: "feed s (xs @ ys) = feed (feed s xs) ys"
begin

lemma feed_chunks: "foldl feed s chunks = feed s (concat chunks)"
  by (induction chunks arbitrary: s) (simp_all add: feed_Nil feed_append)

lemma chunking_irrelevant:
  "concat cs = concat ds \<Longrightarrow> foldl feed s cs = foldl feed s ds"
  by (simp add: feed_chunks)

lemma feed_Cons: "feed s (x # xs) = feed (feed s [x]) xs"
  using feed_append [of s "[x]" xs] by simp

end

section \<open>Tables of fixed capacity\<close>

locale bounded_table =
  fixes entries :: "'t \<Rightarrow> 'a list"
    and add :: "'a \<Rightarrow> 't \<Rightarrow> bool \<times> 't"
    and cap :: nat
  assumes add_room: "length (entries t) < cap \<Longrightarrow>
      fst (add x t) \<and> entries (snd (add x t)) = entries t @ [x]"
    and add_full: "cap \<le> length (entries t) \<Longrightarrow> \<not> fst (add x t) \<and> snd (add x t) = t"
begin

definition add_all :: "'a list \<Rightarrow> 't \<Rightarrow> 't" where
  "add_all xs t = fold (\<lambda>x t. snd (add x t)) xs t"

lemma entries_add: "length (entries t) \<le> cap \<Longrightarrow>
    entries (snd (add x t)) = take cap (entries t @ [x])"
  using add_room [of t x] add_full [of t x] by (cases "length (entries t) < cap") auto

lemma add_bounded: "length (entries t) \<le> cap \<Longrightarrow> length (entries (snd (add x t))) \<le> cap"
  by (simp add: entries_add)

lemma add_reports: "fst (add x t) \<longleftrightarrow> length (entries t) < cap"
  using add_room [of t x] add_full [of t x] by fastforce

lemma entries_add_all:
  "length (entries t) \<le> cap \<Longrightarrow> entries (add_all xs t) = take cap (entries t @ xs)"
proof (induction xs arbitrary: t)
  case Nil
  then show ?case by (simp add: add_all_def)
next
  case (Cons x xs)
  have "entries (add_all (x # xs) t) = entries (add_all xs (snd (add x t)))"
    by (simp add: add_all_def)
  also have "\<dots> = take cap (take cap (entries t @ [x]) @ xs)"
    using Cons.IH [of "snd (add x t)"] Cons.prems by (simp add: entries_add add_bounded)
  also have "\<dots> = take cap (entries t @ x # xs)"
    by (cases "length (entries t) < cap") (auto simp: Suc_le_eq min_def)
  finally show ?case .
qed

lemma add_all_no_overflow:
  "length (entries t) + length xs \<le> cap \<Longrightarrow> entries (add_all xs t) = entries t @ xs"
  by (simp add: entries_add_all)

end

section \<open>Escaping into a fixed buffer\<close>

locale escaping_loop =
  fixes esc :: "char \<Rightarrow> string"
    and run :: "nat \<Rightarrow> string \<Rightarrow> string \<Rightarrow> string option"
    and room :: "nat \<Rightarrow> string \<Rightarrow> char \<Rightarrow> bool"
  assumes run_Nil: "run cap buf [] = Some buf"
    and run_Cons: "run cap buf (c # cs) =
      (if room cap buf c then run cap (buf @ esc c) cs else None)"
    and room_fits: "room cap buf c \<Longrightarrow> length buf + length (esc c) + 1 \<le> cap"
begin

lemma run_result:
  "run cap buf src = Some out \<Longrightarrow> out = buf @ concat (map esc src)"
proof (induction src arbitrary: buf)
  case Nil
  then show ?case by (simp add: run_Nil)
next
  case (Cons c cs)
  then have "run cap (buf @ esc c) cs = Some out" by (simp add: run_Cons split: if_splits)
  then have "out = (buf @ esc c) @ concat (map esc cs)" by (rule Cons.IH)
  then show ?case by simp
qed

lemma run_bounded:
  "run cap buf src = Some out \<Longrightarrow> length buf < cap \<Longrightarrow> length out < cap"
proof (induction src arbitrary: buf)
  case Nil
  then show ?case by (simp add: run_Nil)
next
  case (Cons c cs)
  then have r: "room cap buf c" and rec: "run cap (buf @ esc c) cs = Some out"
    by (auto simp: run_Cons split: if_splits)
  from room_fits [OF r] have "length (buf @ esc c) < cap" by simp
  then show ?case by (rule Cons.IH [OF rec])
qed

lemma run_append:
  "run cap buf (a @ b) = Option.bind (run cap buf a) (\<lambda>buf'. run cap buf' b)"
  by (induction a arbitrary: buf) (auto simp: run_Nil run_Cons)

lemma run_chars:
  assumes "run cap buf src = Some out" and "\<And>c. P c \<Longrightarrow> (\<forall>d \<in> set (esc c). Q d)"
    and "\<forall>c \<in> set src. P c" and "\<forall>d \<in> set buf. Q d"
  shows "\<forall>d \<in> set out. Q d"
  using run_result [OF assms(1)] assms(2-4) by auto

end

end
