(* ===== verification/Base64.thy ===== *)
theory Base64
  imports Interfaces
begin

text \<open>
  \<open>source/util/base64.c\<close> and \<open>base64.h\<close>: the encoder, its URL variant, and the incremental decoder
  with its state record. The decoder's accumulator is the 32-bit word of the source, so the bits
  shifted out of it are lost as they are there.
\<close>

section \<open>Encoding\<close>

definition kEnc :: string where
  "kEnc = ''ABCDEFGHIJKLMNOPQRSTUVWXYZabcdefghijklmnopqrstuvwxyz0123456789+/''"

definition b64_sym :: "u32 \<Rightarrow> char" where
  "b64_sym v = kEnc ! unat (v AND 0x3F)"

fun b64_encode :: "u8 list \<Rightarrow> string" where
  "b64_encode (a # b # c # rest) =
     (let v = push_bit 16 (ucast a :: u32) OR push_bit 8 (ucast b) OR ucast c
      in [b64_sym (drop_bit 18 v), b64_sym (drop_bit 12 v), b64_sym (drop_bit 6 v), b64_sym v]
         @ b64_encode rest)"
| "b64_encode [] = []"
| "b64_encode [a] =
     (let v = push_bit 16 (ucast a :: u32)
      in [b64_sym (drop_bit 18 v), b64_sym (drop_bit 12 v), CHR ''='', CHR ''=''])"
| "b64_encode [a, b] =
     (let v = push_bit 16 (ucast a :: u32) OR push_bit 8 (ucast b)
      in [b64_sym (drop_bit 18 v), b64_sym (drop_bit 12 v), b64_sym (drop_bit 6 v), CHR ''=''])"

definition b64_encoded_len :: "nat \<Rightarrow> nat" where
  "b64_encoded_len n = ((n + 2) div 3) * 4"

text \<open>\<open>b64url_encode\<close>: the loop stops at the first padding character.\<close>

fun b64url_loop :: "string \<Rightarrow> string" where
  "b64url_loop [] = []"
| "b64url_loop (c # cs) =
     (if c = CHR ''+'' then CHR ''-'' # b64url_loop cs
      else if c = CHR ''/'' then CHR ''_'' # b64url_loop cs
      else if c = CHR ''='' then []
      else c # b64url_loop cs)"

definition b64url_encode :: "u8 list \<Rightarrow> string" where
  "b64url_encode xs = b64url_loop (b64_encode xs)"

section \<open>Decoding\<close>

definition b64_val :: "char \<Rightarrow> int" where
  "b64_val c =
     (if between (CHR ''A'') c (CHR ''Z'') then int (ord c) - 65
      else if between (CHR ''a'') c (CHR ''z'') then int (ord c) - 97 + 26
      else if between (CHR ''0'') c (CHR ''9'') then int (ord c) - 48 + 52
      else if c = CHR ''+'' then 62
      else if c = CHR ''/'' then 63
      else -1)"

record B64Decoder =
  acc :: u32
  bits :: nat
  quad :: nat
  pad :: nat
  err :: bool

definition b64dec_init :: B64Decoder where
  "b64dec_init = \<lparr>acc = 0, bits = 0, quad = 0, pad = 0, err = False\<rparr>"

fun b64dec_loop :: "B64Decoder \<Rightarrow> string \<Rightarrow> u8 list \<Rightarrow> B64Decoder \<times> u8 list option" where
  "b64dec_loop d [] out = (d, Some out)"
| "b64dec_loop d (c # cs) out =
     (if c = LF \<or> c = CR then b64dec_loop d cs out
      else if c = CHR ''='' then
        (if quad d < 2 \<or> quad d + pad d \<ge> 4 then (d\<lparr>err := True\<rparr>, None)
         else b64dec_loop (d\<lparr>pad := pad d + 1\<rparr>) cs out)
      else if b64_val c < 0 \<or> pad d \<noteq> 0 then (d\<lparr>err := True\<rparr>, None)
      else
        (let d1 = d\<lparr>quad := (quad d + 1) mod 4,
                    acc := push_bit 6 (acc d) OR word_of_int (b64_val c),
                    bits := bits d + 6\<rparr>
         in if bits d1 \<ge> 8
            then b64dec_loop (d1\<lparr>bits := bits d1 - 8\<rparr>) cs
                   (out @ [ucast (drop_bit (bits d1 - 8) (acc d1) AND 0xFF)])
            else b64dec_loop d1 cs out))"

definition b64dec_update :: "B64Decoder \<Rightarrow> string \<Rightarrow> B64Decoder \<times> u8 list option" where
  "b64dec_update d inp = (if err d then (d, None) else b64dec_loop d inp [])"

definition b64dec_finish :: "B64Decoder \<Rightarrow> bool" where
  "b64dec_finish d =
     (if err d then False
      else if quad d = 1 \<or> (pad d \<noteq> 0 \<and> quad d + pad d \<noteq> 4) then False
      else if bits d \<noteq> 0 \<and> acc d AND (push_bit (bits d) 1 - 1) \<noteq> 0 then False
      else True)"

text \<open>
  \<open>b64_decode\<close> returns the number of bytes written, 0 on failure; here the bytes themselves, none on
  failure.
\<close>

definition b64_decode :: "string \<Rightarrow> nat \<Rightarrow> u8 list" where
  "b64_decode inp outsz =
     (if (length inp div 4 + 1) * 3 + 1 > outsz then []
      else case b64dec_update b64dec_init inp of
        (d, None) \<Rightarrow> []
      | (d, Some out) \<Rightarrow> if b64dec_finish d then out else [])"

section \<open>Lengths and the alphabet\<close>

lemma length_b64_encode: "length (b64_encode xs) = b64_encoded_len (length xs)"
proof (induction xs rule: b64_encode.induct)
  case (1 a b c rest)
  have "(length (a # b # c # rest) + 2) div 3 = (length rest + 2) div 3 + 1" by simp
  then show ?case using 1 by (simp add: b64_encoded_len_def Let_def del: length_Cons)
qed (simp_all add: b64_encoded_len_def Let_def)

lemma length_kEnc [simp]: "length kEnc = 64"
  by (simp add: kEnc_def)

lemma and_3F_bound: "unat ((v::u32) AND 0x3F) < 64"
proof -
  have "v AND 0x3F \<le> 0x3F" by (rule word_and_le1)
  then have "unat (v AND 0x3F) \<le> unat (0x3F::u32)" by (simp only: word_le_nat_alt)
  then show ?thesis by simp
qed

lemma kEnc_val_all: "list_all (\<lambda>i. b64_val (kEnc ! i) = int i) [0..<64]"
  by (simp add: kEnc_def b64_val_def between_def upt_rec)

lemma kEnc_val: "i < 64 \<Longrightarrow> b64_val (kEnc ! i) = int i"
  using kEnc_val_all by (simp add: list_all_iff)

lemma b64_val_sym: "b64_val (b64_sym v) = uint (v AND 0x3F)"
  using kEnc_val [OF and_3F_bound, of v] by (simp add: b64_sym_def)

lemma b64_val_special: "b64_val (CHR ''='') = -1" "b64_val LF = -1" "b64_val CR = -1"
  by (simp_all add: b64_val_def between_def)

lemma b64_sym_plain: "b64_sym v \<noteq> CHR ''=''" "b64_sym v \<noteq> LF" "b64_sym v \<noteq> CR"
  using b64_val_sym [of v] b64_val_special by (metis uint_ge_0 not_numeral_le_zero
    add.inverse_inverse neg_0_le_iff_le not_one_le_zero)+


section \<open>The decoder as a consumer of chunks\<close>

lemma b64dec_loop_out:
  "b64dec_loop d cs out =
     (fst (b64dec_loop d cs []), map_option (\<lambda>o2. out @ o2) (snd (b64dec_loop d cs [])))"
proof (induction cs arbitrary: d out)
  case Nil
  then show ?case by simp
next
  case (Cons c cs)
  have IH: "o1 \<noteq> [] \<Longrightarrow> b64dec_loop e cs o1 =
      (fst (b64dec_loop e cs []), map_option (\<lambda>o2. o1 @ o2) (snd (b64dec_loop e cs [])))" for e o1
    by (rule Cons.IH)
  show ?case
  proof (cases "out = []")
    case True
    then show ?thesis by (simp add: option.map_ident)
  next
    case False
    then show ?thesis
      by (simp add: IH Let_def option.map_comp comp_def)
  qed
qed

lemma b64dec_loop_append:
  "b64dec_loop d (xs @ ys) out =
     (case b64dec_loop d xs out of (d', None) \<Rightarrow> (d', None) | (d', Some out') \<Rightarrow> b64dec_loop d' ys out')"
  by (induction xs arbitrary: d out) (simp_all add: Let_def)

lemma b64dec_loop_err:
  "\<not> err d \<Longrightarrow> err (fst (b64dec_loop d cs out)) \<longleftrightarrow> snd (b64dec_loop d cs out) = None"
  by (induction cs arbitrary: d out) (simp_all add: Let_def)

definition b64_feed :: "B64Decoder \<times> u8 list \<Rightarrow> string \<Rightarrow> B64Decoder \<times> u8 list" where
  "b64_feed s cs =
     (case b64dec_update (fst s) cs of
        (d', None) \<Rightarrow> (d', if err (fst s) then snd s else [])
      | (d', Some out) \<Rightarrow> (d', snd s @ out))"

interpretation b64dec: chunked_consumer b64_feed
proof unfold_locales
  fix s :: "B64Decoder \<times> u8 list" and xs ys :: string
  show "b64_feed s [] = s"
    by (cases s) (simp add: b64_feed_def b64dec_update_def)
  show "b64_feed s (xs @ ys) = b64_feed (b64_feed s xs) ys"
  proof (cases "err (fst s)")
    case True
    then show ?thesis by (cases s) (simp add: b64_feed_def b64dec_update_def)
  next
    case False
    obtain d' r where l: "b64dec_loop (fst s) xs [] = (d', r)" by (cases "b64dec_loop (fst s) xs []")
    with b64dec_loop_err [OF False, of xs "[]"] have e: "err d' \<longleftrightarrow> r = None" by simp
    show ?thesis
    proof (cases r)
      case None
      with e l False show ?thesis by (simp add: b64_feed_def b64dec_update_def b64dec_loop_append)
    next
      case (Some out)
      with e have "\<not> err d'" by simp
      with Some l False b64dec_loop_out [of d' ys out] show ?thesis
        by (simp add: b64_feed_def b64dec_update_def b64dec_loop_append split: prod.splits option.splits)
    qed
  qed
qed

section \<open>Round trip\<close>

definition at_group :: "B64Decoder \<Rightarrow> bool" where
  "at_group d \<longleftrightarrow> bits d = 0 \<and> quad d = 0 \<and> pad d = 0 \<and> \<not> err d"

lemma b64_value_word: "word_of_int (b64_val (b64_sym v)) = v AND 0x3F"
  by (simp add: b64_val_sym)

lemma b64_val_sym_nonneg: "\<not> b64_val (b64_sym v) < 0"
  by (simp add: b64_val_sym)

lemmas b64_step = b64_value_word b64_val_sym_nonneg b64_sym_plain

lemma mask6: "(0x3F :: u32) = mask 6" "(0xFF :: u32) = mask 8"
  by (simp_all add: mask_eq_exp_minus_1)

lemma all_less_8: "(\<forall>n < 8. P n) \<longleftrightarrow> P 0 \<and> P 1 \<and> P 2 \<and> P 3 \<and> P 4 \<and> P 5 \<and> P 6 \<and> P (7::nat)"
  unfolding eval_nat_numeral One_nat_def BitM.simps by (simp only: All_less_Suc not_less0) blast

lemma u8_eqI: "(\<forall>n < 8. bit (x::u8) n = bit y n) \<Longrightarrow> x = y"
  by (rule bit_word_eqI) simp

lemma u8_high_bits: "8 \<le> n \<Longrightarrow> \<not> bit (x::u8) n"
  using bit_imp_le_length [of x n] by auto

text \<open>The decoder at a point inside a group, what a symbol shifts in and what it lets out.\<close>

definition dstate :: "u32 \<Rightarrow> nat \<Rightarrow> nat \<Rightarrow> B64Decoder" where
  "dstate A b q = \<lparr>acc = A, bits = b, quad = q, pad = 0, err = False\<rparr>"

definition shift_in :: "u32 \<Rightarrow> u32 \<Rightarrow> u32" where
  "shift_in A v = push_bit 6 A OR (v AND 0x3F)"

definition let_out :: "nat \<Rightarrow> u32 \<Rightarrow> u8" where
  "let_out k A = ucast (drop_bit k A AND 0xFF)"

lemma sym_steps:
  "b64dec_loop (dstate A 0 0) (b64_sym v # cs) out = b64dec_loop (dstate (shift_in A v) 6 1) cs out"
  "b64dec_loop (dstate A 6 1) (b64_sym v # cs) out =
     b64dec_loop (dstate (shift_in A v) 4 2) cs (out @ [let_out 4 (shift_in A v)])"
  "b64dec_loop (dstate A 4 2) (b64_sym v # cs) out =
     b64dec_loop (dstate (shift_in A v) 2 3) cs (out @ [let_out 2 (shift_in A v)])"
  "b64dec_loop (dstate A 2 3) (b64_sym v # cs) out =
     b64dec_loop (dstate (shift_in A v) 0 0) cs (out @ [let_out 0 (shift_in A v)])"
  by (simp_all add: dstate_def shift_in_def let_out_def b64_step numeral_2_eq_2 [symmetric])

definition group :: "u8 \<Rightarrow> u8 \<Rightarrow> u8 \<Rightarrow> u32" where
  "group a b c = push_bit 16 (ucast a) OR push_bit 8 (ucast b) OR ucast c"

lemma group_bytes:
  "let_out 4 (shift_in (shift_in A (drop_bit 18 (group a b c))) (drop_bit 12 (group a b c))) = a"
  "let_out 2 (shift_in (shift_in B (drop_bit 12 (group a b c))) (drop_bit 6 (group a b c))) = b"
  "let_out 0 (shift_in (shift_in C (drop_bit 6 (group a b c))) (group a b c)) = c"
  unfolding let_out_def shift_in_def group_def mask6
  by (rule u8_eqI; simp add: all_less_8 bit_simps u8_high_bits; simp add: eval_nat_numeral)+

lemma encode_groups:
  "b64_encode (a # b # c # rest) =
     b64_sym (drop_bit 18 (group a b c)) # b64_sym (drop_bit 12 (group a b c)) #
     b64_sym (drop_bit 6 (group a b c)) # b64_sym (group a b c) # b64_encode rest"
  "b64_encode [a] =
     b64_sym (drop_bit 18 (group a 0 0)) # b64_sym (drop_bit 12 (group a 0 0)) # ''==''"
  "b64_encode [a, b] =
     b64_sym (drop_bit 18 (group a b 0)) # b64_sym (drop_bit 12 (group a b 0)) #
     b64_sym (drop_bit 6 (group a b 0)) # ''=''"
  by (simp_all only: b64_encode.simps group_def Let_def append.simps unsigned_0 push_bit_of_0
      or.right_neutral)

lemma masks: "(push_bit 4 1 - 1 :: u32) = mask 4" "(push_bit 2 1 - 1 :: u32) = mask 2"
  by (simp_all add: mask_eq_exp_minus_1)

lemma tail_bits:
  "shift_in (shift_in A (drop_bit 18 (group a 0 0))) (drop_bit 12 (group a 0 0)) AND (push_bit 4 1 - 1) = 0"
  "shift_in B (drop_bit 6 (group a b 0)) AND (push_bit 2 1 - 1) = 0"
  unfolding shift_in_def group_def mask6 masks
  by (rule bit_word_eqI; auto simp: bit_simps)+

lemma decode_encode_loop:
  "\<exists>d. b64dec_finish d \<and> b64dec_loop (dstate A 0 0) (b64_encode xs) out = (d, Some (out @ xs))"
proof (induction xs arbitrary: A out rule: b64_encode.induct)
  case (1 a b c rest)
  let ?o = "out @ [a, b, c]"
  have "\<exists>B. b64dec_loop (dstate A 0 0) (b64_encode (a # b # c # rest)) out =
      b64dec_loop (dstate B 0 0) (b64_encode rest) ?o"
    unfolding encode_groups sym_steps group_bytes by auto
  with 1 [where out = ?o] show ?case by force
next
  case 2
  show ?case by (simp add: dstate_def b64dec_finish_def)
next
  case (3 a)
  show ?case
    unfolding encode_groups sym_steps group_bytes
    by (simp add: dstate_def b64dec_finish_def tail_bits del: push_bit_of_1 push_bit_of_Suc_0)
next
  case (4 a b)
  show ?case
    unfolding encode_groups sym_steps group_bytes
    by (simp add: dstate_def b64dec_finish_def tail_bits del: push_bit_of_1 push_bit_of_Suc_0)
qed

text \<open>The round trip, for every input and every buffer the decoder accepts.\<close>

lemma b64_decode_encode:
  "b64_decode (b64_encode xs) outsz =
     (if (b64_encoded_len (length xs) div 4 + 1) * 3 + 1 > outsz then [] else xs)"
proof -
  obtain d where "b64dec_finish d" "b64dec_loop b64dec_init (b64_encode xs) [] = (d, Some xs)"
    using decode_encode_loop [of 0 xs "[]"] by (auto simp: dstate_def b64dec_init_def)
  then show ?thesis
    by (simp add: b64_decode_def b64dec_update_def b64dec_init_def length_b64_encode)
qed

lemma decode_encode_chunks:
  assumes "concat chunks = b64_encode xs"
  shows "snd (foldl b64_feed (b64dec_init, []) chunks) = xs"
    and "b64dec_finish (fst (foldl b64_feed (b64dec_init, []) chunks))"
proof -
  obtain d where d: "b64dec_finish d" "b64dec_loop b64dec_init (b64_encode xs) [] = (d, Some xs)"
    using decode_encode_loop [of 0 xs "[]"] by (auto simp: dstate_def b64dec_init_def)
  have "foldl b64_feed (b64dec_init, []) chunks = (d, xs)"
    using d by (simp add: b64dec.feed_chunks assms b64_feed_def b64dec_update_def)
      (simp add: b64dec_init_def)
  with d show "snd (foldl b64_feed (b64dec_init, []) chunks) = xs"
    and "b64dec_finish (fst (foldl b64_feed (b64dec_init, []) chunks))" by simp_all
qed

text \<open>Encoding in chunks of a multiple of three bytes is encoding the whole.\<close>

lemma b64_encode_append:
  "3 dvd length xs \<Longrightarrow> b64_encode (xs @ ys) = b64_encode xs @ b64_encode ys"
proof (induction xs rule: b64_encode.induct)
  case (1 a b c rest)
  then have "3 dvd length rest" by simp presburger
  with 1 show ?case by (simp add: Let_def)
next
  case (4 a b)
  then have False by simp presburger
  then show ?case ..
qed simp_all

section \<open>Output bounds\<close>

lemma b64dec_loop_Cons:
  "(\<exists>d'. b64dec_loop d (c # cs) out = (d', None)) \<or>
   (\<exists>d' bs. b64dec_loop d (c # cs) out = b64dec_loop d' cs (out @ bs) \<and>
      8 * length bs + bits d' \<le> bits d + 6)"
proof -
  consider "c = LF \<or> c = CR" | "c = CHR ''=''"
    | "\<not> (c = LF \<or> c = CR)" "c \<noteq> CHR ''=''" "b64_val c < 0 \<or> pad d \<noteq> 0"
    | "\<not> (c = LF \<or> c = CR)" "c \<noteq> CHR ''=''" "\<not> (b64_val c < 0 \<or> pad d \<noteq> 0)" by blast
  then show ?thesis
  proof cases
    case 1
    then have "b64dec_loop d (c # cs) out = b64dec_loop d cs (out @ [])" by auto
    then show ?thesis by (metis (no_types) le_add1 list.size(3) mult_0_right plus_nat.add_0)
  next
    case 2
    then show ?thesis by (auto intro!: exI [of _ "[]"] exI [of _ "d\<lparr>pad := pad d + 1\<rparr>"])
  next
    case 3
    then show ?thesis by (simp del: de_Morgan_disj)
  next
    case 4
    let ?d = "d\<lparr>quad := (quad d + 1) mod 4, acc := push_bit 6 (acc d) OR word_of_int (b64_val c), bits := bits d + 6\<rparr>"
    show ?thesis
    proof (cases "8 \<le> bits ?d")
      case True
      then have "b64dec_loop d (c # cs) out = b64dec_loop (?d\<lparr>bits := bits ?d - 8\<rparr>) cs
          (out @ [ucast (drop_bit (bits ?d - 8) (acc ?d) AND 0xFF)])"
        using 4 unfolding b64dec_loop.simps Let_def by simp
      with True show ?thesis by (intro disjI2 exI conjI) (assumption, simp)
    next
      case False
      then have "b64dec_loop d (c # cs) out = b64dec_loop ?d cs (out @ [])"
        using 4 unfolding b64dec_loop.simps Let_def by simp
      with False show ?thesis by (intro disjI2 exI conjI) (assumption, simp)
    qed
  qed
qed

lemma b64dec_loop_len:
  "b64dec_loop d cs out = (d', Some out') \<Longrightarrow>
     8 * length out' + bits d' \<le> 8 * length out + bits d + 6 * length cs"
proof (induction cs arbitrary: d out)
  case Nil
  then show ?case by simp
next
  case (Cons c cs)
  from b64dec_loop_Cons [of d c cs out] Cons.prems obtain e bs
    where e: "b64dec_loop e cs (out @ bs) = (d', Some out')" "8 * length bs + bits e \<le> bits d + 6"
    by auto
  from Cons.IH [OF e(1)] e(2) show ?case by simp
qed

text \<open>What \<open>b64_decode\<close> checks before it starts is enough for the bytes and the terminator.\<close>

lemma b64_decode_fits:
  "length (b64_decode inp outsz) + 1 \<le> max 1 outsz"
proof (cases "b64_decode inp outsz = []")
  case False
  then obtain d out where o: "b64dec_loop b64dec_init inp [] = (d, Some out)"
    and sz: "(length inp div 4 + 1) * 3 + 1 \<le> outsz" and eq: "b64_decode inp outsz = out"
    by (auto simp: b64_decode_def b64dec_update_def b64dec_init_def split: if_splits prod.splits option.splits)
  from b64dec_loop_len [OF o] have "8 * length out \<le> 6 * length inp"
    by (simp add: b64dec_init_def)
  then have "length out \<le> (length inp div 4 + 1) * 3" by presburger
  with sz eq show ?thesis by simp
qed simp

section \<open>Properties\<close>

text \<open>Decoding the encoding of any bytes gives the bytes back, whenever the buffer is as large
  as \<open>b64_decode\<close> asks for; otherwise it refuses.\<close>

theorem b64_roundtrip:
  "b64_decode (b64_encode xs) outsz =
     (if (b64_encoded_len (length xs) div 4 + 1) * 3 + 1 > outsz then [] else xs)"
  by (rule b64_decode_encode)

text \<open>C18: the incremental decoder gives the encoded bytes back however the text is cut into reads,
  and reports a clean end.\<close>

theorem b64_chunks_roundtrip:
  "concat chunks = b64_encode xs \<Longrightarrow>
     snd (foldl b64_feed (b64dec_init, []) chunks) = xs \<and>
     b64dec_finish (fst (foldl b64_feed (b64dec_init, []) chunks))"
  using decode_encode_chunks by blast

theorem b64_chunks_roundtrip_witness:
  "snd (foldl b64_feed (b64dec_init, []) [''AA'', ''=='']) = [0] \<and>
   b64dec_finish (fst (foldl b64_feed (b64dec_init, []) [''AA'', ''=='']))"
  by (rule b64_chunks_roundtrip) (simp add: Let_def b64_sym_def kEnc_def)

end
