(* ===== verification/Sha256.thy ===== *)
theory Sha256
  imports Interfaces
begin

text \<open>
  \<open>source/util/sha256.c\<close> (the portable implementation; the console build delegates to libnx) and
  \<open>source/util/hex.c\<close>. The context is the source's record with its 64-byte block buffer, whose
  initial contents are arbitrary (\<open>ctx_init\<close> does not clear it). \<open>sha256_spec\<close> is the standard's
  description: the padded message cut into 64-byte blocks, each absorbed by \<open>transform\<close>.
\<close>

section \<open>The compression function\<close>

text \<open>The round constants, a row of the source's table to a line.\<close>

definition table_row :: "nat \<Rightarrow> int \<Rightarrow> u32 list" where
  "table_row k n = map (\<lambda>i. word_of_int (n div 2 ^ (32 * (k - 1 - i)))) [0..<k]"

definition K :: "u32 list" where
  "K = concat [
    table_row 6 0x428a2f9871374491b5c0fbcfe9b5dba53956c25b59f111f1,
    table_row 6 0x923f82a4ab1c5ed5d807aa9812835b01243185be550c7dc3,
    table_row 6 0x72be5d7480deb1fe9bdc06a7c19bf174e49b69c1efbe4786,
    table_row 6 0x0fc19dc6240ca1cc2de92c6f4a7484aa5cb0a9dc76f988da,
    table_row 6 0x983e5152a831c66db00327c8bf597fc7c6e00bf3d5a79147,
    table_row 6 0x06ca63511429296727b70a852e1b21384d2c6dfc53380d13,
    table_row 6 0x650a7354766a0abb81c2c92e92722c85a2bfe8a1a81a664b,
    table_row 6 0xc24b8b70c76c51a3d192e819d6990624f40e3585106aa070,
    table_row 6 0x19a4c1161e376c082748774c34b0bcb5391c0cb34ed8aa4a,
    table_row 6 0x5b9cca4f682e6ff3748f82ee78a5636f84c878148cc70208,
    table_row 4 0x90befffaa4506cebbef9a3f7c67178f2]"

definition ROTR :: "u32 \<Rightarrow> nat \<Rightarrow> u32" where
  "ROTR x n = drop_bit n x OR push_bit (32 - n) x"

fun load_words :: "nat \<Rightarrow> u8 list \<Rightarrow> u32 list" where
  "load_words 0 bs = []"
| "load_words (Suc k) bs =
     (push_bit 24 (ucast (bs ! 0)) OR push_bit 16 (ucast (bs ! 1)) OR
      push_bit 8 (ucast (bs ! 2)) OR ucast (bs ! 3)) # load_words k (drop 4 bs)"

fun extend_schedule :: "nat \<Rightarrow> u32 list \<Rightarrow> u32 list" where
  "extend_schedule 0 m = m"
| "extend_schedule (Suc k) m =
     (let i = length m;
          s0 = ROTR (m ! (i - 15)) 7 XOR ROTR (m ! (i - 15)) 18 XOR drop_bit 3 (m ! (i - 15));
          s1 = ROTR (m ! (i - 2)) 17 XOR ROTR (m ! (i - 2)) 19 XOR drop_bit 10 (m ! (i - 2))
      in extend_schedule k (m @ [m ! (i - 16) + s0 + m ! (i - 7) + s1]))"

type_synonym regs = "u32 \<times> u32 \<times> u32 \<times> u32 \<times> u32 \<times> u32 \<times> u32 \<times> u32"

definition sha_round :: "regs \<Rightarrow> u32 \<times> u32 \<Rightarrow> regs" where
  "sha_round r km =
     (let (a, b, c, d, e, f, g, h) = r;
          S1 = ROTR e 6 XOR ROTR e 11 XOR ROTR e 25;
          ch = (e AND f) XOR (NOT e AND g);
          t1 = h + S1 + ch + fst km + snd km;
          S0 = ROTR a 2 XOR ROTR a 13 XOR ROTR a 22;
          maj = (a AND b) XOR (a AND c) XOR (b AND c);
          t2 = S0 + maj
      in (t1 + t2, a, b, c, d + t1, e, f, g))"

definition transform :: "regs \<Rightarrow> u8 list \<Rightarrow> regs" where
  "transform st block =
     (let m = extend_schedule 48 (load_words 16 block);
          (a, b, c, d, e, f, g, h) = foldl sha_round st (zip K m);
          (a0, b0, c0, d0, e0, f0, g0, h0) = st
      in (a0 + a, b0 + b, c0 + c, d0 + d, e0 + e, f0 + f, g0 + g, h0 + h))"

section \<open>The streaming context\<close>

record Sha256Ctx =
  state :: regs
  bitlen :: u64
  data :: "u8 list"
  datalen :: nat

definition iv :: regs where
  "iv = (0x6a09e667, 0xbb67ae85, 0x3c6ef372, 0xa54ff53a,
         0x510e527f, 0x9b05688c, 0x1f83d9ab, 0x5be0cd19)"

definition ctx_init :: "u8 list \<Rightarrow> Sha256Ctx" where
  "ctx_init garbage = \<lparr>state = iv, bitlen = 0, data = garbage, datalen = 0\<rparr>"

fun ctx_update :: "Sha256Ctx \<Rightarrow> u8 list \<Rightarrow> Sha256Ctx" where
  "ctx_update ctx [] = ctx"
| "ctx_update ctx (p # ps) =
     (let ctx1 = ctx\<lparr>data := (data ctx)[datalen ctx := p], datalen := datalen ctx + 1\<rparr>
      in if datalen ctx1 = 64
         then ctx_update (ctx1\<lparr>state := transform (state ctx1) (data ctx1),
                               bitlen := bitlen ctx1 + 512, datalen := 0\<rparr>) ps
         else ctx_update ctx1 ps)"

text \<open>\<open>while (i < j) data[i++] = 0\<close>.\<close>

definition zero_fill :: "nat \<Rightarrow> nat \<Rightarrow> u8 list \<Rightarrow> u8 list" where
  "zero_fill i j d = fold (\<lambda>k d. d[k := 0]) [i..<j] d"

definition be64 :: "u64 \<Rightarrow> u8 list" where
  "be64 v = map (\<lambda>j. ucast (drop_bit (j * 8) v)) [7, 6, 5, 4, 3, 2, 1, 0]"

definition be32 :: "u32 \<Rightarrow> u8 list" where
  "be32 v = [ucast (drop_bit 24 v), ucast (drop_bit 16 v), ucast (drop_bit 8 v), ucast v]"

definition digest :: "regs \<Rightarrow> u8 list" where
  "digest r = (case r of (a, b, c, d, e, f, g, h) \<Rightarrow> concat (map be32 [a, b, c, d, e, f, g, h]))"

definition ctx_final :: "Sha256Ctx \<Rightarrow> u8 list" where
  "ctx_final ctx =
     (let bl = bitlen ctx + of_nat (datalen ctx * 8);
          i = datalen ctx;
          d = (data ctx)[i := 0x80];
          i = i + 1;
          (st, d, i) = (if i > 56 then (transform (state ctx) (zero_fill i 64 d), zero_fill i 64 d, 0)
                        else (state ctx, d, i));
          d = zero_fill i 56 d;
          d = take 56 d @ be64 bl
      in digest (transform st d))"

definition sha256_hash :: "u8 list \<Rightarrow> u8 list \<Rightarrow> u8 list" where
  "sha256_hash garbage msg = ctx_final (ctx_update (ctx_init garbage) msg)"

section \<open>The reference\<close>

function blocks :: "'a list \<Rightarrow> 'a list list" where
  "blocks xs = (if length xs < 64 then [] else take 64 xs # blocks (drop 64 xs))"
  by pat_completeness auto
termination by (relation "measure length") auto

declare blocks.simps [simp del]

definition pad_message :: "u8 list \<Rightarrow> u8 list" where
  "pad_message m = m @ [0x80] @ replicate ((119 - length m mod 64) mod 64) 0 @ be64 (of_nat (8 * length m))"

definition sha256_spec :: "u8 list \<Rightarrow> u8 list" where
  "sha256_spec m = digest (foldl transform iv (blocks (pad_message m)))"

section \<open>The implementation meets it\<close>

lemma ctx_update_append: "ctx_update ctx (xs @ ys) = ctx_update (ctx_update ctx xs) ys"
  by (induction xs arbitrary: ctx) (simp_all add: Let_def)

interpretation sha256_stream: chunked_consumer ctx_update
  by unfold_locales (simp_all add: ctx_update_append)

lemma blocks_Nil [simp]: "blocks [] = []"
  by (simp add: blocks.simps)

lemma blocks_cons: "length b = 64 \<Longrightarrow> blocks (b @ xs) = b # blocks xs"
  by (simp add: blocks.simps [of "b @ xs"])

lemma blocks_one: "length b = 64 \<Longrightarrow> blocks b = [b]"
  using blocks_cons [of b "[]"] by simp

lemma blocks_append: "64 dvd length xs \<Longrightarrow> blocks (xs @ ys) = blocks xs @ blocks ys"
proof (induction xs rule: blocks.induct)
  case (1 xs)
  show ?case
  proof (cases "length xs < 64")
    case True
    with 1 have "xs = []" by (auto dest: nat_dvd_not_less)
    then show ?thesis by simp
  next
    case False
    with 1 have "blocks (drop 64 xs @ ys) = blocks (drop 64 xs) @ blocks ys" by simp
    with False show ?thesis
      by (simp add: blocks.simps [of "xs @ ys"] blocks.simps [of xs])
  qed
qed

definition holds :: "Sha256Ctx \<Rightarrow> u8 list \<Rightarrow> bool" where
  "holds ctx m \<longleftrightarrow> length (data ctx) = 64 \<and> datalen ctx < 64 \<and>
     (\<exists>pre. m = pre @ take (datalen ctx) (data ctx) \<and> 64 dvd length pre \<and>
        state ctx = foldl transform iv (blocks pre) \<and> bitlen ctx = of_nat (8 * length pre))"

lemma holds_step:
  assumes "holds ctx m"
  shows "holds (ctx_update ctx [p]) (m @ [p])"
proof -
  obtain pre where pre: "m = pre @ take (datalen ctx) (data ctx)" "64 dvd length pre"
      "state ctx = foldl transform iv (blocks pre)" "bitlen ctx = of_nat (8 * length pre)"
    and len: "length (data ctx) = 64" "datalen ctx < 64"
    using assms by (auto simp: holds_def)
  let ?d = "(data ctx)[datalen ctx := p]"
  have t: "take (Suc (datalen ctx)) ?d = take (datalen ctx) (data ctx) @ [p]"
    using len by (simp add: take_Suc_conv_app_nth)
  show ?thesis
  proof (cases "datalen ctx = 63")
    case True
    then have "m @ [p] = (pre @ ?d) @ []" using pre t len by simp
    with True pre len show ?thesis
      by (auto simp: holds_def blocks_append blocks_one intro!: exI [of _ "pre @ ?d"])
  next
    case False
    with pre len t show ?thesis by (auto simp: holds_def)
  qed
qed

lemma holds_update: "holds ctx m \<Longrightarrow> holds (ctx_update ctx ps) (m @ ps)"
proof (induction ps arbitrary: ctx m)
  case Nil
  then show ?case by simp
next
  case (Cons p ps)
  from Cons.IH [OF holds_step [OF Cons.prems, of p]] show ?case
    using sha256_stream.feed_Cons [of ctx p ps] by simp
qed

lemma zero_fill_eq:
  "i \<le> j \<Longrightarrow> j \<le> length d \<Longrightarrow> zero_fill i j d = take i d @ replicate (j - i) 0 @ drop j d"
proof (induction j)
  case 0
  then show ?case by (simp add: zero_fill_def)
next
  case (Suc j)
  show ?case
  proof (cases "i \<le> j")
    case True
    with Suc have "zero_fill i (Suc j) d = (take i d @ replicate (j - i) 0 @ drop j d)[j := 0]"
      by (simp add: zero_fill_def)
    also have "\<dots> = take i d @ replicate (j - i) 0 @ (drop j d)[0 := 0]"
      using True Suc.prems by (simp add: list_update_append)
    also have "(drop j d)[0 := 0] = 0 # drop (Suc j) d"
      using Suc.prems by (simp add: Cons_nth_drop_Suc [symmetric])
    finally show ?thesis using True by (simp add: Suc_diff_le replicate_append_same [symmetric])
  next
    case False
    with Suc.prems have "i = Suc j" by simp
    then show ?thesis by (simp add: zero_fill_def)
  qed
qed

lemma length_be64 [simp]: "length (be64 v) = 8"
  by (simp add: be64_def)

lemma ctx_final_correct:
  assumes "holds ctx m"
  shows "ctx_final ctx = sha256_spec m"
proof -
  obtain pre where pre: "m = pre @ take (datalen ctx) (data ctx)" "64 dvd length pre"
      "state ctx = foldl transform iv (blocks pre)" "bitlen ctx = of_nat (8 * length pre)"
    and len: "length (data ctx) = 64" "datalen ctx < 64"
    using assms by (auto simp: holds_def)
  let ?n = "datalen ctx" and ?t = "take (datalen ctx) (data ctx)"
  have m: "length m = length pre + ?n" using pre len by simp
  then have mod: "length m mod 64 = ?n" using pre(2) len by auto
  have bl: "bitlen ctx + of_nat (?n * 8) = of_nat (8 * length m)"
    using pre m by (simp add: algebra_simps)
  have t: "take (Suc ?n) ((data ctx)[?n := 0x80]) = ?t @ [0x80]"
    using len by (simp add: take_Suc_conv_app_nth)
  show ?thesis
  proof (cases "?n + 1 > 56")
    case True
    let ?b1 = "?t @ 0x80 # replicate (63 - ?n) 0"
      and ?b2 = "replicate 56 0 @ be64 (of_nat (8 * length m))"
    have "pad_message m = pre @ ?b1 @ ?b2"
    proof -
      have "(119 - ?n) mod 64 = (63 - ?n) + 56" using True len by simp
      then show ?thesis unfolding pad_message_def mod by (simp only: replicate_add) (simp add: pre(1))
    qed
    moreover have "blocks (?b1 @ ?b2) = [?b1, ?b2]"
      using len by (subst blocks_cons) (simp_all add: blocks_one)
    ultimately have "blocks (pad_message m) = blocks pre @ [?b1, ?b2]"
      using pre(2) by (simp only: blocks_append)
    moreover have "zero_fill (Suc ?n) 64 ((data ctx)[?n := 0x80]) = ?b1"
      using len t by (simp add: zero_fill_eq)
    moreover have "take 56 (zero_fill 0 56 ?b1) = replicate 56 0"
      using len by (simp add: zero_fill_eq)
    ultimately show ?thesis using True pre(3) bl
      by (simp add: ctx_final_def sha256_spec_def Let_def)
  next
    case False
    let ?b = "?t @ 0x80 # replicate (55 - ?n) 0 @ be64 (of_nat (8 * length m))"
    have "pad_message m = pre @ ?b"
    proof -
      have e: "119 - ?n = (55 - ?n) + 64" using False by simp
      have "(119 - ?n) mod 64 = 55 - ?n" unfolding e mod_add_self2 by (rule mod_less) simp
      then show ?thesis unfolding pad_message_def mod by (simp add: pre(1))
    qed
    then have "blocks (pad_message m) = blocks pre @ [?b]"
      using pre(2) len False by (simp add: blocks_append blocks_one)
    moreover have "take 56 (zero_fill (Suc ?n) 56 ((data ctx)[?n := 0x80])) = ?t @ 0x80 # replicate (55 - ?n) 0"
    proof -
      have e: "56 - ?n = Suc (55 - ?n)" using False by simp
      show ?thesis using len t False by (simp add: zero_fill_eq e)
    qed
    ultimately show ?thesis using False pre(3) bl
      by (simp add: ctx_final_def sha256_spec_def Let_def)
  qed
qed

lemma holds_init: "length garbage = 64 \<Longrightarrow> holds (ctx_init garbage) []"
  by (simp add: holds_def ctx_init_def)

lemma sha256_stream_correct:
  assumes "length garbage = 64"
  shows "ctx_final (foldl ctx_update (ctx_init garbage) chunks) = sha256_spec (concat chunks)"
  using ctx_final_correct [OF holds_update [OF holds_init [OF assms]], of "concat chunks"]
  by (simp add: sha256_stream.feed_chunks)

lemma length_digest: "length (digest r) = 32"
  by (simp add: digest_def be32_def split: prod.splits)

section \<open>Hexadecimal output\<close>

definition hex_char :: "nat \<Rightarrow> char" where
  "hex_char i = ''0123456789abcdef'' ! i"

fun hex_encode :: "u8 list \<Rightarrow> string" where
  "hex_encode [] = []"
| "hex_encode (b # bs) =
     hex_char (unat (drop_bit 4 b)) # hex_char (unat (b AND 0xF)) # hex_encode bs"

fun hex_decode :: "string \<Rightarrow> u8 list" where
  "hex_decode (a # b # cs) =
     word_of_nat (16 * xdigit_val a + xdigit_val b) # hex_decode cs"
| "hex_decode _ = []"

lemma hex_char_digit: "i < 16 \<Longrightarrow> hex_char i = digit i"
proof -
  have "list_all (\<lambda>i. hex_char i = digit i) [0..<16]"
    by code_simp
  then show "i < 16 \<Longrightarrow> hex_char i = digit i" by (simp add: list_all_iff)
qed

lemma nibbles:
  fixes b :: u8
  shows "unat (drop_bit 4 b) < 16" and "unat (b AND 0xF) < 16"
    and "16 * unat (drop_bit 4 b) + unat (b AND 0xF) = unat b"
proof -
  have hi: "unat (drop_bit 4 b) = unat b div 16"
    by (simp add: drop_bit_eq_div unat_div)
  have lo: "unat (b AND 0xF) = unat b mod 16"
    using take_bit_eq_mod [of 4 "unat b"] take_bit_eq_mask [of 4 "unat b"]
    by (simp add: mask_eq_exp_minus_1 unsigned_and_eq)
  have "unat b < 2 ^ LENGTH(8)" by (rule unsigned_less)
  then show "unat (drop_bit 4 b) < 16" by (simp add: hi)
  show "unat (b AND 0xF) < 16" by (simp add: lo)
  show "16 * unat (drop_bit 4 b) + unat (b AND 0xF) = unat b" by (simp add: hi lo)
qed

lemma hex_decode_encode: "hex_decode (hex_encode bs) = bs"
  by (induction bs) (simp_all add: hex_char_digit nibbles xdigit_val_digit del: of_nat_add of_nat_mult)

lemma length_hex_encode: "length (hex_encode bs) = 2 * length bs"
  by (induction bs) simp_all

section \<open>Properties\<close>

text \<open>C9: feeding a message to the stream in any pieces and finishing gives the digest of the padded
  message absorbed block by block, whatever the context held before.\<close>

theorem sha256_stream_spec:
  "length garbage = 64 \<Longrightarrow>
     ctx_final (foldl ctx_update (ctx_init garbage) chunks) = sha256_spec (concat chunks)"
  by (rule sha256_stream_correct)

theorem sha256_stream_spec_witness:
  "ctx_final (foldl ctx_update (ctx_init (replicate 64 7)) [[1, 2], [3]]) = sha256_spec [1, 2, 3]"
  using sha256_stream_spec [of "replicate 64 7" "[[1, 2], [3]]"] by simp

end
