(* ===== verification/Jsmn.thy ===== *)
theory Jsmn
  imports Interfaces
begin

text \<open>
  \<open>lib/jsmn/jsmn.h\<close>, the tokenizer every JSON document of the program goes through, in the
  configuration the program builds it with (neither \<open>JSMN_STRICT\<close> nor \<open>JSMN_PARENT_LINKS\<close>): the
  token array is a list whose length is \<open>toknext\<close>, \<open>toksuper = -1\<close> is \<^term>\<open>None\<close>, and an error
  is the left of a sum. The invariant \<open>toks_ok\<close> says that every token delimits a part of the text.
\<close>

section \<open>Tokens\<close>

datatype jsmntype = JSMN_UNDEFINED | JSMN_OBJECT | JSMN_ARRAY | JSMN_STRING | JSMN_PRIMITIVE

datatype jsmnerr = JSMN_ERROR_NOMEM | JSMN_ERROR_INVAL | JSMN_ERROR_PART

record jsmntok =
  ttype :: jsmntype
  tstart :: int
  tend :: int
  tsize :: nat

definition is_open :: "jsmntok \<Rightarrow> bool" where
  "is_open t \<longleftrightarrow> tstart t \<noteq> -1 \<and> tend t = -1"

definition mk_tok :: "jsmntype \<Rightarrow> nat \<Rightarrow> int \<Rightarrow> jsmntok" where
  "mk_tok ty s e = \<lparr>ttype = ty, tstart = int s, tend = e, tsize = 0\<rparr>"

text \<open>\<open>tokens[parser->toksuper].size++\<close>, when there is a superior token.\<close>

definition bump_super :: "nat option \<Rightarrow> jsmntok list \<Rightarrow> jsmntok list" where
  "bump_super s ts = (case s of
     None \<Rightarrow> ts
   | Some i \<Rightarrow> ts[i := (ts ! i)\<lparr>tsize := tsize (ts ! i) + 1\<rparr>])"

section \<open>Primitives and strings\<close>

definition prim_delim :: "char \<Rightarrow> bool" where
  "prim_delim c \<longleftrightarrow> c \<in> {CHR '':'', TAB, CR, LF, CHR '' '', CHR '','', CHR '']'', CHR ''}''}"

text \<open>The scan of \<open>jsmn_parse_primitive\<close>: the position of the delimiter.\<close>

fun prim_scan :: "string \<Rightarrow> nat \<Rightarrow> jsmnerr + nat" where
  "prim_scan [] n = Inr n"
| "prim_scan (c # cs) n =
     (if c = NUL \<or> prim_delim c then Inr n
      else if ord c < 32 \<or> ord c \<ge> 127 then Inl JSMN_ERROR_INVAL
      else prim_scan cs (n + 1))"

text \<open>Up to four hexadecimal digits after \<open>\u\<close>.\<close>

fun hex_run :: "nat \<Rightarrow> string \<Rightarrow> (nat \<times> string) option" where
  "hex_run 0 cs = Some (0, cs)"
| "hex_run (Suc k) [] = Some (0, [])"
| "hex_run (Suc k) (c # cs) =
     (if c = NUL then Some (0, c # cs)
      else if is_xdigit c then map_option (\<lambda>(n, r). (n + 1, r)) (hex_run k cs)
      else None)"

definition simple_escape :: "char \<Rightarrow> bool" where
  "simple_escape c \<longleftrightarrow>
     c \<in> {DQUOTE, CHR ''/'', BACKSLASH, CHR ''b'', CHR ''f'', CHR ''r'', CHR ''n'', CHR ''t''}"

lemma hex_run_length: "hex_run k cs = Some (n, r) \<Longrightarrow> length cs = n + length r \<and> n \<le> k"
proof (induction k cs arbitrary: n rule: hex_run.induct)
  case (3 k c cs)
  then show ?case by (auto split: if_splits)
qed auto

text \<open>The scan of \<open>jsmn_parse_string\<close> after the opening quote: the position of the closing one.\<close>

function str_scan :: "string \<Rightarrow> nat \<Rightarrow> jsmnerr + nat" where
  "str_scan [] n = Inl JSMN_ERROR_PART"
| "str_scan (c # cs) n =
     (if c = NUL then Inl JSMN_ERROR_PART
      else if c = DQUOTE then Inr n
      else if c = BACKSLASH \<and> cs \<noteq> [] then
        (if simple_escape (hd cs) then str_scan (tl cs) (n + 2)
         else if hd cs = CHR ''u'' then
           (case hex_run 4 (tl cs) of
              None \<Rightarrow> Inl JSMN_ERROR_INVAL
            | Some (k, r) \<Rightarrow> str_scan r (n + 2 + k))
         else Inl JSMN_ERROR_INVAL)
      else str_scan cs (n + 1))"
  by pat_completeness auto
termination
  by (relation "measure (length \<circ> fst)") (auto dest!: hex_run_length)

section \<open>The parser\<close>

record jsmn_parser =
  pos :: nat
  toksuper :: "nat option"
  tokens :: "jsmntok list"
  count :: nat

definition jsmn_init :: jsmn_parser where
  "jsmn_init = \<lparr>pos = 0, toksuper = None, tokens = [], count = 0\<rparr>"

text \<open>The index of the last token that satisfies a condition, searched downwards from \<open>n\<close>.\<close>

fun last_tok :: "(jsmntok \<Rightarrow> bool) \<Rightarrow> jsmntok list \<Rightarrow> nat \<Rightarrow> nat option" where
  "last_tok P ts 0 = None"
| "last_tok P ts (Suc i) = (if P (ts ! i) then Some i else last_tok P ts i)"

definition jsmn_open :: "nat \<Rightarrow> char \<Rightarrow> jsmn_parser \<Rightarrow> jsmnerr + jsmn_parser" where
  "jsmn_open num c p =
     (if length (tokens p) \<ge> num then Inl JSMN_ERROR_NOMEM
      else Inr (p\<lparr>count := count p + 1,
                  tokens := bump_super (toksuper p) (tokens p) @
                    [mk_tok (if c = CHR ''{'' then JSMN_OBJECT else JSMN_ARRAY) (pos p) (-1)],
                  toksuper := Some (length (tokens p)),
                  pos := pos p + 1\<rparr>))"

definition jsmn_close :: "char \<Rightarrow> jsmn_parser \<Rightarrow> jsmnerr + jsmn_parser" where
  "jsmn_close c p =
     (case last_tok is_open (tokens p) (length (tokens p)) of
        None \<Rightarrow> Inl JSMN_ERROR_INVAL
      | Some i \<Rightarrow>
          if ttype (tokens p ! i) \<noteq> (if c = CHR ''}'' then JSMN_OBJECT else JSMN_ARRAY)
          then Inl JSMN_ERROR_INVAL
          else let ts = (tokens p)[i := (tokens p ! i)\<lparr>tend := int (pos p) + 1\<rparr>]
               in Inr (p\<lparr>tokens := ts, toksuper := last_tok is_open ts (i + 1), pos := pos p + 1\<rparr>))"

text \<open>A string or a primitive: a token is allocated, then the superior token counts it.\<close>

definition jsmn_leaf :: "nat \<Rightarrow> jsmntok \<Rightarrow> nat \<Rightarrow> jsmn_parser \<Rightarrow> jsmnerr + jsmn_parser" where
  "jsmn_leaf num t next p =
     (if length (tokens p) \<ge> num then Inl JSMN_ERROR_NOMEM
      else Inr (p\<lparr>count := count p + 1,
                  tokens := bump_super (toksuper p) (tokens p @ [t]),
                  pos := next\<rparr>))"

definition jsmn_step :: "string \<Rightarrow> nat \<Rightarrow> jsmn_parser \<Rightarrow> jsmnerr + jsmn_parser" where
  "jsmn_step js num p =
     (let c = js ! pos p in
      if c = CHR ''{'' \<or> c = CHR ''['' then jsmn_open num c p
      else if c = CHR ''}'' \<or> c = CHR '']'' then jsmn_close c p
      else if c = DQUOTE then
        (case str_scan (drop (pos p + 1) js) (pos p + 1) of
           Inl e \<Rightarrow> Inl e
         | Inr n \<Rightarrow> jsmn_leaf num (mk_tok JSMN_STRING (pos p + 1) (int n)) (n + 1) p)
      else if c = TAB \<or> c = CR \<or> c = LF \<or> c = CHR '' '' then Inr (p\<lparr>pos := pos p + 1\<rparr>)
      else if c = CHR '':'' then
        Inr (p\<lparr>toksuper := (if tokens p = [] then None else Some (length (tokens p) - 1)),
               pos := pos p + 1\<rparr>)
      else if c = CHR '','' then
        (case toksuper p of
           None \<Rightarrow> Inr (p\<lparr>pos := pos p + 1\<rparr>)
         | Some s \<Rightarrow>
             if ttype (tokens p ! s) \<noteq> JSMN_ARRAY \<and> ttype (tokens p ! s) \<noteq> JSMN_OBJECT then
               (case last_tok (\<lambda>t. (ttype t = JSMN_ARRAY \<or> ttype t = JSMN_OBJECT) \<and> is_open t)
                       (tokens p) (length (tokens p)) of
                  None \<Rightarrow> Inr (p\<lparr>pos := pos p + 1\<rparr>)
                | Some i \<Rightarrow> Inr (p\<lparr>toksuper := Some i, pos := pos p + 1\<rparr>))
             else Inr (p\<lparr>pos := pos p + 1\<rparr>))
      else
        (case prim_scan (drop (pos p) js) (pos p) of
           Inl e \<Rightarrow> Inl e
         | Inr n \<Rightarrow> jsmn_leaf num (mk_tok JSMN_PRIMITIVE (pos p) (int n)) n p))"

lemma prim_scan_bounds: "prim_scan cs n = Inr m \<Longrightarrow> n \<le> m \<and> m \<le> n + length cs"
  by (induction cs n rule: prim_scan.induct) (auto split: if_splits)

lemma str_scan_bounds: "str_scan cs n = Inr m \<Longrightarrow> n \<le> m \<and> m < n + length cs"
proof (induction cs n rule: str_scan.induct)
  case (1 n)
  then show ?case by simp
next
  case (2 c cs n)
  show ?case
  proof (cases cs)
    case Nil
    with 2 show ?thesis by (auto split: if_splits)
  next
    case (Cons e r)
    from 2 show ?thesis unfolding Cons
      by (auto split: if_splits option.splits dest!: hex_run_length; force)
  qed
qed

lemma prim_scan_progress:
  "prim_scan (c # cs) n = Inr m \<Longrightarrow> c \<noteq> NUL \<Longrightarrow> \<not> prim_delim c \<Longrightarrow> n < m"
  using prim_scan_bounds [of cs "n + 1" m] by (auto split: if_splits)

lemma jsmn_step_progress:
  assumes "jsmn_step js num p = Inr p'" and "pos p < length js" and "js ! pos p \<noteq> NUL"
  shows "pos p < pos p'"
proof -
  have d: "drop (pos p) js = js ! pos p # drop (Suc (pos p)) js"
    using assms(2) by (simp add: Cons_nth_drop_Suc)
  show ?thesis
    using assms str_scan_bounds [of "drop (pos p + 1) js" "pos p + 1"]
      prim_scan_progress [of "js ! pos p" "drop (Suc (pos p)) js" "pos p"]
    by (auto simp: jsmn_step_def jsmn_open_def jsmn_close_def jsmn_leaf_def Let_def d prim_delim_def
        split: if_splits option.splits sum.splits)
qed

function jsmn_loop :: "string \<Rightarrow> nat \<Rightarrow> jsmn_parser \<Rightarrow> jsmnerr + jsmn_parser" where
  "jsmn_loop js num p =
     (if pos p < length js \<and> js ! pos p \<noteq> NUL then
        (case jsmn_step js num p of Inl e \<Rightarrow> Inl e | Inr p' \<Rightarrow> jsmn_loop js num p')
      else Inr p)"
  by pat_completeness auto
termination
  by (relation "measure (\<lambda>(js, num, p). length js - pos p)")
    (auto dest: jsmn_step_progress)

declare jsmn_loop.simps [simp del]

definition jsmn_parse :: "string \<Rightarrow> nat \<Rightarrow> jsmnerr + (nat \<times> jsmntok list)" where
  "jsmn_parse js num =
     (case jsmn_loop js num jsmn_init of
        Inl e \<Rightarrow> Inl e
      | Inr p \<Rightarrow> if \<exists>t \<in> set (tokens p). is_open t then Inl JSMN_ERROR_PART
                else Inr (count p, tokens p))"

section \<open>Every token delimits a part of the text\<close>

definition tok_ok :: "string \<Rightarrow> jsmntok \<Rightarrow> bool" where
  "tok_ok js t \<longleftrightarrow> 0 \<le> tstart t \<and> tstart t \<le> int (length js) \<and>
     (is_open t \<or> (tstart t \<le> tend t \<and> tend t \<le> int (length js))) \<and>
     (ttype t = JSMN_STRING \<longrightarrow> 1 \<le> tstart t \<and> tend t < int (length js))"

definition parser_ok :: "string \<Rightarrow> nat \<Rightarrow> jsmn_parser \<Rightarrow> bool" where
  "parser_ok js num p \<longleftrightarrow>
     (\<forall>t \<in> set (tokens p). tok_ok js t \<and> tstart t \<le> int (pos p)) \<and>
     count p = length (tokens p) \<and> length (tokens p) \<le> num \<and>
     (\<forall>i. toksuper p = Some i \<longrightarrow> i < length (tokens p))"

lemma last_tok_bound: "last_tok P ts n = Some i \<Longrightarrow> i < n \<and> P (ts ! i)"
  by (induction n) (auto split: if_splits)

lemma length_bump_super [simp]: "length (bump_super s ts) = length ts"
  by (simp add: bump_super_def split: option.splits)

lemma bump_super_all:
  assumes "\<And>t n. Q (t\<lparr>tsize := n\<rparr>) = Q t" and "\<forall>t \<in> set ts. Q t"
    and "\<And>i. s = Some i \<Longrightarrow> i < length ts"
  shows "\<forall>t \<in> set (bump_super s ts). Q t"
  using assms by (auto simp: bump_super_def dest!: set_update_subset_insert [THEN subsetD]
      split: option.splits)

lemma tok_ok_tsize [simp]: "tok_ok js (t\<lparr>tsize := n\<rparr>) = tok_ok js t"
  by (simp add: tok_ok_def is_open_def)

lemma jsmn_leaf_ok:
  assumes "parser_ok js num p" and "jsmn_leaf num t next p = Inr p'"
    and "tok_ok js t" and "tstart t \<le> int next" and "pos p \<le> next"
  shows "parser_ok js num p'"
proof -
  have p': "tokens p' = bump_super (toksuper p) (tokens p @ [t])" "pos p' = next"
    "count p' = count p + 1" "toksuper p' = toksuper p" "length (tokens p) < num"
    using assms(2) by (auto simp: jsmn_leaf_def split: if_splits)
  have "\<forall>u \<in> set (bump_super (toksuper p) (tokens p @ [t])). tok_ok js u \<and> tstart u \<le> int next"
    by (rule bump_super_all) (use assms in \<open>auto simp: parser_ok_def less_Suc_eq\<close>)
  then show ?thesis using assms(1) p' by (auto simp: parser_ok_def less_Suc_eq)
qed

lemma jsmn_open_ok:
  assumes "parser_ok js num p" and "jsmn_open num c p = Inr p'" and "pos p < length js"
  shows "parser_ok js num p'"
proof -
  have "\<forall>u \<in> set (bump_super (toksuper p) (tokens p)). tok_ok js u \<and> tstart u \<le> int (pos p)"
    by (rule bump_super_all) (use assms in \<open>auto simp: parser_ok_def\<close>)
  then have old: "\<forall>u \<in> set (bump_super (toksuper p) (tokens p)). tok_ok js u \<and> tstart u \<le> 1 + int (pos p)"
    by force
  have new: "tok_ok js (mk_tok ty (pos p) (-1)) \<and> tstart (mk_tok ty (pos p) (-1)) \<le> 1 + int (pos p)"
    if "ty \<noteq> JSMN_STRING" for ty
    using assms(3) that by (simp add: tok_ok_def mk_tok_def is_open_def)
  show ?thesis using assms(1,2) old new
    by (auto simp: parser_ok_def jsmn_open_def split: if_splits)
qed

lemma jsmn_close_ok:
  assumes "parser_ok js num p" and "jsmn_close c p = Inr p'" and "pos p < length js"
  shows "parser_ok js num p'"
proof -
  obtain i where i: "last_tok is_open (tokens p) (length (tokens p)) = Some i"
    and p': "p' = p\<lparr>tokens := (tokens p)[i := (tokens p ! i)\<lparr>tend := int (pos p) + 1\<rparr>],
        toksuper := last_tok is_open ((tokens p)[i := (tokens p ! i)\<lparr>tend := int (pos p) + 1\<rparr>]) (i + 1),
        pos := pos p + 1\<rparr>"
    and ty: "ttype (tokens p ! i) = (if c = CHR ''}'' then JSMN_OBJECT else JSMN_ARRAY)"
    using assms(2) by (auto simp: jsmn_close_def Let_def split: option.splits if_splits)
  from last_tok_bound [OF i] have b: "i < length (tokens p)" by simp
  then have "tok_ok js (tokens p ! i)" "tstart (tokens p ! i) \<le> int (pos p)"
    using assms(1) by (auto simp: parser_ok_def)
  then have "tok_ok js ((tokens p ! i)\<lparr>tend := int (pos p) + 1\<rparr>)"
    "tstart ((tokens p ! i)\<lparr>tend := int (pos p) + 1\<rparr>) \<le> 1 + int (pos p)"
    using assms(3) ty by (auto simp: tok_ok_def split: if_splits)
  moreover have "\<forall>t \<in> set (tokens p). tok_ok js t \<and> tstart t \<le> 1 + int (pos p)"
    using assms(1) by (force simp: parser_ok_def)
  ultimately have "\<forall>t \<in> set ((tokens p)[i := (tokens p ! i)\<lparr>tend := int (pos p) + 1\<rparr>]).
      tok_ok js t \<and> tstart t \<le> 1 + int (pos p)"
    using set_update_subset_insert [of "tokens p" i] by blast
  then show ?thesis using assms(1) b unfolding p'
    by (auto simp: parser_ok_def dest!: last_tok_bound)
qed

lemma parser_ok_next:
  "parser_ok js num p \<Longrightarrow> (\<And>i. s = Some i \<Longrightarrow> i < length (tokens p)) \<Longrightarrow>
     parser_ok js num (p\<lparr>toksuper := s, pos := pos p + 1\<rparr>)"
  by (auto simp: parser_ok_def)

lemma parser_ok_skip: "parser_ok js num p \<Longrightarrow> parser_ok js num (p\<lparr>pos := pos p + 1\<rparr>)"
  by (force simp: parser_ok_def)

lemma jsmn_step_ok:
  assumes "parser_ok js num p" and "jsmn_step js num p = Inr p'" and "pos p < length js"
  shows "parser_ok js num p'"
proof -
  let ?c = "js ! pos p"
  note next_ok = parser_ok_next [OF assms(1)] and skip_ok = parser_ok_skip [OF assms(1)]
  consider (opn) "?c = CHR ''{'' \<or> ?c = CHR ''[''" | (cls) "?c = CHR ''}'' \<or> ?c = CHR '']''"
    | (str) "?c = DQUOTE" | (ws) "?c = TAB \<or> ?c = CR \<or> ?c = LF \<or> ?c = CHR '' ''"
    | (colon) "?c = CHR '':''" | (comma) "?c = CHR '',''"
    | (prim) "?c \<notin> set ''{[}]:, '' \<union> {DQUOTE, TAB, CR, LF}"
    by auto
  then show ?thesis
  proof cases
    case opn
    with assms(2) have "jsmn_open num ?c p = Inr p'" by (simp add: jsmn_step_def Let_def)
    from jsmn_open_ok [OF assms(1) this assms(3)] show ?thesis .
  next
    case cls
    with assms(2) have "jsmn_close ?c p = Inr p'" by (auto simp: jsmn_step_def Let_def)
    from jsmn_close_ok [OF assms(1) this assms(3)] show ?thesis .
  next
    case str
    with assms obtain n where n: "str_scan (drop (pos p + 1) js) (pos p + 1) = Inr n"
      and l: "jsmn_leaf num (mk_tok JSMN_STRING (pos p + 1) (int n)) (n + 1) p = Inr p'"
      by (auto simp: jsmn_step_def split: sum.splits)
    from str_scan_bounds [OF n] assms(3) show ?thesis
      by (intro jsmn_leaf_ok [OF assms(1) l]) (auto simp: tok_ok_def mk_tok_def)
  next
    case ws
    with assms(2) skip_ok show ?thesis by (auto simp: jsmn_step_def)
  next
    case colon
    with assms(2) next_ok [of "if tokens p = [] then None else Some (length (tokens p) - 1)"]
    show ?thesis by (auto simp: jsmn_step_def split: if_splits)
  next
    case comma
    with assms(2) next_ok skip_ok show ?thesis
      by (auto simp: jsmn_step_def Let_def split: if_splits option.splits dest!: last_tok_bound)
  next
    case prim
    with assms(2) obtain n where n: "prim_scan (drop (pos p) js) (pos p) = Inr n"
      and l: "jsmn_leaf num (mk_tok JSMN_PRIMITIVE (pos p) (int n)) n p = Inr p'"
      by (auto simp: jsmn_step_def Let_def split: sum.splits)
    from prim_scan_bounds [OF n] assms(3) show ?thesis
      by (intro jsmn_leaf_ok [OF assms(1) l]) (auto simp: tok_ok_def mk_tok_def)
  qed
qed

lemma jsmn_loop_ok: "jsmn_loop js num p = Inr p' \<Longrightarrow> parser_ok js num p \<Longrightarrow> parser_ok js num p'"
proof (induction js num p rule: jsmn_loop.induct)
  case (1 js num p)
  show ?case
  proof (cases "pos p < length js \<and> js ! pos p \<noteq> NUL")
    case True
    with "1.prems"(1) obtain q where q: "jsmn_step js num p = Inr q" "jsmn_loop js num q = Inr p'"
      by (auto simp: jsmn_loop.simps [of js num p] split: sum.splits)
    from "1.IH" [OF True q(1) q(2) jsmn_step_ok [OF "1.prems"(2) q(1)]] True show ?thesis by simp
  next
    case False
    with 1 show ?thesis by (simp add: jsmn_loop.simps [of js num p])
  qed
qed

lemma jsmn_parse_ok:
  assumes "jsmn_parse js num = Inr (n, ts)"
  shows "n = length ts" and "n \<le> num"
    and "\<And>t. t \<in> set ts \<Longrightarrow> 0 \<le> tstart t \<and> tstart t \<le> tend t \<and> tend t \<le> int (length js)"
    and "\<And>t. t \<in> set ts \<Longrightarrow> ttype t = JSMN_STRING \<Longrightarrow> 1 \<le> tstart t \<and> tend t < int (length js)"
proof -
  obtain p where p: "jsmn_loop js num jsmn_init = Inr p" "n = count p" "ts = tokens p"
    "\<forall>t \<in> set ts. \<not> is_open t"
    using assms by (auto simp: jsmn_parse_def split: sum.splits if_splits)
  have "parser_ok js num jsmn_init" by (simp add: parser_ok_def jsmn_init_def)
  from jsmn_loop_ok [OF p(1) this] have ok: "parser_ok js num p" .
  with p show "n = length ts" and "n \<le> num" by (auto simp: parser_ok_def)
  from ok p show "\<And>t. t \<in> set ts \<Longrightarrow> 0 \<le> tstart t \<and> tstart t \<le> tend t \<and> tend t \<le> int (length js)"
    and "\<And>t. t \<in> set ts \<Longrightarrow> ttype t = JSMN_STRING \<Longrightarrow> 1 \<le> tstart t \<and> tend t < int (length js)"
    by (auto simp: parser_ok_def tok_ok_def)
qed

end
