(* ===== verification/Json.thy ===== *)
theory Json
  imports Jsmn
begin

text \<open>
  \<open>source/util/json.c\<close>: documents, the token accessors, string unescaping, escaping, and the exact
  decimal formatting of a double. A token index is the source's \<open>int\<close> (-1 for \<open>absent\<close>), an output
  buffer is its capacity, and a \<open>char *\<close> result is the text up to the first NUL. Not modelled:
  \<open>json_parse_double\<close> and \<open>json_get_double\<close> (floating-point accumulation).
\<close>

section \<open>Documents and accessors\<close>

definition JSON_MAX_TOKENS :: nat where
  "JSON_MAX_TOKENS = 1024"

record JsonDoc =
  src :: string
  tok :: "jsmntok list"
  ntok :: nat

definition json_parse :: "string \<Rightarrow> jsmnerr + JsonDoc" where
  "json_parse s = (case jsmn_parse s JSON_MAX_TOKENS of
     Inl e \<Rightarrow> Inl e
   | Inr (n, ts) \<Rightarrow> Inr \<lparr>src = s, tok = ts, ntok = n\<rparr>)"

definition tok_len :: "JsonDoc \<Rightarrow> nat \<Rightarrow> int" where
  "tok_len doc i = tend (tok doc ! i) - tstart (tok doc ! i)"

definition tok_ptr :: "JsonDoc \<Rightarrow> nat \<Rightarrow> string" where
  "tok_ptr doc i = drop (nat (tstart (tok doc ! i))) (src doc)"

definition json_streq :: "JsonDoc \<Rightarrow> nat \<Rightarrow> string \<Rightarrow> bool" where
  "json_streq doc i s \<longleftrightarrow> int (length s) = tok_len doc i \<and> take (length s) (tok_ptr doc i) = s"

function skip_loop :: "JsonDoc \<Rightarrow> int \<Rightarrow> nat \<Rightarrow> nat" where
  "skip_loop doc e i = (if i < ntok doc \<and> tstart (tok doc ! i) < e then skip_loop doc e (i + 1) else i)"
  by pat_completeness auto
termination by (relation "measure (\<lambda>(doc, e, i). ntok doc - i)") auto

declare skip_loop.simps [simp del]

definition json_skip :: "JsonDoc \<Rightarrow> nat \<Rightarrow> nat" where
  "json_skip doc i = skip_loop doc (tend (tok doc ! i)) (i + 1)"

definition has_type :: "JsonDoc \<Rightarrow> int \<Rightarrow> jsmntype \<Rightarrow> bool" where
  "has_type doc i ty \<longleftrightarrow> 0 \<le> i \<and> i < int (ntok doc) \<and> ttype (tok doc ! nat i) = ty"

fun obj_get_loop :: "JsonDoc \<Rightarrow> string \<Rightarrow> nat \<Rightarrow> nat \<Rightarrow> int" where
  "obj_get_loop doc key 0 i = -1"
| "obj_get_loop doc key (Suc n) i =
     (let val = i + 1 in
      if val \<ge> ntok doc then -1
      else if ttype (tok doc ! i) = JSMN_STRING \<and> json_streq doc i key then int val
      else obj_get_loop doc key n (json_skip doc val))"

definition json_obj_get :: "JsonDoc \<Rightarrow> int \<Rightarrow> string \<Rightarrow> int" where
  "json_obj_get doc obj key =
     (if \<not> has_type doc obj JSMN_OBJECT then -1
      else obj_get_loop doc key (tsize (tok doc ! nat obj)) (nat obj + 1))"

definition json_arr_len :: "JsonDoc \<Rightarrow> int \<Rightarrow> int" where
  "json_arr_len doc arr =
     (if \<not> has_type doc arr JSMN_ARRAY then -1 else int (tsize (tok doc ! nat arr)))"

definition json_arr_get :: "JsonDoc \<Rightarrow> int \<Rightarrow> int \<Rightarrow> int" where
  "json_arr_get doc arr idx =
     (if json_arr_len doc arr \<le> idx \<or> idx < 0 then -1
      else int ((json_skip doc ^^ nat idx) (nat arr + 1)))"

section \<open>Strings\<close>

text \<open>\<open>strtoul(s, NULL, 16)\<close> converted to \<open>unsigned\<close>.\<close>

definition strtoul16 :: "string \<Rightarrow> nat" where
  "strtoul16 s =
     (let t = dropWhile is_space s;
          neg = (t \<noteq> [] \<and> hd t = CHR ''-'');
          u = (if t \<noteq> [] \<and> (hd t = CHR ''-'' \<or> hd t = CHR ''+'') then tl t else t);
          w = (if (starts_with ''0x'' u \<or> starts_with ''0X'' u) \<and> drop 2 u \<noteq> [] \<and> is_xdigit (u ! 2)
               then drop 2 u else u);
          v = digits_val 16 (takeWhile is_xdigit w)
      in nat ((if neg then - int v else int v) mod 2 ^ 32))"

definition utf8_bmp :: "nat \<Rightarrow> string" where
  "utf8_bmp cp =
     (if cp < 0x80 then [chr cp]
      else if cp < 0x800 then [chr (0xC0 OR drop_bit 6 cp), chr (0x80 OR (cp AND 0x3F))]
      else if cp \<ge> 0xD800 \<and> cp \<le> 0xDFFF then ''?''
      else [chr (0xE0 OR drop_bit 12 cp), chr (0x80 OR (drop_bit 6 cp AND 0x3F)),
            chr (0x80 OR (cp AND 0x3F))])"

definition unescape_simple :: "char \<Rightarrow> char option" where
  "unescape_simple e =
     (if e = DQUOTE then Some DQUOTE
      else if e = BACKSLASH then Some BACKSLASH
      else if e = CHR ''/'' then Some (CHR ''/'')
      else if e = CHR ''n'' then Some LF
      else if e = CHR ''t'' then Some TAB
      else if e = CHR ''r'' then Some CR
      else if e = CHR ''b'' then Some (CHR 0x08)
      else if e = CHR ''f'' then Some (CHR 0x0C)
      else None)"

text \<open>The loop of \<open>json_get_string\<close> over the raw text of the token.\<close>

function json_unescape :: "nat \<Rightarrow> string \<Rightarrow> string \<Rightarrow> string option" where
  "json_unescape outsz [] out = Some out"
| "json_unescape outsz (c # cs) out =
     (if length out + 4 \<ge> outsz then None
      else if c \<noteq> BACKSLASH then json_unescape outsz cs (out @ [c])
      else if cs = [] then None
      else if hd cs = CHR ''u'' then
        (if length (tl cs) < 4 then None
         else json_unescape outsz (drop 4 (tl cs)) (out @ utf8_bmp (strtoul16 (take 4 (tl cs)))))
      else (case unescape_simple (hd cs) of
              None \<Rightarrow> None
            | Some d \<Rightarrow> json_unescape outsz (tl cs) (out @ [d])))"
  by pat_completeness auto
termination by (relation "measure (\<lambda>(n, cs, out). length cs)") auto

definition tok_text :: "JsonDoc \<Rightarrow> int \<Rightarrow> string" where
  "tok_text doc i = take (nat (tok_len doc (nat i))) (tok_ptr doc (nat i))"

definition json_get_string :: "JsonDoc \<Rightarrow> int \<Rightarrow> nat \<Rightarrow> string option" where
  "json_get_string doc i outsz =
     (if \<not> has_type doc i JSMN_STRING then None
      else map_option c_str (json_unescape outsz (tok_text doc i) []))"

section \<open>Other values\<close>

definition json_raw :: "JsonDoc \<Rightarrow> int \<Rightarrow> nat \<Rightarrow> string option" where
  "json_raw doc i outsz =
     (if i < 0 \<or> i \<ge> int (ntok doc) then None
      else let t = tok doc ! nat i;
               s = (if ttype t = JSMN_STRING then tstart t - 1 else tstart t);
               e = (if ttype t = JSMN_STRING then tend t + 1 else tend t);
               len = nat (e - s)
           in if len + 1 > outsz then None else Some (c_str (take len (drop (nat s) (src doc)))))"

definition json_get_int :: "JsonDoc \<Rightarrow> int \<Rightarrow> int option" where
  "json_get_int doc i =
     (if \<not> has_type doc i JSMN_PRIMITIVE then None
      else case json_raw doc i 32 of
        None \<Rightarrow> None
      | Some buf \<Rightarrow> if snd (strtol10 buf) = buf then None else Some (atoll buf))"

definition json_obj_int :: "JsonDoc \<Rightarrow> int \<Rightarrow> string \<Rightarrow> int \<Rightarrow> int" where
  "json_obj_int doc obj key fallback =
     (case json_get_int doc (json_obj_get doc obj key) of Some v \<Rightarrow> wrap32 v | None \<Rightarrow> fallback)"

definition json_get_bool :: "JsonDoc \<Rightarrow> int \<Rightarrow> bool option" where
  "json_get_bool doc i =
     (if \<not> has_type doc i JSMN_PRIMITIVE then None
      else if json_streq doc (nat i) ''true'' then Some True
      else if json_streq doc (nat i) ''false'' then Some False
      else None)"

section \<open>Escaping\<close>

definition escape_char :: "char \<Rightarrow> string" where
  "escape_char c =
     (if c = DQUOTE then [BACKSLASH, DQUOTE]
      else if c = BACKSLASH then [BACKSLASH, BACKSLASH]
      else if c = LF then [BACKSLASH, CHR ''n'']
      else if c = TAB then [BACKSLASH, CHR ''t'']
      else if c = CR then [BACKSLASH, CHR ''r'']
      else if c = CHR 0x08 then [BACKSLASH, CHR ''b'']
      else if c = CHR 0x0C then [BACKSLASH, CHR ''f'']
      else if ord c < 0x20 then BACKSLASH # CHR ''u'' # pad0 4 (hex (ord c))
      else [c])"

definition json_escaped_len :: "string \<Rightarrow> nat" where
  "json_escaped_len s = foldl (\<lambda>n c. n + length (escape_char c)) 0 s"

fun escape_loop :: "nat \<Rightarrow> string \<Rightarrow> string \<Rightarrow> string option" where
  "escape_loop outsz out [] = Some out"
| "escape_loop outsz out (c # cs) =
     (if length out + length (escape_char c) + 1 > outsz then None
      else escape_loop outsz (out @ escape_char c) cs)"

definition json_escape :: "string \<Rightarrow> nat \<Rightarrow> string option" where
  "json_escape s outsz = escape_loop outsz [] s"

section \<open>Exact decimal formatting\<close>

text \<open>
  \<open>json_fmt_fixed\<close> works on the 64 bits of the double. \<open>fixed_scaled\<close> is the integer \<open>n\<close> it prints
  (the 128-bit product shifted right, rounded half to even, kept in 64 bits).
\<close>

definition double_mant :: "u64 \<Rightarrow> nat" where
  "double_mant b =
     (let m = unat (b AND mask 52) in if unat (drop_bit 52 b AND 0x7ff) \<noteq> 0 then m OR 2 ^ 52 else m)"

definition double_shift :: "u64 \<Rightarrow> int" where
  "double_shift b =
     (let e = unat (drop_bit 52 b AND 0x7ff) in 1075 - int (if e \<noteq> 0 then e else 1))"

definition fixed_scaled :: "nat \<Rightarrow> int \<Rightarrow> nat \<Rightarrow> nat" where
  "fixed_scaled mant shift scale =
     (let p = (mant * scale) mod 2 ^ 128 in
      if shift \<le> 0 then (if shift > -64 then (p * 2 ^ nat (- shift)) mod 2 ^ 64 else 2 ^ 64 - 1)
      else if shift \<ge> 128 then 0
      else let n = (p div 2 ^ nat shift) mod 2 ^ 64;
               r = p mod 2 ^ nat shift;
               half = 2 ^ (nat shift - 1)
           in if r > half \<or> (r = half \<and> odd n) then (n + 1) mod 2 ^ 64 else n)"

definition json_fmt_fixed :: "nat \<Rightarrow> u64 \<Rightarrow> int \<Rightarrow> string" where
  "json_fmt_fixed bufsz b decimals =
     (let d = (if decimals < 0 then 0 else if decimals > 6 then 6 else nat decimals);
          scale = 10 ^ d;
          n = fixed_scaled (double_mant b) (double_shift b) scale;
          sign = (if bit b 63 then ''-'' else [])
      in fit bufsz (if d > 0 then sign @ dec (n div scale) @ ''.'' @ pad0 d (dec (n mod scale))
                   else sign @ dec n))"

section \<open>Accessors stay inside the token array\<close>

lemma skip_loop_bounds: "i \<le> skip_loop doc e i \<and> (i \<le> ntok doc \<longrightarrow> skip_loop doc e i \<le> ntok doc)"
proof (induction doc e i rule: skip_loop.induct)
  case (1 doc e i)
  then show ?case
    by (cases "i < ntok doc \<and> tstart (tok doc ! i) < e") (auto simp: skip_loop.simps [of doc e i])
qed

lemma obj_get_loop_bounds: "obj_get_loop doc key n i = -1 \<or>
    (0 < obj_get_loop doc key n i \<and> obj_get_loop doc key n i < int (ntok doc))"
  by (induction n arbitrary: i) (auto simp: Let_def)

lemma json_obj_get_bounds:
  "json_obj_get doc obj key = -1 \<or>
     (0 < json_obj_get doc obj key \<and> json_obj_get doc obj key < int (ntok doc))"
  using obj_get_loop_bounds by (simp add: json_obj_get_def)

section \<open>Escaping fits and is undone by the reader\<close>

interpretation json_esc: escaping_loop escape_char escape_loop
    "\<lambda>cap buf c. length buf + length (escape_char c) + 1 \<le> cap"
  by unfold_locales auto

lemma escape_char_pos: "0 < length (escape_char c)"
  by (simp add: escape_char_def pad0_def)

lemma json_escaped_len_eq: "json_escaped_len s = length (concat (map escape_char s))"
proof -
  have "foldl (\<lambda>n c. n + length (escape_char c)) k s = k + length (concat (map escape_char s))" for k
    by (induction s arbitrary: k) auto
  then show ?thesis by (simp add: json_escaped_len_def)
qed

lemma escape_loop_fits: "length buf < n \<Longrightarrow> escape_loop n buf s =
   (if length buf + json_escaped_len s < n then Some (buf @ concat (map escape_char s)) else None)"
proof (induction s arbitrary: buf)
  case Nil
  then show ?case by (simp add: json_escaped_len_def)
next
  case (Cons c cs)
  then show ?case by (auto simp: json_escaped_len_eq)
qed

text \<open>What is undone for one character, whatever follows it.\<close>

lemma is_xdigit_digit: "d < 16 \<Longrightarrow> is_xdigit (digit d)"
  by (auto simp: digit_def is_xdigit_def is_digit_def between_def ord_chr)

lemma digit_0: "digit 0 = CHR ''0''"
  by code_simp

lemma control_text: "n < 32 \<Longrightarrow> pad0 4 (hex n) = ''00'' @ [digit (n div 16), digit (n mod 16)]"
proof (cases "n < 16")
  case True
  then show ?thesis
    by (simp add: pad0_def hex.simps [of n] digit_0 numeral_3_eq_3)
next
  case False
  moreover assume "n < 32"
  ultimately have "n div 16 < 16" by simp
  with False show ?thesis
    by (simp add: pad0_def hex.simps [of n] hex.simps [of "n div 16"] numeral_2_eq_2)
qed

lemma strtoul16_00:
  assumes "a < 16" and "b < 16"
  shows "strtoul16 (''00'' @ [digit a, digit b]) = 16 * a + b"
proof -
  have "is_xdigit (CHR ''0'')" "xdigit_val (CHR ''0'') = 0" "\<not> is_space (CHR ''0'')"
    by (simp_all add: is_xdigit_def is_digit_def between_def xdigit_val_def is_space_def)
  with assms have "strtoul16 (''00'' @ [digit a, digit b]) = nat (int (16 * a + b) mod 2 ^ 32)"
    by (simp add: strtoul16_def starts_with_Cons is_xdigit_digit digits_val_def xdigit_val_digit)
  also have "int (16 * a + b) mod 2 ^ 32 = int (16 * a + b)"
    using assms by (intro mod_pos_pos_trivial) auto
  finally show ?thesis by simp
qed

lemma control_char: "n < 32 \<Longrightarrow> length (pad0 4 (hex n)) = 4 \<and> strtoul16 (pad0 4 (hex n)) = n"
  using strtoul16_00 [of "n div 16" "n mod 16"] by (simp add: control_text)

lemma unescape_escape_char:
  "json_unescape outsz (escape_char c @ cs) out =
     (if length out + 4 \<ge> outsz then None else json_unescape outsz cs (out @ [c]))"
proof (cases "c \<in> {DQUOTE, BACKSLASH, LF, TAB, CR, CHR 0x08, CHR 0x0C}")
  case True
  then show ?thesis by (auto simp: escape_char_def unescape_simple_def)
next
  case False
  show ?thesis
  proof (cases "ord c < 32")
    case True
    with False control_char [OF True] show ?thesis
      by (simp add: escape_char_def utf8_bmp_def)
  next
    case False2: False
    with False show ?thesis by (simp add: escape_char_def)
  qed
qed

lemma json_unescape_escape:
  "json_unescape outsz (concat (map escape_char s)) out =
     (if s = [] \<or> length out + length s + 3 < outsz then Some (out @ s) else None)"
proof (induction s arbitrary: out)
  case Nil
  then show ?case by simp
next
  case (Cons c cs)
  then show ?case by (auto simp: unescape_escape_char)
qed

text \<open>An escaped string has no quote of its own, so the tokenizer finds its end.\<close>

lemma hex_run_plain:
  assumes "list_all is_xdigit ds"
  shows "hex_run (length ds) (ds @ r) = Some (length ds, r)"
  using assms
proof (induction ds)
  case (Cons d ds)
  then have "d \<noteq> NUL" by (auto simp: is_xdigit_def is_digit_def between_def)
  with Cons show ?case by simp
qed simp

lemma control_xdigits: "n < 32 \<Longrightarrow> list_all is_xdigit (pad0 4 (hex n))"
  by (simp add: control_text is_xdigit_digit) (simp add: is_xdigit_def is_digit_def between_def)

lemma str_scan_escape_char:
  "r \<noteq> [] \<Longrightarrow> str_scan (escape_char c @ r) n = str_scan r (n + length (escape_char c))"
proof (cases "c \<in> {DQUOTE, BACKSLASH, LF, TAB, CR, CHR 0x08, CHR 0x0C}")
  case True
  then show ?thesis by (auto simp: escape_char_def simple_escape_def)
next
  case False
  show ?thesis
  proof (cases "ord c < 32")
    case True
    with False hex_run_plain [OF control_xdigits [OF True], of r] control_char [OF True]
    show ?thesis by (simp add: escape_char_def simple_escape_def add.commute)
  next
    case False2: False
    then have "c \<noteq> NUL" by auto
    with False False2 show ?thesis by (simp add: escape_char_def)
  qed
qed

lemma str_scan_escaped:
  "r \<noteq> [] \<Longrightarrow> str_scan (concat (map escape_char s) @ r) n = str_scan r (n + json_escaped_len s)"
proof (induction s arbitrary: n)
  case Nil
  then show ?case by (simp add: json_escaped_len_def)
next
  case (Cons c cs)
  then show ?case by (simp add: str_scan_escape_char json_escaped_len_eq add.assoc)
qed

definition json_quote :: "string \<Rightarrow> string" where
  "json_quote s = DQUOTE # concat (map escape_char s) @ [DQUOTE]"

lemma json_parse_quote:
  "json_parse (json_quote s) = Inr \<lparr>src = json_quote s,
     tok = [mk_tok JSMN_STRING 1 (int (json_escaped_len s) + 1)], ntok = 1\<rparr>"
proof -
  have q: "str_scan (concat (map escape_char s) @ [DQUOTE]) 1 = Inr (json_escaped_len s + 1)"
    by (simp add: str_scan_escaped)
  have "jsmn_step (json_quote s) 1024 jsmn_init =
      Inr \<lparr>pos = json_escaped_len s + 2, toksuper = None,
        tokens = [mk_tok JSMN_STRING 1 (int (json_escaped_len s) + 1)], count = 1\<rparr>"
    using q by (simp add: jsmn_step_def json_quote_def jsmn_init_def jsmn_leaf_def bump_super_def add.commute)
  moreover have "length (json_quote s) = json_escaped_len s + 2"
    by (simp add: json_quote_def json_escaped_len_eq)
  ultimately show ?thesis
    by (simp add: json_parse_def jsmn_parse_def JSON_MAX_TOKENS_def
        jsmn_loop.simps [of _ _ jsmn_init] jsmn_loop.simps [of _ _ "\<lparr>pos = _, toksuper = _, tokens = _, count = _\<rparr>"])
      (simp add: jsmn_init_def json_quote_def is_open_def mk_tok_def)
qed

lemma json_quote_roundtrip:
  assumes "json_parse (json_quote s) = Inr doc"
  shows "json_get_string doc 0 outsz =
    (if s = [] \<or> length s + 3 < outsz then Some (c_str s) else None)"
proof -
  have doc: "doc = \<lparr>src = json_quote s,
     tok = [mk_tok JSMN_STRING 1 (int (json_escaped_len s) + 1)], ntok = 1\<rparr>"
    using assms by (simp add: json_parse_quote)
  have "tok_text doc 0 = concat (map escape_char s)"
    unfolding doc
    by (simp add: tok_text_def tok_len_def tok_ptr_def mk_tok_def json_quote_def json_escaped_len_eq)
  then show ?thesis
    using json_unescape_escape [of outsz s "[]"] doc
    by (auto simp: json_get_string_def has_type_def mk_tok_def)
qed

section \<open>The decimal formatter rounds to nearest, ties to even\<close>

lemma round_half_even:
  fixes p s :: nat
  assumes "0 < s"
  defines "q \<equiv> p div 2 ^ s" and "r \<equiv> p mod 2 ^ s"
  defines "n \<equiv> if r > 2 ^ (s - 1) \<or> (r = 2 ^ (s - 1) \<and> odd q) then q + 1 else q"
  shows "2 * \<bar>int n * 2 ^ s - int p\<bar> \<le> 2 ^ s"
    and "2 * \<bar>int n * 2 ^ s - int p\<bar> = 2 ^ s \<Longrightarrow> even n"
proof -
  define H :: nat where "H = 2 ^ (s - 1)"
  have h: "2 ^ s = 2 * H" using assms(1) by (cases s) (simp_all add: H_def)
  then have hi: "(2::int) ^ s = 2 * int H" by (metis of_nat_mult of_nat_numeral of_nat_power)
  have "p = q * 2 ^ s + r" unfolding q_def r_def by (rule div_mult_mod_eq [symmetric])
  then have p: "int p = int q * (2 * int H) + int r" unfolding h by simp
  have r: "r < 2 * H" unfolding h [symmetric] r_def by simp
  have n: "n = (if r > H \<or> (r = H \<and> odd q) then q + 1 else q)" by (simp add: n_def H_def)
  have d: "int n * (2 * int H) - int p = (if r > H \<or> (r = H \<and> odd q) then 2 * int H - int r else - int r)"
    by (simp add: n p algebra_simps)
  show "2 * \<bar>int n * 2 ^ s - int p\<bar> \<le> 2 ^ s" unfolding hi d using r by auto
  show "2 * \<bar>int n * 2 ^ s - int p\<bar> = 2 ^ s \<Longrightarrow> even n"
    unfolding hi d using r by (auto simp: n split: if_splits)
qed

lemma fixed_scaled_nearest:
  assumes "0 < s" and "s < 128" and "mant * scale < 2 ^ 128" and "mant * scale div 2 ^ s + 1 < 2 ^ 64"
  shows "2 * \<bar>int (fixed_scaled mant (int s) scale) * 2 ^ s - int (mant * scale)\<bar> \<le> 2 ^ s"
    and "2 * \<bar>int (fixed_scaled mant (int s) scale) * 2 ^ s - int (mant * scale)\<bar> = 2 ^ s
         \<Longrightarrow> even (fixed_scaled mant (int s) scale)"
proof -
  let ?p = "mant * scale"
  have "fixed_scaled mant (int s) scale =
    (if ?p mod 2 ^ s > 2 ^ (s - 1) \<or> (?p mod 2 ^ s = 2 ^ (s - 1) \<and> odd (?p div 2 ^ s))
     then ?p div 2 ^ s + 1 else ?p div 2 ^ s)"
    using assms by (simp add: fixed_scaled_def Let_def)
  with round_half_even [OF assms(1), of ?p]
  show "2 * \<bar>int (fixed_scaled mant (int s) scale) * 2 ^ s - int (mant * scale)\<bar> \<le> 2 ^ s"
    and "2 * \<bar>int (fixed_scaled mant (int s) scale) * 2 ^ s - int (mant * scale)\<bar> = 2 ^ s
         \<Longrightarrow> even (fixed_scaled mant (int s) scale)" by simp_all
qed

section \<open>Properties\<close>

text \<open>C22: a string escaped and quoted by the program is one token for the tokenizer, and reading
  that token gives the string back, as long as it leaves the four bytes \<open>json_get_string\<close> keeps free.\<close>

theorem json_string_roundtrip:
  "json_parse (json_quote s) = Inr doc \<Longrightarrow>
     json_get_string doc 0 outsz = (if s = [] \<or> length s + 3 < outsz then Some (c_str s) else None)"
  by (rule json_quote_roundtrip)

theorem json_string_roundtrip_witness:
  "json_parse (json_quote ''a'') = Inr \<lparr>src = json_quote ''a'', tok = [mk_tok JSMN_STRING 1 2], ntok = 1\<rparr> \<and>
   json_get_string \<lparr>src = json_quote ''a'', tok = [mk_tok JSMN_STRING 1 2], ntok = 1\<rparr> 0 5 = Some ''a''"
proof -
  have l: "json_escaped_len ''a'' = 1" by (simp add: json_escaped_len_def escape_char_def)
  then have p: "json_parse (json_quote ''a'') =
      Inr \<lparr>src = json_quote ''a'', tok = [mk_tok JSMN_STRING 1 2], ntok = 1\<rparr>"
    using json_parse_quote [of "''a''"] by simp
  show ?thesis using p json_string_roundtrip [OF p, of 5] by (simp add: c_str_def)
qed

text \<open>Every token of a parsed document delimits a part of its text, a string token lies strictly
  between its two quotes, and there are at most \<open>JSON_MAX_TOKENS\<close>: the accessors that copy token
  text, \<open>json_raw\<close> with the quotes included, stay inside the buffer.\<close>

theorem json_tokens_in_bounds:
  "json_parse s = Inr doc \<Longrightarrow> i < length (tok doc) \<Longrightarrow>
     src doc = s \<and> ntok doc = length (tok doc) \<and> ntok doc \<le> JSON_MAX_TOKENS \<and>
     0 \<le> tstart (tok doc ! i) \<and> tstart (tok doc ! i) \<le> tend (tok doc ! i) \<and>
     tend (tok doc ! i) \<le> int (length s) \<and>
     (if ttype (tok doc ! i) = JSMN_STRING
      then 1 \<le> tstart (tok doc ! i) \<and> tend (tok doc ! i) < int (length s) else True)"
  using jsmn_parse_ok [of s JSON_MAX_TOKENS "ntok doc" "tok doc"]
  by (auto simp: json_parse_def split: sum.splits)

theorem json_tokens_in_bounds_witness:
  "\<exists>doc. json_parse (json_quote ''a'') = Inr doc \<and> 0 < length (tok doc) \<and>
     tend (tok doc ! 0) < int (length (json_quote ''a''))"
proof -
  have p: "json_parse (json_quote ''a'') =
      Inr \<lparr>src = json_quote ''a'', tok = [mk_tok JSMN_STRING 1 (int (json_escaped_len ''a'') + 1)], ntok = 1\<rparr>"
    by (rule json_parse_quote)
  from json_tokens_in_bounds [OF p, of 0] show ?thesis by (auto simp: p mk_tok_def)
qed

text \<open>The decimal formatter rounds the exact value of the double to the nearest number of the
  requested precision, ties to even, whenever the scaled value fits its 64 bits.\<close>

theorem json_fmt_fixed_nearest:
  assumes "0 < s" and "s < 128" and "mant * scale < 2 ^ 128" and "mant * scale div 2 ^ s + 1 < 2 ^ 64"
  shows "2 * \<bar>int (fixed_scaled mant (int s) scale) * 2 ^ s - int (mant * scale)\<bar> < 2 ^ s \<or>
         (2 * \<bar>int (fixed_scaled mant (int s) scale) * 2 ^ s - int (mant * scale)\<bar> = 2 ^ s \<and>
          even (fixed_scaled mant (int s) scale))"
  using fixed_scaled_nearest [OF assms] by linarith

theorem json_fmt_fixed_nearest_witness:
  "2 * \<bar>int (fixed_scaled 5 (int 1) 1) * 2 ^ 1 - int (5 * 1)\<bar> < 2 ^ 1 \<or>
   (2 * \<bar>int (fixed_scaled 5 (int 1) 1) * 2 ^ 1 - int (5 * 1)\<bar> = 2 ^ 1 \<and> even (fixed_scaled 5 (int 1) 1))"
  by (rule json_fmt_fixed_nearest) simp_all

end
