(* ===== verification/Http.thy ===== *)
theory Http
  imports Base64 Json
begin

text \<open>
  \<open>source/core/http.c\<close>: socket I/O, the request parser, parameters, the request body, credentials
  and the response helpers.

  A socket is the record \<open>conn\<close>: what each \<open>recv\<close>, \<open>send\<close> and \<open>poll\<close> of the operating system is
  going to report (\<open>rx\<close>, \<open>tx\<close>, \<open>polls\<close>; a used-up list stands for a closed peer, for a link that
  accepts everything and for a ready socket) and the bytes sent so far. \<open>g_keep_alive\<close>, the static
  of the file, travels with it. A \<open>HttpRequest\<close> holds its connection in the field \<open>fd\<close>. The log
  line of \<open>http_read_request\<close> is left out.
\<close>

section \<open>The socket\<close>

datatype recv_event = RecvData string | RecvIntr | RecvAgain | RecvErr
datatype send_event = SendN nat | SendIntr | SendAgain | SendErr
datatype poll_event = PollIntr | PollRet int bool

record conn =
  rx :: "recv_event list"
  tx :: "send_event list"
  polls :: "poll_event list"
  sent :: string
  g_keep_alive :: bool

definition http_set_keep_alive :: "bool \<Rightarrow> conn \<Rightarrow> conn" where
  "http_set_keep_alive on c = c\<lparr>g_keep_alive := on\<rparr>"

definition CRLF :: string where
  "CRLF = [CR, LF]"

definition conn_hdr :: "conn \<Rightarrow> string" where
  "conn_hdr c = (if g_keep_alive c
     then ''Connection: keep-alive'' @ CRLF @ ''Keep-Alive: timeout=1'' @ CRLF
     else ''Connection: close'' @ CRLF)"

text \<open>\<open>io_wait\<close>: poll again while interrupted; ready when a wanted event or an error is reported.\<close>

fun poll_loop :: "poll_event list \<Rightarrow> bool \<times> poll_event list" where
  "poll_loop [] = (True, [])"
| "poll_loop (PollIntr # ps) = poll_loop ps"
| "poll_loop (PollRet pr hit # ps) = (pr > 0 \<and> hit, ps)"

definition io_wait :: "conn \<Rightarrow> bool \<times> conn" where
  "io_wait c = (let (ok, ps) = poll_loop (polls c) in (ok, c\<lparr>polls := ps\<rparr>))"

text \<open>\<open>io_recv\<close>: \<^term>\<open>None\<close> is -1, an empty result is a closed connection.\<close>

function io_recv :: "nat \<Rightarrow> conn \<Rightarrow> string option \<times> conn" where
  "io_recv len c =
     (case rx c of
        [] \<Rightarrow> (Some [], c)
      | RecvData d # r \<Rightarrow>
          if d = [] then (Some [], c)
          else (Some (take len d), c\<lparr>rx := (if length d \<le> len then r else RecvData (drop len d) # r)\<rparr>)
      | RecvIntr # r \<Rightarrow> io_recv len (c\<lparr>rx := r\<rparr>)
      | RecvAgain # r \<Rightarrow>
          (let (ok, c') = io_wait (c\<lparr>rx := r\<rparr>) in if \<not> ok then (None, c') else io_recv len c')
      | RecvErr # r \<Rightarrow> (None, c))"
  by pat_completeness auto
termination
  by (relation "measure (\<lambda>(n, c). length (rx c))") (auto simp: io_wait_def split: prod.splits)

declare io_recv.simps [simp del]

function http_write_all :: "string \<Rightarrow> conn \<Rightarrow> bool \<times> conn" where
  "http_write_all p c =
     (if p = [] then (True, c)
      else case tx c of
        [] \<Rightarrow> (True, c\<lparr>sent := sent c @ p\<rparr>)
      | SendN n # r \<Rightarrow>
          if n = 0 then (False, c\<lparr>tx := r\<rparr>)
          else http_write_all (drop n p) (c\<lparr>tx := r, sent := sent c @ take n p\<rparr>)
      | SendIntr # r \<Rightarrow> http_write_all p (c\<lparr>tx := r\<rparr>)
      | SendAgain # r \<Rightarrow>
          (let (ok, c') = io_wait (c\<lparr>tx := r\<rparr>) in if \<not> ok then (False, c') else http_write_all p c')
      | SendErr # r \<Rightarrow> (False, c\<lparr>tx := r\<rparr>))"
  by pat_completeness auto
termination
  by (relation "measure (\<lambda>(p, c). length (tx c))") (auto simp: io_wait_def split: prod.splits)

declare http_write_all.simps [simp del]

section \<open>URL decoding\<close>

definition unhex2 :: "char \<Rightarrow> char \<Rightarrow> char" where
  "unhex2 a b = chr (16 * xdigit_val a + xdigit_val b)"

function url_decode_loop :: "nat \<Rightarrow> string \<Rightarrow> string \<Rightarrow> string" where
  "url_decode_loop outsz [] out = out"
| "url_decode_loop outsz (c # cs) out =
     (if \<not> length out + 1 < outsz then out
      else if c = CHR ''+'' then url_decode_loop outsz cs (out @ '' '')
      else if c = CHR ''%'' \<and> length cs \<ge> 2 \<and> is_xdigit (cs ! 0) \<and> is_xdigit (cs ! 1)
        then url_decode_loop outsz (drop 2 cs) (out @ [unhex2 (cs ! 0) (cs ! 1)])
      else url_decode_loop outsz cs (out @ [c]))"
  by pat_completeness auto
termination by (relation "measure (\<lambda>(n, cs, out). length cs)") auto

definition url_decode :: "string \<Rightarrow> nat \<Rightarrow> string" where
  "url_decode s outsz = c_str (url_decode_loop outsz s [])"

section \<open>Requests\<close>

record HttpRequest =
  fd :: conn
  rmethod :: string
  path :: string
  query :: string
  host :: string
  auth :: string
  content_length :: nat
  has_content_length :: bool
  expect_100 :: bool
  sent_100 :: bool
  http11 :: bool
  conn_close :: bool
  keep_alive :: bool
  body_leftover :: string
  body_consumed :: nat
  mem_used :: nat

definition HTTP_MAX_HEADER :: nat where
  "HTTP_MAX_HEADER = 8192"

definition empty_request :: "conn \<Rightarrow> HttpRequest" where
  "empty_request c = \<lparr>fd = c, rmethod = [], path = [], query = [], host = [], auth = [],
     content_length = 0, has_content_length = False, expect_100 = False, sent_100 = False,
     http11 = False, conn_close = False, keep_alive = False, body_leftover = [],
     body_consumed = 0, mem_used = 0\<rparr>"

definition is_blank :: "char \<Rightarrow> bool" where
  "is_blank c \<longleftrightarrow> c = CHR '' '' \<or> c = TAB"

definition header_is :: "string \<Rightarrow> string \<Rightarrow> string option" where
  "header_is line name =
     (if \<not> strncaseeq (length name) line name \<or> length line \<le> length name \<or>
         line ! length name \<noteq> CHR '':'' then None
      else Some (dropWhile is_blank (drop (length name + 1) line)))"

text \<open>The loop of \<open>http_read_request\<close> until the end of the headers; \<^term>\<open>None\<close> is \<open>return false\<close>.\<close>

lemma io_recv_length:
  "io_recv len c = (Some d, c') \<Longrightarrow> length d \<le> len"
proof (induction len c rule: io_recv.induct)
  case (1 len c)
  show ?case
  proof (cases "rx c")
    case Nil
    with 1 show ?thesis by (simp add: io_recv.simps)
  next
    case (Cons e r)
    with 1 show ?thesis
      by (cases e) (auto simp: io_recv.simps [of len c] split: if_splits prod.splits)
  qed
qed

function read_head :: "string \<Rightarrow> conn \<Rightarrow> (string \<times> nat) option \<times> conn" where
  "read_head buf c =
     (if \<not> length buf < HTTP_MAX_HEADER - 1 then (None, c)
      else case io_recv (HTTP_MAX_HEADER - 1 - length buf) c of
        (None, c') \<Rightarrow> (None, c')
      | (Some d, c') \<Rightarrow>
          if d = [] then (None, c')
          else (case strstr (CRLF @ CRLF) (c_str (buf @ d)) of
                  Some i \<Rightarrow> (Some (buf @ d, i), c')
                | None \<Rightarrow> read_head (buf @ d) c'))"
  by pat_completeness auto
termination
  by (relation "measure (\<lambda>(buf, c). HTTP_MAX_HEADER - length buf)")
    (auto simp: HTTP_MAX_HEADER_def length_greater_0_conv [symmetric] simp del: length_greater_0_conv)

declare read_head.simps [simp del]

function header_lines :: "string \<Rightarrow> string list" where
  "header_lines s =
     (if s = [] then []
      else case strstr CRLF s of
        None \<Rightarrow> [s]
      | Some i \<Rightarrow> take i s # header_lines (drop (i + 2) s))"
  by pat_completeness auto
termination by (relation "measure length") auto

declare header_lines.simps [simp del]

definition parse_header :: "string \<Rightarrow> HttpRequest \<Rightarrow> HttpRequest" where
  "parse_header line r =
     (case header_is line ''Content-Length'' of
        Some v \<Rightarrow> r\<lparr>content_length := strtoull10 v, has_content_length := True\<rparr>
      | None \<Rightarrow> (case header_is line ''Host'' of
        Some v \<Rightarrow> r\<lparr>host := take 127 v\<rparr>
      | None \<Rightarrow> (case header_is line ''Authorization'' of
        Some v \<Rightarrow> r\<lparr>auth := take 255 v\<rparr>
      | None \<Rightarrow> (case header_is line ''Expect'' of
        Some v \<Rightarrow> if strncaseeq 12 v ''100-continue'' then r\<lparr>expect_100 := True\<rparr> else r
      | None \<Rightarrow> (case header_is line ''Connection'' of
        Some v \<Rightarrow> if strncaseeq 5 v ''close'' then r\<lparr>conn_close := True\<rparr> else r
      | None \<Rightarrow> r)))))"

text \<open>The request line and the headers, once they are in the buffer.\<close>

definition parse_head :: "string \<Rightarrow> HttpRequest \<Rightarrow> HttpRequest option" where
  "parse_head head r =
     (let (line, rest) = (case strstr CRLF head of
            Some i \<Rightarrow> (take i head, drop (i + 2) head)
          | None \<Rightarrow> (head, []))
      in case strchr (CHR '' '') line of
           None \<Rightarrow> None
         | Some sp1 \<Rightarrow>
             (let target = drop (sp1 + 1) line in
              case strchr (CHR '' '') target of
                None \<Rightarrow> None
              | Some sp2 \<Rightarrow>
                  (let version = drop (sp2 + 1) target;
                       t = take sp2 target;
                       (t1, q) = (case strchr (CHR ''?'') t of
                            Some qm \<Rightarrow> (take qm t, take 2047 (drop (qm + 1) t))
                          | None \<Rightarrow> (t, []))
                   in Some (fold parse_header (header_lines rest)
                        (r\<lparr>rmethod := fit 8 (take sp1 line), http11 := strneq 8 version ''HTTP/1.1'',
                           query := q, path := url_decode t1 512\<rparr>)))))"

definition http_read_request :: "conn \<Rightarrow> HttpRequest option \<times> conn" where
  "http_read_request c =
     (case read_head [] c of
        (None, c') \<Rightarrow> (None, c')
      | (Some (buf, i), c') \<Rightarrow>
          (parse_head (take i buf) ((empty_request c')\<lparr>body_leftover := drop (i + 4) buf\<rparr>), c'))"

section \<open>Parameters\<close>

function http_param_get :: "string \<Rightarrow> string \<Rightarrow> nat \<Rightarrow> string option" where
  "http_param_get p key outsz =
     (if p = [] then None
      else let klen = length key;
               amp = strchr (CHR ''&'') p;
               pair_len = (case amp of Some i \<Rightarrow> i | None \<Rightarrow> length p)
           in if pair_len > klen \<and> strneq klen p key \<and> p ! klen = CHR ''=''
              then Some (url_decode (take (pair_len - klen - 1) (drop (klen + 1) p)) outsz)
              else if pair_len = klen \<and> strneq klen p key then Some []
              else (case amp of None \<Rightarrow> None | Some i \<Rightarrow> http_param_get (drop (i + 1) p) key outsz))"
  by pat_completeness auto
termination by (relation "measure (\<lambda>(p, k, n). length p)") auto

declare http_param_get.simps [simp del]

definition http_query_get :: "HttpRequest \<Rightarrow> string \<Rightarrow> nat \<Rightarrow> string option" where
  "http_query_get r key outsz = http_param_get (query r) key outsz"

section \<open>The request body\<close>

definition kContinue :: string where
  "kContinue = ''HTTP/1.1 100 Continue'' @ CRLF @ CRLF"

definition send_continue :: "HttpRequest \<Rightarrow> bool \<times> HttpRequest" where
  "send_continue r =
     (if expect_100 r \<and> \<not> sent_100 r then
        (let (ok, c) = http_write_all kContinue (fd r)
         in if ok then (True, r\<lparr>fd := c, sent_100 := True\<rparr>) else (False, r\<lparr>fd := c\<rparr>))
      else (True, r))"

definition http_read_body :: "nat \<Rightarrow> HttpRequest \<Rightarrow> string option \<times> HttpRequest" where
  "http_read_body len r =
     (if has_content_length r \<and> content_length r - body_consumed r = 0 then (Some [], r)
      else
        (let len = (if has_content_length r then min len (content_length r - body_consumed r) else len) in
         if body_leftover r \<noteq> [] then
           (let n = min (length (body_leftover r)) len in
            (Some (take n (body_leftover r)),
             r\<lparr>body_leftover := drop n (body_leftover r), body_consumed := body_consumed r + n\<rparr>))
         else
           (let (ok, r1) = send_continue r in
            if \<not> ok then (None, r1)
            else case io_recv len (fd r1) of
              (None, c) \<Rightarrow> (None, r1\<lparr>fd := c\<rparr>)
            | (Some d, c) \<Rightarrow> (Some d, r1\<lparr>fd := c, body_consumed := body_consumed r1 + length d\<rparr>))))"

section \<open>Credentials\<close>

definition str_at :: "string \<Rightarrow> nat \<Rightarrow> u8" where
  "str_at s i = (if i < length s then byte (s ! i) else 0)"

definition http_secure_streq :: "string \<Rightarrow> string \<Rightarrow> bool" where
  "http_secure_streq a b =
     (let diff = (word_of_nat (length a XOR length b) :: u8);
          n = (if length a > length b then length a else length b)
      in foldl (\<lambda>d i. d OR (str_at a i XOR str_at b i)) diff [0..<n] = 0)"

definition http_check_basic_auth :: "HttpRequest \<Rightarrow> string \<Rightarrow> string \<Rightarrow> bool" where
  "http_check_basic_auth r user pass =
     (if \<not> strncaseeq 6 (auth r) ''Basic '' then False
      else let decoded = b64_decode (drop 6 (auth r)) 200 in
        if length decoded = 0 then False
        else let expected = user @ '':'' @ pass in
          if length expected \<ge> 200 then False
          else http_secure_streq (c_str (map unbyte decoded)) expected)"

definition http_get_bearer :: "HttpRequest \<Rightarrow> nat \<Rightarrow> string option" where
  "http_get_bearer r outsz =
     (if \<not> strncaseeq 7 (auth r) ''Bearer '' then None
      else let v = dropWhile (\<lambda>c. c = CHR '' '') (drop 7 (auth r)) in
        if v = [] \<or> length v + 1 > outsz then None else Some (fit outsz v))"

section \<open>Responses\<close>

definition status_reason :: "nat \<Rightarrow> string" where
  "status_reason code =
     (if code = 200 then ''OK'' else if code = 201 then ''Created''
      else if code = 202 then ''Accepted'' else if code = 400 then ''Bad Request''
      else if code = 401 then ''Unauthorized'' else if code = 403 then ''Forbidden''
      else if code = 404 then ''Not Found'' else if code = 405 then ''Method Not Allowed''
      else if code = 409 then ''Conflict'' else if code = 411 then ''Length Required''
      else if code = 413 then ''Payload Too Large''
      else if code = 500 then ''Internal Server Error''
      else if code = 503 then ''Service Unavailable''
      else if code = 507 then ''Insufficient Storage'' else ''Unknown'')"

definition header_text :: "nat \<Rightarrow> string \<Rightarrow> nat \<Rightarrow> string \<Rightarrow> conn \<Rightarrow> string" where
  "header_text code content_type len extra c =
     ''HTTP/1.1 '' @ dec code @ '' '' @ status_reason code @ CRLF @
     ''Server: sys-autopilot'' @ CRLF @
     ''Access-Control-Allow-Origin: *'' @ CRLF @
     extra @
     ''Content-Type: '' @ content_type @ CRLF @
     ''Content-Length: '' @ dec len @ CRLF @
     conn_hdr c @ CRLF"

definition send_header_extra :: "nat \<Rightarrow> string \<Rightarrow> nat \<Rightarrow> string \<Rightarrow> conn \<Rightarrow> conn" where
  "send_header_extra code content_type len extra c =
     (let hdr = header_text code content_type len extra c in
      if length hdr \<ge> 768 then c else snd (http_write_all hdr c))"

definition http_send_header :: "nat \<Rightarrow> string \<Rightarrow> nat \<Rightarrow> conn \<Rightarrow> conn" where
  "http_send_header code content_type len c = send_header_extra code content_type len [] c"

definition http_send_redirect :: "string \<Rightarrow> conn \<Rightarrow> conn" where
  "http_send_redirect location c =
     (let hdr = ''HTTP/1.1 302 Found'' @ CRLF @ ''Server: sys-autopilot'' @ CRLF @
                ''Location: '' @ location @ CRLF @ ''Content-Length: 0'' @ CRLF @ conn_hdr c @ CRLF
      in if length hdr < 1024 then snd (http_write_all hdr c) else c)"

definition http_send_response :: "nat \<Rightarrow> string \<Rightarrow> string \<Rightarrow> conn \<Rightarrow> conn" where
  "http_send_response code content_type body c =
     (let c1 = http_send_header code content_type (length body) c in
      if length body > 0 then snd (http_write_all body c1) else c1)"

definition json_type :: string where
  "json_type = ''application/json''"

text \<open>A JSON object with one string member, already escaped: \<open>{"key":"value"}\<close>.\<close>

definition json_obj1 :: "string \<Rightarrow> string \<Rightarrow> string" where
  "json_obj1 k v = ''{'' @ [DQUOTE] @ k @ [DQUOTE] @ '':'' @ [DQUOTE] @ v @ [DQUOTE] @ ''}''"

text \<open>\<open>http_send_json\<close> takes the text its format produces.\<close>

definition http_send_json :: "nat \<Rightarrow> string \<Rightarrow> conn \<Rightarrow> conn" where
  "http_send_json code body c =
     (if length body \<ge> 1024
      then http_send_response 500 json_type (json_obj1 ''error'' ''response too large'') c
      else http_send_response code json_type body c)"

definition http_send_error :: "nat \<Rightarrow> string \<Rightarrow> conn \<Rightarrow> conn" where
  "http_send_error code msg c =
     (let escaped = (case json_escape msg 512 of Some e \<Rightarrow> e | None \<Rightarrow> ''error message too long'')
      in http_send_json code (json_obj1 ''error'' escaped) c)"

definition quoted :: "string \<Rightarrow> string" where
  "quoted s = [DQUOTE] @ s @ [DQUOTE]"

definition challenges :: "string \<Rightarrow> bool \<Rightarrow> string option \<Rightarrow> string" where
  "challenges hst offer_basic metadata_path =
     (let basic = (if offer_basic then ''WWW-Authenticate: Basic realm='' @ quoted ''sys-autopilot'' @ CRLF
                   else []);
          b = fit 384 basic;
          bearer = (case metadata_path of
              Some p \<Rightarrow> if hst \<noteq> [] then
                  ''WWW-Authenticate: Bearer realm='' @ quoted ''sys-autopilot'' @ '', resource_metadata='' @
                    quoted (''http://'' @ hst @ p) @ CRLF
                else ''WWW-Authenticate: Bearer realm='' @ quoted ''sys-autopilot'' @ CRLF
            | None \<Rightarrow> ''WWW-Authenticate: Bearer realm='' @ quoted ''sys-autopilot'' @ CRLF)
      in b @ fit (384 - length basic) bearer)"

definition http_send_unauthorized :: "HttpRequest \<Rightarrow> bool \<Rightarrow> string option \<Rightarrow> HttpRequest" where
  "http_send_unauthorized r offer_basic metadata_path =
     (let body = json_obj1 ''error'' ''unauthorized'';
          c = send_header_extra 401 json_type (length body)
                (challenges (host r) offer_basic metadata_path) (fd r)
      in r\<lparr>fd := snd (http_write_all body c)\<rparr>)"

section \<open>Writing\<close>

lemma io_wait_keeps [simp]:
  "sent (snd (io_wait c)) = sent c" "g_keep_alive (snd (io_wait c)) = g_keep_alive c"
  "rx (snd (io_wait c)) = rx c" "tx (snd (io_wait c)) = tx c"
  by (simp_all add: io_wait_def split: prod.splits)

text \<open>
  Whatever the socket does, what goes out is a prefix of the buffer, and the call succeeds exactly
  when it is all of it.
\<close>

lemma http_write_all_prefix:
  "\<exists>k \<le> length p. sent (snd (http_write_all p c)) = sent c @ take k p \<and>
     (fst (http_write_all p c) \<longleftrightarrow> k = length p)"
proof (induction p c rule: http_write_all.induct)
  case (1 p c)
  show ?case
  proof (cases "p = []")
    case True
    then show ?thesis by (simp add: http_write_all.simps)
  next
    case False
    show ?thesis
    proof (cases "tx c")
      case Nil
      with False show ?thesis by (simp add: http_write_all.simps [of p c])
    next
      case (Cons e r)
      show ?thesis
      proof (cases e)
        case (SendN n)
        show ?thesis
        proof (cases "n = 0")
          case True
          with False Cons SendN show ?thesis
            by (intro exI [of _ 0]) (simp add: http_write_all.simps [of p c])
        next
          case n: False
          from "1.IH"(1) [OF False Cons SendN n] obtain k where k: "k \<le> length (drop n p)"
            "sent (snd (http_write_all (drop n p) (c\<lparr>tx := r, sent := sent c @ take n p\<rparr>))) =
               (sent c @ take n p) @ take k (drop n p)"
            "fst (http_write_all (drop n p) (c\<lparr>tx := r, sent := sent c @ take n p\<rparr>)) \<longleftrightarrow> k = length (drop n p)"
            by auto
          have "take n p @ take k (drop n p) = take (min (length p) (n + k)) p"
            by (simp add: take_add [symmetric] min_def)
          moreover have "min (length p) (n + k) = length p \<longleftrightarrow> k = length (drop n p)"
            using k(1) by auto
          ultimately show ?thesis using False Cons SendN n k
            by (intro exI [of _ "min (length p) (n + k)"])
              (simp add: http_write_all.simps [of p c])
        qed
      next
        case SendIntr
        from "1.IH"(2) [OF False Cons SendIntr] False Cons SendIntr show ?thesis
          by (simp add: http_write_all.simps [of p c])
      next
        case SendAgain
        obtain ok c' where w: "io_wait (c\<lparr>tx := r\<rparr>) = (ok, c')" by (cases "io_wait (c\<lparr>tx := r\<rparr>)")
        from io_wait_keeps(1) [of "c\<lparr>tx := r\<rparr>"] w have s: "sent c' = sent c" by simp
        show ?thesis
        proof (cases ok)
          case True
          from "1.IH"(3) [OF False Cons SendAgain w [symmetric] refl] True False Cons SendAgain w s
          show ?thesis by (simp add: http_write_all.simps [of p c])
        next
          case nok: False
          with False Cons SendAgain w s show ?thesis
            by (intro exI [of _ 0]) (simp add: http_write_all.simps [of p c])
        qed
      next
        case SendErr
        with False Cons show ?thesis
          by (intro exI [of _ 0]) (simp add: http_write_all.simps [of p c])
      qed
    qed
  qed
qed

lemma http_write_all_healthy:
  "tx c = [] \<Longrightarrow> http_write_all p c = (True, c\<lparr>sent := sent c @ p\<rparr>)"
  by (simp add: http_write_all.simps)

lemma http_write_all_rx: "rx (snd (http_write_all p c)) = rx c \<and>
    g_keep_alive (snd (http_write_all p c)) = g_keep_alive c"
proof (induction p c rule: http_write_all.induct)
  case (1 p c)
  show ?case
  proof (cases "p = []")
    case True
    then show ?thesis by (simp add: http_write_all.simps)
  next
    case False
    show ?thesis
    proof (cases "tx c")
      case Nil
      with False show ?thesis by (simp add: http_write_all.simps [of p c])
    next
      case (Cons e r)
      obtain ok c' where w: "io_wait (c\<lparr>tx := r\<rparr>) = (ok, c')" by (cases "io_wait (c\<lparr>tx := r\<rparr>)")
      from io_wait_keeps(2,3) [of "c\<lparr>tx := r\<rparr>"] w have k: "rx c' = rx c" "g_keep_alive c' = g_keep_alive c"
        by simp_all
      from 1(1,2) [OF False Cons] 1(3) [OF False Cons _ w [symmetric] refl] False Cons w k
      show ?thesis by (cases e) (simp_all add: http_write_all.simps [of p c])
    qed
  qed
qed

section \<open>The byte stream of a connection\<close>

text \<open>What the peer still has to deliver, whatever interruptions and pauses lie between.\<close>

fun rx_stream :: "recv_event list \<Rightarrow> string" where
  "rx_stream [] = []"
| "rx_stream (RecvData d # r) = (if d = [] then [] else d @ rx_stream r)"
| "rx_stream (RecvIntr # r) = rx_stream r"
| "rx_stream (RecvAgain # r) = rx_stream r"
| "rx_stream (RecvErr # r) = []"

lemma io_recv_stream:
  "io_recv len c = (Some d, c') \<Longrightarrow> rx_stream (rx c) = d @ rx_stream (rx c')"
proof (induction len c arbitrary: d c' rule: io_recv.induct)
  case (1 len c)
  show ?case
  proof (cases "rx c")
    case Nil
    with 1 show ?thesis by (auto simp: io_recv.simps)
  next
    case (Cons e r)
    show ?thesis
    proof (cases e)
      case (RecvData s)
      with 1 Cons show ?thesis by (auto simp: io_recv.simps [of len c] split: if_splits)
    next
      case RecvIntr
      with "1.IH"(1) [OF Cons RecvIntr] "1.prems" Cons show ?thesis
        by (simp add: io_recv.simps [of len c])
    next
      case RecvAgain
      obtain ok c2 where w: "io_wait (c\<lparr>rx := r\<rparr>) = (ok, c2)" by (cases "io_wait (c\<lparr>rx := r\<rparr>)")
      with "1.prems" Cons RecvAgain have ok: "ok" and rec: "io_recv len c2 = (Some d, c')"
        by (auto simp: io_recv.simps [of len c] split: if_splits)
      from io_wait_keeps(3) [of "c\<lparr>rx := r\<rparr>"] w have "rx c2 = r" by simp
      with "1.IH"(2) [OF Cons RecvAgain w [symmetric] refl _ rec] ok Cons RecvAgain
      show ?thesis by simp
    next
      case RecvErr
      with 1 Cons show ?thesis by (simp add: io_recv.simps [of len c])
    qed
  qed
qed

text \<open>A clean link: nothing but data and waits that end; then a read of zero bytes means the end.\<close>

definition clean :: "conn \<Rightarrow> bool" where
  "clean c \<longleftrightarrow> RecvErr \<notin> set (rx c) \<and> RecvData [] \<notin> set (rx c) \<and>
     (\<forall>p \<in> set (polls c). p = PollIntr \<or> (\<exists>pr. p = PollRet pr True \<and> pr > 0)) \<and> tx c = []"

lemma poll_loop_clean:
  "\<forall>p \<in> set ps. p = PollIntr \<or> (\<exists>pr. p = PollRet pr True \<and> pr > 0) \<Longrightarrow>
     fst (poll_loop ps) \<and> set (snd (poll_loop ps)) \<subseteq> set ps"
  by (induction ps rule: poll_loop.induct) auto

lemma io_wait_clean: "clean c \<Longrightarrow> fst (io_wait c) \<and> clean (snd (io_wait c))"
  using poll_loop_clean [of "polls c"]
  by (auto simp: io_wait_def clean_def split: prod.splits)

lemma io_recv_clean:
  "clean c \<Longrightarrow> 0 < len \<Longrightarrow> \<exists>d c'. io_recv len c = (Some d, c') \<and> clean c' \<and>
     (d = [] \<longleftrightarrow> rx_stream (rx c) = [])"
proof (induction len c rule: io_recv.induct)
  case (1 len c)
  show ?case
  proof (cases "rx c")
    case Nil
    with 1 show ?thesis by (auto simp: io_recv.simps)
  next
    case (Cons e r)
    show ?thesis
    proof (cases e)
      case (RecvData s)
      with 1 Cons have "s \<noteq> []" by (auto simp: clean_def)
      with 1 Cons RecvData show ?thesis by (auto simp: io_recv.simps [of len c] clean_def)
    next
      case RecvIntr
      from "1.prems" Cons have "clean (c\<lparr>rx := r\<rparr>)" by (auto simp: clean_def)
      with "1.IH"(1) [OF Cons RecvIntr] "1.prems" Cons RecvIntr show ?thesis
        by (simp add: io_recv.simps [of len c])
    next
      case RecvAgain
      from "1.prems" Cons have cl: "clean (c\<lparr>rx := r\<rparr>)" by (auto simp: clean_def)
      obtain ok c2 where w: "io_wait (c\<lparr>rx := r\<rparr>) = (ok, c2)" by (cases "io_wait (c\<lparr>rx := r\<rparr>)")
      from io_wait_clean [OF cl] w have ok: "ok" "clean c2" by simp_all
      from io_wait_keeps(3) [of "c\<lparr>rx := r\<rparr>"] w have r: "rx c2 = r" by simp
      with "1.IH"(2) [OF Cons RecvAgain w [symmetric] refl _ ok(2) "1.prems"(2)] ok w Cons RecvAgain
      show ?thesis by (auto simp: io_recv.simps [of len c])
    next
      case RecvErr
      with 1 Cons show ?thesis by (simp add: clean_def)
    qed
  qed
qed

section \<open>The request head, however it is cut into segments\<close>

lemma strstr_iff:
  "p \<noteq> [] \<Longrightarrow> strstr p s = Some i \<longleftrightarrow> starts_with p (drop i s) \<and> (\<forall>j < i. \<not> starts_with p (drop j s))"
proof
  assume p: "p \<noteq> []" and r: "starts_with p (drop i s) \<and> (\<forall>j < i. \<not> starts_with p (drop j s))"
  have "i \<le> length s" using r p by (cases "i \<le> length s") (auto simp: starts_with_def)
  with r have "strstr p s \<noteq> None" by (auto simp: strstr_None_iff)
  then obtain k where k: "strstr p s = Some k" by auto
  from strstr_Some_sound [OF k] strstr_first [OF k] r have "k = i"
    by (metis linorder_neqE_nat)
  with k show "strstr p s = Some i" by simp
qed (use strstr_Some_sound strstr_first in blast)

lemma starts_with_drop_prefix:
  "starts_with p (drop j t) \<Longrightarrow> starts_with p (drop j (t @ u))"
  by (auto simp: starts_with_iff)

lemma starts_with_drop_take:
  assumes "starts_with p (drop j (t @ u))" and "j + length p \<le> length t"
  shows "starts_with p (drop j t)"
  using assms by (simp add: starts_with_def)

lemma c_str_prefix: "\<exists>u. t = c_str t @ u"
  by (metis c_str_def takeWhile_dropWhile_id)

lemma c_str_long:
  "cstr (take n s) \<Longrightarrow> n \<le> length s \<Longrightarrow> n \<le> length (c_str s)"
proof (induction s arbitrary: n)
  case (Cons x xs)
  then show ?case by (cases n) (auto simp: c_str_def cstr_def)
qed (simp add: c_str_def)

lemma starts_with_length: "starts_with p s \<Longrightarrow> length p \<le> length s"
  by (auto simp: starts_with_iff)

lemma starts_with_drop_length:
  "starts_with p (drop k s) \<Longrightarrow> p \<noteq> [] \<Longrightarrow> k + length p \<le> length s"
  using starts_with_length [of p "drop k s"] by (cases "length p") auto

lemma strstr_prefix_found:
  assumes p: "p \<noteq> []" and s: "strstr p s = Some i"
    and "s = t @ u" and k: "strstr p (c_str t) = Some k"
  shows "k = i"
proof (rule ccontr)
  assume "k \<noteq> i"
  obtain v where v: "s = c_str t @ v @ u" using c_str_prefix [of t] assms(3) by auto
  from k p have k': "starts_with p (drop k (c_str t))" "\<And>j. j < k \<Longrightarrow> \<not> starts_with p (drop j (c_str t))"
    by (auto simp: strstr_iff)
  from s p have i: "starts_with p (drop i s)" "\<And>j. j < i \<Longrightarrow> \<not> starts_with p (drop j s)"
    by (auto simp: strstr_iff)
  have "starts_with p (drop k s)"
    using starts_with_drop_prefix [OF k'(1), of "v @ u"] v by simp
  with i(2) \<open>k \<noteq> i\<close> have "i < k" by (meson linorder_neqE_nat)
  moreover have "k + length p \<le> length (c_str t)"
    by (rule starts_with_drop_length [OF k'(1) p])
  moreover have "starts_with p (drop i (c_str t @ v @ u))"
    using i(1) v by simp
  ultimately have "starts_with p (drop i (c_str t))"
    using starts_with_drop_take [of p i "c_str t" "v @ u"] by linarith
  with k'(2) \<open>i < k\<close> show False by blast
qed

lemma strstr_prefix_missing:
  assumes p: "p \<noteq> []" and s: "strstr p s = Some i" and clean: "cstr (take (i + length p) s)"
    and "s = t @ u" and miss: "strstr p (c_str t) = None"
  shows "length t < i + length p"
proof (rule ccontr)
  assume "\<not> ?thesis"
  then have l: "i + length p \<le> length t" by simp
  with clean assms(4) have "cstr (take (i + length p) t)" by simp
  from c_str_long [OF this l] have cl: "i + length p \<le> length (c_str t)" .
  obtain v where v: "s = c_str t @ v @ u" using c_str_prefix [of t] assms(4) by auto
  have "starts_with p (drop i (c_str t @ v @ u))"
    using s p v by (auto simp: strstr_iff)
  from starts_with_drop_take [OF this cl] miss cl show False
    by (auto simp: strstr_None_iff)
qed

lemma read_head_stream:
  assumes "clean c" and "buf @ rx_stream (rx c) = s"
    and "strstr (CRLF @ CRLF) s = Some i" and "i + 4 < HTTP_MAX_HEADER" and "cstr (take (i + 4) s)"
    and "strstr (CRLF @ CRLF) (c_str buf) = None"
  shows "\<exists>buf' c'. read_head buf c = (Some (buf', i), c') \<and> clean c' \<and> buf' @ rx_stream (rx c') = s"
  using assms
proof (induction buf c rule: read_head.induct)
  case (1 buf c)
  have four: "length (CRLF @ CRLF) = 4" "CRLF @ CRLF \<noteq> []" by (simp_all add: CRLF_def)
  have i4: "cstr (take (i + length (CRLF @ CRLF)) s)" using "1.prems"(5) four by simp
  have short: "length buf < i + 4"
    using strstr_prefix_missing [OF four(2) "1.prems"(3) i4 "1.prems"(2) [symmetric] "1.prems"(6)] four by simp
  then have lt: "length buf < HTTP_MAX_HEADER - 1" using "1.prems"(4) by linarith
  have "i + 4 \<le> length s"
    using strstr_Some_sound [OF "1.prems"(3)] starts_with_drop_length four by metis
  with short "1.prems"(2) have ne: "rx_stream (rx c) \<noteq> []" by auto
  obtain d c' where d: "io_recv (HTTP_MAX_HEADER - 1 - length buf) c = (Some d, c')" "clean c'" "d \<noteq> []"
    using io_recv_clean [OF "1.prems"(1), of "HTTP_MAX_HEADER - 1 - length buf"] lt ne
    by (metis less_imp_Suc_add plus_1_eq_Suc zero_less_diff)
  from io_recv_stream [OF d(1)] "1.prems"(2) have st: "(buf @ d) @ rx_stream (rx c') = s" by simp
  show ?case
  proof (cases "strstr (CRLF @ CRLF) (c_str (buf @ d))")
    case None
    from "1.IH" [of _ _ d] lt d None st "1.prems" show ?thesis
      by (simp add: read_head.simps [of buf c])
  next
    case (Some k)
    with strstr_prefix_found [OF four(2) "1.prems"(3) st [symmetric] Some] lt d st show ?thesis
      by (simp add: read_head.simps [of buf c])
  qed
qed

lemma http_read_request_stream:
  assumes "clean c" and "strstr (CRLF @ CRLF) (rx_stream (rx c)) = Some i"
    and "i + 4 < HTTP_MAX_HEADER" and "cstr (take (i + 4) (rx_stream (rx c)))"
  shows "\<exists>l c'. http_read_request c =
           (parse_head (take i (rx_stream (rx c))) ((empty_request c')\<lparr>body_leftover := l\<rparr>), c') \<and>
         l @ rx_stream (rx c') = drop (i + 4) (rx_stream (rx c))"
proof -
  have "strstr (CRLF @ CRLF) (c_str []) = None" by (simp add: CRLF_def c_str_def)
  from read_head_stream [OF assms(1) _ assms(2-4) this] obtain buf c' where
    r: "read_head [] c = (Some (buf, i), c')" "buf @ rx_stream (rx c') = rx_stream (rx c)"
    by auto
  have "i + 4 \<le> length buf"
  proof -
    have *: "strstr (CRLF @ CRLF) (c_str buf) = Some i \<Longrightarrow> i + 4 \<le> length buf"
      using strstr_Some_sound [of "CRLF @ CRLF" "c_str buf" i] length_c_str [of buf]
      by (auto simp: starts_with_iff CRLF_def dest!: arg_cong [where f = length])
    have "read_head b e = (Some (buf, i), c') \<Longrightarrow> strstr (CRLF @ CRLF) (c_str buf) = Some i" for b e
      by (induction b e rule: read_head.induct)
        (subst (asm) (2) read_head.simps, auto split: if_splits prod.splits option.splits)
    with r(1) * show ?thesis by blast
  qed
  then have "take i (rx_stream (rx c)) = take i buf"
    and "drop (i + 4) (rx_stream (rx c)) = drop (i + 4) buf @ rx_stream (rx c')"
    by (simp_all add: r(2) [symmetric])
  with r(1) show ?thesis by (auto simp: http_read_request_def)
qed

section \<open>The body is the stream after the head, bounded by its announced length\<close>

definition body_stream :: "HttpRequest \<Rightarrow> string" where
  "body_stream r = body_leftover r @ rx_stream (rx (fd r))"

definition body_ok :: "HttpRequest \<Rightarrow> bool" where
  "body_ok r \<longleftrightarrow> (has_content_length r \<longrightarrow> body_consumed r \<le> content_length r)"

lemma send_continue_keeps:
  "send_continue r = (ok, r1) \<Longrightarrow> rx (fd r1) = rx (fd r) \<and> body_leftover r1 = body_leftover r \<and>
     body_consumed r1 = body_consumed r \<and> content_length r1 = content_length r \<and>
     has_content_length r1 = has_content_length r"
  using http_write_all_rx [of kContinue "fd r"]
  by (auto simp: send_continue_def split: if_splits prod.splits)

lemma http_read_body_stream:
  assumes "http_read_body len r = (Some d, r')"
  shows "body_stream r = d @ body_stream r'" and "body_consumed r' = body_consumed r + length d"
    and "length d \<le> len" and "content_length r' = content_length r"
    and "has_content_length r' = has_content_length r" and "body_ok r \<Longrightarrow> body_ok r'"
proof -
  have "body_stream r = d @ body_stream r' \<and> body_consumed r' = body_consumed r + length d \<and>
    length d \<le> len \<and> content_length r' = content_length r \<and> has_content_length r' = has_content_length r \<and>
    (body_ok r \<longrightarrow> body_ok r')"
  proof (cases "has_content_length r \<and> content_length r - body_consumed r = 0")
    case True
    with assms show ?thesis by (simp add: http_read_body_def)
  next
    case False
    define n where "n = (if has_content_length r then min len (content_length r - body_consumed r) else len)"
    show ?thesis
    proof (cases "body_leftover r = []")
      case left: False
      let ?m = "min (length (body_leftover r)) n"
      have r': "d = take ?m (body_leftover r)"
        "r' = r\<lparr>body_leftover := drop ?m (body_leftover r), body_consumed := body_consumed r + ?m\<rparr>"
        using assms False left by (auto simp: http_read_body_def n_def Let_def split: if_splits)
      have "length d = ?m" by (simp add: r'(1))
      moreover have "body_leftover r = d @ drop ?m (body_leftover r)" unfolding r'(1) by simp
      ultimately show ?thesis unfolding r'(2)
        by (auto simp: body_stream_def body_ok_def n_def split: if_splits)
    next
      case left: True
      obtain ok r1 where s: "send_continue r = (ok, r1)" by (cases "send_continue r")
      with assms False left obtain c where c: "io_recv n (fd r1) = (Some d, c)"
        "r' = r1\<lparr>fd := c, body_consumed := body_consumed r1 + length d\<rparr>"
        by (auto simp: http_read_body_def n_def split: if_splits prod.splits option.splits)
      from io_recv_length [OF c(1)] have "length d \<le> n" .
      then show ?thesis using c(2) left send_continue_keeps [OF s] io_recv_stream [OF c(1)]
        by (auto simp: body_stream_def body_ok_def n_def split: if_splits)
    qed
  qed
  then show "body_stream r = d @ body_stream r'" and "body_consumed r' = body_consumed r + length d"
    and "length d \<le> len" and "content_length r' = content_length r"
    and "has_content_length r' = has_content_length r" and "body_ok r \<Longrightarrow> body_ok r'" by blast+
qed

text \<open>
  The loop every reader of a body runs, \<open>while ((n = http_read_body(req, buf, len)) > 0)\<close>: the
  bytes it got, and whether it ended with 0 rather than with an error.
\<close>

function read_body_all :: "nat \<Rightarrow> HttpRequest \<Rightarrow> string \<times> bool \<times> HttpRequest" where
  "read_body_all len r =
     (case http_read_body len r of
        (None, r') \<Rightarrow> ([], False, r')
      | (Some d, r') \<Rightarrow>
          if d = [] then ([], True, r')
          else (let (rest, ok, r2) = read_body_all len r' in (d @ rest, ok, r2)))"
  by pat_completeness auto
termination
  by (relation "measure (\<lambda>(n, r). length (body_stream r))")
    (auto dest: http_read_body_stream(1) [OF sym])

declare read_body_all.simps [simp del]

lemma send_continue_clean:
  "clean (fd r) \<Longrightarrow> \<exists>r1. send_continue r = (True, r1) \<and> clean (fd r1)"
  by (auto simp: send_continue_def http_write_all_healthy clean_def)

lemma http_read_body_clean:
  assumes "clean (fd r)" and "0 < len" and "body_ok r"
  shows "\<exists>d r'. http_read_body len r = (Some d, r') \<and> clean (fd r') \<and>
    (d = [] \<longleftrightarrow> (if has_content_length r then take (content_length r - body_consumed r) (body_stream r)
                 else body_stream r) = [])"
proof (cases "has_content_length r \<and> content_length r - body_consumed r = 0")
  case True
  with assms show ?thesis by (auto simp: http_read_body_def)
next
  case False
  define n where "n = (if has_content_length r then min len (content_length r - body_consumed r) else len)"
  have n: "0 < n" using False assms(2) by (auto simp: n_def)
  show ?thesis
  proof (cases "body_leftover r = []")
    case left: False
    have "take n (body_leftover r) \<noteq> []" using n left by simp
    with False left assms show ?thesis
      by (auto simp: http_read_body_def n_def [symmetric] min_def body_stream_def)
  next
    case left: True
    obtain r1 where s: "send_continue r = (True, r1)" "clean (fd r1)"
      using send_continue_clean [OF assms(1)] by auto
    from io_recv_clean [OF s(2) n] obtain d c where d: "io_recv n (fd r1) = (Some d, c)" "clean c"
      "d = [] \<longleftrightarrow> rx_stream (rx (fd r1)) = []" by auto
    with send_continue_keeps [OF s(1)] have e: "d = [] \<longleftrightarrow> rx_stream (rx (fd r)) = []" by simp
    have "http_read_body len r = (Some d, r1\<lparr>fd := c, body_consumed := body_consumed r1 + length d\<rparr>)"
      using False left s(1) d(1) by (auto simp: http_read_body_def n_def [symmetric])
    with False left d e show ?thesis by (auto simp: body_stream_def)
  qed
qed

lemma read_body_all_clean:
  assumes "clean (fd r)" and "0 < len" and "body_ok r"
  shows "fst (read_body_all len r) =
      (if has_content_length r then take (content_length r - body_consumed r) (body_stream r)
       else body_stream r) \<and> fst (snd (read_body_all len r))"
  using assms
proof (induction len r rule: read_body_all.induct)
  case (1 len r)
  from http_read_body_clean [OF "1.prems"] obtain d r' where d: "http_read_body len r = (Some d, r')"
    "clean (fd r')" and e: "d = [] \<longleftrightarrow> (if has_content_length r
       then take (content_length r - body_consumed r) (body_stream r) else body_stream r) = []"
    by auto
  note st = http_read_body_stream [OF d(1)]
  show ?case
  proof (cases "d = []")
    case True
    with d e show ?thesis by (simp add: read_body_all.simps [of len r])
  next
    case False
    have "length d \<le> content_length r - body_consumed r" if "has_content_length r"
      using st(6) [OF "1.prems"(3)] st(2,4,5) that by (simp add: body_ok_def)
    moreover from "1.IH" [OF d(1) [symmetric] refl False d(2) "1.prems"(2) st(6) [OF "1.prems"(3)]]
    have "fst (read_body_all len r') = (if has_content_length r
        then take (content_length r - body_consumed r - length d) (body_stream r') else body_stream r') \<and>
        fst (snd (read_body_all len r'))"
      by (simp add: st)
    ultimately show ?thesis using d(1) False st(1)
      by (auto simp: read_body_all.simps [of len r] split: prod.splits)
  qed
qed

section \<open>Constant-time comparison is equality\<close>

lemma byte_eq_iff: "byte a = byte b \<longleftrightarrow> a = b"
  by (metis unbyte_byte)

lemma byte_0_iff: "byte a = 0 \<longleftrightarrow> a = NUL"
proof -
  have "byte NUL = 0" by simp
  then show ?thesis by (metis byte_eq_iff)
qed

lemma foldl_or_0:
  "foldl (\<lambda>d i. d OR (f i :: u8)) d is = 0 \<longleftrightarrow> d = 0 \<and> (\<forall>i \<in> set is. f i = 0)"
  by (induction "is" arbitrary: d) (auto simp: or_eq_0_iff)

lemma xor_0_iff: "(a :: u8) XOR b = 0 \<longleftrightarrow> a = b"
  by (metis bit.xor_left_self xor.right_neutral xor_self_eq)

lemma http_secure_streq_iff:
  assumes "cstr a" and "cstr b"
  shows "http_secure_streq a b \<longleftrightarrow> a = b"
proof
  assume "http_secure_streq a b"
  then have *: "\<And>i. i < max (length a) (length b) \<Longrightarrow> str_at a i = str_at b i"
    by (auto simp: http_secure_streq_def Let_def foldl_or_0 xor_0_iff max_def split: if_splits)
  have "\<not> length x < length y" if "cstr y" "\<And>i. i < max (length x) (length y) \<Longrightarrow> str_at x i = str_at y i"
    for x y
  proof
    assume l: "length x < length y"
    with that(2) [of "length x"] have "byte (y ! length x) = 0" by (simp add: str_at_def)
    then have "y ! length x = NUL" by (simp add: byte_0_iff)
    with l that(1) show False by (metis cstr_def nth_mem)
  qed
  from this [of b a] this [of a b] * assms have len: "length a = length b"
    by (metis linorder_neqE_nat max.commute)
  show "a = b"
    by (rule nth_equalityI [OF len]) (use * len in \<open>auto simp: str_at_def byte_eq_iff\<close>)
qed (unfold http_secure_streq_def Let_def foldl_or_0, simp)

text \<open>Basic credentials are accepted exactly when the decoded text is \<open>user:pass\<close>.\<close>

lemma basic_auth_encoded:
  assumes "auth r = ''Basic '' @ b64_encode (map byte creds)" and "length creds \<le> 195"
    and "cstr creds" and "cstr user" and "cstr pass"
  shows "http_check_basic_auth r user pass \<longleftrightarrow> creds = user @ '':'' @ pass"
proof -
  have "b64_encoded_len (length creds) div 4 \<le> 65"
    using assms(2) by (simp add: b64_encoded_len_def)
  then have "b64_decode (b64_encode (map byte creds)) 200 = map byte creds"
    by (simp add: b64_decode_encode)
  moreover have "map unbyte (map byte creds) = creds" by (simp add: map_idI)
  moreover have "cstr (user @ '':'' @ pass)" using assms by (auto simp: cstr_def)
  ultimately show ?thesis
    using assms by (auto simp: http_check_basic_auth_def Let_def strncaseeq_def http_secure_streq_iff c_str_id)
qed

section \<open>Parameters: the first pair with the key\<close>

fun split_on :: "char \<Rightarrow> string \<Rightarrow> string list" where
  "split_on c [] = [[]]"
| "split_on c (x # xs) =
     (if x = c then [] # split_on c xs
      else (case split_on c xs of [] \<Rightarrow> [[x]] | y # ys \<Rightarrow> (x # y) # ys))"

fun param_lookup :: "string list \<Rightarrow> string \<Rightarrow> nat \<Rightarrow> string option" where
  "param_lookup [] key n = None"
| "param_lookup (pr # prs) key n =
     (if starts_with (key @ ''='') pr then Some (url_decode (drop (length key + 1) pr) n)
      else if pr = key then Some []
      else param_lookup prs key n)"

lemma split_on_strchr:
  "split_on c s = (case strchr c s of None \<Rightarrow> [s] | Some i \<Rightarrow> take i s # split_on c (drop (i + 1) s))"
  by (induction s) (auto split: option.splits)

lemma split_on_nodot: "c \<notin> set s \<Longrightarrow> split_on c s = [s]"
  by (simp add: split_on_strchr [of c s] strchr_None_iff [THEN iffD2])

lemma split_on_app: "c \<notin> set s \<Longrightarrow> split_on c (s @ c # t) = s # split_on c t"
  by (simp add: split_on_strchr [of c "s @ c # t"] strchr_append)

lemma split_on_nonempty: "split_on c s \<noteq> []"
  by (induction s) (auto split: list.splits)

lemma split_on_nodots: "l \<in> set (split_on c s) \<Longrightarrow> c \<notin> set l"
  by (induction s arbitrary: l) (auto split: list.splits if_splits)

text \<open>A member of the split is a maximal run between separators.\<close>

lemma split_on_member:
  "s \<in> set (split_on c u) \<longleftrightarrow>
     c \<notin> set s \<and> (\<exists>a b. u = a @ s @ b \<and> (a = [] \<or> last a = c) \<and> (b = [] \<or> hd b = c))"
proof (induction "length u" arbitrary: u rule: less_induct)
  case less
  let ?R = "\<lambda>u. \<exists>a b. u = a @ s @ b \<and> (a = [] \<or> last a = c) \<and> (b = [] \<or> hd b = c)"
  show ?case
  proof (cases "c \<in> set u")
    case False
    have "?R u \<longleftrightarrow> s = u"
    proof
      assume "?R u"
      then obtain a b where e: "u = a @ s @ b" "a = [] \<or> last a = c" "b = [] \<or> hd b = c" by auto
      with False have "a = []" using last_in_set by fastforce
      moreover from e False have "b = []" by (cases b) auto
      ultimately show "s = u" using e(1) by simp
    qed (intro exI [of _ "[]"], simp)
    with False show ?thesis by (auto simp: split_on_nodot)
  next
    case True
    then obtain l t where u: "u = l @ c # t" "c \<notin> set l" using split_list_first by metis
    have ih: "s \<in> set (split_on c t) \<longleftrightarrow> c \<notin> set s \<and> ?R t" by (rule less) (simp add: u(1))
    have "?R u \<longleftrightarrow> s = l \<or> ?R t" if s: "c \<notin> set s"
    proof
      assume "?R u"
      then obtain a b where e: "u = a @ s @ b" "a = [] \<or> last a = c" "b = [] \<or> hd b = c" by auto
      show "s = l \<or> ?R t"
      proof (cases "a = []")
        case True
        with e u s obtain b' where "b = c # b'" by (cases b) (auto simp: u)
        with True e(1) u s have "s = l" by (auto simp: append_eq_append_conv2 append_eq_Cons_conv Cons_eq_append_conv)
        then show ?thesis by simp
      next
        case False
        with e(2) obtain a' where a: "a = a' @ [c]" by (metis append_butlast_last_id)
        from e(1) u have "l @ c # t = a' @ c # s @ b" by (simp add: a)
        with u(2) consider "a' = l" "t = s @ b" | x where "a' = l @ c # x" "t = x @ c # s @ b"
          by (auto simp: append_eq_append_conv2 append_eq_Cons_conv Cons_eq_append_conv)
        then show ?thesis
        proof cases
          case 1
          with e(3) show ?thesis by (metis append_Nil)
        next
          case 2
          then have "t = (x @ [c]) @ s @ b" by simp
          with e(3) show ?thesis by (metis last_snoc)
        qed
      qed
    next
      assume "s = l \<or> ?R t"
      then show "?R u"
      proof
        assume "s = l"
        then show ?thesis using u(1) by (metis append_Nil list.sel(1))
      next
        assume "?R t"
        then obtain a b where e: "t = a @ s @ b" "a = [] \<or> last a = c" "b = [] \<or> hd b = c" by auto
        then have "u = (l @ c # a) @ s @ b" "last (l @ c # a) = c" by (auto simp: u(1))
        with e(3) show ?thesis by blast
      qed
    qed
    then show ?thesis using ih u(2) by (auto simp: u(1) split_on_app)
  qed
qed

lemma starts_with_snoc:
  "starts_with (k @ [c]) s \<longleftrightarrow> length k < length s \<and> take (length k) s = k \<and> s ! length k = c"
proof (induction k arbitrary: s)
  case Nil
  then show ?case by (cases s) (auto simp: starts_with_Cons)
next
  case (Cons x k)
  then show ?case by (cases s) (auto simp: starts_with_Cons)
qed

lemma param_pair:
  assumes "pr = take n p" and "n \<le> length p"
  shows "(n > length key \<and> strneq (length key) p key \<and> p ! length key = CHR ''='') \<longleftrightarrow>
      starts_with (key @ ''='') pr"
    and "(n = length key \<and> strneq (length key) p key) \<longleftrightarrow> pr = key"
    and "take (n - length key - 1) (drop (length key + 1) p) = drop (length key + 1) pr"
proof -
  note starts_with_snoc [of key "CHR ''=''" pr]
  with assms show "(n > length key \<and> strneq (length key) p key \<and> p ! length key = CHR ''='') \<longleftrightarrow>
      starts_with (key @ ''='') pr"
    by (auto simp: strneq_def min_def)
  from assms show "(n = length key \<and> strneq (length key) p key) \<longleftrightarrow> pr = key"
    by (auto simp: strneq_def)
  from assms show "take (n - length key - 1) (drop (length key + 1) p) = drop (length key + 1) pr"
    by (simp add: drop_take)
qed

lemma http_param_get_spec:
  assumes "key \<noteq> []"
  shows "http_param_get p key n = param_lookup (split_on (CHR ''&'') p) key n"
  using assms
proof (induction p key n rule: http_param_get.induct)
  case (1 p key n)
  show ?case
  proof (cases "p = []")
    case True
    with "1.prems" show ?thesis by (auto simp: http_param_get.simps starts_with_def)
  next
    case False
    show ?thesis
    proof (cases "strchr (CHR ''&'') p")
      case None
      from param_pair [of p "length p" p key] False None show ?thesis
        by (simp add: http_param_get.simps [of p key n] split_on_strchr [of _ p])
    next
      case (Some i)
      then have i: "i < length p" by (simp add: strchr_Some_iff)
      from param_pair [of "take i p" i p key] i
      have eq: "http_param_get p key n =
        (if starts_with (key @ ''='') (take i p) then Some (url_decode (drop (length key + 1) (take i p)) n)
         else if take i p = key then Some [] else http_param_get (drop (i + 1) p) key n)"
        using False Some by (simp add: http_param_get.simps [of p key n])
      show ?thesis
      proof (cases "starts_with (key @ ''='') (take i p) \<or> take i p = key")
        case True
        then show ?thesis unfolding eq by (auto simp: split_on_strchr [of _ p] Some)
      next
        case no: False
        from param_pair [of "take i p" i p key] i no
        have "\<not> (i > length key \<and> strneq (length key) p key \<and> p ! length key = CHR ''='')"
          "\<not> (i = length key \<and> strneq (length key) p key)" by auto
        then have "http_param_get (drop (i + 1) p) key n = param_lookup (split_on (CHR ''&'') (drop (i + 1) p)) key n"
          by (intro "1.IH" [OF False refl refl refl _ _ Some "1.prems"]) (simp_all add: Some)
        with no show ?thesis unfolding eq by (simp add: split_on_strchr [of _ p] Some)
      qed
    qed
  qed
qed

section \<open>Properties\<close>

text \<open>Whatever the socket reports, what \<open>http_write_all\<close> puts on the wire is a prefix of the
  buffer, and it reports success exactly when that prefix is the whole buffer.\<close>

theorem write_all_prefix:
  "\<exists>k. k \<le> length p \<and> sent (snd (http_write_all p c)) = sent c @ take k p \<and>
     (fst (http_write_all p c) \<longleftrightarrow> k = length p)"
  using http_write_all_prefix by blast

text \<open>C10: on a connection without errors the request is parsed from the bytes before the first blank
  line, and everything after it stays for the body, however the bytes were cut into segments and
  whatever interruptions came between.\<close>

theorem request_any_segmentation:
  assumes "clean c" and "strstr (CRLF @ CRLF) (rx_stream (rx c)) = Some i"
    and "i + 4 < HTTP_MAX_HEADER" and "cstr (take (i + 4) (rx_stream (rx c)))"
  shows "\<exists>l c'. http_read_request c =
           (parse_head (take i (rx_stream (rx c))) ((empty_request c')\<lparr>body_leftover := l\<rparr>), c') \<and>
         l @ rx_stream (rx c') = drop (i + 4) (rx_stream (rx c))"
  using assms by (rule http_read_request_stream)

theorem request_any_segmentation_witness:
  "\<exists>l c'. http_read_request \<lparr>rx = [RecvData (''GET /'' @ CRLF), RecvAgain, RecvData (CRLF @ ''x'')],
       tx = [], polls = [], sent = [], g_keep_alive = False\<rparr> =
     (parse_head ''GET /'' ((empty_request c')\<lparr>body_leftover := l\<rparr>), c') \<and> l @ rx_stream (rx c') = ''x''"
  using request_any_segmentation [of "\<lparr>rx = [RecvData (''GET /'' @ CRLF), RecvAgain, RecvData (CRLF @ ''x'')],
       tx = [], polls = [], sent = [], g_keep_alive = False\<rparr>" 5]
  by (simp add: clean_def CRLF_def starts_with_def cstr_def HTTP_MAX_HEADER_def)

text \<open>C11: reading a body until the reader says it is over gives the bytes that follow the head, cut
  at the announced length and never past it, in whatever pieces they are read.\<close>

theorem body_read_to_end:
  assumes "clean (fd r)" and "0 < len" and "body_ok r"
  shows "fst (read_body_all len r) =
      (if has_content_length r then take (content_length r - body_consumed r) (body_stream r)
       else body_stream r) \<and> fst (snd (read_body_all len r))"
  using assms by (rule read_body_all_clean)

theorem body_read_to_end_witness:
  "fst (read_body_all 4 ((empty_request \<lparr>rx = [RecvData ''efgh'', RecvData ''ij''], tx = [], polls = [],
      sent = [], g_keep_alive = False\<rparr>)\<lparr>body_leftover := ''abcd'', has_content_length := True,
      content_length := 9\<rparr>)) = ''abcdefghi''"
  using body_read_to_end [of "(empty_request \<lparr>rx = [RecvData ''efgh'', RecvData ''ij''], tx = [], polls = [],
      sent = [], g_keep_alive = False\<rparr>)\<lparr>body_leftover := ''abcd'', has_content_length := True,
      content_length := 9\<rparr>" 4]
  by (simp add: clean_def empty_request_def body_ok_def body_stream_def)

text \<open>The constant-time comparison of two C strings is equality.\<close>

theorem secure_streq_is_equality:
  assumes "cstr a" and "cstr b"
  shows "http_secure_streq a b \<longleftrightarrow> a = b"
  using assms by (rule http_secure_streq_iff)

theorem secure_streq_is_equality_witness:
  "http_secure_streq ''key'' ''kez'' \<longleftrightarrow> ''key'' = ''kez''"
  by (rule secure_streq_is_equality) (simp_all add: cstr_def)

text \<open>C23: a \<open>Basic\<close> header is accepted exactly when the credentials it encodes are the configured
  ones, for every header that fits the request's 255 characters.\<close>

theorem basic_auth_exact:
  assumes "auth r = ''Basic '' @ b64_encode (map byte creds)" and "length creds \<le> 195"
    and "cstr creds" and "cstr user" and "cstr pass"
  shows "http_check_basic_auth r user pass \<longleftrightarrow> creds = user @ '':'' @ pass"
  using assms by (rule basic_auth_encoded)

theorem basic_auth_exact_witness:
  "http_check_basic_auth ((empty_request \<lparr>rx = [], tx = [], polls = [], sent = [], g_keep_alive = False\<rparr>)
     \<lparr>auth := ''Basic '' @ b64_encode (map byte ''u:p'')\<rparr>) ''u'' ''p''"
  using basic_auth_exact [of "(empty_request \<lparr>rx = [], tx = [], polls = [], sent = [], g_keep_alive = False\<rparr>)\<lparr>auth := ''Basic '' @ b64_encode (map byte ''u:p'')\<rparr>" "''u:p''" "''u''" "''p''"]
  by (simp add: cstr_def)

text \<open>A parameter is the value of the first pair with its key, decoded; a key without \<open>=\<close> counts
  as present and empty.\<close>

theorem param_get_first_pair:
  assumes "key \<noteq> []"
  shows "http_param_get p key n = param_lookup (split_on (CHR ''&'') p) key n"
  using assms by (rule http_param_get_spec)

theorem param_get_first_pair_witness:
  "http_param_get ''a=1&b=%41'' ''b'' 8 = param_lookup [''a=1'', ''b=%41''] ''b'' 8"
  using param_get_first_pair [of "''b''" "''a=1&b=%41''" 8] by simp

end
