(* ===== verification/Logging.thy ===== *)
theory Logging
  imports Interfaces
begin

text \<open>
  \<open>source/core/log.c\<close>: the record format, the level filter, the sleep-window block, rotation and the
  tick-based wall clock. The SD card is a map from paths to contents (\<open>sd\<close>), shared with the other
  components that keep files; what the card answers to the calls of the sink is an argument (\<open>log_io\<close>).
  The message is the text its format produces.
\<close>

section \<open>Levels\<close>

datatype LogLevel = LOG_LEVEL_DEBUG | LOG_LEVEL_INFO | LOG_LEVEL_WARN | LOG_LEVEL_ERROR | LOG_LEVEL_OFF

primrec level_num :: "LogLevel \<Rightarrow> nat" where
  "level_num LOG_LEVEL_DEBUG = 0"
| "level_num LOG_LEVEL_INFO = 1"
| "level_num LOG_LEVEL_WARN = 2"
| "level_num LOG_LEVEL_ERROR = 3"
| "level_num LOG_LEVEL_OFF = 4"

lemma level_num_inj: "level_num a = level_num b \<longleftrightarrow> a = b"
  by (cases a; cases b) simp_all

instantiation LogLevel :: linorder
begin

definition less_eq_LogLevel :: "LogLevel \<Rightarrow> LogLevel \<Rightarrow> bool" where
  "a \<le> b \<longleftrightarrow> level_num a \<le> level_num b"

definition less_LogLevel :: "LogLevel \<Rightarrow> LogLevel \<Rightarrow> bool" where
  "a < b \<longleftrightarrow> level_num a < level_num b"

instance
  by standard (auto simp: less_eq_LogLevel_def less_LogLevel_def level_num_inj)

end

definition kLevelChar :: string where
  "kLevelChar = ''DIWE''"

section \<open>Records\<close>

record tm =
  tm_year :: nat
  tm_mon :: nat
  tm_mday :: nat
  tm_hour :: nat
  tm_min :: nat
  tm_sec :: nat

definition LOG_LINE_MAX :: nat where
  "LOG_LINE_MAX = 512"

definition LOG_MODULE_WIDTH :: nat where
  "LOG_MODULE_WIDTH = 8"

text \<open>\<open>%-8.8s\<close>.\<close>

definition column :: "nat \<Rightarrow> string \<Rightarrow> string" where
  "column w s = take w s @ replicate (w - length s) (CHR '' '')"

definition log_prefix :: "LogLevel \<Rightarrow> string \<Rightarrow> tm \<Rightarrow> nat \<Rightarrow> string" where
  "log_prefix level module t ms =
     ''|'' @ [if level_num level < length kLevelChar then kLevelChar ! level_num level else CHR ''?''] @
     ''|'' @ pad0 4 (dec (tm_year t + 1900)) @ ''-'' @ pad0 2 (dec (tm_mon t + 1)) @ ''-'' @
     pad0 2 (dec (tm_mday t)) @ '' '' @ pad0 2 (dec (tm_hour t)) @ '':'' @ pad0 2 (dec (tm_min t)) @
     '':'' @ pad0 2 (dec (tm_sec t)) @ ''.'' @ pad0 3 (dec ms) @ ''|'' @
     column LOG_MODULE_WIDTH module @ ''| ''"

definition log_format_line :: "nat \<Rightarrow> LogLevel \<Rightarrow> string \<Rightarrow> tm \<Rightarrow> nat \<Rightarrow> string \<Rightarrow> string" where
  "log_format_line bufsz level module t ms msg =
     (if bufsz < 2 then []
      else let room = bufsz - 1;
               pre = log_prefix level module t ms;
               out = (if length pre < room then pre else take (room - 1) pre);
               out = (if length out < room - 1 then
                        (if 0 < length msg then
                           out @ take (if length msg < room - length out then length msg
                                       else room - length out - 1) msg
                         else out)
                      else out)
           in out @ [LF])"

section \<open>The clock\<close>

text \<open>
  System ticks are counted in nanoseconds (\<open>armTicksToNs\<close> applied). \<open>wall\<close> is what the time service
  answers when it is asked, \<^term>\<open>None\<close> when it fails.
\<close>

record anchor =
  g_anchor_tick :: nat
  g_anchor_local :: int
  g_checked_tick :: nat
  g_anchored :: bool

definition now_local :: "nat \<Rightarrow> int option \<Rightarrow> anchor \<Rightarrow> int \<times> nat \<times> anchor" where
  "now_local tick wall a =
     (let a = (if \<not> g_anchored a \<or> tick - g_checked_tick a \<ge> 60 * 1000000000 then
                 (let a = a\<lparr>g_checked_tick := tick, g_anchored := True\<rparr> in
                  case wall of
                    None \<Rightarrow> a
                  | Some w \<Rightarrow>
                      (let est = g_anchor_local a + int ((tick - g_anchor_tick a) div 1000000000)
                       in if est - w > 1 \<or> w - est > 1
                          then a\<lparr>g_anchor_tick := tick, g_anchor_local := w\<rparr> else a))
               else a);
          ns = tick - g_anchor_tick a
      in (g_anchor_local a + int (ns div 1000000000), (ns div 1000000) mod 1000, a))"

section \<open>The sink\<close>

type_synonym sd = "string \<Rightarrow> string option"

definition LOG_FILE_PATH :: string where
  "LOG_FILE_PATH = ''sdmc:/config/sys-autopilot/log.txt''"

definition LOG_OLD_FILE_PATH :: string where
  "LOG_OLD_FILE_PATH = ''sdmc:/config/sys-autopilot/log.old.txt''"

definition LOG_FILE_SIZE_MAX :: nat where
  "LOG_FILE_SIZE_MAX = 256 * 1024"

record log_state =
  g_log_level :: LogLevel
  g_log_suspended :: bool

text \<open>
  What the card answers to one call of the sink: whether the log can be opened, how many bytes \<open>fwrite\<close> gets on it, and
  whether the old log can be removed and the log renamed. The results are ignored, so a refused rename leaves the log
  where it is, and the next record is appended to it.
\<close>

record log_io =
  io_open :: bool
  io_written :: nat
  io_remove :: bool
  io_rename :: bool

definition rotate :: "log_io \<Rightarrow> sd \<Rightarrow> sd" where
  "rotate io m =
     (let m = (if io_remove io then m(LOG_OLD_FILE_PATH := None) else m) in
      case m LOG_FILE_PATH of
        None \<Rightarrow> m
      | Some c \<Rightarrow> if io_rename io then m(LOG_OLD_FILE_PATH := Some c, LOG_FILE_PATH := None) else m)"

definition log_set_level :: "log_io \<Rightarrow> LogLevel \<Rightarrow> log_state \<times> sd \<Rightarrow> log_state \<times> sd" where
  "log_set_level io level s =
     (let st = (fst s)\<lparr>g_log_level := level\<rparr> in
      if level = LOG_LEVEL_OFF \<or> g_log_suspended st then (st, snd s)
      else case snd s LOG_FILE_PATH of
        Some c \<Rightarrow> if length c \<ge> LOG_FILE_SIZE_MAX then (st, rotate io (snd s)) else (st, snd s)
      | None \<Rightarrow> (st, snd s))"

definition log_set_suspended :: "bool \<Rightarrow> log_state \<times> sd \<Rightarrow> log_state \<times> sd" where
  "log_set_suspended b s = ((fst s)\<lparr>g_log_suspended := b\<rparr>, snd s)"

definition log_write ::
    "log_io \<Rightarrow> tm \<Rightarrow> nat \<Rightarrow> LogLevel \<Rightarrow> string \<Rightarrow> string \<Rightarrow> log_state \<times> sd \<Rightarrow> log_state \<times> sd" where
  "log_write io t ms level module msg s =
     (if level < g_log_level (fst s) \<or> g_log_level (fst s) = LOG_LEVEL_OFF \<or> g_log_suspended (fst s)
      then s
      else let line = log_format_line LOG_LINE_MAX level module t ms msg in
        if \<not> io_open io then s
        else let c = (case snd s LOG_FILE_PATH of Some c \<Rightarrow> c | None \<Rightarrow> []) @ take (io_written io) line;
                 m = (snd s)(LOG_FILE_PATH := Some c)
             in (fst s, if length c \<ge> LOG_FILE_SIZE_MAX then rotate io m else m))"

section \<open>Lemmas\<close>

lemma log_format_line_eq:
  "2 \<le> bufsz \<Longrightarrow> log_format_line bufsz level module t ms msg =
     take (bufsz - 2) (log_prefix level module t ms @ msg) @ [LF]"
  by (auto simp: log_format_line_def Let_def numeral_2_eq_2)

lemma length_log_format_line: "length (log_format_line LOG_LINE_MAX level module t ms msg) < LOG_LINE_MAX"
  by (simp add: log_format_line_eq LOG_LINE_MAX_def)

lemma paths_differ: "LOG_FILE_PATH \<noteq> LOG_OLD_FILE_PATH" "LOG_OLD_FILE_PATH \<noteq> LOG_FILE_PATH"
  by (simp_all add: LOG_FILE_PATH_def LOG_OLD_FILE_PATH_def)

definition log_text :: "sd \<Rightarrow> string" where
  "log_text m = (case m LOG_FILE_PATH of Some c \<Rightarrow> c | None \<Rightarrow> [])"

definition old_text :: "sd \<Rightarrow> string" where
  "old_text m = (case m LOG_OLD_FILE_PATH of Some c \<Rightarrow> c | None \<Rightarrow> [])"

lemma rotate_texts:
  "log_text (rotate io m) = (if io_rename io then [] else log_text m)"
  "old_text (rotate io m) = (if io_rename io \<and> m LOG_FILE_PATH \<noteq> None then log_text m else if io_remove io then [] else old_text m)"
  by (auto simp: rotate_def log_text_def old_text_def Let_def paths_differ split: option.splits)

lemma rotate_others: "p \<noteq> LOG_FILE_PATH \<Longrightarrow> p \<noteq> LOG_OLD_FILE_PATH \<Longrightarrow> rotate io m p = m p"
  by (auto simp: rotate_def Let_def split: option.splits)

text \<open>
  With k renames refused so far, the log is less than k records past its limit, the rotated file less than one more.
\<close>

definition log_bounded :: "nat \<Rightarrow> sd \<Rightarrow> bool" where
  "log_bounded k m \<longleftrightarrow> length (log_text m) < LOG_FILE_SIZE_MAX + k * LOG_LINE_MAX \<and>
     length (old_text m) < LOG_FILE_SIZE_MAX + (k + 1) * LOG_LINE_MAX"

lemma log_bounded_mono: "log_bounded k m \<Longrightarrow> k \<le> n \<Longrightarrow> log_bounded n m"
proof -
  assume b: "log_bounded k m" and "k \<le> n"
  then have "k * LOG_LINE_MAX \<le> n * LOG_LINE_MAX" by (intro mult_le_mono1)
  with b show ?thesis unfolding log_bounded_def add_mult_distrib by linarith
qed

text \<open>A rotation is asked for when the log has reached the limit; its rename may be refused.\<close>

definition write_refused :: "log_io \<Rightarrow> tm \<Rightarrow> nat \<Rightarrow> LogLevel \<Rightarrow> string \<Rightarrow> string \<Rightarrow> log_state \<times> sd \<Rightarrow> bool" where
  "write_refused io t ms level module msg s \<longleftrightarrow> \<not> io_rename io \<and> log_text (snd (log_write io t ms level module msg s)) \<noteq> log_text (snd s) \<and>
     length (log_text (snd (log_write io t ms level module msg s))) \<ge> LOG_FILE_SIZE_MAX"

lemma log_write_bounded:
  assumes "log_bounded k (snd s)"
  shows "log_bounded (k + of_bool (write_refused io t ms level module msg s)) (snd (log_write io t ms level module msg s))"
proof (cases "level < g_log_level (fst s) \<or> g_log_level (fst s) = LOG_LEVEL_OFF \<or> g_log_suspended (fst s) \<or> \<not> io_open io")
  case True
  then have "log_write io t ms level module msg s = s" by (auto simp: log_write_def)
  then show ?thesis using assms by (simp add: write_refused_def)
next
  case False
  define line where "line = take (io_written io) (log_format_line LOG_LINE_MAX level module t ms msg)"
  define c where "c = log_text (snd s) @ line"
  let ?m = "(snd s)(LOG_FILE_PATH := Some c)"
  have w: "snd (log_write io t ms level module msg s) = (if length c \<ge> LOG_FILE_SIZE_MAX then rotate io ?m else ?m)"
    using False by (simp add: log_write_def Let_def c_def line_def log_text_def)
  have l: "length line < LOG_LINE_MAX" using length_log_format_line [of level module t ms msg] by (simp add: line_def min_def)
  have t: "log_text ?m = c" "old_text ?m = old_text (snd s)" by (simp_all add: log_text_def old_text_def paths_differ)
  have c: "length c < LOG_FILE_SIZE_MAX + (k + 1) * LOG_LINE_MAX" using assms l by (simp add: c_def log_bounded_def algebra_simps)
  have o': "length (old_text (snd s)) < LOG_FILE_SIZE_MAX + (k + 1) * LOG_LINE_MAX" using assms by (simp add: log_bounded_def)
  show ?thesis
  proof (cases "length c \<ge> LOG_FILE_SIZE_MAX")
    case under: False
    then have "length c < LOG_FILE_SIZE_MAX + k * LOG_LINE_MAX" by simp
    then have "log_bounded k ?m" using o' t by (simp add: log_bounded_def)
    then show ?thesis using w under by (auto intro: log_bounded_mono)
  next
    case over: True
    show ?thesis
    proof (cases "io_rename io")
      case True
      then have "log_bounded k (rotate io ?m)" using c t o' by (simp add: log_bounded_def rotate_texts LOG_FILE_SIZE_MAX_def)
      then show ?thesis using w over by (auto intro: log_bounded_mono)
    next
      case refused: False
      have b: "log_bounded (Suc k) (rotate io ?m)"
        using c t o' refused by (auto simp: log_bounded_def rotate_texts algebra_simps LOG_FILE_SIZE_MAX_def)
      show ?thesis
      proof (cases "line = []")
        case True
        then have "length c < LOG_FILE_SIZE_MAX + k * LOG_LINE_MAX" using assms by (simp add: c_def log_bounded_def)
        then have "log_bounded k (rotate io ?m)" using t o' refused by (auto simp: log_bounded_def rotate_texts LOG_FILE_SIZE_MAX_def)
        then show ?thesis using w over by (auto intro: log_bounded_mono)
      next
        case False
        then have "write_refused io t ms level module msg s" using w over refused t by (simp add: write_refused_def rotate_texts c_def)
        then show ?thesis using w over b by simp
      qed
    qed
  qed
qed

lemma log_write_suspended: "g_log_suspended (fst s) \<Longrightarrow> log_write io t ms level module msg s = s"
  by (simp add: log_write_def)

lemma log_write_other_files:
  "p \<noteq> LOG_FILE_PATH \<Longrightarrow> p \<noteq> LOG_OLD_FILE_PATH \<Longrightarrow>
     snd (log_write io t ms level module msg s) p = snd s p"
  by (auto simp: log_write_def rotate_others Let_def)

text \<open>A write that goes through leaves the whole text in the one file or the other.\<close>

lemma log_write_appends:
  assumes "\<not> g_log_suspended (fst s)" and "g_log_level (fst s) \<noteq> LOG_LEVEL_OFF" and "g_log_level (fst s) \<le> level" and "io_open io"
    and c_def: "c = log_text (snd s) @ take (io_written io) (log_format_line LOG_LINE_MAX level module t ms msg)"
  shows "snd (log_write io t ms level module msg s)
    (if length c \<ge> LOG_FILE_SIZE_MAX \<and> io_rename io then LOG_OLD_FILE_PATH else LOG_FILE_PATH) = Some c"
  using assms(1-4) unfolding c_def
  by (auto simp: log_write_def rotate_def Let_def paths_differ not_less log_text_def split: option.splits)

text \<open>As long as the clock is not moved by more than a second, time does not step back.\<close>

lemma now_local_monotone:
  assumes "now_local t1 w1 a = (s1, m1, a1)" and "now_local t2 w2 a1 = (s2, m2, a2)"
    and "t1 \<le> t2" and "g_anchor_tick a2 = g_anchor_tick a1" and "g_anchor_local a2 = g_anchor_local a1"
  shows "s1 * 1000 + int m1 \<le> s2 * 1000 + int m2"
proof -
  have e: "s * 1000 + int m = g_anchor_local a' * 1000 + int ((t - g_anchor_tick a') div 1000000)"
    if "now_local t w b = (s, m, a')" for t w b s m a'
  proof -
    let ?n = "(t - g_anchor_tick a') div 1000000"
    have s: "s = g_anchor_local a' + int ((t - g_anchor_tick a') div 1000000000)"
      and m: "m = ?n mod 1000"
      using that by (auto simp: now_local_def Let_def)
    have "(t - g_anchor_tick a') div 1000000000 = ?n div 1000"
      by (simp add: div_mult2_eq [symmetric])
    then show ?thesis unfolding s m by (simp add: zdiv_int zmod_int)
  qed
  have "(t1 - g_anchor_tick a1) div 1000000 \<le> (t2 - g_anchor_tick a1) div 1000000"
    using assms(3) by (intro div_le_mono diff_le_mono)
  then show ?thesis using e [OF assms(1)] e [OF assms(2)] assms(4,5) by simp
qed

section \<open>Properties\<close>

text \<open>a log record is its prefix and message, cut to the buffer, and always ends with a newline.\<close>

theorem log_line_shape:
  "2 \<le> bufsz \<Longrightarrow> log_format_line bufsz level module t ms msg =
     take (bufsz - 2) (log_prefix level module t ms @ msg) @ [LF]"
  by (rule log_format_line_eq)

theorem log_line_shape_witness:
  "log_format_line 4 LOG_LEVEL_INFO ''server''
     \<lparr>tm_year = 126, tm_mon = 0, tm_mday = 2, tm_hour = 3, tm_min = 4, tm_sec = 5\<rparr> 6 ''x'' = ''|I'' @ [LF]"
  using log_line_shape [of 4 LOG_LEVEL_INFO "''server''"
     "\<lparr>tm_year = 126, tm_mon = 0, tm_mday = 2, tm_hour = 3, tm_min = 4, tm_sec = 5\<rparr>" 6 "''x''"]
  by (simp add: log_prefix_def kLevelChar_def)

text \<open>A sequence of records, each with the answers of the card it meets; the renames refused in it.\<close>

type_synonym log_record = "log_io \<times> tm \<times> nat \<times> LogLevel \<times> string \<times> string"

definition log_record :: "log_record \<Rightarrow> log_state \<times> sd \<Rightarrow> log_state \<times> sd" where
  "log_record r s = (case r of (io, t, ms, level, module, msg) \<Rightarrow> log_write io t ms level module msg s)"

fun renames_refused :: "log_record list \<Rightarrow> log_state \<times> sd \<Rightarrow> nat" where
  "renames_refused [] s = 0"
| "renames_refused (r # rs) s =
     (case r of (io, t, ms, level, module, msg) \<Rightarrow> of_bool (write_refused io t ms level module msg s)) + renames_refused rs (log_record r s)"

lemma log_records_bounded:
  "log_bounded k (snd s) \<Longrightarrow> log_bounded (k + renames_refused rs s) (snd (fold log_record rs s))"
proof (induction rs arbitrary: s k)
  case (Cons r rs)
  obtain io t ms level module msg where r: "r = (io, t, ms, level, module, msg)" using prod_cases6 by blast
  have "log_bounded (k + of_bool (write_refused io t ms level module msg s)) (snd (log_record r s))"
    using log_write_bounded [OF Cons.prems] by (simp add: r log_record_def)
  from Cons.IH [OF this] show ?case by (simp add: r add.assoc)
qed simp

lemma log_records_others:
  "p \<noteq> LOG_FILE_PATH \<Longrightarrow> p \<noteq> LOG_OLD_FILE_PATH \<Longrightarrow> snd (fold log_record rs s) p = snd s p"
  by (induction rs arbitrary: s) (auto simp: log_record_def log_write_other_files)

lemma log_records_suspended: "g_log_suspended (fst s) \<Longrightarrow> fold log_record rs s = s"
  by (induction rs arbitrary: s) (auto simp: log_record_def log_write_suspended)

text \<open>
  C24: however many records are written, and whatever the card answers, the log passes its limit by less than a record
  for each rename of a rotation that was refused, the rotated file by at most one record more; no other file is touched,
  and in the sleep window nothing at all is. When every rename goes through, the log stays below its limit.
\<close>

theorem log_write_safe:
  assumes "length (log_text (snd s)) < LOG_FILE_SIZE_MAX" and "length (old_text (snd s)) < LOG_FILE_SIZE_MAX + LOG_LINE_MAX"
    and v_def: "v = fold log_record rs s"
  shows "length (log_text (snd v)) < LOG_FILE_SIZE_MAX + renames_refused rs s * LOG_LINE_MAX \<and>
    length (old_text (snd v)) < LOG_FILE_SIZE_MAX + (renames_refused rs s + 1) * LOG_LINE_MAX \<and>
    (p \<noteq> LOG_FILE_PATH \<longrightarrow> p \<noteq> LOG_OLD_FILE_PATH \<longrightarrow> snd v p = snd s p) \<and>
    (g_log_suspended (fst s) \<longrightarrow> v = s)"
proof -
  have "log_bounded 0 (snd s)" using assms(1,2) by (simp add: log_bounded_def)
  from log_records_bounded [OF this, of rs] log_records_others [of p rs s] log_records_suspended [of s rs]
  show ?thesis unfolding v_def by (auto simp: log_bounded_def)
qed

definition demo_record :: "bool \<Rightarrow> log_record" where
  "demo_record b = (\<lparr>io_open = True, io_written = 512, io_remove = True, io_rename = b\<rparr>,
     \<lparr>tm_year = 126, tm_mon = 0, tm_mday = 2, tm_hour = 3, tm_min = 4, tm_sec = 5\<rparr>, 6, LOG_LEVEL_INFO, ''server'', ''up'')"

text \<open>A log one byte short of its limit, a rename refused, then one that goes through.\<close>

definition demo_log :: "log_state \<times> sd" where
  "demo_log = (\<lparr>g_log_level = LOG_LEVEL_DEBUG, g_log_suspended = False\<rparr>, [LOG_FILE_PATH \<mapsto> replicate (LOG_FILE_SIZE_MAX - 1) (CHR ''x'')])"

theorem log_write_safe_witness:
  "renames_refused [demo_record False, demo_record True] demo_log = 1 \<and>
   length (log_text (snd (fold log_record [demo_record False, demo_record True] demo_log))) < LOG_FILE_SIZE_MAX + LOG_LINE_MAX \<and>
   length (old_text (snd (fold log_record [demo_record False, demo_record True] demo_log))) < LOG_FILE_SIZE_MAX + 2 * LOG_LINE_MAX"
proof -
  let ?rs = "[demo_record False, demo_record True]"
  define full where "full = replicate (LOG_FILE_SIZE_MAX - 1) (CHR ''x'')"
  have lim: "0 < LOG_FILE_SIZE_MAX" by (simp add: LOG_FILE_SIZE_MAX_def)
  then have len: "length full = LOG_FILE_SIZE_MAX - 1" "length full < LOG_FILE_SIZE_MAX" by (simp_all add: full_def)
  have dl: "demo_log = (\<lparr>g_log_level = LOG_LEVEL_DEBUG, g_log_suspended = False\<rparr>, [LOG_FILE_PATH \<mapsto> full])"
    by (simp only: demo_log_def full_def)
  have p: "length (log_text (snd demo_log)) < LOG_FILE_SIZE_MAX" "length (old_text (snd demo_log)) < LOG_FILE_SIZE_MAX + LOG_LINE_MAX"
    using len lim by (simp_all add: dl log_text_def old_text_def paths_differ)
  obtain line where l: "log_format_line LOG_LINE_MAX LOG_LEVEL_INFO ''server''
      \<lparr>tm_year = 126, tm_mon = 0, tm_mday = 2, tm_hour = 3, tm_min = 4, tm_sec = 5\<rparr> 6 ''up'' = line @ [LF]" "length line < 512"
    using log_format_line_eq [of LOG_LINE_MAX] length_log_format_line by (simp add: LOG_LINE_MAX_def)
  have lev: "\<not> LOG_LEVEL_INFO < LOG_LEVEL_DEBUG" "LOG_LEVEL_DEBUG \<noteq> LOG_LEVEL_OFF" by code_simp+
  have long: "LOG_FILE_SIZE_MAX \<le> length full + Suc (length line)" using len lim by simp
  let ?s1 = "(\<lparr>g_log_level = LOG_LEVEL_DEBUG, g_log_suspended = False\<rparr>, [LOG_FILE_PATH \<mapsto> full @ line @ [LF]]) :: log_state \<times> sd"
  have one: "log_record (demo_record False) demo_log = ?s1"
    using l(2) long by (simp add: demo_record_def dl log_record_def log_write_def lev l(1) rotate_def Let_def paths_differ fun_eq_iff)
  have r: "renames_refused ?rs demo_log = 1"
    using one l(2) long len
    by (simp add: demo_record_def write_refused_def log_record_def) (simp add: log_text_def dl)
  have "renames_refused ?rs demo_log + 1 = 2" unfolding r by simp
  from log_write_safe [OF p refl, of ?rs LOG_FILE_PATH, unfolded this, unfolded r nat_mult_1] show ?thesis unfolding r by blast
qed

end
