(* ===== verification/Power_Control.thy ===== *)
theory Power_Control
  imports Logging
begin

text \<open>
  \<open>source/platform/power.c\<close> and \<open>source/platform/netif.c\<close>: the power-state client, the scheduled power
  action, the keep-awake ping, and the address sampling of the network interface. What the
  system services answer (a pending transition, the result of a command, the current address) is
  input: a list of what each query of the power service is going to find, and arguments.
\<close>

section \<open>Power transitions\<close>

datatype PowerEvent = PowerEvent_None | PowerEvent_Sleep | PowerEvent_Wake

datatype PowerAction = PowerAction_None | PowerAction_Sleep | PowerAction_Restart | PowerAction_PowerOff

datatype PscPmState = PscAwake | PscReadyAwaken | PscReadySleep | PscReadySleepCritical
  | PscReadyAwakenCritical | PscReadyShutdown | PscOther nat

text \<open>One look at the PM module's event: nothing pending, a request that could not be read, a request.\<close>

datatype psc_look = NoEvent | RequestFails | Request PscPmState

record power =
  psc :: "psc_look list"
  g_initialized :: bool
  g_pending_state :: PscPmState
  g_deferred :: PowerEvent
  g_scheduled :: PowerAction
  g_spsm_ok :: bool
  g_idle_ok :: bool
  acked :: "PscPmState list"
  spsm_log :: "PowerAction list"
  pings :: nat

definition psc_event :: "PscPmState \<Rightarrow> PowerEvent" where
  "psc_event st = (case st of
     PscReadySleep \<Rightarrow> PowerEvent_Sleep
   | PscReadySleepCritical \<Rightarrow> PowerEvent_Sleep
   | PscReadyShutdown \<Rightarrow> PowerEvent_Sleep
   | _ \<Rightarrow> PowerEvent_Wake)"

definition poll_psc :: "power \<Rightarrow> PowerEvent \<times> power" where
  "poll_psc p =
     (if \<not> g_initialized p then (PowerEvent_None, p)
      else case psc p of
        [] \<Rightarrow> (PowerEvent_None, p)
      | NoEvent # r \<Rightarrow> (PowerEvent_None, p\<lparr>psc := r\<rparr>)
      | RequestFails # r \<Rightarrow> (PowerEvent_None, p\<lparr>psc := r\<rparr>)
      | Request st # r \<Rightarrow> (psc_event st, p\<lparr>psc := r, g_pending_state := st\<rparr>))"

definition power_poll :: "power \<Rightarrow> PowerEvent \<times> power" where
  "power_poll p =
     (if g_deferred p \<noteq> PowerEvent_None
      then (g_deferred p, p\<lparr>g_deferred := PowerEvent_None\<rparr>)
      else poll_psc p)"

definition power_sleep_requested :: "power \<Rightarrow> bool \<times> power" where
  "power_sleep_requested p =
     (let p1 = (if g_deferred p = PowerEvent_None
                then (let (e, q) = poll_psc p in q\<lparr>g_deferred := e\<rparr>) else p)
      in (g_deferred p1 = PowerEvent_Sleep, p1))"

definition power_ack :: "power \<Rightarrow> power" where
  "power_ack p = (if g_initialized p then p\<lparr>acked := acked p @ [g_pending_state p]\<rparr> else p)"

section \<open>Power actions and keep-awake\<close>

definition power_schedule :: "PowerAction \<Rightarrow> power \<Rightarrow> power" where
  "power_schedule a p = p\<lparr>g_scheduled := a\<rparr>"

definition power_take_scheduled :: "power \<Rightarrow> PowerAction \<times> power" where
  "power_take_scheduled p = (g_scheduled p, p\<lparr>g_scheduled := PowerAction_None\<rparr>)"

definition power_perform :: "bool \<Rightarrow> PowerAction \<Rightarrow> power \<Rightarrow> bool \<times> power" where
  "power_perform rc_ok a p =
     (if \<not> g_spsm_ok p then (False, p)
      else if a = PowerAction_None then (False, p)
      else (rc_ok, p\<lparr>spsm_log := spsm_log p @ [a]\<rparr>))"

definition power_actions_available :: "power \<Rightarrow> bool" where
  "power_actions_available p = g_spsm_ok p"

definition power_keepawake_available :: "power \<Rightarrow> bool" where
  "power_keepawake_available p = g_idle_ok p"

definition power_keepawake_tick :: "power \<Rightarrow> power" where
  "power_keepawake_tick p = (if \<not> g_idle_ok p then p else p\<lparr>pings := pings p + 1\<rparr>)"

section \<open>The network address\<close>

text \<open>An IPv4 address is its four octets in network order; 0.0.0.0 means none.\<close>

type_synonym ipv4 = "u8 \<times> u8 \<times> u8 \<times> u8"

record netif =
  g_nifm_ready :: bool
  g_have_last_addr :: bool
  g_last_addr :: ipv4

definition netif_current_ipv4 :: "ipv4 option \<Rightarrow> netif \<Rightarrow> ipv4 option" where
  "netif_current_ipv4 nifm n =
     (if \<not> g_nifm_ready n then None
      else case nifm of
        None \<Rightarrow> None
      | Some (a, b, c, d) \<Rightarrow>
          if (a, b, c, d) = (0, 0, 0, 0) then None
          else if a = 127 \<or> d = 127 then None
          else Some (a, b, c, d))"

definition netif_ipv4_changed :: "ipv4 option \<Rightarrow> netif \<Rightarrow> bool \<times> netif" where
  "netif_ipv4_changed nifm n =
     (if \<not> g_nifm_ready n then (False, n)
      else let cur = (case netif_current_ipv4 nifm n of Some a \<Rightarrow> a | None \<Rightarrow> (0, 0, 0, 0)) in
        if \<not> g_have_last_addr n then (False, n\<lparr>g_have_last_addr := True, g_last_addr := cur\<rparr>)
        else if cur \<noteq> g_last_addr n then (True, n\<lparr>g_last_addr := cur\<rparr>)
        else (False, n))"

section \<open>No transition is lost\<close>

text \<open>
  What the program does with the power service: the loop polls (and acknowledges what it gets), a
  waiting handler asks whether sleep was requested. \<open>delivered\<close> collects what the loop was told.
\<close>

datatype power_op = Poll | Asks

fun power_run :: "power_op list \<Rightarrow> power \<times> PowerEvent list \<Rightarrow> power \<times> PowerEvent list" where
  "power_run [] s = s"
| "power_run (Poll # ops) (p, evs) =
     (let (e, p1) = power_poll p
      in if e = PowerEvent_None then power_run ops (p1, evs)
         else power_run ops (power_ack p1, evs @ [e]))"
| "power_run (Asks # ops) (p, evs) = power_run ops (snd (power_sleep_requested p), evs)"

fun requests :: "psc_look list \<Rightarrow> PscPmState list" where
  "requests [] = []"
| "requests (Request st # r) = st # requests r"
| "requests (NoEvent # r) = requests r"
| "requests (RequestFails # r) = requests r"

text \<open>The requests taken so far and not yet delivered.\<close>

definition undelivered :: "power \<Rightarrow> PscPmState list" where
  "undelivered p = (if g_deferred p = PowerEvent_None then [] else [g_pending_state p])"

definition power_ok :: "power \<Rightarrow> bool" where
  "power_ok p \<longleftrightarrow> g_initialized p \<and>
     (g_deferred p \<noteq> PowerEvent_None \<longrightarrow> g_deferred p = psc_event (g_pending_state p))"

lemma psc_event_not_None [simp]: "psc_event st \<noteq> PowerEvent_None"
  by (cases st) (simp_all add: psc_event_def)

lemma power_poll_cases:
  assumes "power_ok p" and "power_poll p = (e, p1)"
  shows "power_ok p1 \<and> g_deferred p1 = PowerEvent_None \<and> acked p1 = acked p \<and>
    (if e = PowerEvent_None then undelivered p = [] \<and> requests (psc p1) = requests (psc p)
     else e = psc_event (g_pending_state p1) \<and>
          undelivered p @ requests (psc p) = g_pending_state p1 # requests (psc p1))"
  using assms
  by (auto simp: power_poll_def poll_psc_def power_ok_def undelivered_def split: if_splits list.splits psc_look.splits)

lemma power_sleep_requested_keeps:
  assumes "power_ok p"
  shows "power_ok (snd (power_sleep_requested p)) \<and> acked (snd (power_sleep_requested p)) = acked p \<and>
    undelivered (snd (power_sleep_requested p)) @ requests (psc (snd (power_sleep_requested p))) =
      undelivered p @ requests (psc p)"
  using assms
  by (auto simp: power_sleep_requested_def poll_psc_def power_ok_def undelivered_def Let_def
      split: if_splits list.splits psc_look.splits)

lemma power_run_delivers:
  assumes "power_ok p" and "power_run ops (p, evs) = (q, evs')"
  shows "\<exists>sts. evs' = evs @ map psc_event sts \<and> acked q = acked p @ sts \<and>
    undelivered p @ requests (psc p) = sts @ undelivered q @ requests (psc q)"
  using assms
proof (induction ops "(p, evs)" arbitrary: p evs rule: power_run.induct)
  case 1
  then show ?case by simp
next
  case (2 ops p evs)
  obtain e p1 where e: "power_poll p = (e, p1)" by (cases "power_poll p")
  note c = power_poll_cases [OF "2.prems"(1) e]
  show ?case
  proof (cases "e = PowerEvent_None")
    case True
    from "2.hyps"(1) [OF e [symmetric] refl True] "2.prems"(2) c True e obtain sts where
      "evs' = evs @ map psc_event sts" "acked q = acked p1 @ sts"
      "undelivered p1 @ requests (psc p1) = sts @ undelivered q @ requests (psc q)" by auto
    with c True show ?thesis by (auto simp: undelivered_def)
  next
    case False
    let ?p2 = "power_ack p1"
    have p2: "power_ok ?p2" "acked ?p2 = acked p @ [g_pending_state p1]"
      "undelivered ?p2 = []" "psc ?p2 = psc p1"
      using c by (auto simp: power_ack_def power_ok_def undelivered_def)
    from "2.hyps"(2) [OF e [symmetric] refl False p2(1)] "2.prems"(2) False e obtain sts where
      "evs' = (evs @ [e]) @ map psc_event sts" "acked q = acked ?p2 @ sts"
      "undelivered ?p2 @ requests (psc ?p2) = sts @ undelivered q @ requests (psc q)" by auto
    with c False p2 show ?thesis by (intro exI [of _ "g_pending_state p1 # sts"]) simp
  qed
next
  case (3 ops p evs)
  from "3.hyps" "3.prems" power_sleep_requested_keeps [OF "3.prems"(1)] show ?case by simp
qed

section \<open>Properties\<close>

text \<open>C17: whatever the interleaving of the loop's polls and of waiting handlers asking for sleep, every
  transition the power service reports is delivered to the loop once, in order, and acknowledged
  with its own state; at most the last one is still held back.\<close>

theorem power_transitions_delivered:
  "power_ok p \<Longrightarrow> g_deferred p = PowerEvent_None \<Longrightarrow> power_run ops (p, []) = (q, evs) \<Longrightarrow>
     \<exists>sts. evs = map psc_event sts \<and> acked q = acked p @ sts \<and>
       requests (psc p) = sts @ undelivered q @ requests (psc q)"
  using power_run_delivers [of p ops "[]" q evs] by (auto simp: undelivered_def)

theorem power_transitions_delivered_witness:
  "\<exists>sts. [PowerEvent_Sleep] = map psc_event sts \<and> acked (fst (power_run [Asks, Poll]
      (\<lparr>psc = [Request PscReadySleep], g_initialized = True, g_pending_state = PscAwake,
        g_deferred = PowerEvent_None, g_scheduled = PowerAction_None, g_spsm_ok = False, g_idle_ok = False,
        acked = [], spsm_log = [], pings = 0\<rparr>, []))) = sts"
  using power_transitions_delivered [of "\<lparr>psc = [Request PscReadySleep], g_initialized = True,
        g_pending_state = PscAwake, g_deferred = PowerEvent_None, g_scheduled = PowerAction_None,
        g_spsm_ok = False, g_idle_ok = False, acked = [], spsm_log = [], pings = 0\<rparr>" "[Asks, Poll]"]
  by (auto simp: power_ok_def power_sleep_requested_def power_poll_def poll_psc_def psc_event_def power_ack_def)

end
