(* ===== verification/Config_File.thy ===== *)
theory Config_File
  imports Logging
begin

text \<open>
  \<open>source/core/config.c\<close>: the configuration file and the advertised host name. \<open>fgets\<close> is modelled
  with its buffer size, so a line longer than the buffer is read in pieces, as it is in C; each
  piece is read as a C string. The log lines of \<open>config_load\<close> are left out.
\<close>

section \<open>Reading lines\<close>

text \<open>What successive calls of \<open>fgets(line, n, f)\<close> return: up to \<open>n - 1\<close> characters, cut after a
  newline.\<close>

definition fgets_len :: "nat \<Rightarrow> string \<Rightarrow> nat" where
  "fgets_len n s = (case strchr LF (take (n - 1) s) of Some i \<Rightarrow> i + 1 | None \<Rightarrow> length (take (n - 1) s))"

function fgets_lines :: "nat \<Rightarrow> string \<Rightarrow> string list" where
  "fgets_lines n s =
     (if s = [] \<or> n < 2 then [] else c_str (take (fgets_len n s) s) # fgets_lines n (drop (fgets_len n s) s))"
  by pat_completeness auto
termination
  by (relation "measure (\<lambda>(n, s). length s)") (auto simp: fgets_len_def split: option.splits)

declare fgets_lines.simps [simp del]

lemma fgets_len_bound: "fgets_len n s \<le> n - 1"
  by (auto simp: fgets_len_def strchr_Some_iff split: option.splits)

lemma fgets_lines_length: "l \<in> set (fgets_lines n s) \<Longrightarrow> length l < n"
proof (induction n s rule: fgets_lines.induct)
  case (1 n s)
  have "length (c_str (take (fgets_len n s) s)) < n" if "\<not> (s = [] \<or> n < 2)"
    using that length_c_str [of "take (fgets_len n s) s"] fgets_len_bound [of n s]
    by (auto simp: min_def split: if_splits)
  with 1 show ?case by (auto simp: fgets_lines.simps [of n s] split: if_splits)
qed

definition trim :: "string \<Rightarrow> string" where
  "trim s = rev (dropWhile is_space (rev (dropWhile is_space s)))"

section \<open>Values\<close>

definition is_true :: "string \<Rightarrow> bool" where
  "is_true v \<longleftrightarrow> strcaseeq v ''true'' \<or> strcaseeq v ''1'' \<or> strcaseeq v ''yes'' \<or> strcaseeq v ''on''"

definition parse_log_level :: "string \<Rightarrow> LogLevel" where
  "parse_log_level v =
     (if is_true v then LOG_LEVEL_INFO
      else if strcaseeq v ''warning'' then LOG_LEVEL_WARN
      else if strcaseeq v ''debug'' then LOG_LEVEL_DEBUG
      else if strcaseeq v ''info'' then LOG_LEVEL_INFO
      else if strcaseeq v ''warn'' then LOG_LEVEL_WARN
      else if strcaseeq v ''error'' then LOG_LEVEL_ERROR
      else LOG_LEVEL_OFF)"

record Config =
  port :: int
  username :: string
  password :: string
  token :: string
  hostname :: string
  log_level :: LogLevel
  keep_awake :: bool

definition default_config :: Config where
  "default_config = \<lparr>port = 4150, username = [], password = [], token = [], hostname = [],
     log_level = LOG_LEVEL_OFF, keep_awake = True\<rparr>"

section \<open>The file\<close>

definition config_key :: "string \<Rightarrow> string \<Rightarrow> Config \<Rightarrow> Config" where
  "config_key key v cfg =
     (if strcaseeq key ''port'' then
        (let p = atoi v in if p > 0 \<and> p \<le> 65535 then cfg\<lparr>port := p\<rparr> else cfg)
      else if strcaseeq key ''username'' then cfg\<lparr>username := fit 64 v\<rparr>
      else if strcaseeq key ''password'' then cfg\<lparr>password := fit 64 v\<rparr>
      else if strcaseeq key ''token'' then cfg\<lparr>token := fit 128 v\<rparr>
      else if strcaseeq key ''hostname'' then cfg\<lparr>hostname := fit 64 v\<rparr>
      else if strcaseeq key ''log'' then cfg\<lparr>log_level := parse_log_level v\<rparr>
      else cfg)"

text \<open>One line of the file; the section name is carried along.\<close>

definition config_line :: "string \<Rightarrow> string \<times> Config \<Rightarrow> string \<times> Config" where
  "config_line line sc =
     (let s = trim line; section = fst sc; cfg = snd sc in
      if s = [] \<or> hd s = CHR '';'' \<or> hd s = CHR ''#'' then sc
      else if hd s = CHR ''['' then
        (case strchr (CHR '']'') s of
           Some i \<Rightarrow> (fit 32 (take (i - 1) (tl s)), cfg)
         | None \<Rightarrow> sc)
      else case strchr (CHR ''='') s of
        None \<Rightarrow> sc
      | Some i \<Rightarrow>
          (let key = trim (take i s); v = trim (drop (i + 1) s) in
           if strcaseeq section ''power'' then
             (if strcaseeq key ''keep_awake'' then (section, cfg\<lparr>keep_awake := is_true v\<rparr>) else sc)
           else if \<not> strcaseeq section ''server'' then sc
           else (section, config_key key v cfg)))"

definition config_parse :: "string \<Rightarrow> Config" where
  "config_parse text = snd (fold config_line (fgets_lines 256 text) ([], default_config))"

definition CONFIG_PATH :: string where
  "CONFIG_PATH = ''sdmc:/config/sys-autopilot/config.ini''"

definition kDefaultConfig :: string where
  "kDefaultConfig = concat (map (\<lambda>l. l @ [LF]) [
    ''; sys-autopilot configuration'',
    ''; Changes take effect after a reboot (or sysmodule restart).'',
    [],
    ''[server]'',
    ''; TCP port the HTTP server listens on.'',
    ''port = 4150'',
    [],
    ''; Name advertised on the local network via mDNS / DNS-SD (Bonjour).'',
    ''; The console becomes reachable at '' @ [SQUOTE] @ ''<hostname>.local'' @ [SQUOTE] @ '' and advertises the'',
    ''; '' @ [SQUOTE] @ ''_sys-autopilot._tcp'' @ [SQUOTE] @ '' service so clients can discover it without an IP.'',
    ''; Leave blank to auto-generate '' @ [SQUOTE] @ ''switch-<last 4 of serial>'' @ [SQUOTE] @ '' (unique per console).'',
    ''hostname ='',
    [],
    ''; Optional authentication. Auth is enforced when EITHER a bearer token'',
    ''; is set, or both username and password are set (HTTP Basic).'',
    ''; Clients may then use '' @ [SQUOTE] @ ''Authorization: Bearer <token>'' @ [SQUOTE] @ '' or Basic auth.'',
    ''; Username+password also enables the OAuth browser login for MCP clients;'',
    ''; tokens issued that way are stored in tokens.txt next to this file.'',
    ''token ='',
    ''username ='',
    ''password ='',
    [],
    ''; Write diagnostics to log.txt next to this file (the sysmodule has no'',
    ''; console output). Minimum level written: off, error, warn, info or debug.'',
    ''; Set to debug when troubleshooting, or off to write nothing.'',
    ''log = info'',
    [],
    ''[power]'',
    ''; Hold off auto-sleep while this sysmodule runs. Sleep powers down the'',
    ''; WLAN module, so the console stops answering until someone presses a'',
    ''; button on it. Nothing is persisted: set this to false and the console'',
    ''; sleeps again according to System Settings.'',
    ''keep_awake = true''])"

definition write_default_config :: "bool \<Rightarrow> sd \<Rightarrow> sd" where
  "write_default_config fopen_ok m = (if fopen_ok then m(CONFIG_PATH := Some kDefaultConfig) else m)"

text \<open>The card's answers are those of the log sink: whether a file can be opened for writing, and how a rotation goes.\<close>

definition config_load :: "log_io \<Rightarrow> log_state \<times> sd \<Rightarrow> Config \<times> log_state \<times> sd" where
  "config_load io s =
     (case snd s CONFIG_PATH of
        None \<Rightarrow> (default_config, fst s, write_default_config (io_open io) (snd s))
      | Some text \<Rightarrow> (let cfg = config_parse text in (cfg, log_set_level io (log_level cfg) s)))"

definition config_basic_enabled :: "Config \<Rightarrow> bool" where
  "config_basic_enabled cfg \<longleftrightarrow> username cfg \<noteq> [] \<and> password cfg \<noteq> []"

definition config_auth_enabled :: "Config \<Rightarrow> bool" where
  "config_auth_enabled cfg \<longleftrightarrow> token cfg \<noteq> [] \<or> config_basic_enabled cfg"

section \<open>The host name\<close>

definition sanitize_char :: "char \<Rightarrow> string" where
  "sanitize_char c =
     (let c = (if is_upper c then chr (ord c + 32) else c)
      in if is_lower c \<or> is_digit c \<or> c = CHR ''-'' then [c] else [])"

fun append_sanitized :: "nat \<Rightarrow> string \<Rightarrow> string \<Rightarrow> string" where
  "append_sanitized cap out [] = out"
| "append_sanitized cap out (c # cs) =
     (if \<not> length out + 1 < cap then out else append_sanitized cap (out @ sanitize_char c) cs)"

definition CONFIG_DEFAULT_PREFIX :: string where
  "CONFIG_DEFAULT_PREFIX = ''switch''"

definition CONFIG_SERIAL_SUFFIX_LEN :: nat where
  "CONFIG_SERIAL_SUFFIX_LEN = 4"

definition config_hostname :: "Config \<Rightarrow> string option \<Rightarrow> nat \<Rightarrow> string" where
  "config_hostname cfg serial cap =
     (if hostname cfg \<noteq> [] then fit cap (hostname cfg)
      else let out = append_sanitized cap [] CONFIG_DEFAULT_PREFIX;
               s = (case serial of None \<Rightarrow> [] | Some s \<Rightarrow> s)
           in if s = [] then out
              else let suffix = (if length s > CONFIG_SERIAL_SUFFIX_LEN
                                 then drop (length s - CONFIG_SERIAL_SUFFIX_LEN) s else s);
                       out = (if length out + 1 < cap then out @ ''-'' else out)
                   in append_sanitized cap out suffix)"

section \<open>Whatever the file holds, the configuration is in range\<close>

definition config_ok :: "Config \<Rightarrow> bool" where
  "config_ok cfg \<longleftrightarrow> 0 < port cfg \<and> port cfg \<le> 65535 \<and> length (username cfg) < 64 \<and>
     length (password cfg) < 64 \<and> length (token cfg) < 128 \<and> length (hostname cfg) < 64 \<and>
     cstr (username cfg) \<and> cstr (password cfg) \<and> cstr (token cfg) \<and> cstr (hostname cfg)"

lemma cstr_trim: "cstr s \<Longrightarrow> cstr (trim s)"
  by (auto simp: cstr_def trim_def dest!: set_dropWhileD)

lemma cstr_take: "cstr s \<Longrightarrow> cstr (take n s)"
  by (auto simp: cstr_def dest: in_set_takeD)

lemma cstr_drop: "cstr s \<Longrightarrow> cstr (drop n s)"
  by (auto simp: cstr_def dest: in_set_dropD)

lemma config_key_ok: "config_ok cfg \<Longrightarrow> cstr v \<Longrightarrow> config_ok (config_key key v cfg)"
  using length_fit [of 64 v] length_fit [of 128 v]
  by (simp add: config_key_def config_ok_def Let_def cstr_fit)

lemma config_line_ok:
  "config_ok (snd sc) \<Longrightarrow> cstr line \<Longrightarrow> config_ok (snd (config_line line sc))"
  using config_key_ok [of "snd sc"]
  by (auto simp: config_line_def Let_def cstr_trim cstr_drop cstr_take config_ok_def split: option.splits)

lemma fgets_lines_cstr: "l \<in> set (fgets_lines n s) \<Longrightarrow> cstr l"
proof (induction n s rule: fgets_lines.induct)
  case (1 n s)
  then show ?case by (auto simp: fgets_lines.simps [of n s] split: if_splits)
qed

lemma config_fold_ok:
  "config_ok (snd sc) \<Longrightarrow> (\<And>l. l \<in> set ls \<Longrightarrow> cstr l) \<Longrightarrow> config_ok (snd (fold config_line ls sc))"
  by (induction ls arbitrary: sc) (simp_all add: config_line_ok)

lemma config_load_ok: "config_ok (fst (config_load io s))"
proof -
  have "config_ok default_config" by (simp add: config_ok_def default_config_def cstr_def)
  with config_fold_ok [of "([], default_config)"] fgets_lines_cstr show ?thesis
    by (auto simp: config_load_def config_parse_def Let_def split: option.splits)
qed

lemma append_sanitized_eq:
  "length out < cap \<Longrightarrow> append_sanitized cap out s = take (cap - 1) (out @ concat (map sanitize_char s))"
proof (induction s arbitrary: out)
  case Nil
  then show ?case by simp
next
  case (Cons c cs)
  show ?case
  proof (cases "length out + 1 < cap")
    case True
    then have "length (out @ sanitize_char c) < cap" by (simp add: sanitize_char_def Let_def)
    with Cons.IH [OF this] True show ?thesis by simp
  next
    case False
    with Cons.prems have "cap - 1 = length out" by simp
    with False show ?thesis by simp
  qed
qed

definition dns_char :: "char \<Rightarrow> bool" where
  "dns_char c \<longleftrightarrow> is_lower c \<or> is_digit c \<or> c = CHR ''-''"

lemma sanitize_dns: "d \<in> set (sanitize_char c) \<Longrightarrow> dns_char d"
  by (auto simp: sanitize_char_def dns_char_def Let_def split: if_splits)

lemma append_sanitized_dns:
  "length out < cap \<Longrightarrow> \<forall>c \<in> set out. dns_char c \<Longrightarrow> \<forall>c \<in> set (append_sanitized cap out s). dns_char c"
  by (auto simp: append_sanitized_eq dest!: in_set_takeD sanitize_dns)

lemma append_sanitized_length: "length out < cap \<Longrightarrow> length (append_sanitized cap out s) < cap"
  by (simp add: append_sanitized_eq)

lemma config_hostname_auto:
  assumes "hostname cfg = []" and "0 < cap"
  shows "length (config_hostname cfg serial cap) < cap \<and>
    (\<forall>c \<in> set (config_hostname cfg serial cap). dns_char c)"
proof -
  let ?o = "append_sanitized cap [] CONFIG_DEFAULT_PREFIX"
  have o: "length ?o < cap" "\<forall>c \<in> set ?o. dns_char c"
    using append_sanitized_length [of "[]" cap] append_sanitized_dns [of "[]" cap] assms(2) by auto
  let ?p = "if length ?o + 1 < cap then ?o @ ''-'' else ?o"
  have p: "length ?p < cap" "\<forall>c \<in> set ?p. dns_char c" using o by (auto simp: dns_char_def)
  from append_sanitized_length [OF p(1)] append_sanitized_dns [OF p] o assms(1) show ?thesis
    by (simp add: config_hostname_def Let_def split: option.splits)
qed

section \<open>Properties\<close>

text \<open>C25: whatever the configuration file holds, the port is a TCP port and every string fits its
  field and is a C string.\<close>

theorem config_in_range:
  "config_ok (fst (config_load io s))"
  by (rule config_load_ok)

text \<open>A generated host name fits its buffer and is made of DNS label characters only, whatever the
  serial number is.\<close>

theorem generated_hostname_is_dns_safe:
  "hostname cfg = [] \<Longrightarrow> 0 < cap \<Longrightarrow>
     length (config_hostname cfg serial cap) < cap \<and> list_all dns_char (config_hostname cfg serial cap)"
  using config_hostname_auto by (simp add: list_all_iff)

theorem generated_hostname_is_dns_safe_witness:
  "list_all dns_char (config_hostname default_config (Some ''XAW/0001 9'') 64)"
  using generated_hostname_is_dns_safe [of default_config 64] by (simp add: default_config_def)

end
