(* ===== verification/Request_Memory.thy ===== *)
theory Request_Memory
  imports Http
begin

text \<open>
  \<open>source/core/request.c\<close>: the buffers that live as long as a request. A pointer into
  \<open>g_request_memory\<close> is its offset; \<open>mem_used\<close> is a field of the request, so every operation takes
  and returns the request. The size is that of a build with MCP.
\<close>

section \<open>Allocation\<close>

definition REQUEST_MEMORY_SIZE :: nat where
  "REQUEST_MEMORY_SIZE = 0xA0000"

text \<open>\<open>(mem_used + 15) & ~15\<close>.\<close>

definition align16 :: "nat \<Rightarrow> nat" where
  "align16 n = (n + 15) div 16 * 16"

definition request_alloc :: "nat \<Rightarrow> HttpRequest \<Rightarrow> nat option \<times> HttpRequest" where
  "request_alloc sz r =
     (let start = align16 (mem_used r) in
      if start > REQUEST_MEMORY_SIZE \<or> sz > REQUEST_MEMORY_SIZE - start then (None, r)
      else (Some start, r\<lparr>mem_used := start + sz\<rparr>))"

definition request_alloc_rest :: "HttpRequest \<Rightarrow> (nat \<times> nat) \<times> HttpRequest" where
  "request_alloc_rest r =
     (let start = align16 (mem_used r)
      in ((start, REQUEST_MEMORY_SIZE - start), r\<lparr>mem_used := REQUEST_MEMORY_SIZE\<rparr>))"

definition request_mark :: "HttpRequest \<Rightarrow> nat" where
  "request_mark r = mem_used r"

definition request_rewind :: "nat \<Rightarrow> HttpRequest \<Rightarrow> HttpRequest" where
  "request_rewind mark r = (if mark < mem_used r then r\<lparr>mem_used := mark\<rparr> else r)"

definition request_trim :: "nat \<Rightarrow> nat \<Rightarrow> HttpRequest \<Rightarrow> HttpRequest" where
  "request_trim ptr used r = request_rewind (ptr + used) r"

definition request_release :: "HttpRequest \<Rightarrow> HttpRequest" where
  "request_release r = r\<lparr>mem_used := 0\<rparr>"

definition request_json_escape :: "string \<Rightarrow> HttpRequest \<Rightarrow> string \<times> HttpRequest" where
  "request_json_escape s r =
     (let esc_len = json_escaped_len s in
      case request_alloc (esc_len + 1) r of
        (None, r') \<Rightarrow> ([], r')
      | (Some p, r') \<Rightarrow> ((case json_escape s (esc_len + 1) of Some e \<Rightarrow> e | None \<Rightarrow> []), r'))"

section \<open>A JSON body\<close>

definition REQUEST_JSON_MAX :: nat where
  "REQUEST_JSON_MAX = 16384"

text \<open>\<open>sizeof(JsonDoc)\<close>: a pointer, 1024 tokens of 16 bytes, a count, padded to 8.\<close>

definition sizeof_JsonDoc :: nat where
  "sizeof_JsonDoc = 8 + JSON_MAX_TOKENS * 16 + 8"

function read_json_loop :: "string \<Rightarrow> HttpRequest \<Rightarrow> string \<times> HttpRequest" where
  "read_json_loop body r =
     (if \<not> length body < REQUEST_JSON_MAX then (body, r)
      else case http_read_body (REQUEST_JSON_MAX - length body) r of
        (None, r') \<Rightarrow> (body, r')
      | (Some d, r') \<Rightarrow> if d = [] then (body, r') else read_json_loop (body @ d) r')"
  by pat_completeness auto
termination
  by (relation "measure (\<lambda>(body, r). REQUEST_JSON_MAX - length body)")
    (auto simp: length_greater_0_conv [symmetric] simp del: length_greater_0_conv)

declare read_json_loop.simps [simp del]

definition request_read_json :: "HttpRequest \<Rightarrow> JsonDoc option \<times> HttpRequest" where
  "request_read_json r =
     (if has_content_length r \<and> content_length r > REQUEST_JSON_MAX then
        (None, r\<lparr>fd := http_send_error 413 ''request body too large'' (fd r)\<rparr>)
      else
        (let (body_ptr, r1) = request_alloc (REQUEST_JSON_MAX + 1) r;
             (doc_ptr, r2) = request_alloc sizeof_JsonDoc r1
         in if body_ptr = None \<or> doc_ptr = None then
              (None, r2\<lparr>fd := http_send_error 500 ''out of request memory'' (fd r2)\<rparr>)
            else
              (let (body, r3) = read_json_loop [] r2;
                   text = (if body = [] then ''{}'' else body);
                   bad = (None, r3\<lparr>fd := http_send_error 400 ''request body must be a JSON object'' (fd r3)\<rparr>)
               in case json_parse text of
                    Inl e \<Rightarrow> bad
                  | Inr doc \<Rightarrow>
                      if ntok doc < 1 \<or> ttype (tok doc ! 0) \<noteq> JSMN_OBJECT then bad else (Some doc, r3))))"

section \<open>Allocations are aligned, inside the region, and disjoint\<close>

lemma align16_bounds: "n \<le> align16 n" "align16 n < n + 16" "16 dvd align16 n"
proof -
  have "n + 15 = align16 n + (n + 15) mod 16" unfolding align16_def by simp
  moreover have "(n + 15) mod 16 < 16" by simp
  ultimately show "n \<le> align16 n" "align16 n < n + 16" by linarith+
  show "16 dvd align16 n" by (simp add: align16_def)
qed

definition mem_ok :: "HttpRequest \<Rightarrow> bool" where
  "mem_ok r \<longleftrightarrow> mem_used r \<le> REQUEST_MEMORY_SIZE"

lemma align16_region: "n \<le> REQUEST_MEMORY_SIZE \<Longrightarrow> align16 n \<le> REQUEST_MEMORY_SIZE"
proof -
  assume "n \<le> REQUEST_MEMORY_SIZE"
  then have "(n + 15) div 16 \<le> 0xA0000 div 16"
    by (simp add: REQUEST_MEMORY_SIZE_def)
  then show ?thesis by (simp add: align16_def REQUEST_MEMORY_SIZE_def)
qed

lemma request_alloc_Some:
  "request_alloc sz r = (Some p, r') \<Longrightarrow>
     16 dvd p \<and> mem_used r \<le> p \<and> p + sz \<le> REQUEST_MEMORY_SIZE \<and> mem_used r' = p + sz"
  using align16_bounds [of "mem_used r"] by (auto simp: request_alloc_def Let_def split: if_splits)

lemma request_alloc_None: "request_alloc sz r = (None, r') \<Longrightarrow> r' = r"
  by (auto simp: request_alloc_def Let_def split: if_splits)

lemma request_alloc_mem_ok: "mem_ok r \<Longrightarrow> mem_ok (snd (request_alloc sz r))"
  by (auto simp: request_alloc_def Let_def mem_ok_def)

text \<open>
  A handler's allocations in order: the requests made between two releases, with the blocks they
  got. Rewinding to a mark forgets the blocks that start at or after it.
\<close>

datatype mem_op = Alloc nat | AllocRest nat | Rewind nat

fun mem_run :: "mem_op list \<Rightarrow> HttpRequest \<times> (nat \<times> nat) list \<Rightarrow> HttpRequest \<times> (nat \<times> nat) list" where
  "mem_run [] s = s"
| "mem_run (Alloc sz # ops) (r, bs) =
     (case request_alloc sz r of
        (None, r') \<Rightarrow> mem_run ops (r', bs)
      | (Some p, r') \<Rightarrow> mem_run ops (r', (p, sz) # bs))"
| "mem_run (AllocRest used # ops) (r, bs) =
     (let ((p, room), r') = request_alloc_rest r;
          n = min used room
      in mem_run ops (request_trim p n r', (p, n) # bs))"
| "mem_run (Rewind m # ops) (r, bs) =
     mem_run ops (request_rewind m r, filter (\<lambda>(p, n). p + n \<le> m) bs)"

definition blocks_ok :: "HttpRequest \<Rightarrow> (nat \<times> nat) list \<Rightarrow> bool" where
  "blocks_ok r bs \<longleftrightarrow> mem_ok r \<and> (\<forall>(p, n) \<in> set bs. 16 dvd p \<and> p + n \<le> mem_used r) \<and>
     sorted_wrt (\<lambda>(p, n) (q, m). q + m \<le> p) bs"

lemma blocks_ok_push:
  assumes "blocks_ok r bs" and "mem_used r \<le> p" and "16 dvd p" and "p + n \<le> REQUEST_MEMORY_SIZE"
    and "mem_used r' = p + n"
  shows "blocks_ok r' ((p, n) # bs)"
  using assms by (fastforce simp: blocks_ok_def mem_ok_def)

lemma blocks_ok_rewind:
  assumes "blocks_ok r bs"
  shows "blocks_ok (request_rewind m r) (filter (\<lambda>(p, n). p + n \<le> m) bs)"
  using assms by (auto simp: blocks_ok_def mem_ok_def request_rewind_def sorted_wrt_filter)

lemma mem_run_ok: "blocks_ok (fst s) (snd s) \<Longrightarrow> blocks_ok (fst (mem_run ops s)) (snd (mem_run ops s))"
proof (induction ops s rule: mem_run.induct)
  case (1 s)
  then show ?case by simp
next
  case (2 sz ops r bs)
  show ?case
  proof (cases "request_alloc sz r")
    case (Pair a r')
    show ?thesis
    proof (cases a)
      case None
      with Pair request_alloc_None 2 show ?thesis by auto
    next
      case (Some p)
      with request_alloc_Some [of sz r p r'] Pair "2.prems" have "blocks_ok r' ((p, sz) # bs)"
        by (intro blocks_ok_push [of r]) auto
      with 2(2) [OF Pair [symmetric] Some] Pair Some show ?thesis by simp
    qed
  qed
next
  case (3 used ops r bs)
  let ?p = "align16 (mem_used r)" and ?n = "min used (REQUEST_MEMORY_SIZE - align16 (mem_used r))"
  have le: "?p \<le> REQUEST_MEMORY_SIZE" using "3.prems" by (simp add: blocks_ok_def mem_ok_def align16_region)
  have "mem_used (request_trim ?p ?n (r\<lparr>mem_used := REQUEST_MEMORY_SIZE\<rparr>)) = ?p + ?n"
    using le by (auto simp: request_trim_def request_rewind_def)
  then have "blocks_ok (request_trim ?p ?n (r\<lparr>mem_used := REQUEST_MEMORY_SIZE\<rparr>)) ((?p, ?n) # bs)"
    using "3.prems" le align16_bounds [of "mem_used r"] by (intro blocks_ok_push [of r]) auto
  with 3(1) show ?case by (simp add: request_alloc_rest_def Let_def)
next
  case (4 m ops r bs)
  with blocks_ok_rewind [of r bs m] show ?case by simp
qed

lemma request_json_escape_eq:
  "request_json_escape s r =
     (case request_alloc (json_escaped_len s + 1) r of
        (None, r') \<Rightarrow> ([], r') | (Some p, r') \<Rightarrow> (concat (map escape_char s), r'))"
  using escape_loop_fits [of "[]" "json_escaped_len s + 1" s]
  by (simp add: request_json_escape_def json_escape_def Let_def split: option.splits prod.splits)

text \<open>The two buffers of \<open>request_read_json\<close> always fit in fresh request memory.\<close>

lemma json_buffers_fit:
  "align16 (REQUEST_JSON_MAX + 1) + sizeof_JsonDoc \<le> REQUEST_MEMORY_SIZE"
  by (simp add: align16_def REQUEST_JSON_MAX_def sizeof_JsonDoc_def JSON_MAX_TOKENS_def REQUEST_MEMORY_SIZE_def)

section \<open>A JSON body is the whole body\<close>

lemma read_json_loop_all:
  assumes "clean (fd r)" and "body_ok r" and "length body \<le> REQUEST_JSON_MAX"
  defines "whole \<equiv> (if has_content_length r then take (content_length r - body_consumed r) (body_stream r)
                    else body_stream r)"
  shows "fst (read_json_loop body r) = body @ take (REQUEST_JSON_MAX - length body) whole"
  using assms(1-3) unfolding whole_def
proof (induction body r rule: read_json_loop.induct)
  case (1 body r)
  show ?case
  proof (cases "length body < REQUEST_JSON_MAX")
    case False
    with "1.prems" show ?thesis by (simp add: read_json_loop.simps [of body r])
  next
    case True
    define W where "W = (if has_content_length r then take (content_length r - body_consumed r) (body_stream r)
                    else body_stream r)"
    from http_read_body_clean [OF "1.prems"(1) _ "1.prems"(2), of "REQUEST_JSON_MAX - length body"] True
    obtain d r' where d: "http_read_body (REQUEST_JSON_MAX - length body) r = (Some d, r')" "clean (fd r')"
      and e: "d = [] \<longleftrightarrow> W = []" by (auto simp: W_def)
    note st = http_read_body_stream [OF d(1)]
    show ?thesis
    proof (cases "d = []")
      case True
      with d e \<open>length body < REQUEST_JSON_MAX\<close> show ?thesis
        by (simp add: read_json_loop.simps [of body r] W_def)
    next
      case False
      have len: "length (body @ d) \<le> REQUEST_JSON_MAX" using st(3) True by simp
      have "length d \<le> content_length r - body_consumed r" if "has_content_length r"
        using st(6) [OF "1.prems"(2)] st(2,4,5) that by (simp add: body_ok_def)
      then have W: "W = d @ (if has_content_length r'
          then take (content_length r' - body_consumed r') (body_stream r') else body_stream r')"
        by (auto simp: W_def st)
      have "fst (read_json_loop (body @ d) r') = (body @ d) @ take (REQUEST_JSON_MAX - length (body @ d))
         (if has_content_length r' then take (content_length r' - body_consumed r') (body_stream r') else body_stream r')"
        by (rule "1.IH" [OF _ d(1) [symmetric] refl False d(2) st(6) [OF "1.prems"(2)] len]) (use True in simp)
      then have "fst (read_json_loop body r) = (body @ d) @ take (REQUEST_JSON_MAX - length (body @ d))
         (if has_content_length r' then take (content_length r' - body_consumed r') (body_stream r') else body_stream r')"
        using d(1) False True by (simp add: read_json_loop.simps [of body r])
      also have "\<dots> = body @ take (REQUEST_JSON_MAX - length body) W"
        using len unfolding W by simp
      finally show ?thesis by (simp add: W_def)
    qed
  qed
qed

section \<open>Properties\<close>

text \<open>C26: after any sequence of allocations, of take-the-rest-and-trim, and of rewinds in a request, the
  blocks handed out are 16-byte aligned, inside the region and pairwise disjoint.\<close>

theorem allocations_disjoint:
  "mem_used r = 0 \<Longrightarrow> mem_run ops (r, []) = (r', bs) \<Longrightarrow> i < j \<Longrightarrow> j < length bs \<Longrightarrow>
     bs ! i = (p, n) \<Longrightarrow> bs ! j = (q, m) \<Longrightarrow>
     16 dvd p \<and> 16 dvd q \<and> q + m \<le> p \<and> p + n \<le> REQUEST_MEMORY_SIZE"
proof -
  assume a: "mem_used r = 0" "mem_run ops (r, []) = (r', bs)" and ij: "i < j" "j < length bs"
    and b: "bs ! i = (p, n)" "bs ! j = (q, m)"
  have "blocks_ok r []" using a by (simp add: blocks_ok_def mem_ok_def)
  with mem_run_ok [of "(r, [])" ops] a have ok: "blocks_ok r' bs" by simp
  have "sorted_wrt (\<lambda>(p, n) (q, m). q + m \<le> p) bs" using ok by (simp add: blocks_ok_def)
  from sorted_wrt_nth_less [OF this ij] have "(\<lambda>(p, n) (q, m). q + m \<le> p) (bs ! i) (bs ! j)" .
  then have "q + m \<le> p" by (simp add: b)
  moreover from ok ij b nth_mem [of i bs] nth_mem [of j bs]
  have "16 dvd p" "16 dvd q" "p + n \<le> mem_used r'" by (auto simp: blocks_ok_def)
  moreover from ok have "mem_used r' \<le> REQUEST_MEMORY_SIZE" by (simp add: blocks_ok_def mem_ok_def)
  ultimately show ?thesis by simp
qed

theorem allocations_disjoint_witness:
  "\<exists>r'. mem_run [Alloc 5, Alloc 7] (empty_request \<lparr>rx = [], tx = [], polls = [], sent = [], g_keep_alive = False\<rparr>, [])
     = (r', [(16, 7), (0, 5)]) \<and> (16::nat) dvd 16 \<and> (0::nat) + 5 \<le> 16"
proof -
  let ?r = "empty_request \<lparr>rx = [], tx = [], polls = [], sent = [], g_keep_alive = False\<rparr>"
  have run: "mem_run [Alloc 5, Alloc 7] (?r, []) = (?r\<lparr>mem_used := 23\<rparr>, [(16, 7), (0, 5)])"
    by (simp add: request_alloc_def empty_request_def align16_def REQUEST_MEMORY_SIZE_def)
  have "mem_used ?r = 0" by (simp add: empty_request_def)
  from allocations_disjoint [OF this run, of 0 1 16 7 0 5] run show ?thesis by simp
qed

text \<open>The JSON body a handler parses is the whole announced body, up to the limit it is refused
  beyond, however it arrives.\<close>

theorem json_body_complete:
  "clean (fd r) \<Longrightarrow> body_ok r \<Longrightarrow> has_content_length r \<Longrightarrow> content_length r \<le> REQUEST_JSON_MAX \<Longrightarrow>
     fst (read_json_loop [] r) = take (content_length r - body_consumed r) (body_stream r)"
  using read_json_loop_all [of r "[]"] by (simp add: min_absorb2 diff_le_self le_trans)

theorem json_body_complete_witness:
  "fst (read_json_loop [] ((empty_request \<lparr>rx = [RecvData ''tru'', RecvData ''e,''], tx = [], polls = [],
      sent = [], g_keep_alive = False\<rparr>)\<lparr>has_content_length := True, content_length := 4\<rparr>)) = ''true''"
  using json_body_complete [of "(empty_request \<lparr>rx = [RecvData ''tru'', RecvData ''e,''], tx = [], polls = [],
      sent = [], g_keep_alive = False\<rparr>)\<lparr>has_content_length := True, content_length := 4\<rparr>"]
  by (simp add: clean_def body_ok_def empty_request_def REQUEST_JSON_MAX_def body_stream_def)

end
