(* ===== verification/Router.thy ===== *)
theory Router
  imports Config_File Request_Memory
begin

text \<open>
  \<open>source/core/http_router.c\<close>: the route, public-prefix and hook tables, the authentication policy and
  dispatch. The features' handlers act on a world of their own, the type variable \<open>'w\<close>: a handler
  takes the world and the request and returns both. The registration warnings are left out.
\<close>

section \<open>Tables\<close>

type_synonym 'w handler = "'w \<times> HttpRequest \<Rightarrow> 'w \<times> HttpRequest"

datatype 'w Route = Route (r_method: string) (r_path: string) (r_handler: "'w handler") (r_prefix: bool)

record 'w Server =
  g_routes :: "'w Route list"
  g_public_prefixes :: "string list"
  g_token_validator :: "('w \<Rightarrow> string \<Rightarrow> bool \<times> 'w) option"
  g_resource_metadata_path :: "string option"
  g_request_hooks :: "('w \<Rightarrow> 'w) list"
  g_idle_hook :: "('w \<Rightarrow> bool \<times> 'w) option"

definition HTTP_MAX_ROUTES :: nat where
  "HTTP_MAX_ROUTES = 64"

definition MAX_PUBLIC_PREFIXES :: nat where
  "MAX_PUBLIC_PREFIXES = 4"

definition HTTP_MAX_REQUEST_HOOKS :: nat where
  "HTTP_MAX_REQUEST_HOOKS = 2"

definition http_server_on_request :: "('w \<Rightarrow> 'w) \<Rightarrow> 'w Server \<Rightarrow> bool \<times> 'w Server" where
  "http_server_on_request hook s =
     (if length (g_request_hooks s) \<ge> HTTP_MAX_REQUEST_HOOKS then (False, s)
      else (True, s\<lparr>g_request_hooks := g_request_hooks s @ [hook]\<rparr>))"

definition add_route :: "'w Route \<Rightarrow> 'w Server \<Rightarrow> bool \<times> 'w Server" where
  "add_route rt s =
     (if length (g_routes s) \<ge> HTTP_MAX_ROUTES then (False, s)
      else (True, s\<lparr>g_routes := g_routes s @ [rt]\<rparr>))"

definition http_server_register_route :: "string \<Rightarrow> string \<Rightarrow> 'w handler \<Rightarrow> 'w Server \<Rightarrow> bool \<times> 'w Server" where
  "http_server_register_route m p h s = add_route (Route m p h False) s"

definition http_server_register_prefix :: "string \<Rightarrow> string \<Rightarrow> 'w handler \<Rightarrow> 'w Server \<Rightarrow> bool \<times> 'w Server" where
  "http_server_register_prefix m p h s = add_route (Route m p h True) s"

definition http_server_add_public_prefix :: "string \<Rightarrow> 'w Server \<Rightarrow> bool \<times> 'w Server" where
  "http_server_add_public_prefix p s =
     (if length (g_public_prefixes s) \<ge> MAX_PUBLIC_PREFIXES then (False, s)
      else (True, s\<lparr>g_public_prefixes := g_public_prefixes s @ [p]\<rparr>))"

definition http_server_set_token_validator ::
    "('w \<Rightarrow> string \<Rightarrow> bool \<times> 'w) \<Rightarrow> string option \<Rightarrow> 'w Server \<Rightarrow> 'w Server" where
  "http_server_set_token_validator v mpath s =
     s\<lparr>g_token_validator := Some v, g_resource_metadata_path := mpath\<rparr>"

definition http_server_set_idle_hook :: "('w \<Rightarrow> bool \<times> 'w) \<Rightarrow> 'w Server \<Rightarrow> 'w Server" where
  "http_server_set_idle_hook h s = s\<lparr>g_idle_hook := Some h\<rparr>"

section \<open>Waiting inside a handler\<close>

text \<open>\<open>sleep\<close> lets the given milliseconds pass in the world.\<close>

definition call_idle :: "'w Server \<Rightarrow> 'w \<Rightarrow> bool \<times> 'w" where
  "call_idle s w = (case g_idle_hook s of None \<Rightarrow> (True, w) | Some h \<Rightarrow> h w)"

function http_server_wait_ms :: "(nat \<Rightarrow> 'w \<Rightarrow> 'w) \<Rightarrow> 'w Server \<Rightarrow> int \<Rightarrow> 'w \<Rightarrow> bool \<times> 'w" where
  "http_server_wait_ms sleep s ms w =
     (if ms > 0 then
        (let slice = (if ms < 500 then ms else 500);
             (go, w1) = call_idle s w
         in if \<not> go then (False, w1)
            else http_server_wait_ms sleep s (ms - slice) (sleep (nat slice) w1))
      else (True, w))"
  by pat_completeness auto
termination by (relation "measure (\<lambda>(sl, s, ms, w). nat ms)") auto

declare http_server_wait_ms.simps [simp del]

section \<open>Authentication\<close>

definition path_is_public :: "'w Server \<Rightarrow> HttpRequest \<Rightarrow> bool" where
  "path_is_public s r \<longleftrightarrow>
     rmethod r = ''OPTIONS'' \<or> list_ex (\<lambda>p. starts_with p (path r)) (g_public_prefixes s)"

definition authorized :: "'w Server \<Rightarrow> Config \<Rightarrow> HttpRequest \<Rightarrow> 'w \<Rightarrow> bool \<times> 'w" where
  "authorized s cfg r w =
     (if config_basic_enabled cfg \<and> http_check_basic_auth r (username cfg) (password cfg) then (True, w)
      else case http_get_bearer r 160 of
        None \<Rightarrow> (False, w)
      | Some bearer \<Rightarrow>
          if token cfg \<noteq> [] \<and> http_secure_streq bearer (token cfg) then (True, w)
          else (case g_token_validator s of None \<Rightarrow> (False, w) | Some v \<Rightarrow> v w bearer))"

section \<open>Dispatch\<close>

definition options_reply :: string where
  "options_reply =
     ''HTTP/1.1 204 No Content'' @ CRLF @
     ''Server: sys-autopilot'' @ CRLF @
     ''Access-Control-Allow-Origin: *'' @ CRLF @
     ''Access-Control-Allow-Methods: GET, POST, PUT, DELETE, OPTIONS'' @ CRLF @
     ''Access-Control-Allow-Headers: Authorization, Content-Type, Mcp-Protocol-Version'' @ CRLF @
     ''Access-Control-Max-Age: 86400'' @ CRLF @
     ''Connection: close'' @ CRLF @ CRLF"

definition handle_options :: "HttpRequest \<Rightarrow> HttpRequest" where
  "handle_options r = r\<lparr>fd := snd (http_write_all options_reply (fd r)), keep_alive := False\<rparr>"

definition route_matches :: "'w Route \<Rightarrow> string \<Rightarrow> bool" where
  "route_matches rt p = (if r_prefix rt then starts_with (r_path rt) p else p = r_path rt)"

fun route_loop :: "'w Route list \<Rightarrow> bool \<Rightarrow> 'w handler" where
  "route_loop [] path_found (w, r) =
     (w, r\<lparr>fd := (if path_found then http_send_error 405 ''method not allowed'' (fd r)
                  else http_send_error 404 ''not found'' (fd r))\<rparr>)"
| "route_loop (rt # rts) path_found (w, r) =
     (if \<not> route_matches rt (path r) then route_loop rts path_found (w, r)
      else if rmethod r = r_method rt then r_handler rt (w, r)
      else route_loop rts True (w, r))"

definition route :: "'w Server \<Rightarrow> 'w handler" where
  "route s wr =
     (if rmethod (snd wr) = ''OPTIONS'' then (fst wr, handle_options (snd wr))
      else route_loop (g_routes s) False wr)"

definition http_server_dispatch :: "'w Server \<Rightarrow> Config \<Rightarrow> 'w handler" where
  "http_server_dispatch s cfg wr =
     (let (w, r) = wr;
          check = config_auth_enabled cfg \<and> \<not> path_is_public s r;
          (ok, w1) = (if check then authorized s cfg r w else (True, w));
          (w2, r2) =
            (if check \<and> \<not> ok
             then (w1, http_send_unauthorized r (config_basic_enabled cfg) (g_resource_metadata_path s))
             else route s (fold (\<lambda>h w. h w) (g_request_hooks s) w1, r))
      in (w2, request_release r2))"

section \<open>Registration fills tables of fixed capacity\<close>

interpretation route_table: bounded_table "g_routes :: 'w Server \<Rightarrow> 'w Route list" add_route HTTP_MAX_ROUTES
  by unfold_locales (auto simp: add_route_def)

interpretation public_table: bounded_table "g_public_prefixes :: 'w Server \<Rightarrow> string list"
    http_server_add_public_prefix MAX_PUBLIC_PREFIXES
  by unfold_locales (auto simp: http_server_add_public_prefix_def)

interpretation hook_table: bounded_table "g_request_hooks :: 'w Server \<Rightarrow> ('w \<Rightarrow> 'w) list"
    http_server_on_request HTTP_MAX_REQUEST_HOOKS
  by unfold_locales (auto simp: http_server_on_request_def)

section \<open>What dispatch does\<close>

text \<open>The routing the tables describe: the first route that matches path and method.\<close>

definition route_spec :: "'w Route list \<Rightarrow> 'w handler" where
  "route_spec rts wr =
     (case filter (\<lambda>rt. route_matches rt (path (snd wr)) \<and> rmethod (snd wr) = r_method rt) rts of
        rt # _ \<Rightarrow> r_handler rt wr
      | [] \<Rightarrow> (fst wr, (snd wr)\<lparr>fd :=
           (if list_ex (\<lambda>rt. route_matches rt (path (snd wr))) rts
            then http_send_error 405 ''method not allowed'' (fd (snd wr))
            else http_send_error 404 ''not found'' (fd (snd wr)))\<rparr>))"

lemma route_loop_spec:
  "route_loop rts pf (w, r) =
     (case filter (\<lambda>rt. route_matches rt (path r) \<and> rmethod r = r_method rt) rts of
        rt # _ \<Rightarrow> r_handler rt (w, r)
      | [] \<Rightarrow> (w, r\<lparr>fd := (if pf \<or> list_ex (\<lambda>rt. route_matches rt (path r)) rts
            then http_send_error 405 ''method not allowed'' (fd r)
            else http_send_error 404 ''not found'' (fd r))\<rparr>))"
  by (induction rts arbitrary: pf) auto

lemma route_eq:
  "route s wr = (if rmethod (snd wr) = ''OPTIONS'' then (fst wr, handle_options (snd wr))
                 else route_spec (g_routes s) wr)"
  by (cases wr) (auto simp: route_def route_spec_def route_loop_spec split: list.splits)

lemma http_get_bearer_length: "http_get_bearer r n = Some b \<Longrightarrow> length b < n \<and> b \<noteq> []"
  by (auto simp: http_get_bearer_def Let_def fit_def split: if_splits)

lemma authorized_iff:
  assumes "g_token_validator s = None"
  shows "fst (authorized s cfg r w) \<longleftrightarrow>
     (config_basic_enabled cfg \<and> http_check_basic_auth r (username cfg) (password cfg)) \<or>
     (token cfg \<noteq> [] \<and> (\<exists>b. http_get_bearer r 160 = Some b \<and> http_secure_streq b (token cfg)))"
  using assms by (auto simp: authorized_def split: option.splits)

text \<open>A wait takes the time asked for, or ends early when the idle hook says so.\<close>

lemma wait_ms_slept:
  fixes clock :: "'w \<Rightarrow> nat"
  assumes "\<And>n w. clock (sleep n w) = clock w + n" and "\<And>w. clock (snd (call_idle s w)) = clock w"
  shows "clock (snd (http_server_wait_ms sleep s ms w)) \<le> clock w + nat ms \<and>
     (fst (http_server_wait_ms sleep s ms w) \<longrightarrow> clock (snd (http_server_wait_ms sleep s ms w)) = clock w + nat ms)"
  using assms
proof (induction sleep s ms w rule: http_server_wait_ms.induct)
  case (1 sl s ms w)
  obtain go w1 where g: "call_idle s w = (go, w1)" by (cases "call_idle s w")
  from "1.prems"(2) [of w] g have c: "clock w1 = clock w" by simp
  show ?case
  proof (cases "ms > 0 \<and> go")
    case True
    let ?sl = "if ms < 500 then ms else 500"
    have n: "nat (ms - ?sl) + nat ?sl = nat ms" using True by auto
    from "1.IH" [OF _ refl g [symmetric]] "1.prems" True
    have "clock (snd (http_server_wait_ms sl s (ms - ?sl) (sl (nat ?sl) w1))) \<le> clock w + nat ?sl + nat (ms - ?sl) \<and>
      (fst (http_server_wait_ms sl s (ms - ?sl) (sl (nat ?sl) w1)) \<longrightarrow>
       clock (snd (http_server_wait_ms sl s (ms - ?sl) (sl (nat ?sl) w1))) = clock w + nat ?sl + nat (ms - ?sl))"
      by (simp add: c)
    moreover have "http_server_wait_ms sl s ms w = http_server_wait_ms sl s (ms - ?sl) (sl (nat ?sl) w1)"
      using True g by (subst http_server_wait_ms.simps) (simp add: Let_def)
    ultimately show ?thesis using n by (metis (no_types, lifting) add.assoc add.commute)
  next
    case False
    with g c show ?thesis by (auto simp: http_server_wait_ms.simps [of sl s ms w])
  qed
qed

section \<open>Properties\<close>

text \<open>C5: with a token configured and no other way in, a request that carries a bearer token reaches
  the hooks and the routes exactly when the token is the configured one; otherwise the world of the
  features is untouched and the answer is 401. Request memory is released in both cases.\<close>

theorem bearer_gate:
  assumes "token cfg \<noteq> []" and "\<not> config_basic_enabled cfg" and "g_token_validator s = None"
    and "\<not> path_is_public s r" and "auth r = ''Bearer '' @ b" and "b \<noteq> []" and "hd b \<noteq> CHR '' ''"
    and "length b < 160" and "cstr b" and "cstr (token cfg)"
  shows "http_server_dispatch s cfg (w, r) =
     (if b = token cfg
      then (let (w', r') = route_spec (g_routes s) (fold (\<lambda>h w. h w) (g_request_hooks s) w, r)
            in (w', r'\<lparr>mem_used := 0\<rparr>))
      else (w, (http_send_unauthorized r False (g_resource_metadata_path s))\<lparr>mem_used := 0\<rparr>))"
proof -
  have "http_get_bearer r 160 = Some b"
    using assms(5-8) by (cases b) (simp_all add: http_get_bearer_def strncaseeq_def fit_def)
  then have "authorized s cfg r w = (b = token cfg, w)"
    using assms by (simp add: authorized_def http_secure_streq_iff)
  moreover have "rmethod r \<noteq> ''OPTIONS''" using assms(4) by (simp add: path_is_public_def)
  ultimately show ?thesis
    using assms(1-4)
    by (simp add: http_server_dispatch_def config_auth_enabled_def Let_def route_eq request_release_def
        split: prod.splits)
qed

theorem bearer_gate_witness:
  "fst (http_server_dispatch \<lparr>g_routes = [Route ''GET'' ''/a'' (\<lambda>(w, r). (w + 1, r)) False],
       g_public_prefixes = [], g_token_validator = None, g_resource_metadata_path = None,
       g_request_hooks = [], g_idle_hook = None\<rparr> (default_config\<lparr>token := ''key''\<rparr>)
     (0 :: nat, (empty_request \<lparr>rx = [], tx = [], polls = [], sent = [], g_keep_alive = False\<rparr>)
       \<lparr>rmethod := ''GET'', path := ''/a'', auth := ''Bearer key''\<rparr>)) = 1"
  by (subst bearer_gate [where b = "''key''"])
    (simp_all add: default_config_def config_basic_enabled_def path_is_public_def empty_request_def cstr_def
      route_spec_def route_matches_def)

text \<open>C27: an admitted request is answered by the first registered route that matches its path and
  method; when none does the answer is 405 if some route has the path and 404 otherwise.\<close>

theorem first_match_routing:
  "\<not> config_auth_enabled cfg \<Longrightarrow> rmethod r \<noteq> ''OPTIONS'' \<Longrightarrow>
     http_server_dispatch s cfg (w, r) =
       (let (w', r') = route_spec (g_routes s) (fold (\<lambda>h w. h w) (g_request_hooks s) w, r)
        in (w', r'\<lparr>mem_used := 0\<rparr>))"
  by (simp add: http_server_dispatch_def Let_def route_eq request_release_def split: prod.splits)

theorem first_match_routing_witness:
  "fst (http_server_dispatch \<lparr>g_routes = [Route ''POST'' ''/a'' (\<lambda>(w, r). (w + 1, r)) False,
         Route ''GET'' ''/'' (\<lambda>(w, r). (w + 2, r)) True, Route ''GET'' ''/a'' (\<lambda>(w, r). (w + 4, r)) False],
       g_public_prefixes = [], g_token_validator = None, g_resource_metadata_path = None,
       g_request_hooks = [], g_idle_hook = None\<rparr> default_config
     (0 :: nat, (empty_request \<lparr>rx = [], tx = [], polls = [], sent = [], g_keep_alive = False\<rparr>)
       \<lparr>rmethod := ''GET'', path := ''/a''\<rparr>)) = 2"
  by (subst first_match_routing)
    (simp_all add: default_config_def config_auth_enabled_def config_basic_enabled_def route_spec_def
      route_matches_def starts_with_def)

text \<open>registration keeps the routes in order and drops those beyond the table's capacity.\<close>

theorem routes_registered_in_order:
  "length (g_routes s) \<le> HTTP_MAX_ROUTES \<Longrightarrow>
     g_routes (fold (\<lambda>rt s. snd (add_route rt s)) rts s) = take HTTP_MAX_ROUTES (g_routes s @ rts)"
  using route_table.entries_add_all [of s rts] by (simp add: route_table.add_all_def)

theorem routes_registered_in_order_witness:
  "g_routes (fold (\<lambda>rt s. snd (add_route rt s)) [Route ''GET'' ''/a'' id False, Route ''GET'' ''/b'' id True]
     (\<lparr>g_routes = [], g_public_prefixes = [], g_token_validator = None, g_resource_metadata_path = None,
       g_request_hooks = [], g_idle_hook = None\<rparr> :: nat Server)) =
     [Route ''GET'' ''/a'' id False, Route ''GET'' ''/b'' id True]"
  using routes_registered_in_order [of "\<lparr>g_routes = [], g_public_prefixes = [], g_token_validator = None,
       g_resource_metadata_path = None, g_request_hooks = [], g_idle_hook = None\<rparr> :: nat Server"
     "[Route ''GET'' ''/a'' id False, Route ''GET'' ''/b'' id True]"]
  by (simp add: HTTP_MAX_ROUTES_def)

end
