(* ===== verification/Server_Loop.thy ===== *)
theory Server_Loop
  imports Power_Control Router
begin

text \<open>
  \<open>source/core/http_server.c\<close>: keep-alive handling of a client connection, and the server loop with
  its sleep/wake protocol. An iteration of the loop is a function of what the system answers during
  it (the record \<open>env\<close>); the effects that matter across sleep are recorded in a trace. Running the
  loop is an inductive step relation. \<open>serve\<close>, the handling of one accepted client, is an argument:
  it changes the world the handlers act on.
\<close>

section \<open>One request after another on a connection\<close>

function drain_loop :: "nat \<Rightarrow> HttpRequest \<Rightarrow> bool \<times> HttpRequest" where
  "drain_loop guard r =
     (if \<not> body_consumed r < content_length r then (True, r)
      else if guard + 1 > 4096 then (False, r)
      else case http_read_body 1024 r of
        (None, r') \<Rightarrow> (False, r')
      | (Some d, r') \<Rightarrow> if d = [] then (False, r') else drain_loop (guard + 1) r')"
  by pat_completeness auto
termination by (relation "measure (\<lambda>(g, r). 4096 - g)") auto

declare drain_loop.simps [simp del]

definition drain_body :: "HttpRequest \<Rightarrow> bool \<times> HttpRequest" where
  "drain_body r = (if \<not> has_content_length r then (True, r) else drain_loop 0 r)"

datatype ConnDisp = CONN_CLOSE | CONN_KEEP

definition handle_one :: "'w Server \<Rightarrow> Config \<Rightarrow> 'w \<Rightarrow> conn \<Rightarrow> ConnDisp \<times> 'w \<times> conn" where
  "handle_one s cfg w c =
     (case http_read_request c of
        (None, c1) \<Rightarrow> (CONN_CLOSE, w, c1)
      | (Some r, c1) \<Rightarrow>
          (let ka = http11 r \<and> \<not> conn_close r;
               r1 = r\<lparr>keep_alive := ka, fd := http_set_keep_alive ka (fd r)\<rparr>;
               (w2, r2) = http_server_dispatch s cfg (w, r1)
           in if keep_alive r2
              then (let (ok, r3) = drain_body r2 in (if ok then CONN_KEEP else CONN_CLOSE, w2, fd r3))
              else (CONN_CLOSE, w2, fd r2)))"

text \<open>\<open>poll(&p, 1, 50)\<close> between two requests.\<close>

definition poll_once :: "conn \<Rightarrow> int \<times> conn" where
  "poll_once c = (case polls c of
     [] \<Rightarrow> (1, c)
   | PollIntr # ps \<Rightarrow> (-1, c\<lparr>polls := ps\<rparr>)
   | PollRet pr hit # ps \<Rightarrow> (pr, c\<lparr>polls := ps\<rparr>))"

fun handle_connection_loop :: "nat \<Rightarrow> 'w Server \<Rightarrow> Config \<Rightarrow> 'w \<Rightarrow> conn \<Rightarrow> 'w \<times> conn" where
  "handle_connection_loop 0 s cfg w c = (w, c)"
| "handle_connection_loop (Suc n) s cfg w c =
     (let (d, w1, c1) = handle_one s cfg w c in
      if d \<noteq> CONN_KEEP then (w1, c1)
      else let (pr, c2) = poll_once c1 in
        if pr \<le> 0 then (w1, c2) else handle_connection_loop n s cfg w1 c2)"

definition handle_connection :: "'w Server \<Rightarrow> Config \<Rightarrow> 'w \<Rightarrow> conn \<Rightarrow> 'w \<times> conn" where
  "handle_connection s cfg w c = handle_connection_loop 64 s cfg w c"

text \<open>\<open>close_client\<close>: five short waits for the peer to hang up; \<^term>\<open>True\<close> when the server has to shut the
  connection down itself.\<close>

fun close_client_loop :: "nat \<Rightarrow> conn \<Rightarrow> bool" where
  "close_client_loop 0 c = True"
| "close_client_loop (Suc n) c =
     (let (pr, c1) = poll_once c in
      if pr \<le> 0 then close_client_loop n c1
      else case rx c1 of
        [] \<Rightarrow> False
      | RecvData d # r \<Rightarrow> if d = [] then False
          else close_client_loop n (c1\<lparr>rx := (if length d \<le> 512 then r else RecvData (drop 512 d) # r)\<rparr>)
      | RecvIntr # r \<Rightarrow> close_client_loop n (c1\<lparr>rx := r\<rparr>)
      | RecvAgain # r \<Rightarrow> close_client_loop n (c1\<lparr>rx := r\<rparr>)
      | RecvErr # r \<Rightarrow> True)"

definition close_client :: "conn \<Rightarrow> bool" where
  "close_client c = close_client_loop 5 c"

section \<open>The loop's state and its effects\<close>

text \<open>
  The effects: I/O on the SD card (a log line that is not blocked), on sockets, with the network
  manager, with the idle service, with the power-action service; a sleep hook run; an
  acknowledgement of a power transition; a pause of the thread.
\<close>

datatype effect = E_Sd | E_Socket | E_CloseListener | E_CloseMdns | E_Nifm | E_Idle | E_Spsm
  | E_Hook nat | E_Ack PscPmState | E_ThreadSleep

record 'w world =
  pw :: power
  log_blocked :: bool
  keepawake_next :: nat
  g_keep_awake :: bool
  trace :: "effect list"
  app :: 'w

record server =
  listen_fd :: bool
  mdns_fd :: bool
  suspended :: bool
  mdns_ready :: bool
  mdns_announce_left :: nat
  netcheck_ticks :: nat

record 'w env =
  e_tick :: nat
  e_ip_changed :: bool
  e_listener_ok :: bool
  e_mdns_config_ok :: bool
  e_mdns_open_ok :: bool
  e_announce_ok :: bool
  e_poll :: int
  e_mdns_readable :: bool
  e_listen_readable :: bool
  e_accept_ok :: bool
  e_first_poll :: int
  e_serve :: "'w world \<Rightarrow> 'w world"
  e_perform_ok :: bool

definition emit :: "effect \<Rightarrow> 'w world \<Rightarrow> 'w world" where
  "emit e w = w\<lparr>trace := trace w @ [e]\<rparr>"

text \<open>A log line: \<open>log_write\<close> returns at once while the sink is suspended.\<close>

definition logline :: "'w world \<Rightarrow> 'w world" where
  "logline w = (if log_blocked w then w else emit E_Sd w)"

section \<open>Sleep hooks, keep-awake, sockets\<close>

definition HTTP_MAX_SLEEP_HOOKS :: nat where
  "HTTP_MAX_SLEEP_HOOKS = 4"

text \<open>A hook is a number; running it is an effect.\<close>

definition http_server_on_sleep :: "nat \<Rightarrow> nat list \<Rightarrow> bool \<times> nat list" where
  "http_server_on_sleep h hs = (if length hs \<ge> HTTP_MAX_SLEEP_HOOKS then (False, hs) else (True, hs @ [h]))"

interpretation sleep_hook_table: bounded_table "\<lambda>hs. hs" http_server_on_sleep HTTP_MAX_SLEEP_HOOKS
  by unfold_locales (auto simp: http_server_on_sleep_def)

definition KEEPAWAKE_INTERVAL_NS :: nat where
  "KEEPAWAKE_INTERVAL_NS = 5 * 1000000000"

definition keepawake_maybe :: "nat \<Rightarrow> 'w world \<Rightarrow> 'w world" where
  "keepawake_maybe now w =
     (if \<not> g_keep_awake w then w
      else if now \<ge> keepawake_next w then
        (let w = w\<lparr>keepawake_next := now + KEEPAWAKE_INTERVAL_NS\<rparr>;
             w = (if g_idle_ok (pw w) then emit E_Idle w else w)
         in w\<lparr>pw := power_keepawake_tick (pw w)\<rparr>)
      else w)"

definition wait_idle :: "nat \<Rightarrow> 'w world \<Rightarrow> bool \<times> 'w world" where
  "wait_idle now w =
     (let (req, p) = power_sleep_requested (pw w); w = w\<lparr>pw := p\<rparr>
      in if req then (False, logline w) else (True, keepawake_maybe now w))"

definition close_sockets :: "server \<times> 'w world \<Rightarrow> server \<times> 'w world" where
  "close_sockets sw =
     (let (s, w) = sw;
          w = (if listen_fd s then emit E_CloseListener w else w);
          w = (if mdns_fd s then emit E_CloseMdns w else w)
      in (s\<lparr>listen_fd := False, mdns_fd := False\<rparr>, w))"

definition ack :: "'w world \<Rightarrow> 'w world" where
  "ack w = (let w = emit (E_Ack (g_pending_state (pw w))) w in w\<lparr>pw := power_ack (pw w)\<rparr>)"

section \<open>One iteration\<close>

text \<open>The power event at the top of the loop.\<close>

definition power_step :: "nat list \<Rightarrow> server \<times> 'w world \<Rightarrow> server \<times> 'w world" where
  "power_step hooks sw =
     (let (s, w) = sw; (pe, p) = power_poll (pw w); w = w\<lparr>pw := p\<rparr> in
      if pe = PowerEvent_Sleep then
        (let w = logline w;
             w = w\<lparr>log_blocked := True\<rparr>;
             (s, w) = close_sockets (s, w);
             w = fold (\<lambda>h. emit (E_Hook h)) hooks w
         in (s\<lparr>suspended := True\<rparr>, ack w))
      else if pe = PowerEvent_Wake then
        (let w = ack w;
             s = s\<lparr>suspended := False\<rparr>;
             w = logline (w\<lparr>log_blocked := False\<rparr>)
         in (s, w\<lparr>keepawake_next := 0\<rparr>))
      else (s, w))"

definition netcheck :: "'w env \<Rightarrow> server \<times> 'w world \<Rightarrow> server \<times> 'w world" where
  "netcheck e sw =
     (let (s, w) = sw; s = s\<lparr>netcheck_ticks := netcheck_ticks s + 1\<rparr> in
      if netcheck_ticks s \<ge> 20 then
        (let s = s\<lparr>netcheck_ticks := 0\<rparr>; w = emit E_Nifm w in
         if e_ip_changed e then
           (let sw = close_sockets (s, logline w) in ((fst sw)\<lparr>mdns_ready := False\<rparr>, snd sw))
         else (s, w))
      else (s, w))"

text \<open>(Re)opening the listener; \<^term>\<open>False\<close> when the iteration ends there.\<close>

definition open_listener :: "'w env \<Rightarrow> server \<times> 'w world \<Rightarrow> bool \<times> server \<times> 'w world" where
  "open_listener e sw =
     (let (s, w) = sw in
      if listen_fd s then (True, s, w)
      else let w = emit E_Socket w in
        if \<not> e_listener_ok e then (False, s, emit E_ThreadSleep (logline w))
        else (True, s\<lparr>listen_fd := True\<rparr>, logline w))"

definition open_mdns :: "'w env \<Rightarrow> server \<times> 'w world \<Rightarrow> server \<times> 'w world" where
  "open_mdns e sw =
     (let (s, w) = sw in
      if mdns_fd s then (s, w)
      else let (s, w) = (if mdns_ready s then (s, w)
                         else (s\<lparr>mdns_ready := e_mdns_config_ok e\<rparr>, emit E_Nifm w)) in
        if \<not> mdns_ready s then (s, w)
        else let w = emit E_Socket w in
          if e_mdns_open_ok e then (s\<lparr>mdns_fd := True, mdns_announce_left := 3\<rparr>, logline w)
          else (s, w))"

definition announce :: "'w env \<Rightarrow> server \<times> 'w world \<Rightarrow> server \<times> 'w world" where
  "announce e sw =
     (let (s, w) = sw in
      if mdns_fd s \<and> mdns_announce_left s > 0 then
        (if e_announce_ok e then s\<lparr>mdns_announce_left := mdns_announce_left s - 1\<rparr> else s, emit E_Socket w)
      else (s, w))"

definition run_scheduled :: "'w env \<Rightarrow> 'w world \<Rightarrow> 'w world" where
  "run_scheduled e w =
     (let (a, p) = power_take_scheduled (pw w); w = w\<lparr>pw := p\<rparr> in
      if a = PowerAction_None then w
      else let w = emit E_ThreadSleep (logline w);
               (ok, p) = power_perform (e_perform_ok e) a (pw w);
               w = (if g_spsm_ok (pw w) then emit E_Spsm w else w);
               w = w\<lparr>pw := p\<rparr>
           in if ok then w else logline w)"

definition serve_sockets :: "'w env \<Rightarrow> server \<times> 'w world \<Rightarrow> server \<times> 'w world" where
  "serve_sockets e sw =
     (let (s, w) = sw; w = emit E_Socket w in
      if e_poll e < 0 then
        (let sw = close_sockets (s, logline w) in (fst sw, emit E_ThreadSleep (snd sw)))
      else if e_poll e = 0 then (s, w)
      else
        (let w = (if mdns_fd s \<and> e_mdns_readable e then emit E_Socket w else w) in
         if \<not> e_listen_readable e then (s, w)
         else let w = emit E_Socket w in
           if \<not> e_accept_ok e then (s, logline w)
           else (let w = (if e_first_poll e > 0 then e_serve e w else w);
                     w = emit E_Socket w
                 in (s, run_scheduled e w))))"

definition loop_iteration :: "nat list \<Rightarrow> 'w env \<Rightarrow> server \<times> 'w world \<Rightarrow> server \<times> 'w world" where
  "loop_iteration hooks e sw =
     (let (s, w) = power_step hooks sw in
      if suspended s then (s, emit E_ThreadSleep w)
      else
        (let (s, w) = netcheck e (s, keepawake_maybe (e_tick e) w);
             (go, s, w) = open_listener e (s, w)
         in if \<not> go then (s, w)
            else serve_sockets e (announce e (open_mdns e (s, w)))))"

definition server_init :: "bool \<Rightarrow> server" where
  "server_init mdns_ok = \<lparr>listen_fd = False, mdns_fd = False, suspended = False, mdns_ready = mdns_ok,
     mdns_announce_left = 0, netcheck_ticks = 0\<rparr>"

section \<open>Runs of the loop\<close>

text \<open>
  Serving a client may do any I/O and poll the power service through the idle hook, but it neither
  acknowledges a transition nor touches the log's block: no handler of the program calls
  \<open>power_ack\<close> or \<open>log_set_suspended\<close>.
\<close>

definition io_effect :: "effect \<Rightarrow> bool" where
  "io_effect e \<longleftrightarrow> e \<in> {E_Sd, E_Socket, E_CloseListener, E_CloseMdns, E_Nifm, E_Idle, E_Spsm}"

definition is_ack :: "effect \<Rightarrow> bool" where
  "is_ack e \<longleftrightarrow> (\<exists>st. e = E_Ack st)"

definition serve_ok :: "('w world \<Rightarrow> 'w world) \<Rightarrow> bool" where
  "serve_ok f \<longleftrightarrow> (\<forall>w. log_blocked (f w) = log_blocked w \<and>
     (\<exists>es. trace (f w) = trace w @ es \<and> \<not> list_ex is_ack es) \<and>
     (power_ok (pw w) \<longrightarrow> power_ok (pw (f w))))"

inductive loop_run :: "nat list \<Rightarrow> server \<times> 'w world \<Rightarrow> server \<times> 'w world \<Rightarrow> bool" for hooks where
  loop_refl: "loop_run hooks sw sw"
| loop_step: "loop_run hooks sw sw1 \<Longrightarrow> serve_ok (e_serve e) \<Longrightarrow> loop_iteration hooks e sw1 = sw2 \<Longrightarrow>
     loop_run hooks sw sw2"

inductive_cases loop_runE: "loop_run hooks sw sw'"

text \<open>The console's side of the protocol: whether it is asleep after the effects so far, and whether
  no I/O happened while it was.\<close>

definition asleep_after :: "bool \<Rightarrow> effect \<Rightarrow> bool" where
  "asleep_after b e = (case e of E_Ack st \<Rightarrow> psc_event st = PowerEvent_Sleep | _ \<Rightarrow> b)"

fun quiet_asleep :: "bool \<Rightarrow> effect list \<Rightarrow> bool" where
  "quiet_asleep b [] = True"
| "quiet_asleep b (e # es) \<longleftrightarrow> \<not> (b \<and> io_effect e) \<and> quiet_asleep (asleep_after b e) es"

definition asleep :: "bool \<Rightarrow> effect list \<Rightarrow> bool" where
  "asleep b es = fold (\<lambda>e b. asleep_after b e) es b"

section \<open>No I/O between the acknowledgement of sleep and the wake\<close>

definition loop_inv :: "server \<times> 'w world \<Rightarrow> bool" where
  "loop_inv sw \<longleftrightarrow>
     (let (s, w) = sw in
      power_ok (pw w) \<and> quiet_asleep False (trace w) \<and> asleep False (trace w) = suspended s \<and>
      log_blocked w = suspended s \<and> (suspended s \<longrightarrow> \<not> listen_fd s \<and> \<not> mdns_fd s))"

lemma quiet_asleep_append:
  "quiet_asleep b (xs @ ys) \<longleftrightarrow> quiet_asleep b xs \<and> quiet_asleep (asleep b xs) ys"
  by (induction xs arbitrary: b) (auto simp: asleep_def)

lemma asleep_append: "asleep b (xs @ ys) = asleep (asleep b xs) ys"
  by (simp add: asleep_def)

lemma asleep_no_ack: "\<not> list_ex is_ack es \<Longrightarrow> asleep b es = b"
  by (induction es arbitrary: b) (auto simp: asleep_def asleep_after_def is_ack_def split: effect.splits)

lemma quiet_awake: "\<not> list_ex is_ack es \<Longrightarrow> quiet_asleep False es"
  by (induction es) (auto simp: asleep_after_def is_ack_def split: effect.splits)

text \<open>While awake, a part of an iteration keeps the world in order.\<close>

definition awake_ok :: "'w world \<Rightarrow> bool" where
  "awake_ok w \<longleftrightarrow> power_ok (pw w) \<and> quiet_asleep False (trace w) \<and> \<not> asleep False (trace w) \<and> \<not> log_blocked w"

lemma awake_ok_emit: "awake_ok w \<Longrightarrow> \<not> is_ack e \<Longrightarrow> awake_ok (emit e w)"
  by (auto simp: awake_ok_def emit_def quiet_asleep_append asleep_append asleep_no_ack)

lemma awake_ok_log: "awake_ok w \<Longrightarrow> awake_ok (logline w)"
  by (simp add: logline_def awake_ok_emit is_ack_def)

lemma awake_ok_pw: "awake_ok w \<Longrightarrow> power_ok p \<Longrightarrow> awake_ok (w\<lparr>pw := p\<rparr>)"
  by (simp add: awake_ok_def)

lemma awake_ok_serve: "awake_ok w \<Longrightarrow> serve_ok f \<Longrightarrow> awake_ok (f w)"
proof -
  assume w: "awake_ok w" and f: "serve_ok f"
  from f obtain es where es: "trace (f w) = trace w @ es" "\<not> list_ex is_ack es"
    unfolding serve_ok_def by blast
  moreover have "log_blocked (f w) = log_blocked w" "power_ok (pw w) \<longrightarrow> power_ok (pw (f w))"
    using f unfolding serve_ok_def by blast+
  ultimately show ?thesis
    using w quiet_awake [OF es(2)] by (simp add: awake_ok_def quiet_asleep_append asleep_append asleep_no_ack)
qed

lemma awake_ok_keepawake: "awake_ok w \<Longrightarrow> awake_ok (keepawake_maybe now w)"
proof -
  assume w: "awake_ok w"
  have "awake_ok (w\<lparr>keepawake_next := n\<rparr>)" for n using w by (simp add: awake_ok_def)
  moreover have "power_ok (power_keepawake_tick p)" if "power_ok p" for p
    using that by (simp add: power_keepawake_tick_def power_ok_def)
  ultimately show ?thesis
    using w awake_ok_emit [of "w\<lparr>keepawake_next := now + KEEPAWAKE_INTERVAL_NS\<rparr>" E_Idle]
    by (auto simp: keepawake_maybe_def Let_def is_ack_def intro!: awake_ok_pw)
      (auto simp: awake_ok_def emit_def)
qed

lemma awake_ok_scheduled: "awake_ok w \<Longrightarrow> awake_ok (run_scheduled e w)"
proof -
  assume w: "awake_ok w"
  have p: "power_ok (snd (power_take_scheduled (pw w)))"
    using w by (simp add: awake_ok_def power_take_scheduled_def power_ok_def)
  have q: "power_ok (snd (power_perform rc a p))" if "power_ok p" for rc a p
    using that by (simp add: power_perform_def power_ok_def)
  obtain a p1 where t: "power_take_scheduled (pw w) = (a, p1)" by (cases "power_take_scheduled (pw w)")
  let ?w = "emit E_ThreadSleep (logline (w\<lparr>pw := p1\<rparr>))"
  have w1: "awake_ok ?w"
    using w p t by (intro awake_ok_emit awake_ok_log awake_ok_pw) (auto simp: is_ack_def)
  obtain ok p2 where f: "power_perform (e_perform_ok e) a (pw ?w) = (ok, p2)"
    by (cases "power_perform (e_perform_ok e) a (pw ?w)")
  have w2: "awake_ok (if g_spsm_ok (pw ?w) then emit E_Spsm ?w else ?w)"
    using w1 awake_ok_emit [OF w1, of E_Spsm] by (simp add: is_ack_def)
  have "power_ok (pw ?w)" using w1 by (simp add: awake_ok_def)
  from q [OF this, of "e_perform_ok e" a] f have "power_ok p2" by simp
  from awake_ok_pw [OF w2 this] awake_ok_pw [OF w, of p1] p t f show ?thesis
    by (simp add: run_scheduled_def Let_def awake_ok_log split: if_splits)
qed

lemma close_sockets_awake:
  "awake_ok w \<Longrightarrow> awake_ok (snd (close_sockets (s, w)))"
  "suspended (fst (close_sockets (s, w))) = suspended s"
  by (auto simp: close_sockets_def Let_def is_ack_def awake_ok_emit)

lemma iteration_awake:
  assumes "awake_ok w" and "\<not> suspended s" and "serve_ok (e_serve e)"
    and "(let (s, w) = netcheck e (s, keepawake_maybe (e_tick e) w);
              (go, s, w) = open_listener e (s, w)
          in if \<not> go then (s, w) else serve_sockets e (announce e (open_mdns e (s, w)))) = (s', w')"
  shows "awake_ok w' \<and> \<not> suspended s'"
proof -
  have emit_ok: "awake_ok (emit x v)" if "awake_ok v" "x \<in> {E_Sd, E_Socket, E_Nifm, E_ThreadSleep}" for x v
    using that by (intro awake_ok_emit) (auto simp: is_ack_def)
  obtain s1 w1 where n: "netcheck e (s, keepawake_maybe (e_tick e) w) = (s1, w1)"
    by (cases "netcheck e (s, keepawake_maybe (e_tick e) w)")
  have k: "awake_ok (keepawake_maybe (e_tick e) w)" by (rule awake_ok_keepawake [OF assms(1)])
  have 1: "awake_ok w1 \<and> \<not> suspended s1"
    using n assms(2) k
    by (auto simp: netcheck_def Let_def close_sockets_awake emit_ok awake_ok_log split: if_splits prod.splits)
  obtain go s2 w2 where l: "open_listener e (s1, w1) = (go, s2, w2)" by (cases "open_listener e (s1, w1)")
  have 2: "awake_ok w2 \<and> \<not> suspended s2"
    using l 1 by (auto simp: open_listener_def Let_def emit_ok awake_ok_log split: if_splits)
  obtain s3 w3 where m: "open_mdns e (s2, w2) = (s3, w3)" by (cases "open_mdns e (s2, w2)")
  have 3: "awake_ok w3 \<and> \<not> suspended s3"
    using m 2 by (auto simp: open_mdns_def Let_def emit_ok awake_ok_log split: if_splits)
  obtain s4 w4 where a: "announce e (s3, w3) = (s4, w4)" by (cases "announce e (s3, w3)")
  have 4: "awake_ok w4 \<and> \<not> suspended s4"
    using a 3 by (auto simp: announce_def Let_def emit_ok split: if_splits)
  have 5: "awake_ok w5 \<and> \<not> suspended s5" if "serve_sockets e (s4, w4) = (s5, w5)" for s5 w5
    using that 4 assms(3)
    by (auto simp: serve_sockets_def Let_def close_sockets_awake emit_ok awake_ok_log awake_ok_serve awake_ok_scheduled
        split: if_splits prod.splits)
  show ?thesis
  proof (cases go)
    case True
    with assms(4) n l m a 5 show ?thesis by auto
  next
    case False
    with assms(4) n l 2 show ?thesis by auto
  qed
qed

lemma fold_hooks:
  "fold (\<lambda>h. emit (E_Hook h)) hooks w = w\<lparr>trace := trace w @ map E_Hook hooks\<rparr>"
  by (induction hooks arbitrary: w) (simp_all add: emit_def)

lemma quiet_no_io: "\<not> list_ex is_ack es \<Longrightarrow> \<not> list_ex io_effect es \<Longrightarrow> quiet_asleep b es"
  by (induction es arbitrary: b) (auto simp: asleep_after_def)

text \<open>What a sleep event does, in order: the last log line, the sockets, the hooks, the acknowledgement.\<close>

lemma power_step_sleep:
  assumes "power_poll (pw w) = (PowerEvent_Sleep, p)"
  shows "power_step hooks (s, w) =
    (s\<lparr>listen_fd := False, mdns_fd := False, suspended := True\<rparr>,
     w\<lparr>pw := power_ack p, log_blocked := True,
       trace := trace w @ (if log_blocked w then [] else [E_Sd]) @
         (if listen_fd s then [E_CloseListener] else []) @ (if mdns_fd s then [E_CloseMdns] else []) @
         map E_Hook hooks @ [E_Ack (g_pending_state p)]\<rparr>)"
  using assms
  by (auto simp: power_step_def Let_def close_sockets_def fold_hooks ack_def logline_def emit_def)

lemma power_step_wake:
  assumes "power_poll (pw w) = (PowerEvent_Wake, p)"
  shows "power_step hooks (s, w) =
    (s\<lparr>suspended := False\<rparr>,
     w\<lparr>pw := power_ack p, log_blocked := False, keepawake_next := 0,
       trace := trace w @ [E_Ack (g_pending_state p), E_Sd]\<rparr>)"
  using assms by (auto simp: power_step_def Let_def ack_def logline_def emit_def)

lemma power_step_none:
  assumes "power_poll (pw w) = (PowerEvent_None, p)"
  shows "power_step hooks (s, w) = (s, w\<lparr>pw := p\<rparr>)"
  using assms by (simp add: power_step_def Let_def)

lemma power_ack_ok: "power_ok p \<Longrightarrow> power_ok (power_ack p)"
  by (simp add: power_ok_def power_ack_def)

lemma power_step_inv:
  assumes "loop_inv (s, w)"
  shows "loop_inv (power_step hooks (s, w))"
proof -
  obtain pe p where pe: "power_poll (pw w) = (pe, p)" by (cases "power_poll (pw w)")
  from assms have inv: "power_ok (pw w)" "quiet_asleep False (trace w)"
    "asleep False (trace w) = suspended s" "log_blocked w = suspended s"
    "suspended s \<longrightarrow> \<not> listen_fd s \<and> \<not> mdns_fd s" by (simp_all add: loop_inv_def)
  note c = power_poll_cases [OF inv(1) pe]
  have hooks_ok: "\<not> list_ex is_ack (map E_Hook hooks)" "\<not> list_ex io_effect (map E_Hook hooks)"
    by (induction hooks) (simp_all add: is_ack_def io_effect_def)
  show ?thesis
  proof (cases pe)
    case PowerEvent_None
    with pe c inv show ?thesis by (simp add: power_step_none loop_inv_def)
  next
    case PowerEvent_Sleep
    let ?es = "(if log_blocked w then [] else [E_Sd]) @ (if listen_fd s then [E_CloseListener] else []) @
      (if mdns_fd s then [E_CloseMdns] else []) @ map E_Hook hooks"
    have noack: "\<not> list_ex is_ack ?es" using hooks_ok by (simp add: is_ack_def)
    have "\<not> list_ex io_effect ?es" if "suspended s" using that inv hooks_ok by simp
    then have "quiet_asleep (suspended s) ?es"
      using quiet_no_io [OF noack] quiet_awake [OF noack] by (cases "suspended s") simp_all
    moreover have "psc_event (g_pending_state p) = PowerEvent_Sleep" using c PowerEvent_Sleep by simp
    ultimately have "quiet_asleep False (trace w @ ?es @ [E_Ack (g_pending_state p)])"
      "asleep False (trace w @ ?es @ [E_Ack (g_pending_state p)])"
      using inv by (simp_all only: quiet_asleep_append asleep_append asleep_no_ack [OF noack])
        (simp_all add: io_effect_def asleep_def asleep_after_def)
    with PowerEvent_Sleep pe c show ?thesis
      by (simp add: power_step_sleep loop_inv_def power_ack_ok)
  next
    case PowerEvent_Wake
    have "psc_event (g_pending_state p) = PowerEvent_Wake" using c PowerEvent_Wake by simp
    then have "quiet_asleep False (trace w @ [E_Ack (g_pending_state p), E_Sd])"
      "\<not> asleep False (trace w @ [E_Ack (g_pending_state p), E_Sd])"
      using inv by (auto simp: quiet_asleep_append asleep_append io_effect_def asleep_def asleep_after_def)
    with PowerEvent_Wake pe c inv show ?thesis
      by (simp add: power_step_wake loop_inv_def power_ack_ok)
  qed
qed

lemma awake_ok_inv: "loop_inv (s, w) \<Longrightarrow> \<not> suspended s \<Longrightarrow> awake_ok w"
  by (simp add: loop_inv_def awake_ok_def)

lemma inv_awake_ok: "awake_ok w \<Longrightarrow> \<not> suspended s \<Longrightarrow> loop_inv (s, w)"
  by (simp add: loop_inv_def awake_ok_def)

lemma loop_iteration_inv:
  assumes "loop_inv sw" and "serve_ok (e_serve e)"
  shows "loop_inv (loop_iteration hooks e sw)"
proof -
  obtain s w where sw: "sw = (s, w)" by (cases sw)
  obtain s1 w1 where p: "power_step hooks (s, w) = (s1, w1)" by (cases "power_step hooks (s, w)")
  with power_step_inv [of s w hooks] assms(1) sw have i1: "loop_inv (s1, w1)" by simp
  show ?thesis
  proof (cases "suspended s1")
    case True
    have "\<not> is_ack E_ThreadSleep" "\<not> io_effect E_ThreadSleep" by (simp_all add: is_ack_def io_effect_def)
    with i1 have "loop_inv (s1, emit E_ThreadSleep w1)"
      by (simp add: loop_inv_def emit_def quiet_asleep_append asleep_append asleep_no_ack)
    with True p sw show ?thesis by (simp add: loop_iteration_def)
  next
    case False
    obtain s2 w2 where r: "(let (s, w) = netcheck e (s1, keepawake_maybe (e_tick e) w1);
              (go, s, w) = open_listener e (s, w)
          in if \<not> go then (s, w) else serve_sockets e (announce e (open_mdns e (s, w)))) = (s2, w2)"
      by (cases "(let (s, w) = netcheck e (s1, keepawake_maybe (e_tick e) w1);
              (go, s, w) = open_listener e (s, w)
          in if \<not> go then (s, w) else serve_sockets e (announce e (open_mdns e (s, w))))")
    from iteration_awake [OF awake_ok_inv [OF i1 False] False assms(2) r] inv_awake_ok
    have "loop_inv (s2, w2)" by blast
    moreover have "loop_iteration hooks e sw = (s2, w2)"
      using False p r sw by (simp add: loop_iteration_def)
    ultimately show ?thesis by simp
  qed
qed

lemma loop_run_inv: "loop_run hooks sw sw' \<Longrightarrow> loop_inv sw \<Longrightarrow> loop_inv sw'"
proof (induction rule: loop_run.induct)
  case (loop_refl sw)
  then show ?case .
next
  case (loop_step sw sw1 e sw2)
  from loop_iteration_inv [OF loop_step.IH [OF loop_step.prems] loop_step.hyps(2), of hooks]
  show ?case unfolding loop_step.hyps(3) .
qed

lemma loop_inv_init:
  "power_ok (pw w) \<Longrightarrow> trace w = [] \<Longrightarrow> \<not> log_blocked w \<Longrightarrow> loop_inv (server_init b, w)"
  by (simp add: loop_inv_def server_init_def asleep_def)

text \<open>A handler that waits gives up once sleep was requested, and the loop's next poll returns it.\<close>

lemma wait_idle_sleep:
  "power_ok (pw w) \<Longrightarrow> wait_idle now w = (False, w') \<Longrightarrow> fst (power_poll (pw w')) = PowerEvent_Sleep"
  by (auto simp: wait_idle_def power_sleep_requested_def power_poll_def logline_def emit_def Let_def
      split: if_splits prod.splits)

section \<open>Draining leaves nothing of the announced body\<close>

lemma drain_loop_done:
  "drain_loop g r = (True, r') \<Longrightarrow> body_ok r \<Longrightarrow> has_content_length r \<Longrightarrow>
     body_consumed r' = content_length r' \<and> content_length r' = content_length r \<and>
     body_stream r = take (content_length r - body_consumed r) (body_stream r) @ body_stream r'"
proof (induction g r rule: drain_loop.induct)
  case (1 g r)
  show ?case
  proof (cases "body_consumed r < content_length r")
    case False
    with "1.prems" show ?thesis by (auto simp: drain_loop.simps [of g r] body_ok_def)
  next
    case True
    with "1.prems"(1) obtain d r1 where d: "http_read_body 1024 r = (Some d, r1)" "d \<noteq> []"
      and rec: "drain_loop (g + 1) r1 = (True, r')" and g: "\<not> g + 1 > 4096"
      by (auto simp: drain_loop.simps [of g r] split: if_splits prod.splits option.splits)
    note st = http_read_body_stream [OF d(1)]
    from "1.IH" [OF _ g d(1) [symmetric] refl d(2) rec st(6) [OF "1.prems"(2)]] True st "1.prems"(3)
    have ih: "body_consumed r' = content_length r'" "content_length r' = content_length r"
      "body_stream r1 = take (content_length r - body_consumed r - length d) (body_stream r1) @ body_stream r'"
      by auto
    have "length d \<le> content_length r - body_consumed r"
      using st(2,4,5) st(6) [OF "1.prems"(2)] "1.prems"(3) by (simp add: body_ok_def)
    with ih st(1) show ?thesis by simp
  qed
qed

section \<open>Properties\<close>

text \<open>C4: in every run of the server loop, no I/O on the SD card, the sockets, the network manager, the
  idle service or the power-action service happens between the acknowledgement of a sleep transition
  and that of the wake, and while suspended both sockets are closed and the log is blocked.\<close>

theorem no_io_while_asleep:
  "power_ok (pw w) \<Longrightarrow> trace w = [] \<Longrightarrow> \<not> log_blocked w \<Longrightarrow>
     loop_run hooks (server_init b, w) (s', w') \<Longrightarrow>
     quiet_asleep False (trace w') \<and> asleep False (trace w') = suspended s' \<and>
     (if suspended s' then \<not> listen_fd s' \<and> \<not> mdns_fd s' \<and> log_blocked w' else \<not> log_blocked w')"
  using loop_run_inv [of hooks "(server_init b, w)" "(s', w')"] loop_inv_init [of w b]
  by (auto simp: loop_inv_def)

definition quiet_world :: "unit world" where
  "quiet_world = \<lparr>pw = \<lparr>psc = [Request PscReadySleep], g_initialized = True, g_pending_state = PscAwake,
        g_deferred = PowerEvent_None, g_scheduled = PowerAction_None, g_spsm_ok = True, g_idle_ok = True,
        acked = [], spsm_log = [], pings = 0\<rparr>, log_blocked = False, keepawake_next = 0, g_keep_awake = True,
      trace = [], app = ()\<rparr>"

definition quiet_env :: "unit env" where
  "quiet_env = \<lparr>e_tick = 5, e_ip_changed = False, e_listener_ok = True, e_mdns_config_ok = True,
      e_mdns_open_ok = True, e_announce_ok = True, e_poll = 0, e_mdns_readable = False,
      e_listen_readable = False, e_accept_ok = False, e_first_poll = 0, e_serve = id, e_perform_ok = True\<rparr>"

theorem no_io_while_asleep_witness:
  "quiet_asleep False (trace (snd (loop_iteration [1] quiet_env (server_init True, quiet_world)))) \<and>
   suspended (fst (loop_iteration [1] quiet_env (server_init True, quiet_world)))"
proof -
  have "serve_ok (e_serve quiet_env)"
    by (simp add: serve_ok_def quiet_env_def)
  then have run: "loop_run [1] (server_init True, quiet_world)
      (fst (loop_iteration [1] quiet_env (server_init True, quiet_world)),
       snd (loop_iteration [1] quiet_env (server_init True, quiet_world)))"
    by (intro loop_step [OF loop_refl]) simp_all
  have "suspended (fst (loop_iteration [1] quiet_env (server_init True, quiet_world)))"
    by (simp add: loop_iteration_def quiet_world_def server_init_def power_step_def power_poll_def poll_psc_def
        psc_event_def close_sockets_def Let_def)
  with no_io_while_asleep [OF _ _ _ run] show ?thesis
    by (simp add: quiet_world_def power_ok_def)
qed

text \<open>On a sleep event the loop writes its last log line, blocks the log, closes the listener and
  the mDNS socket, runs every sleep hook in registration order, and only then acknowledges.\<close>

theorem sleep_sequence:
  "power_poll (pw w) = (PowerEvent_Sleep, p) \<Longrightarrow>
     trace (snd (power_step hooks (s, w))) =
       trace w @ (if log_blocked w then [] else [E_Sd]) @
       (if listen_fd s then [E_CloseListener] else []) @ (if mdns_fd s then [E_CloseMdns] else []) @
       map E_Hook hooks @ [E_Ack (g_pending_state p)] \<and>
     log_blocked (snd (power_step hooks (s, w))) \<and> suspended (fst (power_step hooks (s, w)))"
  by (simp add: power_step_sleep)

theorem sleep_sequence_witness:
  "trace (snd (power_step [1, 2] ((server_init True)\<lparr>listen_fd := True\<rparr>, quiet_world))) =
     [E_Sd, E_CloseListener, E_Hook 1, E_Hook 2, E_Ack PscReadySleep]"
  using sleep_sequence [of quiet_world _ "[1, 2]" "(server_init True)\<lparr>listen_fd := True\<rparr>"]
  by (simp add: quiet_world_def power_poll_def poll_psc_def psc_event_def server_init_def)

text \<open>C15: when draining the rest of a body succeeds, exactly the announced number of bytes has been
  taken from the connection.\<close>

theorem drained_to_the_boundary:
  "drain_body r = (True, r') \<Longrightarrow> body_ok r \<Longrightarrow> has_content_length r \<Longrightarrow>
     body_consumed r' = content_length r \<and>
     body_stream r = take (content_length r - body_consumed r) (body_stream r) @ body_stream r'"
  using drain_loop_done [of 0 r r'] by (auto simp: drain_body_def)

theorem drained_to_the_boundary_witness:
  "body_consumed (snd (drain_body ((empty_request \<lparr>rx = [RecvData ''abc''], tx = [], polls = [], sent = [],
     g_keep_alive = False\<rparr>)\<lparr>has_content_length := True, content_length := 2\<rparr>))) = 2"
proof -
  let ?r = "(empty_request \<lparr>rx = [RecvData ''abc''], tx = [], polls = [], sent = [],
     g_keep_alive = False\<rparr>)\<lparr>has_content_length := True, content_length := 2\<rparr>"
  have d: "drain_body ?r = (True, snd (drain_body ?r))"
    by (simp add: drain_body_def drain_loop.simps http_read_body_def send_continue_def io_recv.simps empty_request_def)
  from drained_to_the_boundary [OF d] show ?thesis by (simp add: body_ok_def empty_request_def)
qed

end
