(* ===== verification/Mdns.thy ===== *)
theory Mdns
  imports Config_File Power_Control Http
begin

text \<open>
  \<open>source/core/mdns.c\<close>: the advertised names and TXT record, the packet writer, the record emitters,
  the query parser, and the two packets the server sends. The writer's buffer is the list of bytes
  written so far; a name is a C string. The facts about the device (\<open>device_info\<close>) and the version
  string are arguments; the socket calls are reduced to the datagram that comes in and the one
  that goes out.
\<close>

section \<open>Advertised data\<close>

record DeviceInfo =
  model :: string
  firmware :: string
  atmosphere :: string
  serial :: string

record MdnsConfig =
  minstance :: string
  mhost :: string
  fqdn :: string
  mport :: u16
  ipv4 :: u32
  txt_rdata :: "u8 list"

definition MDNS_SERVICE_TYPE :: string where
  "MDNS_SERVICE_TYPE = ''_sys-autopilot._tcp.local''"

definition MAX_EXTRA_TXT :: nat where
  "MAX_EXTRA_TXT = 4"

definition mdns_add_txt :: "string \<Rightarrow> string list \<Rightarrow> bool \<times> string list" where
  "mdns_add_txt pair ps = (if length ps \<ge> MAX_EXTRA_TXT then (False, ps) else (True, ps @ [pair]))"

interpretation txt_table: bounded_table "\<lambda>ps. ps" mdns_add_txt MAX_EXTRA_TXT
  by unfold_locales (auto simp: mdns_add_txt_def)

definition extra_txt_has_key :: "string \<Rightarrow> string list \<Rightarrow> bool" where
  "extra_txt_has_key key ps \<longleftrightarrow>
     list_ex (\<lambda>p. strneq (length key) p key \<and> length key < length p \<and> p ! length key = CHR ''='') ps"

definition auth_kind :: "Config \<Rightarrow> string" where
  "auth_kind c = (if config_basic_enabled c then ''basic'' else if token c \<noteq> [] then ''token'' else ''none'')"

text \<open>The TXT blob and whether it is full.\<close>

definition txt_add :: "string \<Rightarrow> u8 list \<times> bool \<Rightarrow> u8 list \<times> bool" where
  "txt_add entry t =
     (let n = length entry in
      if snd t \<or> n = 0 \<or> n > 255 then t
      else if length (fst t) + 1 + n > 256 then (fst t, True)
      else (fst t @ word_of_nat n # map byte entry, False))"

definition mdns_fill_common :: "DeviceInfo \<Rightarrow> string \<Rightarrow> string list \<Rightarrow> Config \<Rightarrow> MdnsConfig" where
  "mdns_fill_common di version extra app_cfg =
     (let name = config_hostname app_cfg (Some (serial di)) 64;
          inst = fit 64 name;
          t = txt_add (''version='' @ version) ([], False);
          t = fold txt_add extra t;
          t = (if \<not> extra_txt_has_key ''auth'' extra then txt_add (''auth='' @ auth_kind app_cfg) t else t);
          t = txt_add (''model='' @ model di) t;
          t = (if firmware di \<noteq> [] then txt_add (''firmware='' @ firmware di) t else t);
          t = (if atmosphere di \<noteq> [] then txt_add (''atmosphere='' @ atmosphere di) t else t)
      in \<lparr>minstance = inst, mhost = fit 80 (name @ ''.local''),
          fqdn = fit 128 (inst @ ''.'' @ MDNS_SERVICE_TYPE), mport = word_of_int (port app_cfg),
          ipv4 = 0, txt_rdata = fst t\<rparr>)"

definition mdns_config_init ::
    "DeviceInfo \<Rightarrow> string \<Rightarrow> string list \<Rightarrow> ipv4 option \<Rightarrow> netif \<Rightarrow> Config \<Rightarrow> bool \<times> MdnsConfig" where
  "mdns_config_init di version extra nifm n app_cfg =
     (let cfg = mdns_fill_common di version extra app_cfg in
      case netif_current_ipv4 nifm n of
        None \<Rightarrow> (False, cfg)
      | Some (a, b, c, d) \<Rightarrow>
          (True, cfg\<lparr>ipv4 := push_bit 24 (ucast a) OR push_bit 16 (ucast b) OR push_bit 8 (ucast c) OR ucast d\<rparr>))"

section \<open>The writer\<close>

record Writer =
  buf :: "u8 list"
  wcap :: nat
  ok :: bool

definition w_u8 :: "u8 \<Rightarrow> Writer \<Rightarrow> Writer" where
  "w_u8 v w =
     (if \<not> ok w then w
      else if length (buf w) + 1 > wcap w then w\<lparr>ok := False\<rparr>
      else w\<lparr>buf := buf w @ [v]\<rparr>)"

definition w_u16 :: "u16 \<Rightarrow> Writer \<Rightarrow> Writer" where
  "w_u16 v w = w_u8 (ucast (v AND 0xFF)) (w_u8 (ucast (drop_bit 8 v)) w)"

definition w_u32 :: "u32 \<Rightarrow> Writer \<Rightarrow> Writer" where
  "w_u32 v w =
     w_u8 (ucast (v AND 0xFF)) (w_u8 (ucast (drop_bit 8 v)) (w_u8 (ucast (drop_bit 16 v))
       (w_u8 (ucast (drop_bit 24 v)) w)))"

definition w_bytes :: "u8 list \<Rightarrow> Writer \<Rightarrow> Writer" where
  "w_bytes bs w =
     (if \<not> ok w then w
      else if length (buf w) + length bs > wcap w then w\<lparr>ok := False\<rparr>
      else w\<lparr>buf := buf w @ bs\<rparr>)"

function w_name :: "string \<Rightarrow> Writer \<Rightarrow> Writer" where
  "w_name seg w =
     (if seg = [] then w_u8 0 w
      else let dot = strchr (CHR ''.'') seg;
               seglen = (case dot of Some i \<Rightarrow> i | None \<Rightarrow> length seg)
           in if seglen = 0 \<or> seglen > 63 then w\<lparr>ok := False\<rparr>
              else let w = w_bytes (map byte (take seglen seg)) (w_u8 (word_of_nat seglen) w)
                   in case dot of
                        None \<Rightarrow> w_u8 0 w
                      | Some i \<Rightarrow> w_name (drop (i + 1) seg) w)"
  by pat_completeness auto
termination by (relation "measure (\<lambda>(s, w). length s)") auto

declare w_name.simps [simp del]

definition w_rr_head :: "string \<Rightarrow> u16 \<Rightarrow> u16 \<Rightarrow> u32 \<Rightarrow> Writer \<Rightarrow> nat \<times> Writer" where
  "w_rr_head name ty cls ttl w =
     (let w = w_u32 ttl (w_u16 cls (w_u16 ty (w_name name w)))
      in (length (buf w), w_u16 0 w))"

definition w_rr_patch :: "nat \<Rightarrow> Writer \<Rightarrow> Writer" where
  "w_rr_patch at w =
     (if \<not> ok w \<or> at + 2 > length (buf w) then w
      else let rdlen = (word_of_nat (length (buf w) - (at + 2)) :: u16)
           in w\<lparr>buf := (buf w)[at := ucast (drop_bit 8 rdlen), at + 1 := ucast (rdlen AND 0xFF)]\<rparr>)"

section \<open>Records\<close>

definition DNS_CLASS_IN :: u16 where "DNS_CLASS_IN = 1"
definition DNS_CLASS_FLUSH :: u16 where "DNS_CLASS_FLUSH = 0x8000"
definition TTL_HOST :: u32 where "TTL_HOST = 120"
definition TTL_PTR :: u32 where "TTL_PTR = 4500"

definition emit_a :: "MdnsConfig \<Rightarrow> Writer \<Rightarrow> Writer" where
  "emit_a cfg w =
     (let (at, w) = w_rr_head (mhost cfg) 1 (DNS_CLASS_IN OR DNS_CLASS_FLUSH) TTL_HOST w
      in w_rr_patch at (w_u32 (ipv4 cfg) w))"

definition emit_nsec :: "MdnsConfig \<Rightarrow> Writer \<Rightarrow> Writer" where
  "emit_nsec cfg w =
     (let (at, w) = w_rr_head (mhost cfg) 47 (DNS_CLASS_IN OR DNS_CLASS_FLUSH) TTL_HOST w
      in w_rr_patch at (w_u8 0x40 (w_u8 1 (w_u8 0 (w_name (mhost cfg) w)))))"

definition emit_ptr :: "MdnsConfig \<Rightarrow> Writer \<Rightarrow> Writer" where
  "emit_ptr cfg w =
     (let (at, w) = w_rr_head MDNS_SERVICE_TYPE 12 DNS_CLASS_IN TTL_PTR w
      in w_rr_patch at (w_name (fqdn cfg) w))"

definition emit_srv :: "MdnsConfig \<Rightarrow> Writer \<Rightarrow> Writer" where
  "emit_srv cfg w =
     (let (at, w) = w_rr_head (fqdn cfg) 33 (DNS_CLASS_IN OR DNS_CLASS_FLUSH) TTL_HOST w
      in w_rr_patch at (w_name (mhost cfg) (w_u16 (mport cfg) (w_u16 0 (w_u16 0 w)))))"

definition emit_txt :: "MdnsConfig \<Rightarrow> Writer \<Rightarrow> Writer" where
  "emit_txt cfg w =
     (let (at, w) = w_rr_head (fqdn cfg) 16 (DNS_CLASS_IN OR DNS_CLASS_FLUSH) TTL_PTR w;
          w = (if length (txt_rdata cfg) > 0 then w_bytes (txt_rdata cfg) w else w_u8 0 w)
      in w_rr_patch at w)"

section \<open>Queries\<close>

text \<open>The comparison of one label of length \<open>b\<close> at \<open>off + 1\<close> with the head of \<open>seg\<close>.\<close>

definition label_matches :: "u8 list \<Rightarrow> nat \<Rightarrow> nat \<Rightarrow> string \<Rightarrow> bool" where
  "label_matches pkt off b seg \<longleftrightarrow>
     b \<le> length seg \<and>
     list_all (\<lambda>i. seg ! i \<noteq> CHR ''.'' \<and> to_lower (unbyte (pkt ! (off + 1 + i))) = to_lower (seg ! i)) [0..<b]"

function name_equals_loop :: "u8 list \<Rightarrow> nat \<Rightarrow> nat \<Rightarrow> string \<Rightarrow> bool" where
  "name_equals_loop pkt hops off seg =
     (if \<not> off < length pkt then False
      else let b = pkt ! off in
        if b = 0 then seg = []
        else if b AND 0xC0 = 0xC0 then
          (if off + 1 \<ge> length pkt \<or> hops + 1 > 16 then False
           else name_equals_loop pkt (hops + 1) (push_bit 8 (unat (b AND 0x3F)) OR unat (pkt ! (off + 1))) seg)
        else if unat b > 63 \<or> off + 1 + unat b > length pkt then False
        else if \<not> label_matches pkt off (unat b) seg then False
        else let rest = drop (unat b) seg in
          if rest \<noteq> [] \<and> hd rest = CHR ''.'' then name_equals_loop pkt hops (off + 1 + unat b) (tl rest)
          else if rest \<noteq> [] then False
          else name_equals_loop pkt hops (off + 1 + unat b) rest)"
  by pat_completeness auto
termination
  by (relation "measures [\<lambda>(pkt, hops, off, seg). 16 - hops, \<lambda>(pkt, hops, off, seg). length pkt - off]") auto

declare name_equals_loop.simps [simp del]

definition name_equals :: "u8 list \<Rightarrow> nat \<Rightarrow> string \<Rightarrow> bool" where
  "name_equals pkt off name = name_equals_loop pkt 0 off name"

text \<open>0 stands for a malformed name, as in the source.\<close>

function skip_name :: "u8 list \<Rightarrow> nat \<Rightarrow> nat" where
  "skip_name pkt off =
     (if \<not> off < length pkt then 0
      else let b = pkt ! off in
        if b = 0 then off + 1
        else if b AND 0xC0 = 0xC0 then off + 2
        else if unat b > 63 \<or> off + 1 + unat b > length pkt then 0
        else skip_name pkt (off + 1 + unat b))"
  by pat_completeness auto
termination by (relation "measure (\<lambda>(pkt, off). length pkt - off)") auto

declare skip_name.simps [simp del]

record WantSet =
  want_a :: bool
  want_ptr :: bool
  want_srv :: bool
  want_txt :: bool
  wunicast :: bool

definition get16 :: "u8 list \<Rightarrow> nat \<Rightarrow> nat" where
  "get16 pkt i = push_bit 8 (unat (pkt ! i)) OR unat (pkt ! (i + 1))"

definition question :: "MdnsConfig \<Rightarrow> u8 list \<Rightarrow> nat \<Rightarrow> nat \<Rightarrow> WantSet \<Rightarrow> WantSet" where
  "question cfg pkt name_off after w =
     (let qtype = get16 pkt after;
          qclass = get16 pkt (after + 2);
          qu = (qclass AND 0x8000 \<noteq> 0);
          any = (qtype = 255);
          (matched, w) =
            (if name_equals pkt name_off (mhost cfg) then
               (if any \<or> qtype = 1 then (True, w\<lparr>want_a := True\<rparr>) else (False, w))
             else if name_equals pkt name_off MDNS_SERVICE_TYPE then
               (if any \<or> qtype = 12 then (True, w\<lparr>want_ptr := True\<rparr>) else (False, w))
             else if name_equals pkt name_off (fqdn cfg) then
               (let (m, w) = (if any \<or> qtype = 33 then (True, w\<lparr>want_srv := True\<rparr>) else (False, w))
                in if any \<or> qtype = 16 then (True, w\<lparr>want_txt := True\<rparr>) else (m, w))
             else (False, w))
      in if matched \<and> qu then w\<lparr>wunicast := True\<rparr> else w)"

fun scan_loop :: "MdnsConfig \<Rightarrow> u8 list \<Rightarrow> nat \<Rightarrow> nat \<Rightarrow> WantSet \<Rightarrow> WantSet" where
  "scan_loop cfg pkt 0 off w = w"
| "scan_loop cfg pkt (Suc n) off w =
     (if \<not> off < length pkt then w
      else let after = skip_name pkt off in
        if after = 0 \<or> after + 4 > length pkt then w
        else scan_loop cfg pkt n (after + 4) (question cfg pkt off after w))"

definition scan_questions :: "MdnsConfig \<Rightarrow> u8 list \<Rightarrow> WantSet \<Rightarrow> WantSet" where
  "scan_questions cfg pkt w =
     (if length pkt < 12 then w else scan_loop cfg pkt (get16 pkt 4) 12 w)"

section \<open>Packets\<close>

definition w_response_header :: "u16 \<Rightarrow> Writer \<Rightarrow> Writer" where
  "w_response_header ancount w = w_u16 0 (w_u16 0 (w_u16 ancount (w_u16 0 (w_u16 0x8400 (w_u16 0 w)))))"

definition no_wants :: WantSet where
  "no_wants = \<lparr>want_a = False, want_ptr = False, want_srv = False, want_txt = False, wunicast = False\<rparr>"

definition bundle_wants :: "WantSet \<Rightarrow> WantSet" where
  "bundle_wants w =
     (let w = (if want_ptr w then w\<lparr>want_srv := True, want_txt := True, want_a := True\<rparr> else w)
      in if want_srv w then w\<lparr>want_a := True\<rparr> else w)"

text \<open>The response (empty for none), and whether it goes to the sender.\<close>

definition mdns_build_response :: "MdnsConfig \<Rightarrow> u8 list \<Rightarrow> nat \<Rightarrow> u8 list \<times> bool" where
  "mdns_build_response cfg qry out_cap =
     (if length qry < 12 then ([], False)
      else if qry ! 2 AND 0x80 \<noteq> 0 then ([], False)
      else
        (let want0 = scan_questions cfg qry no_wants;
             want = bundle_wants want0;
             ancount = 2 * of_bool (want_a want) + of_bool (want_ptr want) + of_bool (want_srv want) +
                       of_bool (want_txt want)
         in if ancount = 0 then ([], wunicast want0)
            else
              (let w = w_response_header ancount \<lparr>buf = [], wcap = out_cap, ok = True\<rparr>;
                   w = (if want_ptr want then emit_ptr cfg w else w);
                   w = (if want_srv want then emit_srv cfg w else w);
                   w = (if want_txt want then emit_txt cfg w else w);
                   w = (if want_a want then emit_nsec cfg (emit_a cfg w) else w)
               in (if ok w then buf w else [], wunicast want0))))"

definition mdns_build_announcement :: "MdnsConfig \<Rightarrow> nat \<Rightarrow> u8 list" where
  "mdns_build_announcement cfg out_cap =
     (let w = w_response_header 5 \<lparr>buf = [], wcap = out_cap, ok = True\<rparr>;
          w = emit_nsec cfg (emit_a cfg (emit_txt cfg (emit_srv cfg (emit_ptr cfg w))))
      in if ok w then buf w else [])"

definition MDNS_DGRAM_MAX :: nat where
  "MDNS_DGRAM_MAX = 1500"

text \<open>The datagram sent in reply to one received (\<^term>\<open>None\<close> when the read failed), and whether to its sender.\<close>

definition mdns_handle_readable :: "MdnsConfig \<Rightarrow> u8 list option \<Rightarrow> (bool \<times> u8 list) option" where
  "mdns_handle_readable cfg inp =
     (case inp of
        None \<Rightarrow> None
      | Some d \<Rightarrow>
          if d = [] then None
          else let (out, uni) = mdns_build_response cfg (take MDNS_DGRAM_MAX d) MDNS_DGRAM_MAX in
            if out = [] then None else Some (uni, out))"

definition mdns_announce :: "MdnsConfig \<Rightarrow> bool \<Rightarrow> bool \<times> u8 list option" where
  "mdns_announce cfg sendto_ok =
     (let out = mdns_build_announcement cfg MDNS_DGRAM_MAX in
      if out = [] then (False, None) else (sendto_ok, Some out))"

section \<open>What the writer writes\<close>

definition fits :: "u8 list \<Rightarrow> Writer \<Rightarrow> bool" where
  "fits bs w \<longleftrightarrow> ok w \<and> length (buf w) + length bs \<le> wcap w"

definition writes :: "u8 list \<Rightarrow> (Writer \<Rightarrow> Writer) \<Rightarrow> bool" where
  "writes bs f \<longleftrightarrow>
     (\<forall>w. wcap (f w) = wcap w \<and> (if fits bs w then f w = w\<lparr>buf := buf w @ bs\<rparr> else \<not> ok (f w)))"

lemma writes_ok: "writes bs f \<Longrightarrow> ok w \<Longrightarrow> length (buf w) + length bs \<le> wcap w \<Longrightarrow> f w = w\<lparr>buf := buf w @ bs\<rparr>"
  unfolding writes_def fits_def by metis

lemma writes_fail:
  "writes bs f \<Longrightarrow> \<not> (ok w \<and> length (buf w) + length bs \<le> wcap w) \<Longrightarrow> \<not> ok (f w)"
  unfolding writes_def fits_def by metis

lemma writes_cap: "writes bs f \<Longrightarrow> wcap (f w) = wcap w"
  unfolding writes_def by metis

lemma writesI:
  assumes "\<And>w. ok w \<Longrightarrow> length (buf w) + length bs \<le> wcap w \<Longrightarrow> f w = w\<lparr>buf := buf w @ bs\<rparr>"
    and "\<And>w. \<not> (ok w \<and> length (buf w) + length bs \<le> wcap w) \<Longrightarrow> \<not> ok (f w)"
    and "\<And>w. wcap (f w) = wcap w"
  shows "writes bs f"
  unfolding writes_def fits_def using assms by metis

lemma writes_comp:
  assumes "writes a f" and "writes b g"
  shows "writes (a @ b) (\<lambda>w. g (f w))"
proof (rule writesI)
  fix w
  show "wcap (g (f w)) = wcap w" using assms by (simp add: writes_cap)
  show "g (f w) = w\<lparr>buf := buf w @ a @ b\<rparr>" if "ok w" "length (buf w) + length (a @ b) \<le> wcap w"
    using writes_ok [OF assms(1), of w] writes_ok [OF assms(2), of "f w"] that by simp
  show "\<not> ok (g (f w))" if "\<not> (ok w \<and> length (buf w) + length (a @ b) \<le> wcap w)"
  proof (cases "ok w \<and> length (buf w) + length a \<le> wcap w")
    case True
    with writes_ok [OF assms(1), of w] that have "\<not> (ok (f w) \<and> length (buf (f w)) + length b \<le> wcap (f w))"
      by auto
    then show ?thesis by (rule writes_fail [OF assms(2)])
  next
    case False
    with writes_fail [OF assms(1)] have "\<not> ok (f w)" by blast
    then show ?thesis by (intro writes_fail [OF assms(2)]) simp
  qed
qed

lemma writes_u8: "writes [v] (w_u8 v)"
  by (rule writesI) (auto simp: w_u8_def)

lemma writes_bytes: "writes bs (w_bytes bs)"
  by (rule writesI) (auto simp: w_bytes_def)

definition be16 :: "u16 \<Rightarrow> u8 list" where
  "be16 v = [ucast (drop_bit 8 v), ucast (v AND 0xFF)]"

definition dns32 :: "u32 \<Rightarrow> u8 list" where
  "dns32 v = [ucast (drop_bit 24 v), ucast (drop_bit 16 v), ucast (drop_bit 8 v), ucast (v AND 0xFF)]"

lemma writes_u16: "writes (be16 v) (w_u16 v)"
  using writes_comp [OF writes_u8 writes_u8, of "ucast (drop_bit 8 v)" "ucast (v AND 0xFF)"]
  by (simp add: be16_def w_u16_def [abs_def])

lemma writes_u32: "writes (dns32 v) (w_u32 v)"
  using writes_comp [OF writes_comp [OF writes_comp [OF writes_u8 writes_u8] writes_u8] writes_u8,
      of "ucast (drop_bit 24 v)" "ucast (drop_bit 16 v)" "ucast (drop_bit 8 v)" "ucast (v AND 0xFF)"]
  by (simp add: dns32_def w_u32_def [abs_def])

text \<open>A name is its labels, each with its length, and the root.\<close>

definition valid_name :: "string \<Rightarrow> bool" where
  "valid_name name \<longleftrightarrow> list_all (\<lambda>l. l \<noteq> [] \<and> length l \<le> 63) (split_on (CHR ''.'') name)"

definition enc_name :: "string \<Rightarrow> u8 list" where
  "enc_name name = concat (map (\<lambda>l. word_of_nat (length l) # map byte l) (split_on (CHR ''.'') name)) @ [0]"

lemma writes_name: "valid_name seg \<Longrightarrow> writes (enc_name seg) (w_name seg)"
proof (induction "length seg" arbitrary: seg rule: less_induct)
  case less
  have ne: "seg \<noteq> []" using less.prems by (auto simp: valid_name_def)
  show ?case
  proof (cases "strchr (CHR ''.'') seg")
    case None
    with less.prems have l: "length seg \<le> 63" by (simp add: valid_name_def split_on_strchr [of _ seg])
    have "w_name seg = (\<lambda>w. w_u8 0 (w_bytes (map byte seg) (w_u8 (word_of_nat (length seg)) w)))"
      by (rule ext) (use ne None l in \<open>simp add: w_name.simps [of seg]\<close>)
    moreover have "enc_name seg = ([word_of_nat (length seg)] @ map byte seg) @ [0]"
      using None by (simp add: enc_name_def split_on_strchr [of _ seg])
    ultimately show ?thesis
      using writes_comp [OF writes_comp [OF writes_u8 writes_bytes] writes_u8] by simp
  next
    case (Some i)
    then have i: "i < length seg" by (simp add: strchr_Some_iff)
    from less.prems Some have v: "valid_name (drop (i + 1) seg)" "take i seg \<noteq> []" "i \<le> 63"
      using i by (auto simp: valid_name_def split_on_strchr [of _ seg])
    then have i0: "0 < i" by auto
    have "w_name seg = (\<lambda>w. w_name (drop (i + 1) seg) (w_bytes (map byte (take i seg)) (w_u8 (word_of_nat i) w)))"
      by (rule ext) (use ne Some v i0 in \<open>simp add: w_name.simps [of seg]\<close>)
    moreover have "enc_name seg = ([word_of_nat i] @ map byte (take i seg)) @ enc_name (drop (i + 1) seg)"
      using Some i by (simp add: enc_name_def split_on_strchr [of _ seg] min_def)
    ultimately show ?thesis
      using writes_comp [OF writes_comp [OF writes_u8 writes_bytes] less.hyps [OF _ v(1)]] i by simp
  qed
qed

section \<open>Records carry the length of their data\<close>

definition rr :: "string \<Rightarrow> u16 \<Rightarrow> u16 \<Rightarrow> u32 \<Rightarrow> u8 list \<Rightarrow> u8 list" where
  "rr name ty cls ttl rdata =
     enc_name name @ be16 ty @ be16 cls @ dns32 ttl @ be16 (word_of_nat (length rdata)) @ rdata"

lemma writes_rr:
  assumes "valid_name name" and "writes rdata body"
  shows "writes (rr name ty cls ttl rdata)
    (\<lambda>w. let (at, w) = w_rr_head name ty cls ttl w in w_rr_patch at (body w))"
proof -
  let ?h = "enc_name name @ be16 ty @ be16 cls @ dns32 ttl"
  let ?head = "\<lambda>w. w_u32 ttl (w_u16 cls (w_u16 ty (w_name name w)))"
  have h: "writes ?h ?head"
    using writes_comp [OF writes_comp [OF writes_comp [OF writes_name [OF assms(1)] writes_u16] writes_u16] writes_u32]
    by simp
  have hb: "writes (?h @ be16 0 @ rdata) (\<lambda>w. body (w_u16 0 (?head w)))"
    using writes_comp [OF writes_comp [OF h writes_u16] assms(2)] by simp
  let ?all = "\<lambda>w. let (at, w) = w_rr_head name ty cls ttl w in w_rr_patch at (body w)"
  have all: "?all w = w_rr_patch (length (buf (?head w))) (body (w_u16 0 (?head w)))" for w
    by (simp add: w_rr_head_def Let_def)
  have len: "length (rr name ty cls ttl rdata) = length (?h @ be16 0 @ rdata)"
    by (simp add: rr_def be16_def)
  show ?thesis
  proof (rule writesI)
    fix w
    show "wcap (?all w) = wcap w"
      unfolding all using writes_cap [OF hb, of w] by (simp add: w_rr_patch_def Let_def)
    show "\<not> ok (?all w)" if "\<not> (ok w \<and> length (buf w) + length (rr name ty cls ttl rdata) \<le> wcap w)"
      unfolding all using writes_fail [OF hb, of w] that len by (simp add: w_rr_patch_def Let_def)
    show "?all w = w\<lparr>buf := buf w @ rr name ty cls ttl rdata\<rparr>"
      if w: "ok w" "length (buf w) + length (rr name ty cls ttl rdata) \<le> wcap w"
    proof -
      have 1: "body (w_u16 0 (?head w)) = w\<lparr>buf := buf w @ ?h @ be16 0 @ rdata\<rparr>"
        using writes_ok [OF hb, of w] w len by simp
      have 2: "buf (?head w) = buf w @ ?h"
        using writes_ok [OF h, of w] w len by (simp add: be16_def)
      let ?n = "length (buf w @ ?h)"
      have "(buf w @ ?h @ be16 0 @ rdata)[?n := x, Suc ?n := y] = buf w @ ?h @ [x, y] @ rdata" for x y
        by (simp add: list_update_append be16_def)
      then show ?thesis
        unfolding all 1 2 by (simp add: w_rr_patch_def w be16_def Let_def rr_def)
    qed
  qed
qed

section \<open>The announcement, byte for byte\<close>

definition rdata_txt :: "MdnsConfig \<Rightarrow> u8 list" where
  "rdata_txt cfg = (if txt_rdata cfg = [] then [0] else txt_rdata cfg)"

definition rec_a :: "MdnsConfig \<Rightarrow> u8 list" where
  "rec_a cfg = rr (mhost cfg) 1 (DNS_CLASS_IN OR DNS_CLASS_FLUSH) TTL_HOST (dns32 (ipv4 cfg))"

definition rec_nsec :: "MdnsConfig \<Rightarrow> u8 list" where
  "rec_nsec cfg = rr (mhost cfg) 47 (DNS_CLASS_IN OR DNS_CLASS_FLUSH) TTL_HOST (enc_name (mhost cfg) @ [0, 1, 0x40])"

definition rec_ptr :: "MdnsConfig \<Rightarrow> u8 list" where
  "rec_ptr cfg = rr MDNS_SERVICE_TYPE 12 DNS_CLASS_IN TTL_PTR (enc_name (fqdn cfg))"

definition rec_srv :: "MdnsConfig \<Rightarrow> u8 list" where
  "rec_srv cfg = rr (fqdn cfg) 33 (DNS_CLASS_IN OR DNS_CLASS_FLUSH) TTL_HOST
     (be16 0 @ be16 0 @ be16 (mport cfg) @ enc_name (mhost cfg))"

definition rec_txt :: "MdnsConfig \<Rightarrow> u8 list" where
  "rec_txt cfg = rr (fqdn cfg) 16 (DNS_CLASS_IN OR DNS_CLASS_FLUSH) TTL_PTR (rdata_txt cfg)"

definition response_header :: "u16 \<Rightarrow> u8 list" where
  "response_header n = be16 0 @ be16 0x8400 @ be16 0 @ be16 n @ be16 0 @ be16 0"

definition names_valid :: "MdnsConfig \<Rightarrow> bool" where
  "names_valid cfg \<longleftrightarrow> valid_name (mhost cfg) \<and> valid_name (fqdn cfg)"

lemma valid_service_type: "valid_name MDNS_SERVICE_TYPE"
  by (simp add: valid_name_def MDNS_SERVICE_TYPE_def)

lemma writes_header: "writes (response_header n) (w_response_header n)"
proof -
  have "writes (((((be16 0 @ be16 0x8400) @ be16 0) @ be16 n) @ be16 0) @ be16 0)
    (\<lambda>w. w_u16 0 (w_u16 0 (w_u16 n (w_u16 0 (w_u16 0x8400 (w_u16 0 w))))))"
    by (intro writes_comp writes_u16)
  then show ?thesis by (simp add: response_header_def w_response_header_def [abs_def])
qed

lemma writes_a: "names_valid cfg \<Longrightarrow> writes (rec_a cfg) (emit_a cfg)"
  unfolding rec_a_def emit_a_def [abs_def] names_valid_def
  by (rule writes_rr [OF _ writes_u32]) simp

lemma writes_nsec: "names_valid cfg \<Longrightarrow> writes (rec_nsec cfg) (emit_nsec cfg)"
proof -
  assume v: "names_valid cfg"
  have "writes (((enc_name (mhost cfg) @ [0]) @ [1]) @ [0x40])
      (\<lambda>w. w_u8 0x40 (w_u8 1 (w_u8 0 (w_name (mhost cfg) w))))"
    using v by (intro writes_comp writes_u8 writes_name) (simp add: names_valid_def)
  with writes_rr [of "mhost cfg" "enc_name (mhost cfg) @ [0, 1, 0x40]"] v show ?thesis
    by (simp add: rec_nsec_def emit_nsec_def [abs_def] names_valid_def)
qed

lemma writes_ptr: "names_valid cfg \<Longrightarrow> writes (rec_ptr cfg) (emit_ptr cfg)"
  unfolding rec_ptr_def emit_ptr_def [abs_def] names_valid_def
  by (rule writes_rr [OF valid_service_type writes_name]) simp

lemma writes_srv: "names_valid cfg \<Longrightarrow> writes (rec_srv cfg) (emit_srv cfg)"
proof -
  assume v: "names_valid cfg"
  have "writes (((be16 0 @ be16 0) @ be16 (mport cfg)) @ enc_name (mhost cfg))
      (\<lambda>w. w_name (mhost cfg) (w_u16 (mport cfg) (w_u16 0 (w_u16 0 w))))"
    using v by (intro writes_comp writes_u16 writes_name) (simp add: names_valid_def)
  with writes_rr [of "fqdn cfg" "be16 0 @ be16 0 @ be16 (mport cfg) @ enc_name (mhost cfg)"] v show ?thesis
    by (simp add: rec_srv_def emit_srv_def [abs_def] names_valid_def)
qed

lemma writes_txt: "names_valid cfg \<Longrightarrow> writes (rec_txt cfg) (emit_txt cfg)"
proof -
  assume v: "names_valid cfg"
  have "writes (rdata_txt cfg) (\<lambda>w. if length (txt_rdata cfg) > 0 then w_bytes (txt_rdata cfg) w else w_u8 0 w)"
    by (cases "txt_rdata cfg = []") (simp_all add: rdata_txt_def writes_u8 writes_bytes)
  from writes_rr [OF _ this, of "fqdn cfg"] v show ?thesis
    by (simp add: rec_txt_def emit_txt_def [abs_def] names_valid_def Let_def)
qed

definition announcement_spec :: "MdnsConfig \<Rightarrow> u8 list" where
  "announcement_spec cfg =
     response_header 5 @ rec_ptr cfg @ rec_srv cfg @ rec_txt cfg @ rec_a cfg @ rec_nsec cfg"

lemma announcement_eq:
  assumes "names_valid cfg"
  shows "mdns_build_announcement cfg cap =
    (if length (announcement_spec cfg) \<le> cap then announcement_spec cfg else [])"
proof -
  let ?f = "\<lambda>w. emit_nsec cfg (emit_a cfg (emit_txt cfg (emit_srv cfg (emit_ptr cfg (w_response_header 5 w)))))"
  have "writes (((((response_header 5 @ rec_ptr cfg) @ rec_srv cfg) @ rec_txt cfg) @ rec_a cfg) @ rec_nsec cfg) ?f"
    using assms by (intro writes_comp writes_header writes_ptr writes_srv writes_txt writes_a writes_nsec)
  then have w: "writes (announcement_spec cfg) ?f" by (simp add: announcement_spec_def)
  let ?w0 = "\<lparr>buf = [], wcap = cap, ok = True\<rparr>"
  show ?thesis
    using writes_ok [OF w, of ?w0] writes_fail [OF w, of ?w0]
    by (auto simp: mdns_build_announcement_def Let_def)
qed

section \<open>The response fits, answers only queries, and is the bundle the questions ask for\<close>

definition response_spec :: "MdnsConfig \<Rightarrow> WantSet \<Rightarrow> u8 list" where
  "response_spec cfg want =
     response_header (2 * of_bool (want_a want) + of_bool (want_ptr want) + of_bool (want_srv want) + of_bool (want_txt want)) @
     (if want_ptr want then rec_ptr cfg else []) @ (if want_srv want then rec_srv cfg else []) @
     (if want_txt want then rec_txt cfg else []) @ (if want_a want then rec_a cfg @ rec_nsec cfg else [])"

lemma response_eq:
  assumes "names_valid cfg" and "12 \<le> length qry" and "qry ! 2 AND 0x80 = 0"
  defines "want \<equiv> bundle_wants (scan_questions cfg qry no_wants)"
  shows "fst (mdns_build_response cfg qry cap) =
    (if want_a want \<or> want_ptr want \<or> want_srv want \<or> want_txt want
     then (if length (response_spec cfg want) \<le> cap then response_spec cfg want else []) else [])"
proof -
  define n :: u16 where
    "n = 2 * of_bool (want_a want) + of_bool (want_ptr want) + of_bool (want_srv want) + of_bool (want_txt want)"
  let ?step = "\<lambda>c f w. if c then f w else (w :: Writer)"
  let ?f = "\<lambda>w. ?step (want_a want) (\<lambda>w. emit_nsec cfg (emit_a cfg w)) (?step (want_txt want) (emit_txt cfg)
      (?step (want_srv want) (emit_srv cfg) (?step (want_ptr want) (emit_ptr cfg) (w_response_header n w))))"
  have opt: "writes (h @ (if c then a else [])) (\<lambda>w. ?step c f (g w))" if "writes h g" "writes a f" for h a g f c
    using writes_comp [OF that] that(1) by (cases c) simp_all
  have an: "writes (rec_a cfg @ rec_nsec cfg) (\<lambda>w. emit_nsec cfg (emit_a cfg w))"
    using assms(1) by (intro writes_comp writes_a writes_nsec)
  have "writes ((((response_header n @ (if want_ptr want then rec_ptr cfg else [])) @
      (if want_srv want then rec_srv cfg else [])) @ (if want_txt want then rec_txt cfg else [])) @
      (if want_a want then rec_a cfg @ rec_nsec cfg else [])) ?f"
    by (rule opt [OF opt [OF opt [OF opt [OF writes_header writes_ptr] writes_srv] writes_txt] an])
      (rule assms(1))+
  then have w: "writes (response_spec cfg want) ?f" by (simp add: response_spec_def n_def)
  have nz: "n = 0 \<longleftrightarrow> \<not> (want_a want \<or> want_ptr want \<or> want_srv want \<or> want_txt want)"
    by (simp add: n_def)
  let ?w0 = "\<lparr>buf = [], wcap = cap, ok = True\<rparr>"
  show ?thesis
    using writes_ok [OF w, of ?w0] writes_fail [OF w, of ?w0] assms(2,3) nz
    unfolding mdns_build_response_def want_def [symmetric] n_def [symmetric] Let_def
    by (auto simp: not_less)
qed

section \<open>Generated names are valid and the packet always fits\<close>

lemma dns_char_nodot: "list_all dns_char s \<Longrightarrow> CHR ''.'' \<notin> set s"
  by (auto simp: list_all_iff dns_char_def is_lower_def is_digit_def between_def)

definition plain_label :: "string \<Rightarrow> bool" where
  "plain_label s \<longleftrightarrow> s \<noteq> [] \<and> length s \<le> 63 \<and> CHR ''.'' \<notin> set s"

lemma local_name: "plain_label s \<Longrightarrow> valid_name (s @ ''.local'')"
  using split_on_app [of "CHR ''.''" s "''local''"]
  by (simp add: valid_name_def plain_label_def split_on_nodot)

lemma service_name: "plain_label s \<Longrightarrow> valid_name (s @ ''.'' @ MDNS_SERVICE_TYPE)"
  using split_on_app [of "CHR ''.''" s MDNS_SERVICE_TYPE] valid_service_type
  by (simp add: valid_name_def plain_label_def)

lemma config_hostname_nonempty:
  "hostname cfg = [] \<Longrightarrow> config_hostname cfg s 64 \<noteq> []"
proof -
  have nz: "append_sanitized 64 [] CONFIG_DEFAULT_PREFIX = ''switch''"
    by (simp add: CONFIG_DEFAULT_PREFIX_def sanitize_char_def is_upper_def is_lower_def is_digit_def between_def)
  have "append_sanitized 64 (''switch-'') t \<noteq> []" for t
    by (simp add: append_sanitized_eq)
  then show "hostname cfg = [] \<Longrightarrow> config_hostname cfg s 64 \<noteq> []"
    by (auto simp: config_hostname_def nz Let_def)
qed

lemma config_hostname_label:
  "hostname cfg = [] \<Longrightarrow> plain_label (config_hostname cfg s 64)"
  using config_hostname_auto [of cfg 64 s] config_hostname_nonempty [of cfg s] dns_char_nodot
  by (auto simp: plain_label_def list_all_iff)

lemma filled_names:
  assumes "hostname app = []"
  shows "names_valid (mdns_fill_common di version extra app)"
    and "length (mhost (mdns_fill_common di version extra app)) \<le> 69"
    and "length (fqdn (mdns_fill_common di version extra app)) \<le> 89"
proof -
  let ?n = "config_hostname app (Some (serial di)) 64"
  have p: "plain_label ?n" by (rule config_hostname_label [OF assms])
  then have l: "length ?n \<le> 63" by (simp add: plain_label_def)
  have "mhost (mdns_fill_common di version extra app) = ?n @ ''.local''"
    using l by (simp add: mdns_fill_common_def Let_def fit_def)
  moreover have "fqdn (mdns_fill_common di version extra app) = ?n @ ''.'' @ MDNS_SERVICE_TYPE"
    using l by (simp add: mdns_fill_common_def Let_def fit_def MDNS_SERVICE_TYPE_def)
  ultimately show "names_valid (mdns_fill_common di version extra app)"
    and "length (mhost (mdns_fill_common di version extra app)) \<le> 69"
    and "length (fqdn (mdns_fill_common di version extra app)) \<le> 89"
    using local_name [OF p] service_name [OF p] l by (simp_all add: names_valid_def MDNS_SERVICE_TYPE_def)
qed

text \<open>The TXT blob never grows past its 256 bytes.\<close>

lemma txt_add_bound: "length (fst t) \<le> 256 \<Longrightarrow> length (fst (txt_add e t)) \<le> 256"
  by (auto simp: txt_add_def Let_def)

lemma fold_txt_add_bound: "length (fst t) \<le> 256 \<Longrightarrow> length (fst (fold txt_add es t)) \<le> 256"
  by (induction es arbitrary: t) (simp_all add: txt_add_bound)

lemma filled_txt: "length (txt_rdata (mdns_fill_common di version extra app)) \<le> 256"
  by (simp add: mdns_fill_common_def Let_def txt_add_bound fold_txt_add_bound)

lemma enc_name_length: "length (enc_name s) = length s + 2"
proof -
  have "length (concat (map (\<lambda>l. word_of_nat (length l) # map byte l) (split_on c s))) = length s + 1" for c
    by (induction s) (auto split: list.splits)
  then show ?thesis by (simp add: enc_name_def)
qed

lemma rr_length: "length (rr name ty cls ttl d) = length name + 12 + length d"
  by (simp add: rr_def enc_name_length be16_def dns32_def)

lemma announcement_fits:
  assumes "length (mhost cfg) \<le> 69" and "length (fqdn cfg) \<le> 89" and "length (txt_rdata cfg) \<le> 256"
  shows "length (announcement_spec cfg) \<le> MDNS_DGRAM_MAX"
proof -
  have "length (rdata_txt cfg) \<le> 256" using assms(3) by (simp add: rdata_txt_def)
  moreover have "length MDNS_SERVICE_TYPE = 25" by (simp add: MDNS_SERVICE_TYPE_def)
  ultimately show ?thesis
    using assms by (simp add: announcement_spec_def rec_a_def rec_nsec_def rec_ptr_def rec_srv_def rec_txt_def
        rr_length enc_name_length response_header_def be16_def dns32_def MDNS_DGRAM_MAX_def)
qed

lemma init_announcement:
  assumes "hostname app = []" and "mdns_config_init di version extra nifm n app = (True, cfg)"
  shows "mdns_announce cfg True = (True, Some (announcement_spec cfg))"
proof -
  obtain ip where cfg: "cfg = (mdns_fill_common di version extra app)\<lparr>ipv4 := ip\<rparr>"
    using assms(2) by (auto simp: mdns_config_init_def Let_def split: option.splits)
  have "names_valid cfg" "length (announcement_spec cfg) \<le> MDNS_DGRAM_MAX"
    using filled_names [OF assms(1), of di version extra] filled_txt [of di version extra app]
    by (auto simp: cfg names_valid_def intro!: announcement_fits)
  moreover have "announcement_spec cfg \<noteq> []" by (simp add: announcement_spec_def response_header_def be16_def)
  ultimately show ?thesis by (simp add: mdns_announce_def announcement_eq Let_def)
qed

section \<open>Name comparison is case-insensitive equality\<close>

fun dotted :: "string list \<Rightarrow> string" where
  "dotted [] = []"
| "dotted [l] = l"
| "dotted (l # ls) = l @ CHR ''.'' # dotted ls"

definition enc_labels :: "string list \<Rightarrow> u8 list" where
  "enc_labels ls = concat (map (\<lambda>l. word_of_nat (length l) # map byte l) ls)"

lemma dotted_Cons: "dotted (l # ls) = l @ (if ls = [] then [] else CHR ''.'' # dotted ls)"
  by (cases ls) simp_all

lemma dotted_split: "dotted (split_on (CHR ''.'') s) = s"
proof (induction s)
  case Nil
  then show ?case by simp
next
  case (Cons x s)
  obtain y ys where y: "split_on (CHR ''.'') s = y # ys"
    using split_on_nonempty by (cases "split_on (CHR ''.'') s") auto
  with Cons show ?case by (cases ys) (auto simp: dotted_Cons split_on_nonempty)
qed

lemma to_lower_dot: "to_lower c = CHR ''.'' \<longleftrightarrow> c = CHR ''.''"
proof -
  have "ord (to_lower c) \<noteq> 46" if "is_upper c"
    using that by (auto simp: to_lower_def is_upper_def between_def ord_chr)
  then have "to_lower c \<noteq> CHR ''.''" if "is_upper c" using that by auto
  then show ?thesis by (auto simp: to_lower_def is_upper_def between_def)
qed

lemma split_on_lower:
  "split_on (CHR ''.'') (map to_lower s) = map (map to_lower) (split_on (CHR ''.'') s)"
proof (induction s)
  case Nil
  then show ?case by simp
next
  case (Cons x s)
  obtain y ys where "split_on (CHR ''.'') s = y # ys"
    using split_on_nonempty by (cases "split_on (CHR ''.'') s") auto
  with Cons show ?case by (auto simp: to_lower_dot)
qed

definition same_ci :: "string \<Rightarrow> string \<Rightarrow> bool" where
  "same_ci a b \<longleftrightarrow> map to_lower a = map to_lower b"

lemma same_ci_labels: "list_all2 same_ci (split_on (CHR ''.'') a) (split_on (CHR ''.'') b) \<longleftrightarrow> same_ci a b"
proof -
  have "list_all2 same_ci (split_on (CHR ''.'') a) (split_on (CHR ''.'') b) \<longleftrightarrow>
      map (map to_lower) (split_on (CHR ''.'') a) = map (map to_lower) (split_on (CHR ''.'') b)"
    by (simp add: list_all2_conv_all_nth same_ci_def list_eq_iff_nth_eq [of "map (map to_lower) _"] conj_commute)
      (metis (no_types, lifting) nth_map)
  also have "\<dots> \<longleftrightarrow> split_on (CHR ''.'') (map to_lower a) = split_on (CHR ''.'') (map to_lower b)"
    by (simp add: split_on_lower)
  also have "\<dots> \<longleftrightarrow> map to_lower a = map to_lower b" by (metis dotted_split)
  finally show ?thesis by (simp add: same_ci_def)
qed

lemma label_byte:
  assumes "0 < n" and "n \<le> 63"
  shows "(word_of_nat n :: u8) \<noteq> 0" and "(word_of_nat n :: u8) AND 0xC0 \<noteq> 0xC0"
    and "unat (word_of_nat n :: u8) = n"
proof -
  show u: "unat (word_of_nat n :: u8) = n" using assms by (simp add: unat_of_nat)
  then show "(word_of_nat n :: u8) \<noteq> 0" using assms by auto
  have "(word_of_nat n :: u8) AND 0xC0 \<le> word_of_nat n" by (rule word_and_le2)
  then have "unat ((word_of_nat n :: u8) AND 0xC0) \<le> n" using u by (simp add: word_le_nat_alt)
  then show "(word_of_nat n :: u8) AND 0xC0 \<noteq> 0xC0" using assms by auto
qed

lemma label_matches_iff:
  assumes "CHR ''.'' \<notin> set s" and "s \<noteq> []"
  shows "label_matches (pre @ x # map byte l @ post) (length pre) (length l) (s @ (if t = [] then [] else CHR ''.'' # t)) \<longleftrightarrow>
    length l \<le> length s \<and> map to_lower l = map to_lower (take (length l) s)"
proof -
  let ?seg = "s @ (if t = [] then [] else CHR ''.'' # t)"
  have b: "unbyte ((pre @ x # map byte l @ post) ! (length pre + 1 + i)) = l ! i" if "i < length l" for i
    using that by (simp add: nth_append)
  have "label_matches (pre @ x # map byte l @ post) (length pre) (length l) ?seg \<longleftrightarrow>
      length l \<le> length ?seg \<and> (\<forall>i < length l. ?seg ! i \<noteq> CHR ''.'' \<and> to_lower (l ! i) = to_lower (?seg ! i))"
    using b by (auto simp: label_matches_def list_all_iff simp del: append_assoc)
  also have "\<dots> \<longleftrightarrow> length l \<le> length s \<and> (\<forall>i < length l. to_lower (l ! i) = to_lower (s ! i))"
  proof
    assume a: "length l \<le> length ?seg \<and> (\<forall>i < length l. ?seg ! i \<noteq> CHR ''.'' \<and> to_lower (l ! i) = to_lower (?seg ! i))"
    have "length l \<le> length s"
    proof (rule ccontr)
      assume "\<not> length l \<le> length s"
      then have lt: "length s < length l" by simp
      with a have "t \<noteq> []" by (cases "t = []") auto
      then have "?seg ! length s = CHR ''.''" by simp
      with a lt show False by blast
    qed
    with a show "length l \<le> length s \<and> (\<forall>i < length l. to_lower (l ! i) = to_lower (s ! i))"
      by (auto simp: nth_append)
  next
    assume a: "length l \<le> length s \<and> (\<forall>i < length l. to_lower (l ! i) = to_lower (s ! i))"
    then show "length l \<le> length ?seg \<and> (\<forall>i < length l. ?seg ! i \<noteq> CHR ''.'' \<and> to_lower (l ! i) = to_lower (?seg ! i))"
      using assms(1) by (auto simp: nth_append in_set_conv_nth)
  qed
  also have "\<dots> \<longleftrightarrow> length l \<le> length s \<and> map to_lower l = map to_lower (take (length l) s)"
    by (auto simp: list_eq_iff_nth_eq min_def)
  finally show ?thesis .
qed

lemma name_equals_labels:
  assumes "\<forall>l \<in> set ls. l \<noteq> [] \<and> length l \<le> 63" and "\<forall>s \<in> set ss. s \<noteq> [] \<and> CHR ''.'' \<notin> set s"
  shows "name_equals_loop (pre @ enc_labels ls @ 0 # post) hops (length pre) (dotted ss) \<longleftrightarrow> list_all2 same_ci ls ss"
  using assms
proof (induction ls arbitrary: pre ss)
  case Nil
  have "dotted ss = [] \<longleftrightarrow> ss = []" using Nil.prems(2) by (cases ss) (auto simp: dotted_Cons)
  then show ?case by (simp add: name_equals_loop.simps enc_labels_def)
next
  case (Cons l ls)
  let ?n = "length l"
  let ?b = "word_of_nat ?n :: u8"
  have n: "0 < ?n" "?n \<le> 63" using Cons.prems(1) by auto
  note lb = label_byte [OF n]
  let ?pre = "pre @ ?b # map byte l"
  let ?pkt = "pre @ ?b # map byte l @ enc_labels ls @ 0 # post"
  have pkt: "pre @ enc_labels (l # ls) @ 0 # post = ?pkt" "?pkt = ?pre @ enc_labels ls @ 0 # post"
    by (simp_all add: enc_labels_def)
  have step: "name_equals_loop ?pkt hops (length pre) seg =
      (label_matches ?pkt (length pre) ?n seg \<and>
       (let rest = drop ?n seg in
        if rest \<noteq> [] \<and> hd rest = CHR ''.'' then name_equals_loop ?pkt hops (length ?pre) (tl rest)
        else rest = [] \<and> name_equals_loop ?pkt hops (length ?pre) []))" for seg
    using lb n by (subst name_equals_loop.simps) (auto simp: nth_append Let_def)
  show ?case
  proof (cases ss)
    case Nil
    then have "\<not> label_matches ?pkt (length pre) ?n (dotted ss)" using n by (simp add: label_matches_def)
    then show ?thesis unfolding pkt(1) step using Nil by simp
  next
    case ss: (Cons s ss')
    have s: "CHR ''.'' \<notin> set s" "s \<noteq> []" using Cons.prems(2) ss by auto
    have d: "dotted ss = s @ (if dotted ss' = [] then [] else CHR ''.'' # dotted ss')"
      using Cons.prems(2) ss by (cases ss') (auto simp: dotted_Cons)
    have ih: "name_equals_loop ?pkt hops (length ?pre) (dotted ss') \<longleftrightarrow> list_all2 same_ci ls ss'"
      unfolding pkt(2) by (rule Cons.IH) (use Cons.prems ss in auto)
    note lm = label_matches_iff [OF s, of pre ?b l "enc_labels ls @ 0 # post" "dotted ss'"]
    show ?thesis
    proof (cases "?n = length s")
      case True
      have "map to_lower l = map to_lower s \<longleftrightarrow> same_ci l s" by (simp add: same_ci_def)
      with True ih lm ss show ?thesis
        unfolding pkt(1) step d by (cases "dotted ss' = []") (auto simp: Let_def)
    next
      case False
      have "\<not> same_ci l s" using False by (auto simp: same_ci_def dest: map_eq_imp_length_eq)
      moreover have "\<not> name_equals_loop ?pkt hops (length pre) (dotted ss)"
      proof
        assume a: "name_equals_loop ?pkt hops (length pre) (dotted ss)"
        then have "?n < length s" using lm False unfolding step d by auto
        then have "drop ?n s \<noteq> []" "hd (drop ?n s) \<in> set s" by (simp_all add: hd_drop_conv_nth)
        then have "drop ?n (dotted ss) \<noteq> []" "hd (drop ?n (dotted ss)) \<noteq> CHR ''.''"
          using s d \<open>?n < length s\<close> by (auto simp: hd_append)
        with a show False unfolding step by (simp add: Let_def)
      qed
      ultimately show ?thesis unfolding pkt(1) using ss by simp
    qed
  qed
qed

lemma name_equals_encoded:
  assumes "valid_name m" and "valid_name name"
  shows "name_equals (pre @ enc_name m @ post) (length pre) name \<longleftrightarrow> same_ci m name"
proof -
  have "name_equals_loop (pre @ enc_labels (split_on (CHR ''.'') m) @ 0 # post) 0 (length pre)
      (dotted (split_on (CHR ''.'') name)) \<longleftrightarrow> list_all2 same_ci (split_on (CHR ''.'') m) (split_on (CHR ''.'') name)"
    by (rule name_equals_labels) (use assms split_on_nodots in \<open>auto simp: valid_name_def list_all_iff\<close>)
  then show ?thesis
    by (simp add: name_equals_def dotted_split same_ci_labels enc_name_def enc_labels_def)
qed

section \<open>Queries as they are encoded\<close>

record Question =
  qname :: string
  qtype :: u16
  qclass :: u16

definition enc_question :: "Question \<Rightarrow> u8 list" where
  "enc_question q = enc_name (qname q) @ be16 (qtype q) @ be16 (qclass q)"

text \<open>A packet: identifier, flags, the number of questions, three rest counts, the questions, and whatever follows.\<close>

definition enc_query :: "u16 \<Rightarrow> u16 \<Rightarrow> Question list \<Rightarrow> u16 \<Rightarrow> u16 \<Rightarrow> u16 \<Rightarrow> u8 list \<Rightarrow> u8 list" where
  "enc_query xid flags qs an ns ar rest =
     (be16 xid @ be16 flags @ be16 (word_of_nat (length qs)) @ be16 an @ be16 ns @ be16 ar) @ concat (map enc_question qs) @ rest"

text \<open>A question asks for a type of a name when it names it and has that type or ANY.\<close>

definition asks_for :: "string \<Rightarrow> u16 \<Rightarrow> Question \<Rightarrow> bool" where
  "asks_for name ty q \<longleftrightarrow> same_ci (qname q) name \<and> (qtype q = ty \<or> qtype q = 255)"

definition concerns :: "MdnsConfig \<Rightarrow> Question \<Rightarrow> bool" where
  "concerns cfg q \<longleftrightarrow> asks_for (mhost cfg) 1 q \<or> asks_for MDNS_SERVICE_TYPE 12 q \<or> asks_for (fqdn cfg) 33 q \<or> asks_for (fqdn cfg) 16 q"

text \<open>The three names the server answers for differ.\<close>

definition names_apart :: "MdnsConfig \<Rightarrow> bool" where
  "names_apart cfg \<longleftrightarrow> \<not> same_ci (mhost cfg) MDNS_SERVICE_TYPE \<and> \<not> same_ci (mhost cfg) (fqdn cfg) \<and>
     \<not> same_ci MDNS_SERVICE_TYPE (fqdn cfg)"

lemma same_ci_parts: "same_ci a b \<Longrightarrow> length (split_on (CHR ''.'') a) = length (split_on (CHR ''.'') b)"
  using same_ci_labels [of a b] list_all2_lengthD by blast

text \<open>With a generated host name they do: they have two, three and four labels.\<close>

lemma filled_names_apart:
  assumes "hostname app = []"
  shows "names_apart (mdns_fill_common di version extra app)"
proof -
  let ?n = "config_hostname app (Some (serial di)) 64"
  have p: "plain_label ?n" by (rule config_hostname_label [OF assms])
  then have l: "length ?n \<le> 63" "CHR ''.'' \<notin> set ?n" by (simp_all add: plain_label_def)
  have h: "mhost (mdns_fill_common di version extra app) = ?n @ CHR ''.'' # ''local''"
    "fqdn (mdns_fill_common di version extra app) = ?n @ CHR ''.'' # MDNS_SERVICE_TYPE"
    using l by (simp_all add: mdns_fill_common_def Let_def fit_def MDNS_SERVICE_TYPE_def)
  have "length (split_on (CHR ''.'') MDNS_SERVICE_TYPE) = 3" by (simp add: MDNS_SERVICE_TYPE_def)
  moreover have "length (split_on (CHR ''.'') (?n @ CHR ''.'' # ''local'')) = 2"
    "length (split_on (CHR ''.'') (?n @ CHR ''.'' # MDNS_SERVICE_TYPE)) = 4"
    using l(2) calculation by (simp_all add: split_on_app split_on_nodot)
  ultimately show ?thesis unfolding names_apart_def h using same_ci_parts by fastforce
qed

lemma skip_name_labels:
  "\<forall>l \<in> set ls. l \<noteq> [] \<and> length l \<le> 63 \<Longrightarrow>
     skip_name (pre @ enc_labels ls @ 0 # post) (length pre) = length pre + length (enc_labels ls) + 1"
proof (induction ls arbitrary: pre)
  case Nil
  then show ?case by (simp add: skip_name.simps enc_labels_def)
next
  case (Cons l ls)
  let ?b = "word_of_nat (length l) :: u8"
  have n: "0 < length l" "length l \<le> 63" using Cons.prems by auto
  note lb = label_byte [OF n]
  let ?pre = "pre @ ?b # map byte l"
  have pkt: "pre @ enc_labels (l # ls) @ 0 # post = ?pre @ enc_labels ls @ 0 # post" by (simp add: enc_labels_def)
  have "skip_name (pre @ enc_labels (l # ls) @ 0 # post) (length pre) = skip_name (?pre @ enc_labels ls @ 0 # post) (length ?pre)"
    unfolding pkt using lb n by (subst skip_name.simps) (simp add: nth_append Let_def)
  also have "\<dots> = length ?pre + length (enc_labels ls) + 1" by (rule Cons.IH) (use Cons.prems in auto)
  finally show ?case by (simp add: enc_labels_def)
qed

lemma skip_name_encoded:
  assumes "valid_name m"
  shows "skip_name (pre @ enc_name m @ post) (length pre) = length pre + length (enc_name m)"
  using skip_name_labels [of "split_on (CHR ''.'') m" pre post] assms
  by (simp add: valid_name_def list_all_iff enc_name_def enc_labels_def)

lemma be16_value: "push_bit 8 (unat (ucast (drop_bit 8 v) :: u8)) OR unat (ucast (v AND 0xFF) :: u8) = unat (v :: u16)"
proof (rule bit_eqI)
  fix n
  have m: "(0xFF :: u16) = mask 8" by (simp add: mask_eq_exp_minus_1)
  show "bit (push_bit 8 (unat (ucast (drop_bit 8 v) :: u8)) OR unat (ucast (v AND 0xFF) :: u8)) n = bit (unat v) n"
    unfolding m by (cases "n < 8") (auto simp: bit_simps dest: bit_imp_le_length)
qed

lemma length_be16 [simp]: "length (be16 v) = 2"
  by (simp add: be16_def)

lemma get16_be16: "get16 (pre @ be16 v @ post) (length pre) = unat v"
  unfolding be16_value [of v, symmetric] by (simp add: get16_def be16_def nth_append)

lemma flag_byte: "(ucast (drop_bit 8 (v :: u16)) :: u8) AND 0x80 = 0 \<longleftrightarrow> v AND 0x8000 = 0"
proof -
  have "(ucast (drop_bit 8 v) :: u8) AND 2 ^ 7 = 0 \<longleftrightarrow> \<not> bit v 15" unfolding and_exp_eq_0_iff_not_bit by (simp add: bit_simps)
  moreover have "v AND 2 ^ 15 = 0 \<longleftrightarrow> \<not> bit v 15" by (rule and_exp_eq_0_iff_not_bit)
  ultimately show ?thesis by simp
qed

text \<open>What one question adds to the wanted records.\<close>

definition see :: "MdnsConfig \<Rightarrow> Question \<Rightarrow> WantSet \<Rightarrow> WantSet" where
  "see cfg q w = w\<lparr>want_a := want_a w \<or> asks_for (mhost cfg) 1 q, want_ptr := want_ptr w \<or> asks_for MDNS_SERVICE_TYPE 12 q,
     want_srv := want_srv w \<or> asks_for (fqdn cfg) 33 q, want_txt := want_txt w \<or> asks_for (fqdn cfg) 16 q,
     wunicast := wunicast w \<or> concerns cfg q \<and> qclass q AND 0x8000 \<noteq> 0\<rparr>"

lemma same_ci_trans: "same_ci a b \<Longrightarrow> same_ci a c \<Longrightarrow> same_ci b c"
  by (simp add: same_ci_def)

lemma question_seen:
  assumes "names_valid cfg" and "names_apart cfg" and "valid_name (qname q)"
  shows "question cfg (pre @ enc_question q @ post) (length pre) (length pre + length (enc_name (qname q))) w = see cfg q w"
proof -
  let ?p = "pre @ enc_question q @ post" and ?a = "length pre + length (enc_name (qname q))"
  have ty: "get16 ?p ?a = unat (qtype q)"
    using get16_be16 [of "pre @ enc_name (qname q)" "qtype q"] by (simp add: enc_question_def)
  have cl: "get16 ?p (?a + 2) = unat (qclass q)"
    using get16_be16 [of "pre @ enc_name (qname q) @ be16 (qtype q)" "qclass q"] by (simp add: enc_question_def add.assoc)
  have eq: "name_equals ?p (length pre) name \<longleftrightarrow> same_ci (qname q) name" if "valid_name name" for name
    using name_equals_encoded [OF assms(3) that, of pre] by (simp add: enc_question_def)
  have n: "name_equals ?p (length pre) (mhost cfg) \<longleftrightarrow> same_ci (qname q) (mhost cfg)"
    "name_equals ?p (length pre) MDNS_SERVICE_TYPE \<longleftrightarrow> same_ci (qname q) MDNS_SERVICE_TYPE"
    "name_equals ?p (length pre) (fqdn cfg) \<longleftrightarrow> same_ci (qname q) (fqdn cfg)"
    using assms(1) eq valid_service_type by (simp_all add: names_valid_def)
  have v: "unat (qtype q) = 255 \<longleftrightarrow> qtype q = 255" "unat (qtype q) = Suc 0 \<longleftrightarrow> qtype q = 1" "unat (qtype q) = 12 \<longleftrightarrow> qtype q = 12"
    "unat (qtype q) = 33 \<longleftrightarrow> qtype q = 33" "unat (qtype q) = 16 \<longleftrightarrow> qtype q = 16"
    by (simp_all add: word_unat_eq_iff)
  have "unat (qclass q AND 0x8000) = unat (qclass q) AND 0x8000" by (simp add: unsigned_and_eq)
  then have u: "unat (qclass q) AND 0x8000 = 0 \<longleftrightarrow> qclass q AND 0x8000 = 0" by (metis unat_eq_zero)
  have ap: "same_ci (qname q) (mhost cfg) \<Longrightarrow> \<not> same_ci (qname q) MDNS_SERVICE_TYPE \<and> \<not> same_ci (qname q) (fqdn cfg)"
    "same_ci (qname q) MDNS_SERVICE_TYPE \<Longrightarrow> \<not> same_ci (qname q) (fqdn cfg)"
    using assms(2) same_ci_trans unfolding names_apart_def by blast+
  show ?thesis
    unfolding question_def ty cl n Let_def see_def concerns_def asks_for_def using ap by (auto simp: v u)
qed

lemma scan_loop_seen:
  assumes "names_valid cfg" and "names_apart cfg" and "list_all (\<lambda>q. valid_name (qname q)) qs"
  shows "scan_loop cfg (pre @ concat (map enc_question qs) @ rest) (length qs) (length pre) w = fold (see cfg) qs w"
  using assms(3)
proof (induction qs arbitrary: pre w)
  case (Cons q qs)
  let ?p = "pre @ enc_question q @ concat (map enc_question qs) @ rest"
  have v: "valid_name (qname q)" using Cons.prems by simp
  have a: "skip_name ?p (length pre) = length pre + length (enc_name (qname q))"
    using skip_name_encoded [OF v, of pre] by (simp add: enc_question_def)
  have ne: "length (enc_name (qname q)) \<noteq> 0" by (simp add: enc_name_def)
  have l: "length (enc_question q) = length (enc_name (qname q)) + 4" by (simp add: enc_question_def)
  have "scan_loop cfg ?p (length (q # qs)) (length pre) w =
      scan_loop cfg ?p (length qs) (length (pre @ enc_question q)) (see cfg q w)"
    using ne l question_seen [OF assms(1,2) v, of pre "concat (map enc_question qs) @ rest" w] by (simp add: a Let_def add.assoc)
  also have "\<dots> = fold (see cfg) qs (see cfg q w)"
    using Cons.IH [of "pre @ enc_question q" "see cfg q w"] Cons.prems by simp
  finally show ?case by simp
qed simp

lemma seen_wants:
  "want_a (fold (see cfg) qs w) \<longleftrightarrow> want_a w \<or> list_ex (asks_for (mhost cfg) 1) qs"
  "want_ptr (fold (see cfg) qs w) \<longleftrightarrow> want_ptr w \<or> list_ex (asks_for MDNS_SERVICE_TYPE 12) qs"
  "want_srv (fold (see cfg) qs w) \<longleftrightarrow> want_srv w \<or> list_ex (asks_for (fqdn cfg) 33) qs"
  "want_txt (fold (see cfg) qs w) \<longleftrightarrow> want_txt w \<or> list_ex (asks_for (fqdn cfg) 16) qs"
  "wunicast (fold (see cfg) qs w) \<longleftrightarrow> wunicast w \<or> list_ex (\<lambda>q. concerns cfg q \<and> qclass q AND 0x8000 \<noteq> 0) qs"
  by (induction qs arbitrary: w) (auto simp: see_def)

lemma scan_query:
  assumes "names_valid cfg" and "names_apart cfg" and "list_all (\<lambda>q. valid_name (qname q)) qs" and "length qs < 2 ^ 16"
  shows "scan_questions cfg (enc_query xid flags qs an ns ar rest) w = fold (see cfg) qs w"
proof -
  let ?h = "be16 xid @ be16 flags @ be16 (word_of_nat (length qs)) @ be16 an @ be16 ns @ be16 ar"
  let ?q = "enc_query xid flags qs an ns ar rest"
  have "get16 ?q 4 = unat (word_of_nat (length qs) :: u16)"
    using get16_be16 [of "be16 xid @ be16 flags" "word_of_nat (length qs)" "be16 an @ be16 ns @ be16 ar @ concat (map enc_question qs) @ rest"]
    by (simp add: enc_query_def)
  then have n: "get16 ?q 4 = length qs" using assms(4) by (simp add: unat_of_nat)
  have "length ?h = 12" by simp
  then have "scan_loop cfg ?q (length qs) 12 w = fold (see cfg) qs w"
    using scan_loop_seen [OF assms(1-3), of ?h rest w] unfolding enc_query_def by (simp only:)
  moreover have "12 \<le> length ?q" by (simp add: enc_query_def)
  ultimately show ?thesis by (simp add: scan_questions_def n)
qed

section \<open>Properties\<close>

text \<open>When the host name is the generated one and the console has an address, the announcement is
  sent, and is byte for byte the header and the five records PTR, SRV, TXT, A and NSEC of the
  configuration: it always fits the datagram buffer.\<close>

theorem announcement_sent_whole:
  "hostname app = [] \<Longrightarrow> mdns_config_init di version extra nifm n app = (True, cfg) \<Longrightarrow>
     mdns_announce cfg True =
       (True, Some (response_header 5 @ rec_ptr cfg @ rec_srv cfg @ rec_txt cfg @ rec_a cfg @ rec_nsec cfg))"
  using init_announcement [of app di version extra nifm n cfg] by (simp add: announcement_spec_def)

theorem announcement_sent_whole_witness:
  "fst (mdns_announce (snd (mdns_config_init
     \<lparr>model = ''Switch'', firmware = [], atmosphere = [], serial = ''XAW1''\<rparr> ''1'' [] (Some (192, 168, 1, 5))
     \<lparr>g_nifm_ready = True, g_have_last_addr = False, g_last_addr = (0, 0, 0, 0)\<rparr> default_config)) True)"
proof -
  let ?di = "\<lparr>model = ''Switch'', firmware = [], atmosphere = [], serial = ''XAW1''\<rparr>"
  let ?n = "\<lparr>g_nifm_ready = True, g_have_last_addr = False, g_last_addr = (0, 0, 0, 0)\<rparr>"
  have i: "mdns_config_init ?di ''1'' [] (Some (192, 168, 1, 5)) ?n default_config =
      (True, snd (mdns_config_init ?di ''1'' [] (Some (192, 168, 1, 5)) ?n default_config))"
    by (simp add: mdns_config_init_def netif_current_ipv4_def Let_def)
  show ?thesis using announcement_sent_whole [OF _ i] by (simp add: default_config_def)
qed

text \<open>
  C20: a query is answered exactly when a question in it asks for something the server has, and with these records, counted
  in the header: the PTR record if one asks for the service type; SRV and TXT if one asks for them by the instance name or PTR
  is in; the address and NSEC records if one asks for the host's address or SRV is in; in this order, provided they fit. The
  answer is addressed to the sender when a question that was matched asks for that. Names are compared ignoring case, ANY asks
  for every type, and a packet flagged as a response is never answered.
\<close>

theorem query_answered_with_the_bundle:
  assumes "names_valid cfg" and "names_apart cfg" and "list_all (\<lambda>q. valid_name (qname q)) qs" and "length qs < 2 ^ 16"
  defines "ptr \<equiv> list_ex (asks_for MDNS_SERVICE_TYPE 12) qs"
  defines "srv \<equiv> ptr \<or> list_ex (asks_for (fqdn cfg) 33) qs"
  defines "info \<equiv> ptr \<or> list_ex (asks_for (fqdn cfg) 16) qs"
  defines "addr \<equiv> srv \<or> list_ex (asks_for (mhost cfg) 1) qs"
  defines "recs \<equiv> (if ptr then [rec_ptr cfg] else []) @ (if srv then [rec_srv cfg] else []) @
    (if info then [rec_txt cfg] else []) @ (if addr then [rec_a cfg, rec_nsec cfg] else [])"
  defines "out \<equiv> response_header (word_of_nat (length recs)) @ concat recs"
  shows "mdns_build_response cfg (enc_query xid flags qs an ns ar rest) cap =
    (if flags AND 0x8000 \<noteq> 0 then ([], False)
     else (if recs \<noteq> [] \<and> length out \<le> cap then out else [], list_ex (\<lambda>q. concerns cfg q \<and> qclass q AND 0x8000 \<noteq> 0) qs))"
proof -
  let ?q = "enc_query xid flags qs an ns ar rest"
  let ?w = "fold (see cfg) qs no_wants"
  have l: "12 \<le> length ?q" by (simp add: enc_query_def)
  have q2: "?q ! 2 AND 0x80 = 0 \<longleftrightarrow> flags AND 0x8000 = 0" by (simp add: enc_query_def be16_def flag_byte)
  have sc: "scan_questions cfg ?q no_wants = ?w" by (rule scan_query [OF assms(1-4)])
  have wa: "want_ptr (bundle_wants ?w) = ptr" "want_srv (bundle_wants ?w) = srv" "want_txt (bundle_wants ?w) = info"
    "want_a (bundle_wants ?w) = addr" "wunicast ?w = list_ex (\<lambda>q. concerns cfg q \<and> qclass q AND 0x8000 \<noteq> 0) qs"
    unfolding ptr_def srv_def info_def addr_def by (auto simp: bundle_wants_def seen_wants no_wants_def Let_def)
  have sp: "response_spec cfg (bundle_wants ?w) = out"
    unfolding response_spec_def wa out_def recs_def by (cases ptr; cases srv; cases info; cases addr) simp_all
  have ne: "recs \<noteq> [] \<longleftrightarrow> addr \<or> ptr \<or> srv \<or> info" by (auto simp: recs_def)
  show ?thesis
  proof (cases "flags AND 0x8000 = 0")
    case True
    have "snd (mdns_build_response cfg ?q cap) = wunicast ?w"
      using l q2 True by (simp add: mdns_build_response_def sc Let_def)
    moreover have "fst (mdns_build_response cfg ?q cap) = (if recs \<noteq> [] \<and> length out \<le> cap then out else [])"
      using response_eq [OF assms(1) l, of cap] q2 True unfolding sc wa sp ne by simp
    ultimately show ?thesis using True wa(5) by (simp add: prod_eq_iff)
  next
    case False
    then show ?thesis using l q2 by (simp add: mdns_build_response_def)
  qed
qed

definition demo_mdns :: MdnsConfig where
  "demo_mdns = \<lparr>minstance = ''a'', mhost = ''a.local'', fqdn = ''a._sys-autopilot._tcp.local'',
     mport = 4150, ipv4 = 0xC0A80105, txt_rdata = []\<rparr>"

text \<open>Two questions: a name of somebody else, and the service type, to be answered to the sender.\<close>

definition demo_questions :: "Question list" where
  "demo_questions = [\<lparr>qname = ''b.local'', qtype = 1, qclass = 1\<rparr>,
     \<lparr>qname = MDNS_SERVICE_TYPE, qtype = 12, qclass = 0x8001\<rparr>]"

theorem query_answered_with_the_bundle_witness:
  "mdns_build_response demo_mdns (enc_query 0 0 demo_questions 0 0 0 []) 1500 =
     (response_header 5 @ rec_ptr demo_mdns @ rec_srv demo_mdns @ rec_txt demo_mdns @ rec_a demo_mdns @ rec_nsec demo_mdns, True)"
proof -
  have n: "names_valid demo_mdns" "names_apart demo_mdns" by code_simp+
  have q: "list_all (\<lambda>q. valid_name (qname q)) demo_questions" by code_simp
  have l: "length demo_questions < 2 ^ 16" by (simp add: demo_questions_def)
  have a: "list_ex (asks_for MDNS_SERVICE_TYPE 12) demo_questions" by code_simp
  have u: "list_ex (\<lambda>q. concerns demo_mdns q \<and> qclass q AND 0x8000 \<noteq> 0) demo_questions" by code_simp
  have f: "length (response_header 5 @ rec_ptr demo_mdns @ rec_srv demo_mdns @ rec_txt demo_mdns @ rec_a demo_mdns @ rec_nsec demo_mdns) \<le> 1500"
    by (simp add: response_header_def be16_def rec_a_def rec_nsec_def rec_ptr_def rec_srv_def rec_txt_def rdata_txt_def
        rr_length enc_name_length demo_mdns_def dns32_def MDNS_SERVICE_TYPE_def)
  have h: "word_of_nat (length [rec_ptr demo_mdns, rec_srv demo_mdns, rec_txt demo_mdns, rec_a demo_mdns, rec_nsec demo_mdns]) = (5 :: u16)"
    by simp
  have z: "(0 :: u16) AND 0x8000 = 0" by simp
  note r = query_answered_with_the_bundle [OF n q l, of 0 0 0 0 0 "[]" 1500]
  show ?thesis
    apply (subst r)
    apply (simp only: a u z simp_thms if_True if_False append.simps)
    apply (simp only: h concat.simps append_Nil2 f if_True simp_thms list.distinct)
    done
qed

text \<open>A name read from a packet, wherever it stands there, is taken for one of the server's own exactly
  when the two are equal up to the case of letters.\<close>

theorem names_compared_ignoring_case:
  "valid_name m \<Longrightarrow> valid_name name \<Longrightarrow>
     name_equals (pre @ enc_name m @ post) (length pre) name \<longleftrightarrow> map to_lower m = map to_lower name"
  using name_equals_encoded [of m name pre post] by (simp add: same_ci_def)

theorem names_compared_ignoring_case_witness:
  "name_equals (enc_name ''Sw.LOCAL'') 0 ''sw.local''"
  using names_compared_ignoring_case [of "''Sw.LOCAL''" "''sw.local''" "[]" "[]"]
  by (simp add: valid_name_def to_lower_def is_upper_def between_def char_of_eq_iff take_bit_eq_mod)

end
