(* ===== verification/Jstream.thy ===== *)
theory Jstream
  imports Interfaces Request_Memory
begin

text \<open>
  \<open>source/features/mcp/jstream.c\<close>: the scanner that copies a JSON-RPC body into a bounded document while
  it diverts the string at \<open>$.params.arguments.content\<close> to a sink. The sink and its context are
  arguments of the feed; the caller's buffer is the list of bytes written so far.
\<close>

section \<open>State\<close>

datatype jstream_error = JSTREAM_EDOC | JSTREAM_EDEPTH | JSTREAM_ECONTENT | JSTREAM_EDUP | JSTREAM_EPARTIAL

definition JSTREAM_MAX_DEPTH :: nat where "JSTREAM_MAX_DEPTH = 15"
definition JSTREAM_MAX_KEY :: nat where "JSTREAM_MAX_KEY = 39"

record Jstream =
  jdoc :: string
  doc_cap :: nat
  jdepth :: nat
  on_path :: "bool list"
  is_obj :: "bool list"
  in_string :: bool
  is_key :: bool
  esc :: bool
  next_is_key :: bool
  next_value_on_path :: bool
  next_value_is_content :: bool
  divert :: bool
  content_found :: bool
  jkey :: string
  key_overflow :: bool
  jerr :: "jstream_error option"

definition kTarget :: "string list" where
  "kTarget = [''params'', ''arguments'', ''content'']"

definition kPlaceholder :: string where
  "kPlaceholder = quoted ''<streamed>''"

definition jstream_init :: "nat \<Rightarrow> Jstream" where
  "jstream_init cap = \<lparr>jdoc = [], doc_cap = cap, jdepth = 0, on_path = replicate 16 False, is_obj = replicate 16 False,
     in_string = False, is_key = False, esc = False, next_is_key = False, next_value_on_path = False,
     next_value_is_content = False, divert = False, content_found = False, jkey = [], key_overflow = False,
     jerr = None\<rparr>"

section \<open>Scanning\<close>

definition doc_append :: "string \<Rightarrow> Jstream \<Rightarrow> Jstream" where
  "doc_append data js =
     (if length (jdoc js) + length data > doc_cap js then js\<lparr>jerr := Some JSTREAM_EDOC\<rparr>
      else js\<lparr>jdoc := jdoc js @ data\<rparr>)"

definition key_complete :: "Jstream \<Rightarrow> Jstream" where
  "key_complete js =
     (let d = jdepth js;
          js = js\<lparr>next_value_on_path := False, next_value_is_content := False\<rparr>
      in if key_overflow js \<or> d < 1 \<or> d > 3 \<or> \<not> on_path js ! d then js
         else if c_str (jkey js) \<noteq> kTarget ! (d - 1) then js
         else if d < 3 then js\<lparr>next_value_on_path := True\<rparr>
         else js\<lparr>next_value_is_content := True\<rparr>)"

text \<open>A character inside a copied string.\<close>

definition in_string_char :: "char \<Rightarrow> Jstream \<Rightarrow> Jstream" where
  "in_string_char c js0 =
     (let js = doc_append [c] js0 in
      if jerr js \<noteq> None then js
      else if esc js then
        (let js = js\<lparr>esc := False\<rparr> in if is_key js then js\<lparr>key_overflow := True\<rparr> else js)
      else if c = BACKSLASH then js\<lparr>esc := True\<rparr>
      else if c = DQUOTE then
        (let js = js\<lparr>in_string := False\<rparr> in if is_key js then key_complete js else js)
      else if is_key js then
        (if length (jkey js) < JSTREAM_MAX_KEY then js\<lparr>jkey := jkey js @ [c]\<rparr> else js\<lparr>key_overflow := True\<rparr>)
      else js)"

text \<open>A character outside strings.\<close>

definition structural_char :: "char \<Rightarrow> Jstream \<Rightarrow> Jstream" where
  "structural_char c js =
     (if c = DQUOTE then
        (let starting_key = (jdepth js \<ge> 1 \<and> is_obj js ! jdepth js \<and> next_is_key js) in
         if \<not> starting_key \<and> next_value_is_content js then
           (let js = js\<lparr>next_value_is_content := False, next_value_on_path := False\<rparr> in
            if content_found js then js\<lparr>jerr := Some JSTREAM_EDUP\<rparr>
            else doc_append kPlaceholder (js\<lparr>content_found := True, divert := True\<rparr>))
         else
           (let js = js\<lparr>in_string := True, is_key := starting_key, jkey := [], key_overflow := False\<rparr>;
                js = (if \<not> starting_key then js\<lparr>next_value_is_content := False, next_value_on_path := False\<rparr> else js)
            in doc_append [c] js))
      else if c = CHR ''{'' \<or> c = CHR ''['' then
        (if jdepth js \<ge> JSTREAM_MAX_DEPTH then js\<lparr>jerr := Some JSTREAM_EDEPTH\<rparr>
         else
           (let d = jdepth js + 1;
                onp = (if d = 1 then True else next_value_on_path js);
                onp = (if c = CHR ''['' then False else onp)
            in doc_append [c]
                 (js\<lparr>jdepth := d, is_obj := (is_obj js)[d := (c = CHR ''{'')], on_path := (on_path js)[d := onp],
                    next_value_on_path := False, next_value_is_content := False, next_is_key := (c = CHR ''{'')\<rparr>)))
      else if c = CHR ''}'' \<or> c = CHR '']'' then
        (if jdepth js = 0 then js\<lparr>jerr := Some JSTREAM_EDEPTH\<rparr>
         else doc_append [c] (js\<lparr>jdepth := jdepth js - 1\<rparr>))
      else if c = CHR '':'' then doc_append [c] (js\<lparr>next_is_key := False\<rparr>)
      else if c = CHR '','' then
        doc_append [c] (js\<lparr>next_is_key := (jdepth js \<ge> 1 \<and> is_obj js ! jdepth js)\<rparr>)
      else if c = CHR '' '' \<or> c = TAB \<or> c = CR \<or> c = LF then doc_append [c] js
      else doc_append [c] (js\<lparr>next_value_on_path := False, next_value_is_content := False\<rparr>))"

definition content_escape :: "char \<Rightarrow> char option" where
  "content_escape c =
     (if c = CHR ''/'' then Some (CHR ''/'') else if c = CHR ''n'' then Some LF
      else if c = CHR ''r'' then Some CR else None)"

definition run_char :: "char \<Rightarrow> bool" where
  "run_char c \<longleftrightarrow> c \<noteq> DQUOTE \<and> c \<noteq> BACKSLASH"

text \<open>The loop; a state with an error stops it.\<close>

function feed_loop :: "(string \<Rightarrow> 'c \<Rightarrow> 'c) \<Rightarrow> Jstream \<times> 'c \<Rightarrow> string \<Rightarrow> Jstream \<times> 'c" where
  "feed_loop sink (js, ctx) [] = (js, ctx)"
| "feed_loop sink (js, ctx) (c # cs) =
     (if jerr js \<noteq> None then (js, ctx)
      else if divert js then
        (if esc js then
           (case content_escape c of
              None \<Rightarrow> (js\<lparr>esc := False, jerr := Some JSTREAM_ECONTENT\<rparr>, ctx)
            | Some u \<Rightarrow> feed_loop sink (js\<lparr>esc := False\<rparr>, sink [u] ctx) cs)
         else if c = DQUOTE then feed_loop sink (js\<lparr>divert := False\<rparr>, ctx) cs
         else if c = BACKSLASH then feed_loop sink (js\<lparr>esc := True\<rparr>, ctx) cs
         else feed_loop sink (js, sink (takeWhile run_char (c # cs)) ctx) (dropWhile run_char (c # cs)))
      else if in_string js then feed_loop sink (in_string_char c js, ctx) cs
      else feed_loop sink (structural_char c js, ctx) cs)"
  by pat_completeness auto
termination
proof (relation "measure (\<lambda>(sink, s, cs). length cs)", goal_cases)
  case (5 sink js ctx c cs)
  then have "run_char c" by (simp add: run_char_def)
  then show ?case using length_dropWhile_le [of run_char cs] by (simp add: less_Suc_eq_le)
qed auto

definition jstream_feed :: "(string \<Rightarrow> 'c \<Rightarrow> 'c) \<Rightarrow> Jstream \<times> 'c \<Rightarrow> string \<Rightarrow> Jstream \<times> 'c" where
  "jstream_feed sink s data = feed_loop sink s data"

text \<open>The error, or whether a content was diverted.\<close>

definition jstream_finish :: "Jstream \<Rightarrow> jstream_error + bool" where
  "jstream_finish js =
     (case jerr js of
        Some e \<Rightarrow> Inl e
      | None \<Rightarrow> if in_string js \<or> divert js \<or> jdepth js \<noteq> 0 then Inl JSTREAM_EPARTIAL else Inr (content_found js))"

section \<open>Character by character\<close>

definition jstep :: "(string \<Rightarrow> 'c \<Rightarrow> 'c) \<Rightarrow> Jstream \<times> 'c \<Rightarrow> char \<Rightarrow> Jstream \<times> 'c" where
  "jstep sink s c =
     (let (js, ctx) = s in
      if jerr js \<noteq> None then (js, ctx)
      else if divert js then
        (if esc js then
           (case content_escape c of
              None \<Rightarrow> (js\<lparr>esc := False, jerr := Some JSTREAM_ECONTENT\<rparr>, ctx)
            | Some u \<Rightarrow> (js\<lparr>esc := False\<rparr>, sink [u] ctx))
         else if c = DQUOTE then (js\<lparr>divert := False\<rparr>, ctx)
         else if c = BACKSLASH then (js\<lparr>esc := True\<rparr>, ctx)
         else (js, sink [c] ctx))
      else if in_string js then (in_string_char c js, ctx)
      else (structural_char c js, ctx))"

text \<open>A sink that does not care how its input is cut.\<close>

definition stream_sink :: "(string \<Rightarrow> 'c \<Rightarrow> 'c) \<Rightarrow> bool" where
  "stream_sink sink \<longleftrightarrow> (\<forall>c. sink [] c = c) \<and> (\<forall>a b c. sink (a @ b) c = sink b (sink a c))"

lemma jstep_err: "jerr js \<noteq> None \<Longrightarrow> foldl (jstep sink) (js, ctx) cs = (js, ctx)"
  by (induction cs) (simp_all add: jstep_def)

lemma jstep_run:
  assumes "stream_sink sink" and "jerr js = None" and "divert js" and "\<not> esc js" and "list_all run_char r"
  shows "foldl (jstep sink) (js, ctx) r = (js, sink r ctx)"
  using assms(5)
proof (induction r arbitrary: ctx)
  case Nil
  then show ?case using assms(1) by (simp add: stream_sink_def)
next
  case (Cons x r)
  then have "jstep sink (js, ctx) x = (js, sink [x] ctx)" using assms(2-4) by (simp add: jstep_def run_char_def)
  moreover have "sink r (sink [x] ctx) = sink (x # r) ctx"
    using assms(1) unfolding stream_sink_def by (metis append_Cons append_Nil)
  ultimately show ?case using Cons by simp
qed

lemma feed_loop_steps:
  "stream_sink sink \<Longrightarrow> feed_loop sink s cs = foldl (jstep sink) s cs"
proof (induction sink s cs rule: feed_loop.induct)
  case (1 sink js ctx)
  then show ?case by simp
next
  case (2 sink js ctx c cs)
  show ?case
  proof (cases "jerr js \<noteq> None")
    case True
    then show ?thesis using jstep_err [of js sink ctx "c # cs"] by simp
  next
    case e: False
    show ?thesis
    proof (cases "divert js \<and> \<not> esc js \<and> run_char c")
      case True
      let ?r = "takeWhile run_char (c # cs)" and ?t = "dropWhile run_char (c # cs)"
      have "feed_loop sink (js, ctx) (c # cs) = feed_loop sink (js, sink ?r ctx) ?t"
        using e True by (simp add: run_char_def)
      also have "\<dots> = foldl (jstep sink) (js, sink ?r ctx) ?t"
        using "2.IH"(4) [OF e] True "2.prems" by (auto simp: run_char_def)
      also have "\<dots> = foldl (jstep sink) (foldl (jstep sink) (js, ctx) ?r) ?t"
      proof -
        have "list_all run_char ?r" by (auto simp: list_all_iff dest: set_takeWhileD)
        with jstep_run [of sink js ?r ctx] "2.prems" e True show ?thesis by simp
      qed
      also have "\<dots> = foldl (jstep sink) (js, ctx) (?r @ ?t)" by (simp only: foldl_append)
      finally show ?thesis by (simp only: takeWhile_dropWhile_id)
    next
      case nr: False
      show ?thesis
      proof (cases "divert js")
        case d: True
        show ?thesis
        proof (cases "esc js")
          case True
          then show ?thesis
          proof (cases "content_escape c")
            case None
            with e d True show ?thesis by (simp add: jstep_def [of sink "(js, ctx)" c] jstep_err)
          next
            case (Some u)
            with e d True "2.IH"(1) [OF e d True Some "2.prems"] show ?thesis by (simp add: jstep_def [of sink "(js, ctx)" c])
          qed
        next
          case ne: False
          with nr d have "c = DQUOTE \<or> c = BACKSLASH" by (simp add: run_char_def)
          then show ?thesis
          proof
            assume a: "c = DQUOTE"
            then have "jstep sink (js, ctx) c = (js\<lparr>divert := False\<rparr>, ctx)" using e d ne by (simp add: jstep_def)
            with a e d ne "2.IH"(2) [OF e d ne a "2.prems"] show ?thesis by simp
          next
            assume a: "c = BACKSLASH"
            then have "jstep sink (js, ctx) c = (js\<lparr>esc := True\<rparr>, ctx)" using e d ne by (simp add: jstep_def)
            with a e d ne "2.IH"(3) [OF e d ne _ a "2.prems"] show ?thesis by simp
          qed
        qed
      next
        case d: False
        show ?thesis
        proof (cases "in_string js")
          case True
          with e d "2.IH"(5) [OF e d True "2.prems"] show ?thesis by (simp add: jstep_def [of sink "(js, ctx)" c])
        next
          case False
          with e d "2.IH"(6) [OF e d False "2.prems"] show ?thesis by (simp add: jstep_def [of sink "(js, ctx)" c])
        qed
      qed
    qed
  qed
qed

interpretation jstream_collect: chunked_consumer "jstream_feed (\<lambda>s acc. acc @ s)"
proof -
  have s: "stream_sink (\<lambda>s acc. acc @ s :: string)" by (simp add: stream_sink_def)
  show "chunked_consumer (jstream_feed (\<lambda>s acc. acc @ s :: string))"
    by unfold_locales (simp_all add: jstream_feed_def feed_loop_steps [OF s])
qed

section \<open>What the scanner does to a JSON text\<close>

text \<open>
  JSON values with the white space of their text: strings and keys are raw (between their quotes),
  \<open>JPad\<close> is a value with space around it, arrays and objects may have space before the closing bracket, and a
  member is the space before its key, the key, the space before the colon, and the value.
\<close>

datatype jv =
    JPrim string
  | JStr string
  | JArr "jv list" string
  | JObj "(string \<times> string \<times> string \<times> jv) list" string
  | JPad string jv string

datatype kind = On | Content | Off

definition member_kind :: "nat \<Rightarrow> kind \<Rightarrow> string \<Rightarrow> kind" where
  "member_kind d k name =
     (if (d = 0 \<or> k = On) \<and> d < 3 \<and> name = kTarget ! d then (if d < 2 then On else Content) else Off)"

text \<open>The text of a value, where \<open>f\<close> renders strings.\<close>

fun render :: "(kind \<Rightarrow> string \<Rightarrow> string) \<Rightarrow> nat \<Rightarrow> kind \<Rightarrow> jv \<Rightarrow> string"
  and render_elems :: "(kind \<Rightarrow> string \<Rightarrow> string) \<Rightarrow> nat \<Rightarrow> jv list \<Rightarrow> string"
  and render_members :: "(kind \<Rightarrow> string \<Rightarrow> string) \<Rightarrow> nat \<Rightarrow> kind \<Rightarrow> (string \<times> string \<times> string \<times> jv) list \<Rightarrow> string" where
  "render f d k (JPrim s) = s"
| "render f d k (JStr s) = f k s"
| "render f d k (JArr vs w) = CHR ''['' # render_elems f d vs @ w @ '']''"
| "render f d k (JObj ms w) = CHR ''{'' # render_members f d k ms @ w @ ''}''"
| "render f d k (JPad a v b) = a @ render f d k v @ b"
| "render_elems f d [] = []"
| "render_elems f d (v # vs) = render f (d + 1) Off v @ (if vs = [] then [] else CHR '','' # render_elems f d vs)"
| "render_members f d k [] = []"
| "render_members f d k ((a, name, b, v) # ms) =
     a @ quoted name @ b @ '':'' @ render f (d + 1) (member_kind d k name) v @
     (if ms = [] then [] else CHR '','' # render_members f d k ms)"

definition jtext :: "jv \<Rightarrow> string" where
  "jtext v = render (\<lambda>k s. quoted s) 0 Off v"

definition jreduced :: "nat \<Rightarrow> kind \<Rightarrow> jv \<Rightarrow> string" where
  "jreduced d k v = render (\<lambda>k s. if k = Content then kPlaceholder else quoted s) d k v"

text \<open>The content strings of a value, in order.\<close>

fun contents :: "nat \<Rightarrow> kind \<Rightarrow> jv \<Rightarrow> string list" where
  "contents d k (JPrim s) = []"
| "contents d k (JStr s) = (if k = Content then [s] else [])"
| "contents d k (JArr vs w) = concat (map (contents (d + 1) Off) vs)"
| "contents d k (JObj ms w) = concat (map (\<lambda>(a, name, b, v). contents (d + 1) (member_kind d k name) v) ms)"
| "contents d k (JPad a v b) = contents d k v"

fun raw_ok :: "string \<Rightarrow> bool" where
  "raw_ok [] = True"
| "raw_ok (c # cs) =
     (if c = BACKSLASH then (case cs of [] \<Rightarrow> False | x # r \<Rightarrow> x \<noteq> NUL \<and> raw_ok r)
      else c \<noteq> DQUOTE \<and> c \<noteq> NUL \<and> raw_ok cs)"

definition space_char :: "char \<Rightarrow> bool" where
  "space_char c \<longleftrightarrow> c = CHR '' '' \<or> c = TAB \<or> c = CR \<or> c = LF"

definition prim_char :: "char \<Rightarrow> bool" where
  "prim_char c \<longleftrightarrow> \<not> space_char c \<and> c \<noteq> DQUOTE \<and> c \<notin> set ''{}[]:,''"

fun jv_ok :: "jv \<Rightarrow> bool" where
  "jv_ok (JPrim s) = (s \<noteq> [] \<and> list_all prim_char s)"
| "jv_ok (JStr s) = raw_ok s"
| "jv_ok (JArr vs w) = (list_all space_char w \<and> list_all jv_ok vs)"
| "jv_ok (JObj ms w) = (list_all space_char w \<and>
     list_all (\<lambda>(a, name, b, v). list_all space_char a \<and> raw_ok name \<and> list_all space_char b \<and> jv_ok v) ms)"
| "jv_ok (JPad a v b) = (list_all space_char a \<and> list_all space_char b \<and> jv_ok v)"

fun jheight :: "jv \<Rightarrow> nat" where
  "jheight (JPrim s) = 0"
| "jheight (JStr s) = 0"
| "jheight (JArr vs w) = Suc (foldr max (map jheight vs) 0)"
| "jheight (JObj ms w) = Suc (foldr max (map (\<lambda>(a, name, b, v). jheight v) ms) 0)"
| "jheight (JPad a v b) = jheight v"

text \<open>What a content string decodes to: only the escapes base64 text can carry.\<close>

fun content_text :: "string \<Rightarrow> string option" where
  "content_text [] = Some []"
| "content_text (c # cs) =
     (if c = BACKSLASH then
        (case cs of [] \<Rightarrow> None
         | x # r \<Rightarrow> (case content_escape x of None \<Rightarrow> None | Some u \<Rightarrow> map_option (\<lambda>t. u # t) (content_text r)))
      else map_option (\<lambda>t. c # t) (content_text cs))"

section \<open>Strings\<close>

definition idle :: "nat \<Rightarrow> Jstream \<Rightarrow> bool" where
  "idle d js \<longleftrightarrow> jerr js = None \<and> \<not> in_string js \<and> \<not> divert js \<and> \<not> esc js \<and> jdepth js = d \<and>
     length (on_path js) = 16 \<and> length (is_obj js) = 16"

lemma in_string_run:
  assumes "raw_ok s" and "jerr js = None" and "in_string js" and "\<not> divert js" and "\<not> esc js"
    and "length (jdoc js) + length s \<le> doc_cap js" and "length (jkey js) \<le> JSTREAM_MAX_KEY"
  shows "\<exists>k ov. foldl (jstep sink) (js, ctx) s = (js\<lparr>jdoc := jdoc js @ s, jkey := k, key_overflow := ov\<rparr>, ctx) \<and>
    (is_key js \<longrightarrow> (if BACKSLASH \<in> set s \<or> length (jkey js @ s) > JSTREAM_MAX_KEY then ov
      else ov = key_overflow js \<and> k = jkey js @ s)) \<and> (is_key js \<longrightarrow> key_overflow js \<longrightarrow> ov)"
  using assms
proof (induction s arbitrary: js rule: raw_ok.induct)
  case 1
  then show ?case by (intro exI [of _ "jkey js"] exI [of _ "key_overflow js"]) (cases js; simp)
next
  case (2 c cs)
  show ?case
  proof (cases "c = BACKSLASH")
    case True
    with "2.prems"(1) obtain x r where cs: "cs = x # r" "raw_ok r" by (auto split: list.splits)
    let ?js = "js\<lparr>jdoc := jdoc js @ [c, x], key_overflow := (is_key js \<or> key_overflow js)\<rparr>"
    have two: "foldl (jstep sink) (js, ctx) [c, x] = (?js, ctx)"
      using "2.prems" cs True by (cases js) (auto simp: jstep_def in_string_char_def doc_append_def Let_def)
    from "2.IH"(1) [OF True cs(1), of ?js] "2.prems" cs obtain k ov where ih:
      "foldl (jstep sink) (?js, ctx) r = (?js\<lparr>jdoc := jdoc ?js @ r, jkey := k, key_overflow := ov\<rparr>, ctx)"
      "is_key js \<longrightarrow> ov" by auto
    have "foldl (jstep sink) (js, ctx) (c # cs) = foldl (jstep sink) (foldl (jstep sink) (js, ctx) [c, x]) r"
      by (simp add: cs)
    also have "\<dots> = (js\<lparr>jdoc := jdoc js @ c # cs, jkey := k, key_overflow := ov\<rparr>, ctx)"
      by (simp only: two ih) (simp add: cs)
    finally show ?thesis using ih(2) True by (intro exI [of _ k] exI [of _ ov]) simp
  next
    case False
    have c: "c \<noteq> DQUOTE" "raw_ok cs" using "2.prems"(1) False by simp_all
    let ?fits = "length (jkey js) < JSTREAM_MAX_KEY"
    let ?js = "js\<lparr>jdoc := jdoc js @ [c], jkey := (if is_key js \<and> ?fits then jkey js @ [c] else jkey js),
      key_overflow := (is_key js \<and> \<not> ?fits \<or> key_overflow js)\<rparr>"
    have one: "jstep sink (js, ctx) c = (?js, ctx)"
      using "2.prems" False c by (cases js) (auto simp: jstep_def in_string_char_def doc_append_def Let_def)
    have "\<exists>k ov. foldl (jstep sink) (?js, ctx) cs = (?js\<lparr>jdoc := jdoc ?js @ cs, jkey := k, key_overflow := ov\<rparr>, ctx) \<and>
      (is_key ?js \<longrightarrow> (if BACKSLASH \<in> set cs \<or> length (jkey ?js @ cs) > JSTREAM_MAX_KEY then ov
        else ov = key_overflow ?js \<and> k = jkey ?js @ cs)) \<and> (is_key ?js \<longrightarrow> key_overflow ?js \<longrightarrow> ov)"
      by (rule "2.IH"(2) [OF False c(2)]) (use "2.prems" in simp_all)
    then obtain k ov where ih:
      "foldl (jstep sink) (?js, ctx) cs = (?js\<lparr>jdoc := jdoc ?js @ cs, jkey := k, key_overflow := ov\<rparr>, ctx)"
      "is_key ?js \<longrightarrow> (if BACKSLASH \<in> set cs \<or> length (jkey ?js @ cs) > JSTREAM_MAX_KEY then ov
        else ov = key_overflow ?js \<and> k = jkey ?js @ cs)" "is_key ?js \<longrightarrow> key_overflow ?js \<longrightarrow> ov" by blast
    show ?thesis
    proof (intro exI [of _ k] exI [of _ ov] conjI)
      show "foldl (jstep sink) (js, ctx) (c # cs) = (js\<lparr>jdoc := jdoc js @ c # cs, jkey := k, key_overflow := ov\<rparr>, ctx)"
        using ih(1) one by (cases js) simp
      show "is_key js \<longrightarrow> (if BACKSLASH \<in> set (c # cs) \<or> length (jkey js @ c # cs) > JSTREAM_MAX_KEY then ov
        else ov = key_overflow js \<and> k = jkey js @ c # cs)"
        using ih(2,3) False by (auto split: if_splits)
      show "is_key js \<longrightarrow> key_overflow js \<longrightarrow> ov" using ih(3) by simp
    qed
  qed
qed

text \<open>White space is copied and changes nothing else.\<close>

lemma spaces_run:
  assumes "list_all space_char w" and "idle d js" and "length (jdoc js) + length w \<le> doc_cap js"
  shows "foldl (jstep sink) (js, ctx) w = (js\<lparr>jdoc := jdoc js @ w\<rparr>, ctx)"
  using assms
proof (induction w arbitrary: js)
  case Nil
  show ?case by (cases js) simp
next
  case (Cons c w)
  have one: "jstep sink (js, ctx) c = (js\<lparr>jdoc := jdoc js @ [c]\<rparr>, ctx)"
    using Cons.prems by (cases js) (auto simp: jstep_def structural_char_def doc_append_def idle_def space_char_def)
  show ?case using Cons.IH [of "js\<lparr>jdoc := jdoc js @ [c]\<rparr>"] Cons.prems one by (cases js) (simp add: idle_def)
qed

lemma prim_run:
  assumes "list_all prim_char w" and "w \<noteq> []" and "idle d js" and "length (jdoc js) + length w \<le> doc_cap js"
  shows "foldl (jstep sink) (js, ctx) w =
    (js\<lparr>jdoc := jdoc js @ w, next_value_on_path := False, next_value_is_content := False\<rparr>, ctx)"
  using assms
proof (induction w arbitrary: js)
  case Nil
  then show ?case by simp
next
  case (Cons c w)
  let ?js = "js\<lparr>jdoc := jdoc js @ [c], next_value_on_path := False, next_value_is_content := False\<rparr>"
  have one: "jstep sink (js, ctx) c = (?js, ctx)"
    using Cons.prems by (cases js) (auto simp: jstep_def structural_char_def doc_append_def idle_def prim_char_def space_char_def)
  show ?case
  proof (cases "w = []")
    case True
    then show ?thesis using one by simp
  next
    case False
    show ?thesis using Cons.IH [of ?js] Cons.prems one False by (cases js) (simp add: idle_def)
  qed
qed

text \<open>The diverted string: its decoded text goes to the sink.\<close>

lemma divert_run:
  assumes "stream_sink sink" and "raw_ok s" and "content_text s = Some t"
    and "jerr js = None" and "divert js" and "\<not> esc js"
  shows "foldl (jstep sink) (js, ctx) s = (js, sink t ctx)"
  using assms
proof (induction s arbitrary: t ctx rule: raw_ok.induct)
  case 1
  then show ?case by (simp add: stream_sink_def)
next
  case (2 c cs)
  have glue: "sink r (sink [u] ctx) = sink (u # r) ctx" for u r
    using "2.prems"(1) unfolding stream_sink_def by (metis append_Cons append_Nil)
  show ?case
  proof (cases "c = BACKSLASH")
    case True
    with "2.prems"(3) obtain x r u t' where cs: "cs = x # r" "content_escape x = Some u" "content_text r = Some t'" "t = u # t'"
      by (auto split: list.splits option.splits)
    have two: "foldl (jstep sink) (js, ctx) [c, x] = (js, sink [u] ctx)"
      using "2.prems" cs True by (cases js) (auto simp: jstep_def)
    have "raw_ok r" using "2.prems"(2) True cs by simp
    from "2.IH"(1) [OF True cs(1) "2.prems"(1) this cs(3) "2.prems"(4-6)] two cs show ?thesis by (simp add: glue)
  next
    case False
    with "2.prems"(3) obtain t' where cs: "content_text cs = Some t'" "t = c # t'" by auto
    have ok: "raw_ok cs" "c \<noteq> DQUOTE" using "2.prems"(2) False by simp_all
    have "jstep sink (js, ctx) c = (js, sink [c] ctx)" using "2.prems" False ok by (simp add: jstep_def)
    with "2.IH"(2) [OF False "2.prems"(1) ok(1) cs(1) "2.prems"(4-6)] cs show ?thesis by (simp add: glue)
  qed
qed

section \<open>Keys and values\<close>

lemma c_str_raw: "raw_ok s \<Longrightarrow> c_str s = s"
proof (induction s rule: raw_ok.induct)
  case (2 c cs)
  then show ?case by (cases cs) (auto simp: c_str_def split: if_splits)
qed (simp add: c_str_def)

lemma key_run:
  assumes "raw_ok name" and "idle d js" and "1 \<le> d" and "is_obj js ! d" and "next_is_key js"
    and "on_path js ! d \<longleftrightarrow> d = 1 \<or> k = On" and "length (jdoc js) + length (quoted name) \<le> doc_cap js"
  shows "\<exists>js'. foldl (jstep sink) (js, ctx) (quoted name) = (js', ctx) \<and> idle d js' \<and>
    jdoc js' = jdoc js @ quoted name \<and> doc_cap js' = doc_cap js \<and> on_path js' = on_path js \<and> is_obj js' = is_obj js \<and>
    content_found js' = content_found js \<and> next_is_key js' \<and>
    (next_value_on_path js' \<longleftrightarrow> member_kind (d - 1) k name = On) \<and>
    (next_value_is_content js' \<longleftrightarrow> member_kind (d - 1) k name = Content)"
proof -
  let ?j1 = "js\<lparr>jdoc := jdoc js @ [DQUOTE], in_string := True, is_key := True, jkey := [], key_overflow := False\<rparr>"
  have j1: "jstep sink (js, ctx) DQUOTE = (?j1, ctx)"
    using assms by (cases js) (auto simp: jstep_def structural_char_def doc_append_def idle_def quoted_def)
  have "\<exists>ky ov. foldl (jstep sink) (?j1, ctx) name = (?j1\<lparr>jdoc := jdoc ?j1 @ name, jkey := ky, key_overflow := ov\<rparr>, ctx) \<and>
    (is_key ?j1 \<longrightarrow> (if BACKSLASH \<in> set name \<or> length (jkey ?j1 @ name) > JSTREAM_MAX_KEY then ov
      else ov = key_overflow ?j1 \<and> ky = jkey ?j1 @ name)) \<and> (is_key ?j1 \<longrightarrow> key_overflow ?j1 \<longrightarrow> ov)"
    by (rule in_string_run) (use assms in \<open>simp_all add: idle_def quoted_def\<close>)
  then obtain ky ov where run: "foldl (jstep sink) (?j1, ctx) name = (?j1\<lparr>jdoc := jdoc ?j1 @ name, jkey := ky, key_overflow := ov\<rparr>, ctx)"
    and ky: "if BACKSLASH \<in> set name \<or> length name > JSTREAM_MAX_KEY then ov else \<not> ov \<and> ky = name" by auto
  let ?j2 = "?j1\<lparr>jdoc := jdoc ?j1 @ name, jkey := ky, key_overflow := ov\<rparr>"
  let ?j3 = "key_complete (?j2\<lparr>jdoc := jdoc ?j2 @ [DQUOTE], in_string := False\<rparr>)"
  have j3: "jstep sink (?j2, ctx) DQUOTE = (?j3, ctx)"
    using assms by (cases js) (auto simp: jstep_def in_string_char_def doc_append_def idle_def quoted_def)
  have t: "\<forall>i<3. BACKSLASH \<notin> set (kTarget ! i) \<and> length (kTarget ! i) \<le> JSTREAM_MAX_KEY"
    by (auto simp: kTarget_def JSTREAM_MAX_KEY_def nth_Cons' less_Suc_eq numeral_3_eq_3)
  have hit: "(\<not> ov \<and> c_str ky = kTarget ! (d - 1)) \<longleftrightarrow> name = kTarget ! (d - 1)" if "d \<le> 3"
  proof -
    have "d - 1 < 3" using that assms(3) by simp
    then show ?thesis using ky t c_str_raw [OF assms(1)] by (auto split: if_splits)
  qed
  have "foldl (jstep sink) (js, ctx) (quoted name) = (?j3, ctx)"
    by (simp only: quoted_def foldl_append foldl_Cons foldl_Nil append_Cons append_Nil j1 run j3)
  moreover have "idle d ?j3 \<and> jdoc ?j3 = jdoc js @ quoted name \<and> doc_cap ?j3 = doc_cap js \<and> on_path ?j3 = on_path js \<and>
    is_obj ?j3 = is_obj js \<and> content_found ?j3 = content_found js \<and> next_is_key ?j3"
    using assms by (cases js) (auto simp: key_complete_def idle_def quoted_def Let_def)
  moreover have "(next_value_on_path ?j3 \<longleftrightarrow> member_kind (d - 1) k name = On) \<and>
    (next_value_is_content ?j3 \<longleftrightarrow> member_kind (d - 1) k name = Content)"
  proof -
    have "d - 1 < 3 \<longleftrightarrow> d \<le> 3" "d - 1 < 2 \<longleftrightarrow> d < 3" "d - 1 = 0 \<longleftrightarrow> d = 1" using assms(3) by auto
    then show ?thesis using assms(2,3,6) hit unfolding key_complete_def member_kind_def idle_def Let_def
      by (cases "d \<le> 3"; cases "name = kTarget ! (d - 1)"; cases ov; simp)
  qed
  ultimately show ?thesis by blast
qed

definition before_value :: "nat \<Rightarrow> kind \<Rightarrow> Jstream \<Rightarrow> bool" where
  "before_value d k js \<longleftrightarrow> idle d js \<and> (next_value_on_path js \<longleftrightarrow> k = On) \<and> (next_value_is_content js \<longleftrightarrow> k = Content) \<and>
     \<not> (1 \<le> d \<and> is_obj js ! d \<and> next_is_key js)"

definition after_value :: "nat \<Rightarrow> Jstream \<Rightarrow> string \<Rightarrow> bool \<Rightarrow> Jstream \<Rightarrow> bool" where
  "after_value d js s found js' \<longleftrightarrow> idle d js' \<and> jdoc js' = jdoc js @ s \<and> doc_cap js' = doc_cap js \<and>
     take (Suc d) (on_path js') = take (Suc d) (on_path js) \<and> take (Suc d) (is_obj js') = take (Suc d) (is_obj js) \<and>
     content_found js' = (content_found js \<or> found) \<and> \<not> next_value_on_path js' \<and> \<not> next_value_is_content js'"

text \<open>The contents still allowed in a state: at most one, decodable.\<close>

definition contents_ok :: "Jstream \<Rightarrow> string list \<Rightarrow> bool" where
  "contents_ok js cs \<longleftrightarrow> length cs + (if content_found js then 1 else 0) \<le> 1 \<and>
     list_all (\<lambda>s. content_text s \<noteq> None) cs"

definition decoded :: "string list \<Rightarrow> string" where
  "decoded cs = concat (map (\<lambda>s. the (content_text s)) cs)"

lemma decoded_simps [simp]: "decoded [] = []" "decoded (xs @ ys) = decoded xs @ decoded ys"
  by (simp_all add: decoded_def)

lemma string_value:
  assumes "before_value d k js" and "raw_ok s" and "stream_sink sink" and "k \<noteq> Content"
    and "length (jdoc js) + length (quoted s) \<le> doc_cap js"
  shows "\<exists>js'. foldl (jstep sink) (js, ctx) (quoted s) = (js', ctx) \<and> after_value d js (quoted s) False js'"
proof -
  let ?j1 = "js\<lparr>jdoc := jdoc js @ [DQUOTE], in_string := True, is_key := False, jkey := [], key_overflow := False,
    next_value_is_content := False, next_value_on_path := False\<rparr>"
  have j1: "jstep sink (js, ctx) DQUOTE = (?j1, ctx)"
    using assms by (cases js) (auto simp: jstep_def structural_char_def doc_append_def idle_def quoted_def before_value_def)
  have "\<exists>ky ov. foldl (jstep sink) (?j1, ctx) s = (?j1\<lparr>jdoc := jdoc ?j1 @ s, jkey := ky, key_overflow := ov\<rparr>, ctx) \<and>
    (is_key ?j1 \<longrightarrow> (if BACKSLASH \<in> set s \<or> length (jkey ?j1 @ s) > JSTREAM_MAX_KEY then ov
      else ov = key_overflow ?j1 \<and> ky = jkey ?j1 @ s)) \<and> (is_key ?j1 \<longrightarrow> key_overflow ?j1 \<longrightarrow> ov)"
    by (rule in_string_run) (use assms in \<open>simp_all add: idle_def quoted_def before_value_def\<close>)
  then obtain ky ov where run: "foldl (jstep sink) (?j1, ctx) s = (?j1\<lparr>jdoc := jdoc ?j1 @ s, jkey := ky, key_overflow := ov\<rparr>, ctx)"
    by blast
  let ?j2 = "?j1\<lparr>jdoc := jdoc ?j1 @ s, jkey := ky, key_overflow := ov\<rparr>"
  let ?j3 = "?j2\<lparr>jdoc := jdoc ?j2 @ [DQUOTE], in_string := False\<rparr>"
  have j3: "jstep sink (?j2, ctx) DQUOTE = (?j3, ctx)"
    using assms by (cases js) (auto simp: jstep_def in_string_char_def doc_append_def idle_def quoted_def before_value_def)
  have "foldl (jstep sink) (js, ctx) (quoted s) = (?j3, ctx)"
    by (simp only: quoted_def foldl_append foldl_Cons foldl_Nil append_Cons append_Nil j1 run j3)
  moreover have "after_value d js (quoted s) False ?j3"
    using assms by (auto simp: after_value_def before_value_def idle_def quoted_def)
  ultimately show ?thesis by blast
qed

lemma content_value:
  assumes "before_value d Content js" and "raw_ok s" and "stream_sink sink" and "contents_ok js [s]"
    and "length (jdoc js) + length kPlaceholder \<le> doc_cap js"
  shows "\<exists>js'. foldl (jstep sink) (js, ctx) (quoted s) = (js', sink (decoded [s]) ctx) \<and> after_value d js kPlaceholder True js'"
proof -
  obtain t where t: "content_text s = Some t" using assms(4) by (auto simp: contents_ok_def)
  let ?j1 = "js\<lparr>jdoc := jdoc js @ kPlaceholder, next_value_is_content := False, next_value_on_path := False,
    content_found := True, divert := True\<rparr>"
  have j1: "jstep sink (js, ctx) DQUOTE = (?j1, ctx)"
    using assms by (cases js) (auto simp: jstep_def structural_char_def doc_append_def idle_def before_value_def
      contents_ok_def Let_def split: if_splits)
  have run: "foldl (jstep sink) (?j1, ctx) s = (?j1, sink t ctx)"
    using divert_run [OF assms(3) assms(2) t, of ?j1 ctx] assms(1) by (simp add: before_value_def idle_def)
  let ?j3 = "?j1\<lparr>divert := False\<rparr>"
  have j3: "jstep sink (?j1, sink t ctx) DQUOTE = (?j3, sink t ctx)"
    using assms(1) by (simp add: jstep_def before_value_def idle_def)
  have "foldl (jstep sink) (js, ctx) (quoted s) = (?j3, sink (decoded [s]) ctx)"
    by (simp only: quoted_def foldl_append foldl_Cons foldl_Nil append_Cons append_Nil j1 run j3)
      (simp add: decoded_def t)
  moreover have "after_value d js kPlaceholder True ?j3"
    using assms(1) by (auto simp: after_value_def before_value_def idle_def)
  ultimately show ?thesis by blast
qed

abbreviation raw_string :: "kind \<Rightarrow> string \<Rightarrow> string" where
  "raw_string k s \<equiv> quoted s"

abbreviation reduced_string :: "kind \<Rightarrow> string \<Rightarrow> string" where
  "reduced_string k s \<equiv> (if k = Content then kPlaceholder else quoted s)"

text \<open>An opening bracket, a closing one, a comma, a colon.\<close>

lemma open_step:
  assumes "idle d js" and "d < JSTREAM_MAX_DEPTH" and "c = CHR ''{'' \<or> c = CHR ''[''"
    and "length (jdoc js) < doc_cap js" and "d = 0 \<or> (next_value_on_path js \<longleftrightarrow> k = On)"
  shows "\<exists>js'. jstep sink (js, ctx) c = (js', ctx) \<and> after_value d js [c] False (js'\<lparr>jdepth := d\<rparr>) \<and> idle (Suc d) js' \<and>
    (is_obj js' ! Suc d \<longleftrightarrow> c = CHR ''{'') \<and> (on_path js' ! Suc d \<longleftrightarrow> c = CHR ''{'' \<and> (d = 0 \<or> k = On)) \<and>
    (next_is_key js' \<longleftrightarrow> c = CHR ''{'')"
proof -
  let ?o = "if c = CHR ''['' then False else if Suc d = 1 then True else next_value_on_path js"
  let ?js = "js\<lparr>jdepth := Suc d, is_obj := (is_obj js)[Suc d := (c = CHR ''{'')], on_path := (on_path js)[Suc d := ?o],
    next_value_on_path := False, next_value_is_content := False, next_is_key := (c = CHR ''{''), jdoc := jdoc js @ [c]\<rparr>"
  have "jstep sink (js, ctx) c = (?js, ctx)"
    using assms by (cases js) (auto simp: jstep_def structural_char_def doc_append_def idle_def Let_def)
  moreover have "after_value d js [c] False (?js\<lparr>jdepth := d\<rparr>)"
    using assms by (auto simp: after_value_def idle_def)
  moreover have "idle (Suc d) ?js \<and> (is_obj ?js ! Suc d \<longleftrightarrow> c = CHR ''{'') \<and>
    (on_path ?js ! Suc d \<longleftrightarrow> c = CHR ''{'' \<and> (d = 0 \<or> k = On)) \<and> (next_is_key ?js \<longleftrightarrow> c = CHR ''{'')"
    using assms by (auto simp: idle_def JSTREAM_MAX_DEPTH_def)
  ultimately show ?thesis by blast
qed

lemma close_step:
  assumes "after_value (Suc d) js0 s f js" and "c = CHR ''}'' \<or> c = CHR '']''" and "length (jdoc js) < doc_cap js"
  shows "\<exists>js'. jstep sink (js, ctx) c = (js', ctx) \<and> after_value d (js0\<lparr>jdepth := d\<rparr>) (s @ [c]) f js'"
proof -
  let ?js = "js\<lparr>jdepth := d, jdoc := jdoc js @ [c]\<rparr>"
  have "jstep sink (js, ctx) c = (?js, ctx)"
    using assms by (cases js) (auto simp: jstep_def structural_char_def doc_append_def idle_def after_value_def)
  moreover have "take (Suc d) (on_path js) = take (Suc d) (on_path js0)" "take (Suc d) (is_obj js) = take (Suc d) (is_obj js0)"
    using assms(1) unfolding after_value_def by (metis min.absorb1 lessI less_imp_le take_take)+
  then have "after_value d (js0\<lparr>jdepth := d\<rparr>) (s @ [c]) f ?js"
    using assms(1) by (auto simp: after_value_def idle_def)
  ultimately show ?thesis by blast
qed

lemma colon_step:
  assumes "idle d js" and "length (jdoc js) < doc_cap js"
  shows "jstep sink (js, ctx) (CHR '':'') = (js\<lparr>next_is_key := False, jdoc := jdoc js @ '':''\<rparr>, ctx)"
  using assms by (cases js) (auto simp: jstep_def structural_char_def doc_append_def idle_def)

lemma comma_step:
  assumes "idle d js" and "1 \<le> d" and "length (jdoc js) < doc_cap js"
  shows "jstep sink (js, ctx) (CHR '','') = (js\<lparr>next_is_key := is_obj js ! d, jdoc := jdoc js @ '',''\<rparr>, ctx)"
  using assms by (cases js) (auto simp: jstep_def structural_char_def doc_append_def idle_def)

lemma after_nth:
  "after_value d js s f js' \<Longrightarrow> is_obj js' ! d = is_obj js ! d \<and> on_path js' ! d = on_path js ! d"
  unfolding after_value_def by (metis lessI nth_take)

lemma after_trans:
  assumes "after_value d js s f js1" and "after_value d js1 t g js2"
  shows "after_value d js (s @ t) (f \<or> g) js2"
  using assms by (auto simp: after_value_def)

lemma contents_ok_append:
  "contents_ok js (xs @ ys) \<Longrightarrow> after_value d js s (xs \<noteq> []) js' \<Longrightarrow> contents_ok js xs \<and> contents_ok js' ys"
  by (cases xs) (auto simp: contents_ok_def after_value_def split: if_splits)

text \<open>What a scan of a value's text does, as one predicate: the reduced text is appended and the contents sunk.\<close>

definition scans :: "(string \<Rightarrow> 'c \<Rightarrow> 'c) \<Rightarrow> nat \<Rightarrow> Jstream \<Rightarrow> 'c \<Rightarrow> string \<Rightarrow> string \<Rightarrow> string list \<Rightarrow> Jstream \<Rightarrow> bool" where
  "scans sink d js ctx raw out cs js' \<longleftrightarrow> after_value d js out (cs \<noteq> []) js' \<and>
     foldl (jstep sink) (js, ctx) raw = (js', sink (decoded cs) ctx)"

definition scannable :: "Jstream \<Rightarrow> string \<Rightarrow> string list \<Rightarrow> bool" where
  "scannable js out cs \<longleftrightarrow> length (jdoc js) + length out \<le> doc_cap js \<and> contents_ok js cs"

lemma scans_append:
  assumes "stream_sink sink" and "scans sink d js ctx r1 o1 c1 js1" and "scans sink d js1 (sink (decoded c1) ctx) r2 o2 c2 js2"
  shows "scans sink d js ctx (r1 @ r2) (o1 @ o2) (c1 @ c2) js2"
proof -
  have "after_value d js (o1 @ o2) (c1 @ c2 \<noteq> []) js2"
    using after_trans [of d js o1 "c1 \<noteq> []" js1 o2 "c2 \<noteq> []" js2] assms(2,3) by (simp add: scans_def)
  moreover have "sink (decoded (c1 @ c2)) ctx = sink (decoded c2) (sink (decoded c1) ctx)"
    using assms(1) unfolding stream_sink_def decoded_simps by blast
  ultimately show ?thesis using assms(2,3) by (simp add: scans_def)
qed

lemma scannable_append:
  assumes "scannable js (o1 @ o2) (c1 @ c2)"
  shows "scannable js o1 c1" and "after_value d js o1 (c1 \<noteq> []) js1 \<Longrightarrow> scannable js1 o2 c2"
  using assms contents_ok_append [of js c1 c2 d o1 js1]
  by (auto simp: scannable_def after_value_def contents_ok_def)

lemma scans_spaces:
  assumes "stream_sink sink" and "list_all space_char w" and "idle d js" and "scannable js w []"
    and "\<not> next_value_on_path js" and "\<not> next_value_is_content js"
  shows "scans sink d js ctx w w [] (js\<lparr>jdoc := jdoc js @ w\<rparr>)"
  using assms spaces_run [OF assms(2,3)]
  by (auto simp: scans_def scannable_def after_value_def idle_def stream_sink_def)

lemma scans_lead:
  assumes "list_all space_char a" and "idle d js" and "length (jdoc js) + length a \<le> doc_cap js"
    and "scans sink d (js\<lparr>jdoc := jdoc js @ a\<rparr>) ctx r o' c js'"
  shows "scans sink d js ctx (a @ r) (a @ o') c js'"
  using assms spaces_run [OF assms(1-3), of sink ctx] by (auto simp: scans_def after_value_def)

lemma scans_bracket:
  assumes "jstep sink (js, ctx) b = (js1, ctx)" and "after_value d js [b] False (js1\<lparr>jdepth := d\<rparr>)"
    and "scans sink (Suc d) js1 ctx r o' c js2" and "e = CHR ''}'' \<or> e = CHR '']''" and "length (jdoc js2) < doc_cap js2"
  shows "\<exists>js3. scans sink d js ctx (b # r @ [e]) (b # o' @ [e]) c js3"
proof -
  have m: "after_value (Suc d) js1 o' (c \<noteq> []) js2" "foldl (jstep sink) (js1, ctx) r = (js2, sink (decoded c) ctx)"
    using assms(3) by (simp_all add: scans_def)
  obtain js3 where c: "jstep sink (js2, sink (decoded c) ctx) e = (js3, sink (decoded c) ctx)"
    "after_value d (js1\<lparr>jdepth := d\<rparr>) (o' @ [e]) (c \<noteq> []) js3"
    using close_step [OF m(1) assms(4,5), of sink "sink (decoded c) ctx"] by auto
  from after_trans [OF assms(2) c(2)] have "after_value d js (b # o' @ [e]) (c \<noteq> []) js3" by simp
  moreover have "foldl (jstep sink) (js, ctx) (b # r @ [e]) = (js3, sink (decoded c) ctx)"
    by (simp add: assms(1) m(2) c(1))
  ultimately show ?thesis unfolding scans_def by blast
qed

lemma scan_pad:
  assumes S: "stream_sink sink" and pre: "before_value d k js" and w: "list_all space_char a" "list_all space_char b"
    and sc: "scannable js (a @ o' @ b) c"
    and ih: "\<And>js. before_value d k js \<Longrightarrow> scannable js o' c \<Longrightarrow> \<exists>js'. scans sink d js ctx r o' c js'"
  shows "\<exists>js'. scans sink d js ctx (a @ r @ b) (a @ o' @ b) c js'"
proof -
  let ?j = "js\<lparr>jdoc := jdoc js @ a\<rparr>"
  have "before_value d k ?j" "scannable ?j o' c"
    using pre sc by (auto simp: before_value_def idle_def scannable_def contents_ok_def)
  then obtain js1 where s: "scans sink d ?j ctx r o' c js1" using ih by blast
  have "scannable js1 b []" using s sc by (auto simp: scans_def after_value_def scannable_def contents_ok_def split: if_splits)
  then have "scans sink d js1 (sink (decoded c) ctx) b b [] (js1\<lparr>jdoc := jdoc js1 @ b\<rparr>)"
    using s by (intro scans_spaces S w) (auto simp: scans_def after_value_def)
  from scans_append [OF S s this] have "scans sink d ?j ctx (r @ b) (o' @ b) c (js1\<lparr>jdoc := jdoc js1 @ b\<rparr>)"
    by simp
  from scans_lead [OF w(1) _ _ this] show ?thesis using pre sc by (auto simp: before_value_def scannable_def)
qed

text \<open>Array and object bodies, with the space before the closing bracket.\<close>

lemma scan_bracket:
  assumes S: "stream_sink sink" and pre: "before_value d k js" and d: "d < 15" and w: "list_all space_char w"
    and sc: "scannable js (b # o' @ w @ [e]) c" and b: "b = CHR ''{'' \<or> b = CHR ''[''" and e: "e = CHR ''}'' \<or> e = CHR '']''"
    and ih: "\<And>js. idle (Suc d) js \<Longrightarrow> (is_obj js ! Suc d \<longleftrightarrow> b = CHR ''{'') \<Longrightarrow>
      (on_path js ! Suc d \<longleftrightarrow> b = CHR ''{'' \<and> (d = 0 \<or> k = On)) \<Longrightarrow> (next_is_key js \<longleftrightarrow> b = CHR ''{'') \<Longrightarrow>
      \<not> next_value_on_path js \<Longrightarrow> \<not> next_value_is_content js \<Longrightarrow> scannable js o' c \<Longrightarrow>
      \<exists>js'. scans sink (Suc d) js ctx r o' c js'"
  shows "\<exists>js'. scans sink d js ctx (b # r @ w @ [e]) (b # o' @ w @ [e]) c js'"
proof -
  have "idle d js" "length (jdoc js) < doc_cap js" "d = 0 \<or> next_value_on_path js = (k = On)"
    using pre sc by (auto simp: before_value_def scannable_def)
  from open_step [OF this(1) _ b this(2,3), of sink ctx] d obtain js1 where
    o: "jstep sink (js, ctx) b = (js1, ctx)" "after_value d js [b] False (js1\<lparr>jdepth := d\<rparr>)" "idle (Suc d) js1"
      "is_obj js1 ! Suc d \<longleftrightarrow> b = CHR ''{''" "on_path js1 ! Suc d \<longleftrightarrow> b = CHR ''{'' \<and> (d = 0 \<or> k = On)"
      "next_is_key js1 \<longleftrightarrow> b = CHR ''{''"
    by (auto simp: JSTREAM_MAX_DEPTH_def)
  have fl: "\<not> next_value_on_path js1" "\<not> next_value_is_content js1" and "scannable js1 o' c"
    using o(2) sc by (auto simp: after_value_def scannable_def contents_ok_def split: if_splits)
  from ih [OF o(3-6) this] obtain js2 where s: "scans sink (Suc d) js1 ctx r o' c js2" by blast
  have room: "length (jdoc js2) + length w < doc_cap js2"
    using s o(2) sc by (auto simp: scans_def after_value_def scannable_def)
  have "scannable js2 w []"
    using s o(2) sc room by (auto simp: scans_def after_value_def scannable_def contents_ok_def split: if_splits)
  then have "scans sink (Suc d) js2 (sink (decoded c) ctx) w w [] (js2\<lparr>jdoc := jdoc js2 @ w\<rparr>)"
    using s by (intro scans_spaces S w) (auto simp: scans_def after_value_def)
  from scans_append [OF S s this] have "scans sink (Suc d) js1 ctx (r @ w) (o' @ w) c (js2\<lparr>jdoc := jdoc js2 @ w\<rparr>)"
    by simp
  from scans_bracket [OF o(1,2) this e] room show ?thesis by simp
qed

lemma scan_comma:
  assumes S: "stream_sink sink" and "after_value d js0 o0 f js" and "1 \<le> d" and sc: "scannable js (CHR '','' # o') c"
    and ih: "\<And>js1. after_value d js0 (o0 @ '','') f js1 \<Longrightarrow> next_is_key js1 = is_obj js ! d \<Longrightarrow> scannable js1 o' c \<Longrightarrow>
      \<exists>js'. scans sink d js1 ctx r o' c js'"
  shows "\<exists>js'. scans sink d js ctx (CHR '','' # r) (CHR '','' # o') c js'"
proof -
  let ?j = "js\<lparr>next_is_key := is_obj js ! d, jdoc := jdoc js @ '',''\<rparr>"
  have st: "jstep sink (js, ctx) (CHR '','') = (?j, ctx)"
    using assms(2-4) by (intro comma_step) (auto simp: after_value_def scannable_def)
  have "after_value d js0 (o0 @ '','') f ?j" using assms(2) by (auto simp: after_value_def idle_def)
  moreover have "scannable ?j o' c" using sc by (auto simp: scannable_def contents_ok_def)
  ultimately obtain js' where s: "scans sink d ?j ctx r o' c js'" using ih by force
  have "after_value d js ('','' @ o') (c \<noteq> []) js'"
    using s assms(2) by (auto simp: scans_def after_value_def)
  then show ?thesis using s st by (auto simp: scans_def intro!: exI [of _ js'])
qed

text \<open>A member: space, key, space, colon, value.\<close>

lemma scan_member:
  assumes S: "stream_sink sink" and js: "idle (Suc d) js" "is_obj js ! Suc d" "on_path js ! Suc d \<longleftrightarrow> d = 0 \<or> k = On"
      "next_is_key js" "\<not> next_value_on_path js" "\<not> next_value_is_content js"
    and w: "list_all space_char a" "list_all space_char b" and name: "raw_ok name"
    and sc: "scannable js (a @ quoted name @ b @ CHR '':'' # o') c"
    and ih: "\<And>js. before_value (Suc d) (member_kind d k name) js \<Longrightarrow> scannable js o' c \<Longrightarrow>
      \<exists>js'. scans sink (Suc d) js ctx r o' c js'"
  shows "\<exists>js'. scans sink (Suc d) js ctx (a @ quoted name @ b @ CHR '':'' # r) (a @ quoted name @ b @ CHR '':'' # o') c js'"
proof -
  let ?j1 = "js\<lparr>jdoc := jdoc js @ a\<rparr>"
  have len: "length (jdoc js) + length a + length (quoted name) + length b + 1 + length o' \<le> doc_cap js"
    using sc by (simp add: scannable_def)
  from key_run [OF name, of "Suc d" ?j1 k sink ctx] js len obtain js2 where
    k: "foldl (jstep sink) (?j1, ctx) (quoted name) = (js2, ctx)" "idle (Suc d) js2" "jdoc js2 = jdoc js @ a @ quoted name"
      "doc_cap js2 = doc_cap js" "on_path js2 = on_path js" "is_obj js2 = is_obj js" "content_found js2 = content_found js"
      "next_value_on_path js2 \<longleftrightarrow> member_kind d k name = On" "next_value_is_content js2 \<longleftrightarrow> member_kind d k name = Content"
    by (auto simp: idle_def)
  let ?j3 = "js2\<lparr>jdoc := jdoc js2 @ b\<rparr>"
  let ?j4 = "?j3\<lparr>next_is_key := False, jdoc := jdoc ?j3 @ '':''\<rparr>"
  have p1: "foldl (jstep sink) (js, ctx) a = (?j1, ctx)" by (rule spaces_run [OF w(1) js(1)]) (use len in simp)
  have p3: "foldl (jstep sink) (js2, ctx) b = (?j3, ctx)" by (rule spaces_run [OF w(2) k(2)]) (use len k in simp)
  have p4: "jstep sink (?j3, ctx) (CHR '':'') = (?j4, ctx)"
    by (rule colon_step [where d = "Suc d"]) (use len k in \<open>simp_all add: idle_def\<close>)
  have "before_value (Suc d) (member_kind d k name) ?j4" "scannable ?j4 o' c"
    using k len sc by (simp_all add: before_value_def idle_def scannable_def contents_ok_def)
  from ih [OF this] obtain js' where s: "scans sink (Suc d) ?j4 ctx r o' c js'" by blast
  have "foldl (jstep sink) (js, ctx) (a @ quoted name @ b @ CHR '':'' # r) = (js', sink (decoded c) ctx)"
    using s by (simp add: p1 k(1) p3 p4 scans_def)
  moreover have "after_value (Suc d) js (a @ quoted name @ b @ CHR '':'' # o') (c \<noteq> []) js'"
    using s k by (simp add: scans_def after_value_def)
  ultimately show ?thesis unfolding scans_def by blast
qed

text \<open>Scanning any well formed value, by induction on its rendering.\<close>

lemma scan_value:
  assumes S: "stream_sink sink"
  shows "before_value d k js \<Longrightarrow> jv_ok v \<Longrightarrow> d + jheight v \<le> 15 \<Longrightarrow>
      scannable js (render reduced_string d k v) (contents d k v) \<Longrightarrow>
      \<exists>js'. scans sink d js ctx (render raw_string d k v) (render reduced_string d k v) (contents d k v) js'"
    and "idle (Suc d) js \<Longrightarrow> \<not> is_obj js ! Suc d \<Longrightarrow> \<not> next_value_on_path js \<Longrightarrow> \<not> next_value_is_content js \<Longrightarrow>
      list_all jv_ok vs \<Longrightarrow> Suc d + foldr max (map jheight vs) 0 \<le> 15 \<Longrightarrow>
      scannable js (render_elems reduced_string d vs) (concat (map (contents (d + 1) Off) vs)) \<Longrightarrow>
      \<exists>js'. scans sink (Suc d) js ctx (render_elems raw_string d vs) (render_elems reduced_string d vs)
        (concat (map (contents (d + 1) Off) vs)) js'"
    and "idle (Suc d) js \<Longrightarrow> is_obj js ! Suc d \<Longrightarrow> (on_path js ! Suc d \<longleftrightarrow> d = 0 \<or> k = On) \<Longrightarrow> next_is_key js \<Longrightarrow>
      \<not> next_value_on_path js \<Longrightarrow> \<not> next_value_is_content js \<Longrightarrow>
      list_all (\<lambda>(a, name, b, v). list_all space_char a \<and> raw_ok name \<and> list_all space_char b \<and> jv_ok v) ms \<Longrightarrow>
      Suc d + foldr max (map (\<lambda>(a, name, b, v). jheight v) ms) 0 \<le> 15 \<Longrightarrow>
      scannable js (render_members reduced_string d k ms)
        (concat (map (\<lambda>(a, name, b, v). contents (d + 1) (member_kind d k name) v) ms)) \<Longrightarrow>
      \<exists>js'. scans sink (Suc d) js ctx (render_members raw_string d k ms) (render_members reduced_string d k ms)
        (concat (map (\<lambda>(a, name, b, v). contents (d + 1) (member_kind d k name) v) ms)) js'"
proof (induction raw_string d k v and raw_string d vs and raw_string d k ms arbitrary: js ctx and js ctx and js ctx
    rule: render_render_elems_render_members.induct)
  case (1 d k s)
  have st: "foldl (jstep sink) (js, ctx) s =
      (js\<lparr>jdoc := jdoc js @ s, next_value_on_path := False, next_value_is_content := False\<rparr>, ctx)"
    using "1.prems" by (intro prim_run) (auto simp: before_value_def scannable_def)
  show ?case using "1.prems" S
    by (intro exI [of _ "js\<lparr>jdoc := jdoc js @ s, next_value_on_path := False, next_value_is_content := False\<rparr>"])
      (auto simp: scans_def st after_value_def before_value_def idle_def stream_sink_def)
next
  case (2 d k s)
  show ?case
  proof (cases "k = Content")
    case True
    with content_value [of d js s sink ctx] "2.prems" S show ?thesis by (auto simp: scans_def scannable_def)
  next
    case False
    with string_value [of d k js s sink ctx] "2.prems" S show ?thesis
      by (auto simp: scans_def scannable_def stream_sink_def)
  qed
next
  case (3 d k vs w)
  have "\<exists>js'. scans sink d js ctx (CHR ''['' # render_elems raw_string d vs @ w @ [CHR '']''])
    (CHR ''['' # render_elems reduced_string d vs @ w @ [CHR '']'']) (concat (map (contents (d + 1) Off) vs)) js'"
    using "3.prems" by (intro scan_bracket [OF S "3.prems"(1)] "3.hyps") auto
  then show ?case by simp
next
  case (4 d k ms w)
  have "\<exists>js'. scans sink d js ctx (CHR ''{'' # render_members raw_string d k ms @ w @ [CHR ''}''])
    (CHR ''{'' # render_members reduced_string d k ms @ w @ [CHR ''}''])
    (concat (map (\<lambda>(a, name, b, v). contents (d + 1) (member_kind d k name) v) ms)) js'"
    using "4.prems" by (intro scan_bracket [OF S "4.prems"(1)] "4.hyps") auto
  then show ?case by simp
next
  case (5 d k a v b)
  have "\<exists>js'. scans sink d js ctx (a @ render raw_string d k v @ b) (a @ render reduced_string d k v @ b) (contents d k v) js'"
    using "5.prems" by (intro scan_pad [OF S "5.prems"(1)] "5.hyps") auto
  then show ?case by simp
next
  case (6 d)
  then show ?case using S
    by (intro exI [of _ js]) (auto simp: scans_def after_value_def stream_sink_def)
next
  case (7 d v vs)
  let ?o = "render reduced_string (d + 1) Off v" and ?r = "render raw_string (d + 1) Off v" and ?c = "contents (d + 1) Off v"
  let ?os = "render_elems reduced_string d vs" and ?rs = "render_elems raw_string d vs" and ?cs = "concat (map (contents (d + 1) Off) vs)"
  have pre: "before_value (d + 1) Off js" using "7.prems" by (simp add: before_value_def)
  have h: "d + 1 + jheight v \<le> 15" "Suc d + foldr max (map jheight vs) 0 \<le> 15" using "7.prems"(6) by simp_all
  have sc: "scannable js (?o @ (if vs = [] then [] else CHR '','' # ?os)) (?c @ ?cs)" using "7.prems"(7) by simp
  obtain js1 where s: "scans sink (d + 1) js ctx ?r ?o ?c js1"
    using "7.hyps"(1) [OF pre _ h(1) scannable_append(1) [OF sc], of ctx] "7.prems"(5) by auto
  then have a: "after_value (Suc d) js ?o (?c \<noteq> []) js1" by (simp add: scans_def)
  show ?case
  proof (cases "vs = []")
    case True
    with s show ?thesis by auto
  next
    case False
    have "\<exists>js2. scans sink (Suc d) js1 (sink (decoded ?c) ctx) (CHR '','' # ?rs) (CHR '','' # ?os) ?cs js2"
    proof (rule scan_comma [OF S a])
      show "scannable js1 (CHR '','' # ?os) ?cs" using scannable_append(2) [OF sc a] False by simp
      fix js2 assume b: "after_value (Suc d) js (?o @ '','') (?c \<noteq> []) js2" "scannable js2 ?os ?cs"
      then show "\<exists>js'. scans sink (Suc d) js2 (sink (decoded ?c) ctx) ?rs ?os ?cs js'"
        using "7.hyps"(2) [OF False, of js2 "sink (decoded ?c) ctx"] "7.prems"(2,5) h(2) after_nth [OF b(1)]
        by (auto simp: after_value_def)
    qed simp
    then obtain js2 where t: "scans sink (d + 1) js1 (sink (decoded ?c) ctx) (CHR '','' # ?rs) (CHR '','' # ?os) ?cs js2" by auto
    from scans_append [OF S s t] False show ?thesis by auto
  qed
next
  case (8 d k)
  then show ?case using S
    by (intro exI [of _ js]) (auto simp: scans_def after_value_def stream_sink_def)
next
  case (9 d k a name b v ms)
  let ?k = "member_kind d k name"
  let ?o = "render reduced_string (d + 1) ?k v" and ?r = "render raw_string (d + 1) ?k v" and ?c = "contents (d + 1) ?k v"
  let ?os = "render_members reduced_string d k ms" and ?rs = "render_members raw_string d k ms"
    and ?cs = "concat (map (\<lambda>(a, name, b, v). contents (d + 1) (member_kind d k name) v) ms)"
  let ?l = "\<lambda>x. a @ quoted name @ b @ CHR '':'' # x"
  have h: "d + 1 + jheight v \<le> 15" "Suc d + foldr max (map (\<lambda>(a, name, b, v). jheight v) ms) 0 \<le> 15"
    using "9.prems"(8) by simp_all
  have sc: "scannable js (?l ?o @ (if ms = [] then [] else CHR '','' # ?os)) (?c @ ?cs)" using "9.prems"(9) by simp
  have "\<exists>js1. scans sink (Suc d) js ctx (?l ?r) (?l ?o) ?c js1"
  proof (rule scan_member [OF S "9.prems"(1-6) _ _ _ scannable_append(1) [OF sc]])
    fix js1 assume "before_value (Suc d) ?k js1" "scannable js1 ?o ?c"
    then show "\<exists>js'. scans sink (Suc d) js1 ctx ?r ?o ?c js'"
      using "9.hyps"(1) [of js1 ctx] "9.prems"(7) h(1) by auto
  qed (use "9.prems"(7) in auto)
  then obtain js1 where s: "scans sink (Suc d) js ctx (?l ?r) (?l ?o) ?c js1" by blast
  then have a: "after_value (Suc d) js (?l ?o) (?c \<noteq> []) js1" by (simp add: scans_def)
  show ?case
  proof (cases "ms = []")
    case True
    with s show ?thesis by auto
  next
    case False
    have "\<exists>js2. scans sink (Suc d) js1 (sink (decoded ?c) ctx) (CHR '','' # ?rs) (CHR '','' # ?os) ?cs js2"
    proof (rule scan_comma [OF S a])
      show "scannable js1 (CHR '','' # ?os) ?cs" using scannable_append(2) [OF sc a] False by simp
      fix js2 assume b: "after_value (Suc d) js (?l ?o @ '','') (?c \<noteq> []) js2" "next_is_key js2 = is_obj js1 ! Suc d"
        "scannable js2 ?os ?cs"
      then show "\<exists>js'. scans sink (Suc d) js2 (sink (decoded ?c) ctx) ?rs ?os ?cs js'"
        using "9.hyps"(2) [OF False, of js2 "sink (decoded ?c) ctx"] "9.prems"(2,3,7) h(2) after_nth [OF a] after_nth [OF b(1)]
        by (auto simp: after_value_def)
    qed simp
    then obtain js2 where t: "scans sink (Suc d) js1 (sink (decoded ?c) ctx) (CHR '','' # ?rs) (CHR '','' # ?os) ?cs js2" by auto
    from scans_append [OF S s t] False show ?thesis by auto
  qed
qed

section \<open>Bounds\<close>

text \<open>The buffers the scanner writes: document, key and the two stacks of depth flags.\<close>

definition jstream_bounded :: "nat \<Rightarrow> Jstream \<Rightarrow> bool" where
  "jstream_bounded cap js \<longleftrightarrow> doc_cap js = cap \<and> length (jdoc js) \<le> cap \<and> jdepth js \<le> JSTREAM_MAX_DEPTH \<and>
     length (jkey js) \<le> JSTREAM_MAX_KEY \<and> length (on_path js) = 16 \<and> length (is_obj js) = 16"

lemma doc_append_bounded: "jstream_bounded cap js \<Longrightarrow> jstream_bounded cap (doc_append s js)"
  by (auto simp: jstream_bounded_def doc_append_def)

lemma key_complete_bounded: "jstream_bounded cap js \<Longrightarrow> jstream_bounded cap (key_complete js)"
  by (simp add: jstream_bounded_def key_complete_def Let_def)

lemma flags_bounded [simp]:
  "jstream_bounded cap (js\<lparr>esc := b\<rparr>) = jstream_bounded cap js"
  "jstream_bounded cap (js\<lparr>divert := b\<rparr>) = jstream_bounded cap js"
  "jstream_bounded cap (js\<lparr>in_string := b\<rparr>) = jstream_bounded cap js"
  "jstream_bounded cap (js\<lparr>key_overflow := b\<rparr>) = jstream_bounded cap js"
  "jstream_bounded cap (js\<lparr>jerr := e\<rparr>) = jstream_bounded cap js"
  "jstream_bounded cap (js\<lparr>is_key := b\<rparr>) = jstream_bounded cap js"
  "jstream_bounded cap (js\<lparr>next_is_key := b\<rparr>) = jstream_bounded cap js"
  "jstream_bounded cap (js\<lparr>next_value_on_path := b\<rparr>) = jstream_bounded cap js"
  "jstream_bounded cap (js\<lparr>next_value_is_content := b\<rparr>) = jstream_bounded cap js"
  "jstream_bounded cap (js\<lparr>content_found := b\<rparr>) = jstream_bounded cap js"
  by (simp_all add: jstream_bounded_def)

lemma in_string_char_bounded:
  assumes "jstream_bounded cap js"
  shows "jstream_bounded cap (in_string_char c js)"
proof -
  have d: "jstream_bounded cap (doc_append s js)" for s by (rule doc_append_bounded [OF assms])
  then have "length (jkey (doc_append s js)) < JSTREAM_MAX_KEY \<Longrightarrow>
    jstream_bounded cap ((doc_append s js)\<lparr>jkey := jkey (doc_append s js) @ [c]\<rparr>)" for s
    by (simp add: jstream_bounded_def)
  with d show ?thesis unfolding in_string_char_def Let_def by (simp add: key_complete_bounded)
qed

lemma structural_char_bounded:
  assumes "jstream_bounded cap js"
  shows "jstream_bounded cap (structural_char c js)"
proof -
  have "jstream_bounded cap (js\<lparr>in_string := True, is_key := b, jkey := []\<rparr>)"
    "jstream_bounded cap (js\<lparr>jdepth := jdepth js - 1\<rparr>)" for b
    using assms by (auto simp: jstream_bounded_def)
  moreover have "jdepth js < JSTREAM_MAX_DEPTH \<Longrightarrow>
    jstream_bounded cap (js\<lparr>jdepth := Suc (jdepth js), is_obj := (is_obj js)[Suc (jdepth js) := b],
      on_path := (on_path js)[Suc (jdepth js) := p]\<rparr>)" for b p
    using assms by (auto simp: jstream_bounded_def)
  ultimately show ?thesis using assms unfolding structural_char_def Let_def
    by (simp add: doc_append_bounded)
qed

lemma feed_loop_bounded: "jstream_bounded cap (fst s) \<Longrightarrow> jstream_bounded cap (fst (feed_loop sink s cs))"
proof (induction sink s cs rule: feed_loop.induct)
  case (2 sink js ctx c cs)
  have "jstream_bounded cap (in_string_char c js)" "jstream_bounded cap (structural_char c js)"
    using "2.prems" in_string_char_bounded structural_char_bounded by (simp_all del: not_None_eq)
  then show ?case using "2.IH" "2.prems" by (simp split: option.splits)
qed simp

lemma jstream_init_bounded: "jstream_bounded cap (jstream_init cap)"
  by (simp add: jstream_bounded_def jstream_init_def)

text \<open>
  C29: whatever bytes arrive, in whatever pieces and with whatever sink, the scanner stays inside its buffers:
  the document never exceeds its capacity, the nesting never exceeds the depth of the flag arrays, the key never exceeds its buffer.
\<close>

theorem jstream_stays_in_its_buffers:
  "jstream_bounded cap (fst (foldl (jstream_feed sink) (jstream_init cap, ctx) chunks))"
proof -
  have "jstream_bounded cap (fst s) \<Longrightarrow> jstream_bounded cap (fst (foldl (jstream_feed sink) s chunks))" for s
    by (induction chunks arbitrary: s) (simp_all add: jstream_feed_def feed_loop_bounded)
  then show ?thesis by (simp add: jstream_init_bounded)
qed

section \<open>The content of a request\<close>

lemma scanned_content:
  assumes "jv_ok v" and "jheight v \<le> JSTREAM_MAX_DEPTH" and "length (contents 0 Off v) \<le> 1"
    and "\<forall>s\<in>set (contents 0 Off v). content_text s \<noteq> None"
    and "length (jreduced 0 Off v) \<le> cap" and "concat chunks = jtext v"
  shows "let (js, received) = foldl (jstream_feed (\<lambda>s acc. acc @ s)) (jstream_init cap, []) chunks
    in jdoc js = jreduced 0 Off v \<and> received = decoded (contents 0 Off v) \<and> jstream_finish js = Inr (contents 0 Off v \<noteq> [])"
proof -
  let ?k = "\<lambda>s acc. acc @ s :: string"
  have S: "stream_sink ?k" by (simp add: stream_sink_def)
  have pre: "before_value 0 Off (jstream_init cap)" by (simp add: before_value_def idle_def jstream_init_def)
  have sc: "scannable (jstream_init cap) (render reduced_string 0 Off v) (contents 0 Off v)"
    using assms(3-5) by (auto simp: scannable_def jstream_init_def contents_ok_def list_all_iff jreduced_def)
  obtain js where s: "scans ?k 0 (jstream_init cap) [] (render raw_string 0 Off v)
      (render reduced_string 0 Off v) (contents 0 Off v) js"
    using scan_value(1) [OF S pre assms(1) _ sc, of "[]"] assms(2) by (auto simp: JSTREAM_MAX_DEPTH_def)
  have "foldl (jstream_feed ?k) (jstream_init cap, []) chunks = jstream_feed ?k (jstream_init cap, []) (concat chunks)"
    by (rule jstream_collect.feed_chunks)
  also have "\<dots> = (js, decoded (contents 0 Off v))"
    using s assms(6) by (simp add: jstream_feed_def feed_loop_steps [OF S] jtext_def scans_def)
  finally have r: "foldl (jstream_feed ?k) (jstream_init cap, []) chunks = (js, decoded (contents 0 Off v))" .
  have f: "jerr js = None" "\<not> in_string js" "\<not> divert js" "jdepth js = 0"
    "content_found js = (contents 0 Off v \<noteq> [])" "jdoc js = jreduced 0 Off v"
    using s by (simp_all add: scans_def after_value_def idle_def jstream_init_def jreduced_def)
  show ?thesis unfolding r jstream_finish_def by (simp add: f)
qed

text \<open>
  C16: fed a JSON text with at most one string at \<open>params.arguments.content\<close>, nested at most 15 deep, in pieces
  cut anywhere, the scanner leaves the text with that string replaced by the placeholder, hands the sink exactly the
  string's decoded characters in order, and reports whether there was one.
\<close>

theorem jstream_diverts_the_content:
  assumes "jv_ok v" and "jheight v \<le> JSTREAM_MAX_DEPTH" and "length (contents 0 Off v) \<le> 1"
    and "\<forall>s\<in>set (contents 0 Off v). content_text s \<noteq> None"
    and "length (jreduced 0 Off v) \<le> cap" and "concat chunks = jtext v"
  shows "let (js, received) = foldl (jstream_feed (\<lambda>s acc. acc @ s)) (jstream_init cap, []) chunks
    in jdoc js = jreduced 0 Off v \<and> received = decoded (contents 0 Off v) \<and> jstream_finish js = Inr (contents 0 Off v \<noteq> [])"
  using assms by (rule scanned_content)

definition demo_request :: jv where
  "demo_request = JObj [([], ''method'', [], JStr ''tools/call''),
     ('' '', ''params'', [], JPad '' '' (JObj [([], ''content'', [], JStr ''no''), ([], ''arguments'', [],
        JObj [([], ''path'', [], JStr ''/a''), ([], ''content'', [], JStr [CHR ''Q'', BACKSLASH, CHR ''/'', CHR ''=''])] [])] []) [])] []"

theorem jstream_diverts_the_content_witness:
  "let (js, received) = foldl (jstream_feed (\<lambda>s acc. acc @ s)) (jstream_init 200, []) [take 20 (jtext demo_request), drop 20 (jtext demo_request)]
    in jdoc js = jreduced 0 Off demo_request \<and> received = decoded (contents 0 Off demo_request) \<and>
      jstream_finish js = Inr (contents 0 Off demo_request \<noteq> [])"
proof (rule jstream_diverts_the_content)
  show "jv_ok demo_request" by (simp add: demo_request_def space_char_def)
  show "jheight demo_request \<le> JSTREAM_MAX_DEPTH" by (simp add: demo_request_def JSTREAM_MAX_DEPTH_def)
  show "length (contents 0 Off demo_request) \<le> 1" "\<forall>s\<in>set (contents 0 Off demo_request). content_text s \<noteq> None"
    "length (jreduced 0 Off demo_request) \<le> 200"
    by (simp_all add: demo_request_def member_kind_def kTarget_def content_escape_def jreduced_def quoted_def kPlaceholder_def)
qed simp

lemma demo_request_received: "decoded (contents 0 Off demo_request) = ''Q/=''"
  by (simp add: demo_request_def member_kind_def kTarget_def content_escape_def decoded_def)

end
