(* ===== verification/Sd_Card.thy ===== *)
theory Sd_Card
  imports Http "HOL-Library.AList" "HOL-Library.Sublist"
begin

text \<open>
  The SD card as the C library presents it: the calls of \<open>stdio\<close> and of the file system the features
  use (\<open>stat\<close>, \<open>mkdir\<close>, \<open>fopen\<close>, \<open>fread\<close>, \<open>fwrite\<close>, \<open>fclose\<close>, \<open>remove\<close>, \<open>rmdir\<close>, \<open>rename\<close>, \<open>readdir\<close>).
  A card is the list of its nodes in directory order, each under the components of its path, and a
  schedule of faults: every call that touches the medium takes the next verdict (none left means that
  the medium works). The record is extended by the components that keep more state.
\<close>

section \<open>Paths\<close>

definition FILES_ROOT :: string where
  "FILES_ROOT = ''sdmc:''"

text \<open>The components of a path: empty ones and \<open>.\<close> are skipped, \<open>..\<close> goes up.\<close>

fun walk :: "string list \<Rightarrow> string list \<Rightarrow> string list" where
  "walk up [] = rev up"
| "walk up (s # ss) =
     (if s = [] \<or> s = ''.'' then walk up ss
      else if s = ''..'' then walk (tl up) ss
      else walk (s # up) ss)"

definition key :: "string \<Rightarrow> string list" where
  "key p = walk [] (split_on (CHR ''/'') (if starts_with FILES_ROOT p then drop (length FILES_ROOT) p else p))"

section \<open>The card\<close>

datatype node = Dir | Reg (content: string) (mtime: nat)

record disk =
  nodes :: "(string list \<times> node) list"
  faults :: "bool list"
  now_ms :: nat
  rename_over :: bool

text \<open>Whether the medium carries out the next call.\<close>

definition attempt :: "'a disk_scheme \<Rightarrow> bool \<times> 'a disk_scheme" where
  "attempt d = (case faults d of [] \<Rightarrow> (True, d) | b # bs \<Rightarrow> (b, d\<lparr>faults := bs\<rparr>))"

definition node_at :: "'a disk_scheme \<Rightarrow> string list \<Rightarrow> node option" where
  "node_at d k = (if k = [] then Some Dir else map_of (nodes d) k)"

definition sd_stat :: "'a disk_scheme \<Rightarrow> string \<Rightarrow> node option" where
  "sd_stat d p = node_at d (key p)"

definition is_dir :: "'a disk_scheme \<Rightarrow> string list \<Rightarrow> bool" where
  "is_dir d k \<longleftrightarrow> node_at d k = Some Dir"

definition put_node :: "string list \<Rightarrow> node \<Rightarrow> 'a disk_scheme \<Rightarrow> 'a disk_scheme" where
  "put_node k n d = d\<lparr>nodes := AList.update k n (nodes d)\<rparr>"

definition drop_node :: "string list \<Rightarrow> 'a disk_scheme \<Rightarrow> 'a disk_scheme" where
  "drop_node k d = d\<lparr>nodes := AList.delete k (nodes d)\<rparr>"

definition readdir_names :: "'a disk_scheme \<Rightarrow> string list \<Rightarrow> string list" where
  "readdir_names d k = map last (filter (\<lambda>c. c \<noteq> [] \<and> butlast c = k) (map fst (nodes d)))"

text \<open>\<open>mkdir\<close>; its result is never looked at.\<close>

definition sd_mkdir :: "string \<Rightarrow> 'a disk_scheme \<Rightarrow> 'a disk_scheme" where
  "sd_mkdir p d =
     (let (works, d) = attempt d; k = key p in
      if works \<and> node_at d k = None \<and> is_dir d (butlast k) then put_node k Dir d else d)"

text \<open>\<open>fopen(p, "wb")\<close>, \<open>fwrite\<close> and \<open>fclose\<close> on the open file.\<close>

definition sd_create :: "string \<Rightarrow> 'a disk_scheme \<Rightarrow> bool \<times> 'a disk_scheme" where
  "sd_create p d =
     (let (works, d) = attempt d; k = key p in
      if works \<and> \<not> is_dir d k \<and> is_dir d (butlast k) then (True, put_node k (Reg [] (now_ms d div 1000)) d)
      else (False, d))"

definition sd_write :: "string \<Rightarrow> string \<Rightarrow> 'a disk_scheme \<Rightarrow> bool \<times> 'a disk_scheme" where
  "sd_write p data d =
     (let (works, d) = attempt d in
      case sd_stat d p of
        Some (Reg c t) \<Rightarrow> if works then (True, put_node (key p) (Reg (c @ data) t) d) else (False, d)
      | _ \<Rightarrow> (False, d))"

definition sd_close :: "'a disk_scheme \<Rightarrow> bool \<times> 'a disk_scheme" where
  "sd_close d = attempt d"

text \<open>\<open>remove\<close> on the console: files only.\<close>

definition sd_remove :: "string \<Rightarrow> 'a disk_scheme \<Rightarrow> bool \<times> 'a disk_scheme" where
  "sd_remove p d =
     (let (works, d) = attempt d in
      case sd_stat d p of
        Some (Reg c t) \<Rightarrow> if works then (True, drop_node (key p) d) else (False, d)
      | _ \<Rightarrow> (False, d))"

definition sd_rmdir :: "string \<Rightarrow> 'a disk_scheme \<Rightarrow> bool \<times> 'a disk_scheme" where
  "sd_rmdir p d =
     (let (works, d) = attempt d; k = key p in
      if works \<and> k \<noteq> [] \<and> is_dir d k \<and> readdir_names d k = [] then (True, drop_node k d) else (False, d))"

definition rekey :: "string list \<Rightarrow> string list \<Rightarrow> string list \<Rightarrow> string list" where
  "rekey a b k = (if prefix a k then b @ drop (length a) k else k)"

text \<open>
  \<open>rename\<close> moves a file or a whole directory. Over an existing file it works only on targets that
  overwrite (\<open>rename_over\<close>).
\<close>

definition sd_rename :: "string \<Rightarrow> string \<Rightarrow> 'a disk_scheme \<Rightarrow> bool \<times> 'a disk_scheme" where
  "sd_rename p q d =
     (let (works, d) = attempt d; a = key p; b = key q in
      if works \<and> a \<noteq> [] \<and> node_at d a \<noteq> None \<and> is_dir d (butlast b) \<and> \<not> prefix a b \<and>
         (case node_at d b of
            None \<Rightarrow> True
          | Some Dir \<Rightarrow> False
          | Some (Reg c t) \<Rightarrow> rename_over d \<and> \<not> is_dir d a)
      then (True, d\<lparr>nodes := map (\<lambda>(k, n). (rekey a b k, n)) (AList.delete b (nodes d))\<rparr>)
      else (False, d))"

text \<open>
  \<open>fopen(p, "rb")\<close> gives the bytes to read; \<open>fread\<close> takes at most so many of those left, or fails.
\<close>

definition sd_open :: "string \<Rightarrow> 'a disk_scheme \<Rightarrow> string option \<times> 'a disk_scheme" where
  "sd_open p d =
     (let (works, d) = attempt d in
      case sd_stat d p of
        Some (Reg c t) \<Rightarrow> (if works then Some c else None, d)
      | _ \<Rightarrow> (None, d))"

definition sd_read :: "nat \<Rightarrow> string \<Rightarrow> 'a disk_scheme \<Rightarrow> string option \<times> 'a disk_scheme" where
  "sd_read n left d = (let (works, d) = attempt d in (if works then Some (take n left) else None, d))"

section \<open>The card stays a tree\<close>

text \<open>Every node has its own path and lies in a directory.\<close>

definition tree_ok :: "'a disk_scheme \<Rightarrow> bool" where
  "tree_ok d \<longleftrightarrow> distinct (map fst (nodes d)) \<and> [] \<notin> fst ` set (nodes d) \<and>
     (\<forall>k \<in> fst ` set (nodes d). is_dir d (butlast k))"

lemma attempt_keeps [simp]:
  "nodes (snd (attempt d)) = nodes d" "now_ms (snd (attempt d)) = now_ms d"
  "rename_over (snd (attempt d)) = rename_over d" "disk.more (snd (attempt d)) = disk.more d"
  by (simp_all add: attempt_def split: list.splits)

lemma node_at_attempt [simp]: "node_at (snd (attempt d)) = node_at d"
  by (rule ext) (simp add: node_at_def)

lemma is_dir_attempt [simp]: "is_dir (snd (attempt d)) = is_dir d"
  by (rule ext) (simp add: is_dir_def)

lemma sd_stat_attempt [simp]: "sd_stat (snd (attempt d)) = sd_stat d"
  by (rule ext) (simp add: sd_stat_def)

lemma readdir_attempt [simp]: "readdir_names (snd (attempt d)) = readdir_names d"
  by (rule ext) (simp add: readdir_names_def)

lemma tree_ok_attempt [simp]: "tree_ok (snd (attempt d)) = tree_ok d"
  by (simp add: tree_ok_def)

lemma node_at_put: "k \<noteq> [] \<Longrightarrow> node_at (put_node k n d) = (node_at d)(k \<mapsto> n)"
  by (rule ext) (simp add: node_at_def put_node_def update_conv')

lemma node_at_drop: "k \<noteq> [] \<Longrightarrow> node_at (drop_node k d) = (node_at d)(k := None)"
  by (rule ext) (simp add: node_at_def drop_node_def delete_conv')

lemma node_at_dom: "tree_ok d \<Longrightarrow> k \<noteq> [] \<Longrightarrow> k \<in> fst ` set (nodes d) \<longleftrightarrow> node_at d k \<noteq> None"
  by (simp add: node_at_def map_of_eq_None_iff)

text \<open>The same through the lookup function: the form the operations preserve.\<close>

lemma tree_ok_iff:
  "tree_ok d \<longleftrightarrow> distinct (map fst (nodes d)) \<and> [] \<notin> fst ` set (nodes d) \<and>
     (\<forall>k. k \<noteq> [] \<longrightarrow> node_at d k \<noteq> None \<longrightarrow> node_at d (butlast k) = Some Dir)"
  unfolding tree_ok_def is_dir_def by (auto simp: node_at_def map_of_eq_None_iff split: if_splits)

lemma keys_put: "fst ` set (nodes (put_node k n d)) = insert k (fst ` set (nodes d))"
  by (simp add: put_node_def dom_map_of_conv_image_fst [symmetric] update_conv')

lemma keys_drop: "fst ` set (nodes (drop_node k d)) = fst ` set (nodes d) - {k}"
  by (simp add: drop_node_def dom_map_of_conv_image_fst [symmetric] delete_conv')

lemma tree_ok_put:
  assumes "tree_ok d" and "k \<noteq> []" and "is_dir d (butlast k)"
    and "n = Dir \<or> \<not> is_dir d k"
  shows "tree_ok (put_node k n d)"
proof -
  have "butlast k \<noteq> k" using assms(2) by (metis append_butlast_last_id not_Cons_self2 self_append_conv)
  then show ?thesis
    using assms unfolding tree_ok_iff keys_put node_at_put [OF assms(2)] is_dir_def
    by (auto simp: put_node_def distinct_update)
qed

lemma readdir_child: "readdir_names d k = [] \<Longrightarrow> node_at d (k @ [s]) = None"
  by (force simp: readdir_names_def filter_empty_conv node_at_def map_of_eq_None_iff)

lemma tree_ok_drop:
  assumes "tree_ok d" and "k \<noteq> []" and "is_dir d k \<longrightarrow> readdir_names d k = []"
  shows "tree_ok (drop_node k d)"
  unfolding tree_ok_iff
proof (intro conjI allI impI)
  show "distinct (map fst (nodes (drop_node k d)))"
    using assms(1) by (simp add: tree_ok_def drop_node_def distinct_delete)
  show "[] \<notin> fst ` set (nodes (drop_node k d))"
    using assms(1) by (simp add: tree_ok_def keys_drop)
next
  fix j assume j: "j \<noteq> []" "node_at (drop_node k d) j \<noteq> None"
  then have n: "node_at d j \<noteq> None" by (auto simp: node_at_drop [OF assms(2)] split: if_splits)
  with assms(1) j(1) have p: "node_at d (butlast j) = Some Dir" by (simp add: tree_ok_iff)
  have "butlast j \<noteq> k"
  proof
    assume b: "butlast j = k"
    with p assms(3) have "readdir_names d k = []" by (simp add: is_dir_def)
    then have "node_at d (k @ [last j]) = None" by (rule readdir_child)
    moreover have "k @ [last j] = j" using b j(1) by (metis append_butlast_last_id)
    ultimately show False using n by simp
  qed
  with p show "node_at (drop_node k d) (butlast j) = Some Dir" by (simp add: node_at_drop [OF assms(2)])
qed

lemma tree_ok_ancestor:
  assumes "tree_ok d" and "node_at d (a @ x) \<noteq> None" and "x \<noteq> []"
  shows "node_at d a = Some Dir"
  using assms(2,3)
proof (induction x rule: rev_induct)
  case (snoc s x)
  then have "node_at d (a @ x) = Some Dir"
    using assms(1) unfolding tree_ok_iff by (metis append_assoc append_is_Nil_conv butlast_snoc not_Cons_self2)
  with snoc.IH show ?case by (cases "x = []") auto
qed simp

text \<open>What a rename makes of the tree: the subtree under \<open>a\<close> is under \<open>b\<close>, the rest is as it was.\<close>

lemma rekey_inj:
  assumes "\<not> prefix b k" "\<not> prefix b j" "rekey a b k = rekey a b j"
  shows "k = j"
  using assms by (auto simp: rekey_def prefix_def split: if_splits)

lemma prefix_butlast: "prefix b (butlast k) \<Longrightarrow> prefix b k"
  by (metis append_butlast_last_id butlast.simps(1) prefix_prefix)

lemma sd_rename_cases:
  assumes "sd_rename p q d = (True, d')"
  shows "key p \<noteq> []" and "node_at d (key p) \<noteq> None" and "is_dir d (butlast (key q))"
    and "\<not> prefix (key p) (key q)" and "node_at d (key q) \<noteq> Some Dir"
    and "nodes d' = map (\<lambda>(k, n). (rekey (key p) (key q) k, n)) (AList.delete (key q) (nodes d))"
proof -
  obtain w d1 where at: "attempt d = (w, d1)" by (cases "attempt d")
  have k: "node_at d1 = node_at d" "is_dir d1 = is_dir d" "nodes d1 = nodes d"
    using node_at_attempt [of d] is_dir_attempt [of d] attempt_keeps(1) [of d] at by simp_all
  show "key p \<noteq> []" "node_at d (key p) \<noteq> None" "is_dir d (butlast (key q))"
    "\<not> prefix (key p) (key q)" "node_at d (key q) \<noteq> Some Dir"
    "nodes d' = map (\<lambda>(k, n). (rekey (key p) (key q) k, n)) (AList.delete (key q) (nodes d))"
    using assms by (auto simp: sd_rename_def at k Let_def split: if_splits)
qed

lemma moved_lookup:
  assumes ok: "tree_ok d" and r: "sd_rename p q d = (True, d')"
  shows "distinct (map fst (nodes d'))"
    and "map_of (nodes d') k = Some n \<longleftrightarrow>
      (\<exists>j. rekey (key p) (key q) j = k \<and> j \<noteq> key q \<and> map_of (nodes d) j = Some n)"
    and "map_of (nodes d) j \<noteq> None \<Longrightarrow> j \<noteq> key q \<Longrightarrow> \<not> prefix (key q) j"
proof -
  let ?b = "key q" and ?f = "rekey (key p) (key q)"
  let ?D = "AList.delete ?b (nodes d)"
  note c = sd_rename_cases [OF r]
  have dD: "distinct (map fst ?D)" using ok by (simp add: tree_ok_def distinct_delete)
  have D: "(j, m) \<in> set ?D \<longleftrightarrow> j \<noteq> ?b \<and> map_of (nodes d) j = Some m" for j m
    unfolding map_of_eq_Some_iff [OF dD, symmetric] by (simp add: delete_conv')
  show nb: "\<not> prefix ?b j" if "map_of (nodes d) j \<noteq> None" "j \<noteq> ?b" for j
  proof
    assume "prefix ?b j"
    then obtain x where x: "j = ?b @ x" by (auto simp: prefix_def)
    have "map_of (nodes d) [] = None" using ok by (simp add: tree_ok_def map_of_eq_None_iff)
    with that(1) have "j \<noteq> []" by auto
    with that(1) have "node_at d (?b @ x) \<noteq> None" by (simp add: node_at_def x)
    with tree_ok_ancestor [OF ok this] that(2) x c(5) show False by auto
  qed
  have "inj_on ?f (set (map fst ?D))"
  proof (rule inj_onI)
    fix x y assume "x \<in> set (map fst ?D)" "y \<in> set (map fst ?D)" "?f x = ?f y"
    moreover from this D have "\<not> prefix ?b x" "\<not> prefix ?b y" using nb by fastforce+
    ultimately show "x = y" by (blast intro: rekey_inj)
  qed
  moreover have "map fst (nodes d') = map ?f (map fst ?D)" by (simp add: c(6) case_prod_unfold)
  ultimately show dis: "distinct (map fst (nodes d'))" using dD by (simp add: distinct_map del: map_map)
  show "map_of (nodes d') k = Some n \<longleftrightarrow> (\<exists>j. ?f j = k \<and> j \<noteq> ?b \<and> map_of (nodes d) j = Some n)"
  proof -
    have pull: "(k, n) \<in> set (map (\<lambda>(k, n). (?f k, n)) xs) \<longleftrightarrow> (\<exists>j. ?f j = k \<and> (j, n) \<in> set xs)" for xs
      by (induction xs) auto
    have "map_of (nodes d') k = Some n \<longleftrightarrow> (k, n) \<in> set (nodes d')" by (rule map_of_eq_Some_iff [OF dis])
    also have "\<dots> \<longleftrightarrow> (\<exists>j. ?f j = k \<and> (j, n) \<in> set ?D)" unfolding c(6) by (rule pull)
    finally show ?thesis by (simp only: D)
  qed
qed

lemma sd_rename_nodes:
  assumes ok: "tree_ok d" and r: "sd_rename p q d = (True, d')"
  shows "node_at d' k =
      (if prefix (key q) k then node_at d (key p @ drop (length (key q)) k)
       else if prefix (key p) k then None else node_at d k)"
proof -
  let ?a = "key p" and ?b = "key q"
  note c = sd_rename_cases [OF r] and m = moved_lookup [OF ok r]
  have b: "?b \<noteq> []" using c(5) by (auto simp: node_at_def)
  show ?thesis
  proof (cases "k = []")
    case True
    with b c(1) show ?thesis by (simp add: node_at_def)
  next
    case k: False
    have "node_at d' k = Some n \<longleftrightarrow> (if prefix ?b k then node_at d (?a @ drop (length ?b) k)
       else if prefix ?a k then None else node_at d k) = Some n" for n
    proof (cases "prefix ?b k")
      case True
      then obtain x where x: "k = ?b @ x" by (auto simp: prefix_def)
      have "?a @ x \<noteq> ?b" using c(4) by (metis prefixI)
      then have "rekey ?a ?b j = k \<and> j \<noteq> ?b \<and> map_of (nodes d) j = Some n \<longleftrightarrow>
          j = ?a @ x \<and> map_of (nodes d) j = Some n" for j
        using m(3) [of j] c(4) x by (auto simp: rekey_def prefix_def)
      with x c(1) b show ?thesis by (simp add: node_at_def m(2))
    next
      case False
      have "rekey ?a ?b j = k \<and> j \<noteq> ?b \<and> map_of (nodes d) j = Some n \<longleftrightarrow>
          j = k \<and> \<not> prefix ?a k \<and> map_of (nodes d) k = Some n" for j
        using False by (auto simp: rekey_def prefix_def)
      with False k show ?thesis by (simp add: node_at_def m(2))
    qed
    then show ?thesis by (metis not_None_eq)
  qed
qed

lemma tree_ok_rename:
  assumes ok: "tree_ok d" and r: "sd_rename p q d = (True, d')"
  shows "tree_ok d'"
  unfolding tree_ok_iff
proof (intro conjI allI impI)
  let ?a = "key p" and ?b = "key q"
  note c = sd_rename_cases [OF r] and m = moved_lookup [OF ok r] and n = sd_rename_nodes [OF ok r]
  have b: "?b \<noteq> []" using c(5) by (auto simp: node_at_def)
  show "distinct (map fst (nodes d'))" by (rule m(1))
  have "rekey ?a ?b j \<noteq> []" if "j \<noteq> []" for j using b that by (simp add: rekey_def)
  moreover have "map_of (nodes d) [] = None" using ok by (simp add: tree_ok_def map_of_eq_None_iff)
  ultimately have "map_of (nodes d') [] = None" using m(2) [of "[]"] by (metis not_None_eq)
  then show "[] \<notin> fst ` set (nodes d')" by (simp add: map_of_eq_None_iff)
  fix k assume k: "k \<noteq> []" "node_at d' k \<noteq> None"
  have up: "node_at d (butlast j) = Some Dir" if "j \<noteq> []" "node_at d j \<noteq> None" for j
    using ok that by (simp add: tree_ok_iff)
  show "node_at d' (butlast k) = Some Dir"
  proof (cases "prefix ?b k")
    case True
    then obtain x where x: "k = ?b @ x" by (auto simp: prefix_def)
    show ?thesis
    proof (cases "x = []")
      case True
      have "length (butlast ?b) < length ?b" using b by simp
      then have "\<not> prefix ?b (butlast ?b)" using prefix_length_le leD by blast
      moreover have "\<not> prefix ?a (butlast ?b)" using c(4) prefix_butlast by blast
      ultimately show ?thesis using True x c(3) by (simp add: n is_dir_def)
    next
      case False
      then have "butlast (?a @ x) = ?a @ butlast x" "butlast k = ?b @ butlast x" by (simp_all add: x butlast_append)
      with up [of "?a @ x"] k(2) x c(1) show ?thesis by (simp add: n)
    qed
  next
    case False
    with k(2) have "\<not> prefix ?a k" "node_at d k \<noteq> None" by (auto simp: n split: if_splits)
    with False up [OF k(1)] show ?thesis using prefix_butlast by (auto simp: n)
  qed
qed

section \<open>What each call does to the nodes\<close>

lemma not_root: "node_at d k = None \<or> \<not> is_dir d k \<Longrightarrow> k \<noteq> []"
  by (auto simp: node_at_def is_dir_def)

lemma key_nonempty_of_file: "sd_stat d p = Some (Reg c t) \<Longrightarrow> key p \<noteq> []"
  by (auto simp: sd_stat_def node_at_def split: if_splits)

lemma sd_mkdir_nodes:
  "node_at (sd_mkdir p d) = (node_at d)(key p := node_at (sd_mkdir p d) (key p))"
  "node_at d k \<noteq> None \<Longrightarrow> node_at (sd_mkdir p d) k = node_at d k"
  "tree_ok d \<Longrightarrow> tree_ok (sd_mkdir p d)"
proof -
  obtain w d1 where at: "attempt d = (w, d1)" by (cases "attempt d")
  have k: "node_at d1 = node_at d" "is_dir d1 = is_dir d" "tree_ok d1 = tree_ok d"
    using node_at_attempt [of d] is_dir_attempt [of d] tree_ok_attempt [of d] at by simp_all
  have e: "sd_mkdir p d = d1 \<or> key p \<noteq> [] \<and> node_at d (key p) = None \<and> is_dir d (butlast (key p)) \<and>
      sd_mkdir p d = put_node (key p) Dir d1"
    using not_root [of d "key p"] by (auto simp: sd_mkdir_def at k Let_def)
  show "node_at (sd_mkdir p d) = (node_at d)(key p := node_at (sd_mkdir p d) (key p))"
    using e by (elim disjE) (simp add: k, auto simp: node_at_put k)
  show "node_at d k \<noteq> None \<Longrightarrow> node_at (sd_mkdir p d) k = node_at d k"
    using e by (elim disjE) (simp add: k, auto simp: node_at_put k)
  show "tree_ok d \<Longrightarrow> tree_ok (sd_mkdir p d)"
    using e by (elim disjE) (simp add: k, auto simp: k tree_ok_put)
qed

lemma sd_create_nodes:
  "node_at (snd (sd_create p d)) =
     (if fst (sd_create p d) then (node_at d)(key p \<mapsto> Reg [] (now_ms d div 1000)) else node_at d)"
  "fst (sd_create p d) \<Longrightarrow> key p \<noteq> [] \<and> \<not> is_dir d (key p) \<and> is_dir d (butlast (key p))"
  "tree_ok d \<Longrightarrow> tree_ok (snd (sd_create p d))"
proof -
  obtain w d1 where at: "attempt d = (w, d1)" by (cases "attempt d")
  have k: "node_at d1 = node_at d" "is_dir d1 = is_dir d" "tree_ok d1 = tree_ok d" "now_ms d1 = now_ms d"
    using node_at_attempt [of d] is_dir_attempt [of d] tree_ok_attempt [of d] attempt_keeps(2) [of d] at by simp_all
  have e: "sd_create p d = (False, d1) \<or> key p \<noteq> [] \<and> \<not> is_dir d (key p) \<and> is_dir d (butlast (key p)) \<and>
      sd_create p d = (True, put_node (key p) (Reg [] (now_ms d div 1000)) d1)"
    using not_root [of d "key p"] by (auto simp: sd_create_def at k Let_def)
  then show "node_at (snd (sd_create p d)) =
     (if fst (sd_create p d) then (node_at d)(key p \<mapsto> Reg [] (now_ms d div 1000)) else node_at d)"
    "fst (sd_create p d) \<Longrightarrow> key p \<noteq> [] \<and> \<not> is_dir d (key p) \<and> is_dir d (butlast (key p))"
    by (auto simp: node_at_put k)
  from e show "tree_ok d \<Longrightarrow> tree_ok (snd (sd_create p d))"
    by (auto simp: k tree_ok_put)
qed

lemma sd_write_nodes:
  "node_at (snd (sd_write p data d)) =
     (if fst (sd_write p data d)
      then (case sd_stat d p of Some (Reg c t) \<Rightarrow> (node_at d)(key p \<mapsto> Reg (c @ data) t) | _ \<Rightarrow> node_at d)
      else node_at d)"
  "fst (sd_write p data d) \<Longrightarrow> \<exists>c t. sd_stat d p = Some (Reg c t)"
  "tree_ok d \<Longrightarrow> tree_ok (snd (sd_write p data d))"
proof -
  obtain w d1 where at: "attempt d = (w, d1)" by (cases "attempt d")
  have k: "node_at d1 = node_at d" "sd_stat d1 = sd_stat d" "is_dir d1 = is_dir d" "tree_ok d1 = tree_ok d"
    using node_at_attempt [of d] sd_stat_attempt [of d] is_dir_attempt [of d] tree_ok_attempt [of d] at by simp_all
  have e: "sd_write p data d = (False, d1) \<or> (\<exists>c t. sd_stat d p = Some (Reg c t) \<and>
      sd_write p data d = (True, put_node (key p) (Reg (c @ data) t) d1))"
    by (auto simp: sd_write_def at k Let_def split: option.splits node.splits)
  then show "node_at (snd (sd_write p data d)) =
     (if fst (sd_write p data d)
      then (case sd_stat d p of Some (Reg c t) \<Rightarrow> (node_at d)(key p \<mapsto> Reg (c @ data) t) | _ \<Rightarrow> node_at d)
      else node_at d)"
    "fst (sd_write p data d) \<Longrightarrow> \<exists>c t. sd_stat d p = Some (Reg c t)"
    using key_nonempty_of_file [of d p] by (auto simp: node_at_put k)
  show "tree_ok (snd (sd_write p data d))" if t: "tree_ok d"
  proof -
    have "is_dir d (butlast (key p))" if "sd_stat d p = Some (Reg c t)" for c t
      using t key_nonempty_of_file [OF that] that by (simp add: tree_ok_iff sd_stat_def is_dir_def)
    moreover have "\<not> is_dir d (key p)" if "sd_stat d p = Some (Reg c t)" for c t
      using that by (simp add: sd_stat_def is_dir_def)
    ultimately show ?thesis
      using e t key_nonempty_of_file [of d p] by (auto simp: k intro!: tree_ok_put)
  qed
qed

lemma sd_close_nodes: "node_at (snd (sd_close d)) = node_at d" "tree_ok (snd (sd_close d)) = tree_ok d"
  by (simp_all add: sd_close_def)

lemma sd_remove_nodes:
  "node_at (snd (sd_remove p d)) =
     (if fst (sd_remove p d) then (node_at d)(key p := None) else node_at d)"
  "fst (sd_remove p d) \<Longrightarrow> \<exists>c t. sd_stat d p = Some (Reg c t)"
  "tree_ok d \<Longrightarrow> tree_ok (snd (sd_remove p d))"
proof -
  obtain w d1 where at: "attempt d = (w, d1)" by (cases "attempt d")
  have k: "node_at d1 = node_at d" "sd_stat d1 = sd_stat d" "is_dir d1 = is_dir d" "tree_ok d1 = tree_ok d"
    using node_at_attempt [of d] sd_stat_attempt [of d] is_dir_attempt [of d] tree_ok_attempt [of d] at by simp_all
  have e: "sd_remove p d = (False, d1) \<or> (\<exists>c t. sd_stat d p = Some (Reg c t) \<and>
      sd_remove p d = (True, drop_node (key p) d1))"
    by (auto simp: sd_remove_def at k Let_def split: option.splits node.splits)
  then show "node_at (snd (sd_remove p d)) =
     (if fst (sd_remove p d) then (node_at d)(key p := None) else node_at d)"
    "fst (sd_remove p d) \<Longrightarrow> \<exists>c t. sd_stat d p = Some (Reg c t)"
    using key_nonempty_of_file [of d p] by (auto simp: node_at_drop k)
  have "\<not> is_dir d (key p)" if "sd_stat d p = Some (Reg c t)" for c t
    using that by (simp add: sd_stat_def is_dir_def)
  with e show "tree_ok d \<Longrightarrow> tree_ok (snd (sd_remove p d))"
    using key_nonempty_of_file [of d p] by (auto simp: k intro!: tree_ok_drop)
qed

lemma sd_rmdir_nodes:
  "node_at (snd (sd_rmdir p d)) =
     (if fst (sd_rmdir p d) then (node_at d)(key p := None) else node_at d)"
  "fst (sd_rmdir p d) \<Longrightarrow> sd_stat d p = Some Dir \<and> readdir_names d (key p) = []"
  "tree_ok d \<Longrightarrow> tree_ok (snd (sd_rmdir p d))"
proof -
  obtain w d1 where at: "attempt d = (w, d1)" by (cases "attempt d")
  have k: "node_at d1 = node_at d" "is_dir d1 = is_dir d" "tree_ok d1 = tree_ok d" "readdir_names d1 = readdir_names d"
    using node_at_attempt [of d] is_dir_attempt [of d] tree_ok_attempt [of d] readdir_attempt [of d] at by simp_all
  have e: "sd_rmdir p d = (False, d1) \<or> key p \<noteq> [] \<and> is_dir d (key p) \<and> readdir_names d (key p) = [] \<and>
      sd_rmdir p d = (True, drop_node (key p) d1)"
    by (auto simp: sd_rmdir_def at k Let_def)
  then show "node_at (snd (sd_rmdir p d)) =
     (if fst (sd_rmdir p d) then (node_at d)(key p := None) else node_at d)"
    "fst (sd_rmdir p d) \<Longrightarrow> sd_stat d p = Some Dir \<and> readdir_names d (key p) = []"
    by (auto simp: node_at_drop k sd_stat_def is_dir_def)
  from e show "tree_ok d \<Longrightarrow> tree_ok (snd (sd_rmdir p d))"
    by (auto simp: k intro!: tree_ok_drop)
qed

lemma sd_rename_failed:
  assumes "\<not> fst (sd_rename p q d)"
  shows "node_at (snd (sd_rename p q d)) = node_at d" and "tree_ok (snd (sd_rename p q d)) = tree_ok d"
proof -
  have "sd_rename p q d = (False, snd (attempt d))"
    using assms by (auto simp: sd_rename_def Let_def split: prod.splits if_splits)
  then show "node_at (snd (sd_rename p q d)) = node_at d" "tree_ok (snd (sd_rename p q d)) = tree_ok d"
    by simp_all
qed

lemma sd_rename_tree: "tree_ok d \<Longrightarrow> tree_ok (snd (sd_rename p q d))"
  using tree_ok_rename [of d p q "snd (sd_rename p q d)"] sd_rename_failed(2) [of p q d]
  by (cases "fst (sd_rename p q d)") (auto simp: prod_eq_iff)

lemmas sd_tree = sd_mkdir_nodes(3) sd_create_nodes(3) sd_write_nodes(3) sd_close_nodes(2) sd_remove_nodes(3)
  sd_rmdir_nodes(3) sd_rename_tree

end
