(* ===== verification/Files.thy ===== *)
theory Files
  imports Sd_Card Router Sha256
begin

text \<open>
  \<open>source/features/files/files.c\<close> and \<open>files_http.c\<close>: path resolution, listings, deletion, moves, hashes,
  waiting for a file, and the REST front-end with its streamed upload.
\<close>

section \<open>Paths\<close>

text \<open>The loop over the occurrences of \<open>..\<close>: true when one is a whole path segment.\<close>

function traversal_loop :: "string \<Rightarrow> nat \<Rightarrow> bool" where
  "traversal_loop u off =
     (case strstr ''..'' (drop off u) of
        None \<Rightarrow> False
      | Some i \<Rightarrow>
          let p = off + i;
              start_ok = (p = 0 \<or> u ! (p - 1) = CHR ''/'');
              end_ok = (p + 2 = length u \<or> u ! (p + 2) = CHR ''/'')
          in if start_ok \<and> end_ok then True else traversal_loop u (p + 2))"
  by pat_completeness auto
termination
proof (relation "measure (\<lambda>(u, off). length u - off)", goal_cases)
  case (2 u off i p s e)
  then have "starts_with ''..'' (drop i (drop off u))" using strstr_Some_sound by blast
  then obtain t where "drop i (drop off u) = ''..'' @ t" by (auto simp: starts_with_iff)
  from arg_cong [OF this, of length] have "2 \<le> length (drop i (drop off u))" by simp
  with 2 show ?case by auto
qed simp

declare traversal_loop.simps [simp del]

definition files_resolve :: "string \<Rightarrow> nat \<Rightarrow> string + string" where
  "files_resolve userpath outsz =
     (if userpath = [] then Inl ''missing path''
      else if hd userpath \<noteq> CHR ''/'' then Inl ''path must be absolute (start with /)''
      else if traversal_loop userpath 0 then Inl ''path traversal not allowed''
      else if length (FILES_ROOT @ userpath) \<ge> outsz then Inl ''path too long''
      else Inr (FILES_ROOT @ userpath))"

text \<open>A \<open>mkdir\<close> of what is before each slash after the first.\<close>

fun mkdirs_loop :: "string \<Rightarrow> nat list \<Rightarrow> 'a disk_scheme \<Rightarrow> 'a disk_scheme" where
  "mkdirs_loop tmp [] d = d"
| "mkdirs_loop tmp (i # is) d =
     mkdirs_loop tmp is (if tmp ! i = CHR ''/'' then sd_mkdir (take i tmp) d else d)"

definition files_mkdirs_for :: "string \<Rightarrow> 'a disk_scheme \<Rightarrow> 'a disk_scheme" where
  "files_mkdirs_for fspath d =
     (let tmp = fit 768 fspath in
      case strchr (CHR ''/'') tmp of
        None \<Rightarrow> d
      | Some p \<Rightarrow> mkdirs_loop tmp [p + 1..<length tmp] d)"

definition files_trim_slash :: "string \<Rightarrow> bool \<times> string" where
  "files_trim_slash fspath =
     (if length fspath \<le> length FILES_ROOT + 1 \<or> last fspath \<noteq> CHR ''/'' then (False, fspath)
      else (True, butlast fspath))"

text \<open>Offset and length of the window, clamped to the file.\<close>

definition files_clamp_range :: "int \<Rightarrow> int \<Rightarrow> int \<Rightarrow> int \<times> int" where
  "files_clamp_range fsize offset len =
     (let offset = (if offset < 0 then (if fsize + offset < 0 then 0 else fsize + offset) else offset);
          offset = (if offset > fsize then fsize else offset);
          avail = fsize - offset
      in (offset, if len < 0 \<or> len > avail then avail else len))"

section \<open>Listings\<close>

definition appendf :: "nat \<Rightarrow> string \<Rightarrow> string \<Rightarrow> bool \<times> string" where
  "appendf bufsz buf s = (if length s \<ge> bufsz - length buf then (False, buf) else (True, buf @ s))"

definition listing_entry :: "bool \<Rightarrow> string \<Rightarrow> node option \<Rightarrow> string" where
  "listing_entry first escaped st =
     (if first then [] else '','') @ ''{'' @ quoted ''name'' @ '':'' @ quoted escaped @ '','' @ quoted ''type'' @ '':'' @
     (case st of
        Some Dir \<Rightarrow> quoted ''dir'' @ ''}''
      | Some (Reg c t) \<Rightarrow> quoted ''file'' @ '','' @ quoted ''size'' @ '':'' @ dec (length c) @ '','' @
          quoted ''mtime'' @ '':'' @ dec t @ ''}''
      | None \<Rightarrow> quoted ''file'' @ '','' @ quoted ''size'' @ '':'' @ dec 0 @ '','' @ quoted ''mtime'' @ '':'' @ dec 0 @ ''}'')"

fun listing_loop :: "'a disk_scheme \<Rightarrow> string \<Rightarrow> nat \<Rightarrow> string list \<Rightarrow> bool \<Rightarrow> string \<Rightarrow> bool \<times> string" where
  "listing_loop d fspath bufsz [] first buf = (True, buf)"
| "listing_loop d fspath bufsz (e # es) first buf =
     (if e = ''.'' \<or> e = ''..'' then listing_loop d fspath bufsz es first buf
      else
        let full = fit 1024 (fspath @ (if last fspath = CHR ''/'' then [] else ''/'') @ e);
            st = sd_stat d full
        in case json_escape e 520 of
             None \<Rightarrow> listing_loop d fspath bufsz es first buf
           | Some escaped \<Rightarrow>
               (case appendf bufsz buf (listing_entry first escaped st) of
                  (True, buf) \<Rightarrow> listing_loop d fspath bufsz es False buf
                | (False, buf) \<Rightarrow> (False, buf)))"

text \<open>\<open>stale\<close> is what the escape buffer holds when the path does not fit it.\<close>

definition files_build_listing ::
    "string \<Rightarrow> string \<Rightarrow> string \<Rightarrow> nat \<Rightarrow> 'a disk_scheme \<Rightarrow> (string + string) \<times> 'a disk_scheme" where
  "files_build_listing stale fspath userpath bufsz d =
     (let (works, d) = attempt d in
      if \<not> works \<or> \<not> is_dir d (key fspath) then (Inl ''directory not found'', d)
      else
        let escaped = (case json_escape userpath 520 of Some e \<Rightarrow> e | None \<Rightarrow> stale);
            (ok, buf) = appendf bufsz []
              (''{'' @ quoted ''path'' @ '':'' @ quoted escaped @ '','' @ quoted ''entries'' @ '':['');
            (ok, buf) = (if ok then listing_loop d fspath bufsz (readdir_names d (key fspath)) True buf else (False, buf));
            (ok, buf) = (if ok then appendf bufsz buf '']}'' else (False, buf))
        in (if ok then Inr buf else Inl ''out of memory building listing'', d))"

section \<open>Deleting and moving\<close>

definition files_delete_path :: "string \<Rightarrow> 'a disk_scheme \<Rightarrow> (string + unit) \<times> 'a disk_scheme" where
  "files_delete_path fspath d =
     (case sd_stat d fspath of
        None \<Rightarrow> (Inl ''no such file or directory'', d)
      | Some Dir \<Rightarrow>
          (let (opened, d) = attempt d in
           if opened \<and> list_ex (\<lambda>e. e \<noteq> ''.'' \<and> e \<noteq> ''..'') (readdir_names d (key fspath))
           then (Inl ''directory not empty'', d)
           else let (ok, d) = sd_rmdir fspath d in
             if ok then (Inr (), d) else (Inl ''rmdir failed'', d))
      | Some (Reg c t) \<Rightarrow>
          (let (ok, d) = sd_remove fspath d in
           if ok then (Inr (), d) else (Inl ''delete failed'', d)))"

definition files_move_path :: "string \<Rightarrow> string \<Rightarrow> 'a disk_scheme \<Rightarrow> (string + unit) \<times> 'a disk_scheme" where
  "files_move_path source dst d =
     (if sd_stat d source = None then (Inl ''no such file or directory'', d)
      else if source = dst then (Inr (), d)
      else if sd_stat d dst \<noteq> None then (Inl ''destination already exists'', d)
      else let (ok, d) = sd_rename source dst (files_mkdirs_for dst d) in
        if ok then (Inr (), d) else (Inl ''move failed'', d))"

section \<open>Hashing\<close>

text \<open>The read loop: the context and the count, or a read error.\<close>

function hash_loop ::
    "nat \<Rightarrow> string \<Rightarrow> Sha256Ctx \<Rightarrow> nat \<Rightarrow> 'a disk_scheme \<Rightarrow> (Sha256Ctx \<times> nat) option \<times> 'a disk_scheme" where
  "hash_loop buf_size left ctx sum_n d =
     (case sd_read buf_size left d of
        (None, d) \<Rightarrow> (None, d)
      | (Some n, d) \<Rightarrow>
          if n = [] then (Some (ctx, sum_n), d)
          else hash_loop buf_size (drop (length n) left) (ctx_update ctx (map byte n)) (sum_n + length n) d)"
  by pat_completeness auto
termination
  by (relation "measure (\<lambda>(b, left, c, t, d). length left)") (auto simp: sd_read_def split: prod.splits if_splits)

declare hash_loop.simps [simp del]

definition files_hash_sha256 ::
    "u8 list \<Rightarrow> string \<Rightarrow> nat \<Rightarrow> 'a disk_scheme \<Rightarrow> (string + string \<times> nat) \<times> 'a disk_scheme" where
  "files_hash_sha256 garbage fspath buf_size d =
     (case sd_stat d fspath of
        None \<Rightarrow> (Inl ''no such file or directory'', d)
      | Some Dir \<Rightarrow> (Inl ''is a directory'', d)
      | Some (Reg c t) \<Rightarrow>
          (case sd_open fspath d of
             (None, d) \<Rightarrow> (Inl ''open failed'', d)
           | (Some bytes, d) \<Rightarrow>
               (case hash_loop buf_size bytes (ctx_init garbage) 0 d of
                  (None, d) \<Rightarrow> (Inl ''read failed'', d)
                | (Some (ctx, sum_n), d) \<Rightarrow> (Inr (hex_encode (ctx_final ctx), sum_n), d))))"

section \<open>Waiting for a file\<close>

definition mem_find :: "string \<Rightarrow> string \<Rightarrow> bool" where
  "mem_find hay needle =
     (if needle = [] then True
      else list_ex (\<lambda>i. hay ! i = needle ! 0 \<and> take (length needle) (drop i hay) = needle)
             [0..<length hay + 1 - length needle])"

function search_loop :: "nat \<Rightarrow> string \<Rightarrow> string \<Rightarrow> string \<Rightarrow> 'a disk_scheme \<Rightarrow> bool \<times> 'a disk_scheme" where
  "search_loop bufsz needle kept left d =
     (case sd_read (bufsz - length kept) left d of
        (None, d) \<Rightarrow> (False, d)
      | (Some n, d) \<Rightarrow>
          if n = [] then (False, d)
          else let buf = kept @ n in
            if mem_find buf needle then (True, d)
            else let keep = (if length needle - 1 < length buf then length needle - 1 else length buf)
                 in search_loop bufsz needle (drop (length buf - keep) buf) (drop (length n) left) d)"
  by pat_completeness auto
termination
  by (relation "measure (\<lambda>(b, n, k, left, d). length left)") (auto simp: sd_read_def split: prod.splits if_splits)

declare search_loop.simps [simp del]

definition search_file :: "string \<Rightarrow> nat \<Rightarrow> string \<Rightarrow> nat \<Rightarrow> 'a disk_scheme \<Rightarrow> bool \<times> 'a disk_scheme" where
  "search_file fspath start needle bufsz d =
     (case sd_open fspath d of
        (None, d) \<Rightarrow> (False, d)
      | (Some bytes, d) \<Rightarrow>
          search_loop bufsz needle [] (drop (start - (length needle - 1)) bytes) d)"

definition HTTP_MAX_WAIT_MS :: int where
  "HTTP_MAX_WAIT_MS = 30000"

definition FILES_WAIT_POLL_MS :: int where
  "FILES_WAIT_POLL_MS = 200"

record FilesWait =
  met :: bool
  fexists :: bool
  elapsed_ms :: int
  file_size :: nat

text \<open>One look at the file: the result so far and how much of the file has been searched.\<close>

definition wait_check ::
    "string \<Rightarrow> string \<Rightarrow> nat \<Rightarrow> FilesWait \<Rightarrow> nat \<Rightarrow> 'a disk_scheme \<Rightarrow> FilesWait \<times> nat \<times> 'a disk_scheme" where
  "wait_check fspath needle bufsz res scanned d =
     (case sd_stat d fspath of
        Some (Reg c t) \<Rightarrow>
          (let res = res\<lparr>fexists := True, file_size := length c\<rparr> in
           if needle = [] then (res\<lparr>met := True\<rparr>, scanned, d)
           else
             let scanned = (if length c < scanned then 0 else scanned);
                 (found, d) = (if length c > scanned then search_file fspath scanned needle bufsz d else (False, d))
             in (if found then res\<lparr>met := True\<rparr> else res, length c, d))
      | _ \<Rightarrow> (res\<lparr>fexists := False\<rparr>, scanned, d))"

text \<open>
  The wait itself; \<open>wait\<close> is \<open>http_server_wait_ms\<close>. The conversion of the elapsed time to \<open>int\<close> is exact
  for clocks that do not jump by 24 days.
\<close>

partial_function (option) files_wait_loop ::
    "(int \<Rightarrow> 'a disk_scheme \<Rightarrow> bool \<times> 'a disk_scheme) \<Rightarrow> string \<Rightarrow> string \<Rightarrow> nat \<Rightarrow> int \<Rightarrow> nat \<Rightarrow>
      FilesWait \<Rightarrow> nat \<Rightarrow> 'a disk_scheme \<Rightarrow> (FilesWait \<times> 'a disk_scheme) option" where
  "files_wait_loop wait fspath needle bufsz timeout start res scanned d =
     (let (res, scanned, d) = wait_check fspath needle bufsz res scanned d;
          res = res\<lparr>elapsed_ms := int (now_ms d) - int start\<rparr>
      in if met res \<or> elapsed_ms res \<ge> timeout then Some (res, d)
         else let left = timeout - elapsed_ms res;
                  (go, d) = wait (if left < FILES_WAIT_POLL_MS then left else FILES_WAIT_POLL_MS) d
              in if \<not> go then Some (res, d)
                 else files_wait_loop wait fspath needle bufsz timeout start res scanned d)"

definition files_wait ::
    "(int \<Rightarrow> 'a disk_scheme \<Rightarrow> bool \<times> 'a disk_scheme) \<Rightarrow> string \<Rightarrow> string \<Rightarrow> bool \<Rightarrow> int \<Rightarrow> nat \<Rightarrow>
      'a disk_scheme \<Rightarrow> (FilesWait \<times> 'a disk_scheme) option" where
  "files_wait wait fspath needle new_only timeout_ms bufsz d =
     (let timeout = (if timeout_ms < 0 then 0 else timeout_ms);
          timeout = (if timeout > HTTP_MAX_WAIT_MS then HTTP_MAX_WAIT_MS else timeout);
          scanned = (if new_only then (case sd_stat d fspath of Some (Reg c t) \<Rightarrow> length c | _ \<Rightarrow> 0) else 0)
      in files_wait_loop wait fspath needle bufsz timeout (now_ms d)
           \<lparr>met = False, fexists = False, elapsed_ms = 0, file_size = 0\<rparr> scanned d)"

section \<open>A resolved path is the user's path, without traversal\<close>

definition seg_at :: "string \<Rightarrow> nat \<Rightarrow> bool" where
  "seg_at u p \<longleftrightarrow> starts_with ''..'' (drop p u) \<and> (p = 0 \<or> u ! (p - 1) = CHR ''/'') \<and>
     (p + 2 = length u \<or> u ! (p + 2) = CHR ''/'')"

lemma starts_with_dots: "starts_with ''..'' (drop p u) \<longleftrightarrow> p + 2 \<le> length u \<and> u ! p = CHR ''.'' \<and> u ! (p + 1) = CHR ''.''"
proof -
  have "starts_with ''..'' s \<longleftrightarrow> 2 \<le> length s \<and> s ! 0 = CHR ''.'' \<and> s ! 1 = CHR ''.''" for s
  proof (cases s)
    case (Cons a t)
    then show ?thesis by (cases t) (auto simp: starts_with_def)
  qed (simp add: starts_with_def)
  then show ?thesis by (cases "p + 2 \<le> length u") (auto simp: )
qed

lemma traversal_loop_iff: "traversal_loop u off \<longleftrightarrow> (\<exists>p \<ge> off. seg_at u p)"
proof (induction u off rule: traversal_loop.induct)
  case (1 u off)
  show ?case
  proof (cases "strstr ''..'' (drop off u)")
    case None
    have "\<not> seg_at u p" if "off \<le> p" for p
    proof
      assume "seg_at u p"
      then have s: "starts_with ''..'' (drop (p - off) (drop off u))" and "p + 2 \<le> length u"
        using that by (simp_all add: seg_at_def starts_with_dots)
      with None show False by (auto simp: strstr_None_iff)
    qed
    with None show ?thesis by (subst traversal_loop.simps) simp
  next
    case (Some i)
    let ?p = "off + i"
    have sw: "starts_with ''..'' (drop ?p u)"
      using strstr_Some_sound [OF Some] by (simp add: add.commute)
    have before: "\<not> seg_at u q" if "off \<le> q" "q < ?p" for q
      using strstr_first [OF Some, of "q - off"] that by (auto simp: seg_at_def)
    show ?thesis
    proof (cases "seg_at u ?p")
      case True
      then have "traversal_loop u off" using Some by (subst traversal_loop.simps) (auto simp: seg_at_def Let_def)
      with True show ?thesis by (metis le_add1)
    next
      case False
      have "\<not> seg_at u (?p + 1)" using sw by (auto simp: seg_at_def starts_with_dots)
      have "(\<exists>p \<ge> off. seg_at u p) \<longleftrightarrow> (\<exists>p \<ge> ?p + 2. seg_at u p)"
      proof
        assume "\<exists>p \<ge> off. seg_at u p"
        then obtain p where p: "off \<le> p" "seg_at u p" by auto
        have "\<not> p < ?p" using before p by blast
        moreover have "p \<noteq> ?p" "p \<noteq> ?p + 1" using p(2) False \<open>\<not> seg_at u (?p + 1)\<close> by auto
        ultimately have "?p + 2 \<le> p" by linarith
        with p(2) show "\<exists>p \<ge> ?p + 2. seg_at u p" by blast
      next
        assume "\<exists>p \<ge> ?p + 2. seg_at u p"
        then obtain p where "?p + 2 \<le> p" "seg_at u p" by auto
        then show "\<exists>p \<ge> off. seg_at u p" by (intro exI [of _ p]) simp
      qed
      moreover have "traversal_loop u off = traversal_loop u (?p + 2)"
        using False sw Some by (subst traversal_loop.simps) (auto simp: seg_at_def Let_def)
      moreover have "traversal_loop u (?p + 2) \<longleftrightarrow> (\<exists>p \<ge> ?p + 2. seg_at u p)"
        using "1.IH" [OF Some refl refl refl] False sw by (auto simp: seg_at_def)
      ultimately show ?thesis by simp
    qed
  qed
qed

lemma seg_at_member: "(\<exists>p. seg_at u p) \<longleftrightarrow> ''..'' \<in> set (split_on (CHR ''/'') u)"
proof -
  have "(\<exists>p. seg_at u p) \<longleftrightarrow> (\<exists>a b. u = a @ ''..'' @ b \<and> (a = [] \<or> last a = CHR ''/'') \<and> (b = [] \<or> hd b = CHR ''/''))"
  proof
    assume "\<exists>p. seg_at u p"
    then obtain p where p: "seg_at u p" by auto
    then obtain b where b: "drop p u = ''..'' @ b" by (auto simp: seg_at_def starts_with_iff)
    have le: "p + 2 \<le> length u" using p by (simp add: seg_at_def starts_with_dots)
    have u: "u = take p u @ ''..'' @ b" using b by (metis append_take_drop_id)
    have "take p u = [] \<or> last (take p u) = CHR ''/''"
    proof (cases "p = 0")
      case False
      then have "take p u \<noteq> []" using le by auto
      then have "last (take p u) = u ! (p - 1)" using le False by (simp add: last_conv_nth min_def)
      with p False show ?thesis by (simp add: seg_at_def)
    qed simp
    moreover have "b = drop (p + 2) u" using arg_cong [OF b, of "drop 2"] by (simp add: add.commute)
    then have "b = [] \<or> hd b = CHR ''/''"
      using p le by (cases "p + 2 = length u") (auto simp: seg_at_def hd_drop_conv_nth)
    ultimately show "\<exists>a b. u = a @ ''..'' @ b \<and> (a = [] \<or> last a = CHR ''/'') \<and> (b = [] \<or> hd b = CHR ''/'')"
      using u by blast
  next
    assume "\<exists>a b. u = a @ ''..'' @ b \<and> (a = [] \<or> last a = CHR ''/'') \<and> (b = [] \<or> hd b = CHR ''/'')"
    then obtain a b where u: "u = a @ ''..'' @ b" and a: "a = [] \<or> last a = CHR ''/''" and b: "b = [] \<or> hd b = CHR ''/''"
      by auto
    have "starts_with ''..'' (drop (length a) u)" by (simp add: u starts_with_def)
    moreover have "length a = 0 \<or> u ! (length a - 1) = CHR ''/''"
      using a by (cases "a = []") (auto simp: u nth_append last_conv_nth)
    moreover have "length a + 2 = length u \<or> u ! (length a + 2) = CHR ''/''"
      using b by (cases b) (auto simp: u nth_append)
    ultimately have "seg_at u (length a)" by (simp add: seg_at_def)
    then show "\<exists>p. seg_at u p" ..
  qed
  then show ?thesis by (simp add: split_on_member)
qed

lemma files_resolve_iff:
  "files_resolve u n = Inr p \<longleftrightarrow>
     u \<noteq> [] \<and> hd u = CHR ''/'' \<and> ''..'' \<notin> set (split_on (CHR ''/'') u) \<and> length u + 5 < n \<and> p = FILES_ROOT @ u"
proof -
  have "traversal_loop u 0 \<longleftrightarrow> ''..'' \<in> set (split_on (CHR ''/'') u)"
    by (simp add: traversal_loop_iff seg_at_member [symmetric])
  then show ?thesis by (auto simp: files_resolve_def FILES_ROOT_def)
qed

lemma walk_no_up: "''..'' \<notin> set ss \<Longrightarrow> walk up ss = rev up @ filter (\<lambda>s. s \<noteq> [] \<and> s \<noteq> ''.'') ss"
  by (induction ss arbitrary: up) auto

text \<open>So it names the node under the components as written: nothing above it is reachable.\<close>

lemma key_resolved:
  "''..'' \<notin> set (split_on (CHR ''/'') u) \<Longrightarrow>
     key (FILES_ROOT @ u) = filter (\<lambda>s. s \<noteq> [] \<and> s \<noteq> ''.'') (split_on (CHR ''/'') u)"
  by (simp add: key_def walk_no_up)

section \<open>Windows\<close>

lemma clamp_range_bounds:
  assumes "0 \<le> fsize" and "files_clamp_range fsize offset len = (off', len')"
  shows "0 \<le> off' \<and> off' \<le> fsize \<and> 0 \<le> len' \<and> off' + len' \<le> fsize"
  using assms by (auto simp: files_clamp_range_def Let_def split: if_splits)

lemma clamp_range_exact:
  "0 \<le> offset \<Longrightarrow> 0 \<le> len \<Longrightarrow> offset + len \<le> fsize \<Longrightarrow> files_clamp_range fsize offset len = (offset, len)"
  by (simp add: files_clamp_range_def Let_def)

section \<open>Moves keep every other node\<close>

lemma mkdirs_loop_nodes:
  "(node_at d k \<noteq> None \<longrightarrow> node_at (mkdirs_loop tmp is d) k = node_at d k) \<and>
   (tree_ok d \<longrightarrow> tree_ok (mkdirs_loop tmp is d))"
proof (induction "is" arbitrary: d)
  case (Cons i "is")
  let ?d = "if tmp ! i = CHR ''/'' then sd_mkdir (take i tmp) d else d"
  have "node_at d k \<noteq> None \<longrightarrow> node_at ?d k = node_at d k" "tree_ok d \<longrightarrow> tree_ok ?d"
    using sd_mkdir_nodes(2,3) [of d] by auto
  with Cons [of ?d] show ?case by simp
qed simp

lemma mkdirs_nodes:
  "node_at d k \<noteq> None \<Longrightarrow> node_at (files_mkdirs_for p d) k = node_at d k"
  "tree_ok d \<Longrightarrow> tree_ok (files_mkdirs_for p d)"
  using mkdirs_loop_nodes [of d k] by (auto simp: files_mkdirs_for_def Let_def split: option.splits)

lemma move_spec:
  assumes ok: "tree_ok d" and m: "files_move_path s t d = (res, d')" and k: "node_at d k \<noteq> None"
  shows "tree_ok d'"
    and "isl res \<or> s = t \<Longrightarrow> node_at d' k = node_at d k"
    and "\<not> prefix (key s) k \<Longrightarrow> node_at d' k = node_at d k"
    and "\<not> isl res \<Longrightarrow> s \<noteq> t \<Longrightarrow> k = key s @ x \<Longrightarrow> node_at d' (key t @ x) = node_at d k \<and> node_at d' k = None"
proof -
  let ?d1 = "files_mkdirs_for t d"
  have k1: "node_at ?d1 k = node_at d k" and ok1: "tree_ok ?d1"
    using mkdirs_nodes k ok by blast+
  consider "d' = d" "isl res \<or> s = t" | "sd_rename s t ?d1 = (False, d')" "isl res"
    | "sd_rename s t ?d1 = (True, d')" "\<not> isl res" "sd_stat d t = None" "s \<noteq> t"
    using m by (auto simp: files_move_path_def Let_def split: if_splits prod.splits)
  then have "tree_ok d' \<and> (isl res \<or> s = t \<longrightarrow> node_at d' k = node_at d k) \<and>
      (\<not> prefix (key s) k \<longrightarrow> node_at d' k = node_at d k) \<and>
      (\<not> isl res \<longrightarrow> s \<noteq> t \<longrightarrow> k = key s @ x \<longrightarrow> node_at d' (key t @ x) = node_at d k \<and> node_at d' k = None)"
  proof cases
    case 1
    with ok show ?thesis by auto
  next
    case 2
    then have "node_at d' = node_at ?d1" "tree_ok d'" using sd_rename_failed [of s t ?d1] ok1 by simp_all
    with 2 k1 show ?thesis by simp
  next
    case 3
    note n = sd_rename_nodes [OF ok1 3(1)]
    have "\<not> prefix (key t) k"
    proof
      assume "prefix (key t) k"
      then obtain y where y: "k = key t @ y" by (auto simp: prefix_def)
      with k 3(3) have "y \<noteq> []" by (auto simp: sd_stat_def)
      with tree_ok_ancestor [OF ok] k y 3(3) show False by (auto simp: sd_stat_def)
    qed
    then show ?thesis using 3 k1 tree_ok_rename [OF ok1 3(1)] by (auto simp: n)
  qed
  then show "tree_ok d'" and "isl res \<or> s = t \<Longrightarrow> node_at d' k = node_at d k"
    and "\<not> prefix (key s) k \<Longrightarrow> node_at d' k = node_at d k"
    and "\<not> isl res \<Longrightarrow> s \<noteq> t \<Longrightarrow> k = key s @ x \<Longrightarrow> node_at d' (key t @ x) = node_at d k \<and> node_at d' k = None"
    by auto
qed

section \<open>Hashes\<close>

lemma hash_loop_spec:
  assumes "hash_loop n left ctx k d = (Some (ctx', k'), d')" and "0 < n"
  shows "ctx' = ctx_update ctx (map byte left) \<and> k' = k + length left"
  using assms
proof (induction n left ctx k d rule: hash_loop.induct)
  case (1 n left ctx k d)
  then obtain d1 where r: "sd_read n left d = (Some (take n left), d1)"
    by (auto simp: hash_loop.simps [of n left] sd_read_def split: prod.splits if_splits)
  show ?case
  proof (cases "take n left = []")
    case True
    then have "left = []" using "1.prems"(2) by simp
    with "1.prems" r show ?thesis by (simp add: hash_loop.simps [of n "[]"])
  next
    case False
    with "1.prems" r have h: "hash_loop n (drop (length (take n left)) left) (ctx_update ctx (map byte (take n left)))
        (k + length (take n left)) d1 = (Some (ctx', k'), d')" by (simp add: hash_loop.simps [of n left])
    have l: "left = take n left @ drop (length (take n left)) left" by (simp add: min_def)
    have "ctx_update ctx (map byte left) =
        ctx_update (ctx_update ctx (map byte (take n left))) (map byte (drop (length (take n left)) left))"
      by (subst l) (simp only: map_append sha256_stream.feed_append)
    moreover have "length left = length (take n left) + length (drop (length (take n left)) left)"
      by (subst l) (simp only: length_append)
    ultimately show ?thesis using "1.IH" [OF r [symmetric] refl False h "1.prems"(2)] by (metis add.assoc)
  qed
qed

lemma sd_open_nodes:
  assumes "sd_open p d = (Some b, d1)"
  shows "(\<exists>t. sd_stat d p = Some (Reg b t)) \<and> node_at d1 = node_at d"
proof -
  obtain w d2 where at: "attempt d = (w, d2)" by (cases "attempt d")
  have "sd_stat d2 = sd_stat d" "node_at d2 = node_at d"
    using sd_stat_attempt [of d] node_at_attempt [of d] at by simp_all
  with assms show ?thesis by (auto simp: sd_open_def at Let_def split: option.splits node.splits if_splits)
qed

lemma files_hash_spec:
  assumes "files_hash_sha256 g p n d = (Inr (h, k), d')" and "length g = 64" and "0 < n"
  shows "\<exists>c t. sd_stat d p = Some (Reg c t) \<and> h = hex_encode (sha256_spec (map byte c)) \<and> k = length c"
proof -
  from assms(1) obtain b d1 ctx where o: "sd_open p d = (Some b, d1)"
    and l: "hash_loop n b (ctx_init g) 0 d1 = (Some (ctx, k), d')" and h: "h = hex_encode (ctx_final ctx)"
    by (auto simp: files_hash_sha256_def split: option.splits node.splits prod.splits)
  from sd_open_nodes [OF o] hash_loop_spec [OF l assms(3)] sha256_stream_correct [OF assms(2), of "[map byte b]"] h
  show ?thesis by auto
qed

section \<open>The chunked search is a search of the whole\<close>

lemma mem_find_iff: "needle \<noteq> [] \<Longrightarrow> mem_find hay needle \<longleftrightarrow> sublist needle hay"
proof
  assume n: "needle \<noteq> []" and "mem_find hay needle"
  then obtain i where "take (length needle) (drop i hay) = needle"
    by (auto simp: mem_find_def list_ex_iff)
  then have "hay = take i hay @ needle @ drop (length needle) (drop i hay)"
    by (metis append_take_drop_id)
  then show "sublist needle hay" unfolding sublist_def by blast
next
  assume n: "needle \<noteq> []" and "sublist needle hay"
  then obtain a b where h: "hay = a @ needle @ b" by (auto simp: sublist_def)
  then have "length a \<in> set [0..<length hay + 1 - length needle]" by simp
  moreover have "hay ! length a = needle ! 0" "take (length needle) (drop (length a) hay) = needle"
    using n by (simp_all add: h nth_append)
  ultimately show "mem_find hay needle" unfolding mem_find_def list_ex_iff by auto
qed

lemma sublist_overlap:
  assumes "sublist n (pre @ k @ l)" and "\<not> sublist n (pre @ k)" and "pre = [] \<or> length k = length n - 1"
  shows "sublist n (k @ l)"
proof (cases "pre = []")
  case False
  from assms(1) obtain a c where e: "pre @ k @ l = a @ n @ c" by (auto simp: sublist_def)
  show ?thesis
  proof (cases "length pre \<le> length a")
    case True
    from arg_cong [OF e, of "drop (length pre)"] True have "k @ l = drop (length pre) a @ n @ c" by simp
    then show ?thesis by (auto simp: sublist_def)
  next
    case lt: False
    have "length a + length n \<le> length (pre @ k)" using lt assms(3) False by (auto simp: not_le)
    then have "take (length (pre @ k)) (a @ n @ c) = a @ n @ take (length (pre @ k) - length a - length n) c" by simp
    moreover have "take (length (pre @ k)) (pre @ k @ l) = pre @ k" by simp
    ultimately have "pre @ k = a @ n @ take (length (pre @ k) - length a - length n) c" by (simp only: e)
    with assms(2) show ?thesis by (metis sublist_def)
  qed
qed (use assms(1) in simp)

lemma sd_read_cases:
  assumes "sd_read n left d = (r, d1)"
  shows "node_at d1 = node_at d" and "now_ms d1 = now_ms d" and "faults d = [] \<Longrightarrow> faults d1 = [] \<and> r = Some (take n left)"
    and "r = Some (take n left) \<or> r = None"
proof -
  obtain w d2 where at: "attempt d = (w, d2)" by (cases "attempt d")
  have "d1 = d2" "r = Some (take n left) \<or> r = None" "r = Some (take n left) \<longleftrightarrow> w"
    using assms at by (auto simp: sd_read_def split: if_splits)
  moreover have "node_at d2 = node_at d" "now_ms d2 = now_ms d"
    using node_at_attempt [of d] attempt_keeps(2) [of d] at by simp_all
  moreover have "faults d = [] \<Longrightarrow> faults d2 = [] \<and> w" using at by (auto simp: attempt_def)
  ultimately show "node_at d1 = node_at d" and "now_ms d1 = now_ms d"
    and "faults d = [] \<Longrightarrow> faults d1 = [] \<and> r = Some (take n left)" and "r = Some (take n left) \<or> r = None"
    by blast+
qed

text \<open>What reading leaves alone.\<close>

definition same_card :: "'a disk_scheme \<Rightarrow> 'a disk_scheme \<Rightarrow> bool" where
  "same_card d e \<longleftrightarrow> node_at e = node_at d \<and> now_ms e = now_ms d \<and> (faults d = [] \<longrightarrow> faults e = [])"

lemma same_card_refl [simp]: "same_card d d" by (simp add: same_card_def)

lemma same_card_trans: "same_card d e \<Longrightarrow> same_card e f \<Longrightarrow> same_card d f" by (auto simp: same_card_def)

lemma same_card_stat: "same_card d e \<Longrightarrow> sd_stat e p = sd_stat d p" by (simp add: same_card_def sd_stat_def)

lemma search_loop_spec:
  assumes "search_loop bufsz needle kept left d = (found, d')"
    and "needle \<noteq> []" and "length needle \<le> bufsz" and "length kept < length needle"
  shows "same_card d d'" and "found \<Longrightarrow> sublist needle (kept @ left)"
    and "faults d = [] \<Longrightarrow> sublist needle (kept @ left) \<Longrightarrow> found"
proof -
  have "same_card d d' \<and> (found \<longrightarrow> sublist needle (kept @ left)) \<and>
      (faults d = [] \<longrightarrow> sublist needle (kept @ left) \<longrightarrow> found)"
    using assms
  proof (induction bufsz needle kept left d rule: search_loop.induct)
    case (1 bufsz needle kept left d)
    obtain r d1 where r: "sd_read (bufsz - length kept) left d = (r, d1)" by (cases "sd_read (bufsz - length kept) left d")
    note c = sd_read_cases [OF r]
    have same: "same_card d d1" using c(1-3) by (auto simp: same_card_def)
    show ?case
    proof (cases r)
      case None
      with r "1.prems"(1) have "found = False" "d' = d1" by (simp_all add: search_loop.simps [of bufsz needle kept left])
      moreover have "faults d \<noteq> []" using c(3) None by auto
      ultimately show ?thesis using same by simp
    next
      case (Some n)
      with c(4) have n: "n = take (bufsz - length kept) left" by simp
      show ?thesis
      proof (cases "n = []")
        case True
        then have "left = []" using "1.prems"(3,4) n by simp
        moreover have "\<not> sublist needle kept" using "1.prems"(4) sublist_length_le leD by blast
        moreover have "found = False" "d' = d1"
          using r Some True "1.prems"(1) by (simp_all add: search_loop.simps [of bufsz needle kept left])
        ultimately show ?thesis using same by simp
      next
        case ne: False
        define buf where "buf = kept @ n"
        define keep where "keep = (if length needle - 1 < length buf then length needle - 1 else length buf)"
        define rest where "rest = drop (length n) left"
        have whole: "kept @ left = buf @ rest"
          by (cases "bufsz - length kept \<le> length left") (simp_all add: buf_def rest_def n min_def)
        have found_iff: "mem_find buf needle \<longleftrightarrow> sublist needle buf" by (rule mem_find_iff [OF "1.prems"(2)])
        have unf: "search_loop bufsz needle kept left d =
            (if mem_find buf needle then (True, d1) else search_loop bufsz needle (drop (length buf - keep) buf) rest d1)"
          using r Some ne by (simp add: search_loop.simps [of bufsz needle kept left] buf_def keep_def rest_def Let_def)
        show ?thesis
        proof (cases "mem_find buf needle")
          case True
          then have "sublist needle (kept @ left)"
            unfolding whole found_iff by (rule sublist_order.order_trans [OF _ sublist_append_rightI])
          with unf True "1.prems"(1) same show ?thesis by simp
        next
          case False
          with unf "1.prems"(1) have rec: "search_loop bufsz needle (drop (length buf - keep) buf) rest d1 = (found, d')"
            by simp
          have keep: "keep \<le> length buf" "keep < length needle"
            "keep = length buf \<or> keep = length needle - 1" using "1.prems"(4) by (auto simp: keep_def)
          then have lk: "length (drop (length buf - keep) buf) < length needle" by simp
          have ih: "same_card d1 d' \<and> (found \<longrightarrow> sublist needle (drop (length buf - keep) buf @ rest)) \<and>
              (faults d1 = [] \<longrightarrow> sublist needle (drop (length buf - keep) buf @ rest) \<longrightarrow> found)"
            using "1.IH" [OF r [symmetric] Some ne buf_def False keep_def _ "1.prems"(2,3) lk] rec by (simp add: rest_def)
          define pre post where "pre = take (length buf - keep) buf" and "post = drop (length buf - keep) buf"
          have sp: "buf = pre @ post" by (simp add: pre_def post_def)
          have "sublist needle (kept @ left) \<longleftrightarrow> sublist needle (post @ rest)"
          proof
            assume "sublist needle (kept @ left)"
            then have "sublist needle (pre @ post @ rest)" by (simp add: whole sp)
            moreover have "\<not> sublist needle (pre @ post)" using False found_iff sp by simp
            moreover have "pre = [] \<or> length post = length needle - 1" using keep by (auto simp: pre_def post_def)
            ultimately show "sublist needle (post @ rest)" by (rule sublist_overlap)
          next
            assume "sublist needle (post @ rest)"
            then show "sublist needle (kept @ left)"
              unfolding whole sp append_assoc by (rule sublist_order.order_trans [OF _ sublist_append_leftI])
          qed
          with ih same c(3) show ?thesis unfolding post_def by (auto intro: same_card_trans)
        qed
      qed
    qed
  qed
  then show "same_card d d'" and "found \<Longrightarrow> sublist needle (kept @ left)"
    and "faults d = [] \<Longrightarrow> sublist needle (kept @ left) \<Longrightarrow> found" by blast+
qed

lemma search_file_spec:
  assumes "search_file p start needle bufsz d = (found, d')" and "needle \<noteq> []" and "length needle \<le> bufsz"
  shows "same_card d d'"
    and "found \<Longrightarrow> \<exists>c t. sd_stat d p = Some (Reg c t) \<and> sublist needle (drop (start - (length needle - 1)) c)"
    and "faults d = [] \<Longrightarrow> sd_stat d p = Some (Reg c t) \<Longrightarrow>
      sublist needle (drop (start - (length needle - 1)) c) \<Longrightarrow> found"
proof -
  obtain r d1 where o: "sd_open p d = (r, d1)" by (cases "sd_open p d")
  obtain w d2 where at: "attempt d = (w, d2)" by (cases "attempt d")
  have d2: "sd_stat d2 = sd_stat d" "node_at d2 = node_at d" "now_ms d2 = now_ms d"
    using sd_stat_attempt [of d] node_at_attempt [of d] attempt_keeps(2) [of d] at by simp_all
  have f: "faults d = [] \<Longrightarrow> faults d2 = [] \<and> w" using at by (auto simp: attempt_def)
  have d1: "d1 = d2" using o at by (auto simp: sd_open_def split: option.splits node.splits)
  have same: "same_card d d1" using d2 f by (auto simp: same_card_def d1)
  have l: "length [] < length needle" using assms(2) by simp
  show "same_card d d'"
  proof (cases r)
    case None
    with assms(1) o same show ?thesis by (simp add: search_file_def)
  next
    case (Some b)
    with assms(1) o have "search_loop bufsz needle [] (drop (start - (length needle - 1)) b) d1 = (found, d')"
      by (simp add: search_file_def)
    from search_loop_spec(1) [OF this assms(2,3) l] same show ?thesis by (blast intro: same_card_trans)
  qed
  show "\<exists>c t. sd_stat d p = Some (Reg c t) \<and> sublist needle (drop (start - (length needle - 1)) c)" if found
  proof -
    from that assms(1) o obtain b where b: "r = Some b"
      "search_loop bufsz needle [] (drop (start - (length needle - 1)) b) d1 = (found, d')"
      by (cases r) (auto simp: search_file_def)
    from search_loop_spec(2) [OF b(2) assms(2,3) l that] sd_open_nodes [of p d b d1] o b(1) show ?thesis by auto
  qed
  show found if ff: "faults d = []" and s: "sd_stat d p = Some (Reg c t)"
    and sub: "sublist needle (drop (start - (length needle - 1)) c)"
  proof -
    have "r = Some c" using o at f [OF ff] s d2 by (auto simp: sd_open_def)
    with assms(1) o have "search_loop bufsz needle [] (drop (start - (length needle - 1)) c) d1 = (found, d')"
      by (simp add: search_file_def)
    from search_loop_spec(3) [OF this assms(2,3) l] f [OF ff] d1 sub show ?thesis by simp
  qed
qed

text \<open>Searching on from where the last search ended misses nothing when the file has only grown.\<close>

lemma search_resumes:
  assumes "\<not> sublist needle (take k c)" and "k \<le> length c"
  shows "sublist needle (drop (k - (length needle - 1)) c) \<longleftrightarrow> sublist needle c"
proof
  define j where "j = k - (length needle - 1)"
  define a b where "a = take j c" and "b = drop j (take k c)"
  assume sub: "sublist needle c"
  have "take j (take k c) = a" by (simp add: a_def j_def min_def)
  then have t: "take k c = a @ b" unfolding b_def by (metis append_take_drop_id)
  have "take k c @ drop k c = c" by simp
  then have c: "c = a @ b @ drop k c" unfolding t by simp
  have "j \<le> length c" using assms(2) by (simp add: j_def)
  then have "length a = j" by (simp add: a_def)
  then have d: "drop j c = b @ drop k c" using arg_cong [OF c, of "drop j"] by simp
  have "a = [] \<or> length b = length needle - 1" using assms(2) by (auto simp: a_def b_def j_def)
  moreover have "sublist needle (a @ b @ drop k c)" using sub c by simp
  moreover have "\<not> sublist needle (a @ b)" using assms(1) t by simp
  ultimately have "sublist needle (b @ drop k c)" using sublist_overlap by blast
  then show "sublist needle (drop (k - (length needle - 1)) c)" using d by (simp add: j_def)
next
  assume "sublist needle (drop (k - (length needle - 1)) c)"
  then show "sublist needle c" by (metis append_take_drop_id sublist_append_leftI sublist_order.order_trans)
qed

section \<open>A wait ends, and what it reports is so\<close>

lemma wait_check_spec:
  assumes "wait_check p needle bufsz res scanned d = (res', scanned', d')" and "length needle \<le> bufsz"
  shows "same_card d d'"
    and "\<not> met res \<Longrightarrow> met res' \<Longrightarrow> \<exists>c t. sd_stat d p = Some (Reg c t) \<and> sublist needle c \<and> file_size res' = length c"
    and "fexists res' \<longleftrightarrow> (\<exists>c t. sd_stat d p = Some (Reg c t))"
proof -
  have "same_card d d' \<and> (\<not> met res \<longrightarrow> met res' \<longrightarrow>
      (\<exists>c t. sd_stat d p = Some (Reg c t) \<and> sublist needle c \<and> file_size res' = length c)) \<and>
      (fexists res' \<longleftrightarrow> (\<exists>c t. sd_stat d p = Some (Reg c t)))"
  proof (cases "\<exists>c t. sd_stat d p = Some (Reg c t)")
    case False
    then have "res' = res\<lparr>fexists := False\<rparr>" "d' = d"
      using assms(1) by (auto simp: wait_check_def split: option.splits node.splits)
    with False show ?thesis by simp
  next
    case True
    then obtain c t where c: "sd_stat d p = Some (Reg c t)" by auto
    show ?thesis
    proof (cases "needle = []")
      case True
      with c assms(1) show ?thesis by (auto simp: wait_check_def)
    next
      case n: False
      let ?s = "if length c < scanned then 0 else scanned"
      obtain found d1 where s: "search_file p ?s needle bufsz d = (found, d1)" by fastforce
      note sf = search_file_spec [OF s n assms(2)]
      have sub: "found \<Longrightarrow> sublist needle c"
        using sf(2) c by (metis append_take_drop_id node.inject option.inject sublist_append_leftI sublist_order.order_trans)
      show ?thesis
        using assms(1) c n s sf(1) sub
        by (cases "length c > ?s") (auto simp: wait_check_def Let_def split: if_splits)
    qed
  qed
  then show "same_card d d'"
    and "\<not> met res \<Longrightarrow> met res' \<Longrightarrow> \<exists>c t. sd_stat d p = Some (Reg c t) \<and> sublist needle c \<and> file_size res' = length c"
    and "fexists res' \<longleftrightarrow> (\<exists>c t. sd_stat d p = Some (Reg c t))" by blast+
qed

text \<open>The clock of the card runs on during a wait that is not cut short.\<close>

definition wait_ok :: "(int \<Rightarrow> 'a disk_scheme \<Rightarrow> bool \<times> 'a disk_scheme) \<Rightarrow> bool" where
  "wait_ok wait \<longleftrightarrow> (\<forall>ms d. fst (wait ms d) \<longrightarrow> int (now_ms (snd (wait ms d))) \<ge> int (now_ms d) + ms)"

lemma files_wait_loop_returns:
  assumes "wait_ok wait" and "length needle \<le> bufsz" and "\<not> met res"
  shows "\<exists>res' d'. files_wait_loop wait p needle bufsz timeout start res scanned d = Some (res', d') \<and>
    (met res' \<longrightarrow> (\<exists>c t. sd_stat d' p = Some (Reg c t) \<and> sublist needle c \<and> file_size res' = length c))"
  using assms(3)
proof (induction "nat (timeout - (int (now_ms d) - int start))" arbitrary: res scanned d rule: less_induct)
  case less
  obtain res1 scanned1 d1 where w: "wait_check p needle bufsz res scanned d = (res1, scanned1, d1)"
    by (metis prod_cases3)
  note wc = wait_check_spec [OF w assms(2)]
  have now: "now_ms d1 = now_ms d" using wc(1) by (simp add: same_card_def)
  let ?res = "res1\<lparr>elapsed_ms := int (now_ms d1) - int start\<rparr>"
  have unf: "files_wait_loop wait p needle bufsz timeout start res scanned d =
      (if met ?res \<or> elapsed_ms ?res \<ge> timeout then Some (?res, d1)
       else let left = timeout - elapsed_ms ?res;
                (go, d) = wait (if left < FILES_WAIT_POLL_MS then left else FILES_WAIT_POLL_MS) d1
            in if \<not> go then Some (?res, d)
               else files_wait_loop wait p needle bufsz timeout start ?res scanned1 d)"
    by (subst files_wait_loop.simps) (simp add: w Let_def)
  show ?case
  proof (cases "met ?res \<or> elapsed_ms ?res \<ge> timeout")
    case True
    with unf wc(2) [OF less.prems] same_card_stat [OF wc(1)] show ?thesis by auto
  next
    case False
    let ?ms = "if timeout - elapsed_ms ?res < FILES_WAIT_POLL_MS then timeout - elapsed_ms ?res else FILES_WAIT_POLL_MS"
    obtain go d2 where g: "wait ?ms d1 = (go, d2)" by fastforce
    show ?thesis
    proof (cases go)
      case nogo: False
      with unf False g show ?thesis by (auto simp: Let_def)
    next
      case True
      have "0 < ?ms" using False by (simp add: FILES_WAIT_POLL_MS_def)
      moreover have "int (now_ms d2) \<ge> int (now_ms d1) + ?ms"
        using assms(1) g True unfolding wait_ok_def by (metis fst_conv snd_conv)
      ultimately have "nat (timeout - (int (now_ms d2) - int start)) < nat (timeout - (int (now_ms d) - int start))"
        using False now by simp
      moreover have "\<not> met ?res" using False by simp
      ultimately obtain res' d' where ih: "files_wait_loop wait p needle bufsz timeout start ?res scanned1 d2 = Some (res', d')"
        "met res' \<longrightarrow> (\<exists>c t. sd_stat d' p = Some (Reg c t) \<and> sublist needle c \<and> file_size res' = length c)"
        using less.hyps by blast
      then show ?thesis using unf False g True by (auto simp: Let_def)
    qed
  qed
qed

section \<open>Properties\<close>

text \<open>C21: a path is accepted exactly when it is absolute, has no parent segment and fits; the accepted
  path is the user's under the card's root and denotes the node with the components as written.\<close>

theorem resolve_confined:
  "files_resolve u n = Inr p \<longleftrightarrow>
     u \<noteq> [] \<and> hd u = CHR ''/'' \<and> ''..'' \<notin> set (split_on (CHR ''/'') u) \<and> length u + 5 < n \<and>
     p = FILES_ROOT @ u \<and> key p = filter (\<lambda>s. s \<noteq> [] \<and> s \<noteq> ''.'') (split_on (CHR ''/'') u)"
  by (auto simp: files_resolve_iff key_resolved)

text \<open>C12: a move never overwrites and never loses anything: it leaves the card a tree, keeps every node
  outside the source, changes nothing that existed when it fails, and otherwise the nodes under the source are
  found under the destination and no longer under the source.\<close>

theorem move_loses_nothing:
  "tree_ok d \<Longrightarrow> files_move_path s t d = (res, d') \<Longrightarrow> node_at d k \<noteq> None \<Longrightarrow>
     tree_ok d' \<and>
     (if isl res \<or> s = t \<or> \<not> prefix (key s) k then node_at d' k = node_at d k
      else node_at d' (key t @ drop (length (key s)) k) = node_at d k \<and> node_at d' k = None)"
proof -
  assume a: "tree_ok d" "files_move_path s t d = (res, d')" "node_at d k \<noteq> None"
  note m = move_spec [OF a]
  have "k = key s @ drop (length (key s)) k" if "prefix (key s) k" using that by (auto simp: prefix_def)
  with m(1,2,3) m(4) [of "drop (length (key s)) k"] show ?thesis by auto
qed

definition demo_disk :: disk where
  "demo_disk = \<lparr>nodes = [([''a''], Reg ''xyz'' 7)], faults = [], now_ms = 0, rename_over = False\<rparr>"

theorem move_loses_nothing_witness:
  "node_at (snd (files_move_path ''sdmc:/a'' ''sdmc:/b'' demo_disk)) [''b''] = Some (Reg ''xyz'' 7)"
proof -
  have k: "key ''sdmc:/a'' = [''a'']" "key ''sdmc:/b'' = [''b'']"
    by (simp_all add: key_def FILES_ROOT_def starts_with_def)
  have t: "tree_ok demo_disk" by (simp add: tree_ok_def demo_disk_def is_dir_def node_at_def)
  have n: "node_at demo_disk [''a''] = Some (Reg ''xyz'' 7)" by (simp add: node_at_def demo_disk_def)
  have r: "\<not> isl (fst (files_move_path ''sdmc:/a'' ''sdmc:/b'' demo_disk))"
    by (simp add: files_move_path_def sd_stat_def k files_mkdirs_for_def fit_def sd_rename_def attempt_def
        is_dir_def node_at_def demo_disk_def Let_def)
  show ?thesis
    using move_loses_nothing [where s = "''sdmc:/a''" and t = "''sdmc:/b''" and k = "[''a'']", OF t prod.collapse [symmetric]] n r k
    by simp
qed

text \<open>The hash reported for a file is the SHA-256 of its bytes in hexadecimal, with its length, however
  large the read buffer is; a read error is never taken for the end of the file.\<close>

theorem hash_is_of_the_file:
  "files_hash_sha256 g p n d = (Inr (h, k), d') \<Longrightarrow> length g = 64 \<Longrightarrow> 0 < n \<Longrightarrow>
     \<exists>c t. sd_stat d p = Some (Reg c t) \<and> h = hex_encode (sha256_spec (map byte c)) \<and> k = length c"
  by (rule files_hash_spec)

theorem hash_is_of_the_file_witness:
  "\<exists>h d'. files_hash_sha256 (replicate 64 0) ''sdmc:/a'' 2 demo_disk = (Inr (h, 3), d') \<and>
     h = hex_encode (sha256_spec (map byte ''xyz''))"
proof -
  have k: "key ''sdmc:/a'' = [''a'']" by (simp add: key_def FILES_ROOT_def starts_with_def)
  obtain h d' where f: "files_hash_sha256 (replicate 64 0) ''sdmc:/a'' 2 demo_disk = (Inr (h, 3), d')"
    by (simp add: files_hash_sha256_def sd_stat_def sd_open_def k node_at_def demo_disk_def attempt_def
        hash_loop.simps sd_read_def)
  from hash_is_of_the_file [OF f] have "h = hex_encode (sha256_spec (map byte ''xyz''))"
    by (auto simp: sd_stat_def k node_at_def demo_disk_def)
  with f show ?thesis by blast
qed

text \<open>C28: a wait for a file always returns when the clock runs on while it sleeps, and when it reports success
  the file is on the card, has the reported size and holds the text waited for.\<close>

theorem file_wait_returns:
  "wait_ok wait \<Longrightarrow> length needle \<le> bufsz \<Longrightarrow>
     \<exists>res d'. files_wait wait p needle new_only timeout bufsz d = Some (res, d') \<and>
       (met res \<longrightarrow> (\<exists>c t. sd_stat d' p = Some (Reg c t) \<and> sublist needle c \<and> file_size res = length c))"
  unfolding files_wait_def Let_def by (rule files_wait_loop_returns) simp_all

theorem file_wait_returns_witness:
  "\<exists>res d'. files_wait (\<lambda>ms d. (True, d\<lparr>now_ms := now_ms d + nat ms\<rparr>)) ''sdmc:/a'' ''yz'' False 1000 16 demo_disk
     = Some (res, d')"
proof -
  have "wait_ok (\<lambda>ms d. (True, d\<lparr>now_ms := now_ms d + nat ms\<rparr> :: disk))" by (simp add: wait_ok_def)
  from file_wait_returns [OF this, of "''yz''" 16 "''sdmc:/a''" False 1000 demo_disk] show ?thesis by auto
qed

end
