(* ===== verification/Files_Http.thy ===== *)
theory Files_Http
  imports Files
begin

text \<open>
  \<open>source/features/files/files_http.c\<close>: the REST front-end of the file operations. A handler acts on the
  card and the request. What it cannot compute is an argument: the indeterminate bytes of a stack buffer
  (\<open>stale\<close>), of a hash context (\<open>garbage\<close>), and the wait of the server (\<open>wait\<close>).
\<close>

section \<open>Replies\<close>

definition reply_error :: "nat \<Rightarrow> string \<Rightarrow> HttpRequest \<Rightarrow> HttpRequest" where
  "reply_error code msg r = r\<lparr>fd := http_send_error code msg (fd r)\<rparr>"

definition reply_json :: "nat \<Rightarrow> string \<Rightarrow> HttpRequest \<Rightarrow> HttpRequest" where
  "reply_json code body r = r\<lparr>fd := http_send_json code body (fd r)\<rparr>"

text \<open>A JSON object from its members, each already rendered.\<close>

definition member :: "string \<Rightarrow> string \<Rightarrow> string" where
  "member k v = quoted k @ '':'' @ v"

fun json_members :: "string list \<Rightarrow> string" where
  "json_members [] = []"
| "json_members [m] = m"
| "json_members (m # ms) = m @ '','' @ json_members ms"

definition json_obj :: "string list \<Rightarrow> string" where
  "json_obj ms = ''{'' @ json_members ms @ ''}''"

definition json_bool :: "bool \<Rightarrow> string" where
  "json_bool b = (if b then ''true'' else ''false'')"

section \<open>Downloads\<close>

definition FILES_IO_BUF_SIZE :: nat where
  "FILES_IO_BUF_SIZE = 0x8000"

definition resolve_query_path :: "nat \<Rightarrow> HttpRequest \<Rightarrow> string option \<times> HttpRequest" where
  "resolve_query_path outsz r =
     (case http_query_get r ''path'' 512 of
        None \<Rightarrow> (None, reply_error 400 ''missing 'path' query parameter'' r)
      | Some p \<Rightarrow>
          if p = [] then (None, reply_error 400 ''missing 'path' query parameter'' r)
          else case files_resolve p outsz of
            Inl emsg \<Rightarrow> (None, reply_error 400 emsg r)
          | Inr fspath \<Rightarrow> (Some fspath, r))"

definition content_type_for :: "string \<Rightarrow> string" where
  "content_type_for p =
     (case after_last (CHR ''.'') p of
        None \<Rightarrow> ''application/octet-stream''
      | Some ext \<Rightarrow>
          if strcaseeq ext ''txt'' \<or> strcaseeq ext ''log'' \<or> strcaseeq ext ''ini'' \<or> strcaseeq ext ''cfg'' \<or>
             strcaseeq ext ''md'' then ''text/plain''
          else if strcaseeq ext ''json'' then json_type
          else if strcaseeq ext ''html'' \<or> strcaseeq ext ''htm'' then ''text/html''
          else if strcaseeq ext ''jpg'' \<or> strcaseeq ext ''jpeg'' then ''image/jpeg''
          else if strcaseeq ext ''png'' then ''image/png''
          else ''application/octet-stream'')"

function send_loop :: "string \<Rightarrow> nat \<Rightarrow> 'a disk_scheme \<Rightarrow> conn \<Rightarrow> 'a disk_scheme \<times> conn" where
  "send_loop left remaining d c =
     (if \<not> remaining > 0 then (d, c)
      else case sd_read (if remaining > FILES_IO_BUF_SIZE then FILES_IO_BUF_SIZE else remaining) left d of
        (None, d) \<Rightarrow> (d, c)
      | (Some b, d) \<Rightarrow>
          if b = [] then (d, c)
          else let (ok, c) = http_write_all b c in
            if \<not> ok then (d, c) else send_loop (drop (length b) left) (remaining - length b) d c)"
  by pat_completeness auto
termination
  by (relation "measure (\<lambda>(left, remaining, d, c). length left)") (auto simp: sd_read_def split: prod.splits if_splits)

declare send_loop.simps [simp del]

definition send_file :: "string \<Rightarrow> nat \<Rightarrow> 'a disk_scheme \<times> HttpRequest \<Rightarrow> 'a disk_scheme \<times> HttpRequest" where
  "send_file fspath st_size dr =
     (let (d, r) = dr;
          offset = (case http_query_get r ''offset'' 32 of Some v \<Rightarrow> atoll v | None \<Rightarrow> 0);
          len = (case http_query_get r ''length'' 32 of Some v \<Rightarrow> atoll v | None \<Rightarrow> - 1);
          (offset, len) = files_clamp_range (int st_size) offset len
      in case request_alloc FILES_IO_BUF_SIZE r of
           (None, r) \<Rightarrow> (d, reply_error 500 ''out of request memory'' r)
         | (Some buf, r) \<Rightarrow>
             (case sd_open fspath d of
                (None, d) \<Rightarrow> (d, reply_error 404 ''file not found'' r)
              | (Some bytes, d) \<Rightarrow>
                  let (sought, d) = (if offset > 0 then attempt d else (True, d)) in
                  if \<not> sought then (d, reply_error 500 ''seek failed'' r)
                  else let c = http_send_header 200 (content_type_for fspath) (nat len) (fd r);
                           (d, c) = send_loop (drop (nat offset) bytes) (nat len) d c
                       in (d, r\<lparr>fd := c\<rparr>)))"

definition get_files :: "string \<Rightarrow> 'a disk_scheme handler" where
  "get_files stale dr =
     (let (d, r) = dr in
      case resolve_query_path 768 r of
        (None, r) \<Rightarrow> (d, r)
      | (Some fspath, r) \<Rightarrow>
          let (want_dir, fspath) = files_trim_slash fspath in
          case sd_stat d fspath of
            None \<Rightarrow> (d, reply_error 404 ''no such file or directory'' r)
          | Some Dir \<Rightarrow>
              (let ((json, cap), r) = request_alloc_rest r;
                   (res, d) = files_build_listing stale fspath (drop (length FILES_ROOT) fspath) cap d
               in case res of
                    Inl emsg \<Rightarrow> (d, reply_error 500 emsg (request_trim json 0 r))
                  | Inr text \<Rightarrow>
                      (let r = request_trim json (length text) r
                       in (d, r\<lparr>fd := http_send_response 200 json_type text (fd r)\<rparr>)))
          | Some (Reg c t) \<Rightarrow>
              if want_dir then (d, reply_error 400 ''not a directory'' r)
              else send_file fspath (length c) (d, r))"

definition has_text :: "string \<Rightarrow> string \<Rightarrow> bool" where
  "has_text emsg s \<longleftrightarrow> strstr s emsg \<noteq> None"

definition get_hash :: "u8 list \<Rightarrow> 'a disk_scheme handler" where
  "get_hash garbage dr =
     (let (d, r) = dr in
      case resolve_query_path 768 r of
        (None, r) \<Rightarrow> (d, r)
      | (Some fspath, r) \<Rightarrow>
          (case request_alloc FILES_IO_BUF_SIZE r of
             (None, r) \<Rightarrow> (d, reply_error 500 ''out of request memory'' r)
           | (Some buf, r) \<Rightarrow>
               (case files_hash_sha256 garbage fspath FILES_IO_BUF_SIZE d of
                  (Inl emsg, d) \<Rightarrow>
                    (d, reply_error (if has_text emsg ''no such'' then 404 else if has_text emsg ''directory'' then 400 else 500) emsg r)
                | (Inr (h, sz), d) \<Rightarrow>
                    let (p, r) = request_json_escape (drop (length FILES_ROOT) fspath) r
                    in (d, reply_json 200 (json_obj [member ''path'' (quoted p), member ''algorithm'' (quoted ''sha256''),
                          member ''hash'' (quoted h), member ''size'' (dec sz)]) r))))"

section \<open>Uploads\<close>

definition FILES_UPLOAD_SUFFIX :: string where
  "FILES_UPLOAD_SUFFIX = ''.upload''"

text \<open>The loop that writes the body: whether a write failed, and how much has been written.\<close>

function upload_loop ::
    "string \<Rightarrow> nat \<Rightarrow> nat \<Rightarrow> 'a disk_scheme \<Rightarrow> HttpRequest \<Rightarrow> bool \<times> nat \<times> 'a disk_scheme \<times> HttpRequest" where
  "upload_loop tmp len sofar d r =
     (if \<not> sofar < len then (False, sofar, d, r)
      else case http_read_body FILES_IO_BUF_SIZE r of
        (None, r) \<Rightarrow> (False, sofar, d, r)
      | (Some b, r) \<Rightarrow>
          if b = [] then (False, sofar, d, r)
          else case sd_write tmp b d of
            (False, d) \<Rightarrow> (True, sofar, d, r)
          | (True, d) \<Rightarrow> upload_loop tmp len (sofar + length b) d r)"
  by pat_completeness auto
termination
  by (relation "measure (\<lambda>(tmp, len, sofar, d, r). len - sofar)")
    (auto simp: length_greater_0_conv [symmetric] simp del: length_greater_0_conv)

declare upload_loop.simps [simp del]

definition put_files :: "'a disk_scheme handler" where
  "put_files dr =
     (let (d, r) = dr in
      case resolve_query_path 768 r of
        (None, r) \<Rightarrow> (d, r)
      | (Some fspath, r) \<Rightarrow>
          if \<not> has_content_length r then (d, reply_error 411 ''Content-Length required'' r)
          else case request_alloc FILES_IO_BUF_SIZE r of
            (None, r) \<Rightarrow> (d, reply_error 500 ''out of request memory'' r)
          | (Some buf, r) \<Rightarrow>
              let d = files_mkdirs_for fspath d;
                  tmp = fit 800 (fspath @ FILES_UPLOAD_SUFFIX)
              in case sd_create tmp d of
                   (False, d) \<Rightarrow> (d, reply_error 500 ''failed to open file for writing'' r)
                 | (True, d) \<Rightarrow>
                     let (write_err, n, d, r) = upload_loop tmp (content_length r) 0 d r;
                         (closed, d) = sd_close d
                     in if write_err \<or> \<not> closed
                        then (snd (sd_remove tmp d), reply_error 507 ''write failed (sd card full?)'' r)
                        else if n \<noteq> content_length r
                        then (snd (sd_remove tmp d), reply_error 400 ''incomplete upload'' r)
                        else let d = snd (sd_remove fspath d);
                                 (renamed, d) = sd_rename tmp fspath d
                             in if \<not> renamed
                                then (snd (sd_remove tmp d), reply_error 500 ''failed to move upload into place'' r)
                                else let (p, r) = request_json_escape (drop (length FILES_ROOT) fspath) r
                                     in (d, reply_json 201 (json_obj [member ''written'' (dec n), member ''path'' (quoted p)]) r))"

section \<open>Deleting, moving, waiting\<close>

definition delete_files :: "'a disk_scheme handler" where
  "delete_files dr =
     (let (d, r) = dr in
      case resolve_query_path 768 r of
        (None, r) \<Rightarrow> (d, r)
      | (Some fspath, r) \<Rightarrow>
          (case files_delete_path fspath d of
             (Inl emsg, d) \<Rightarrow>
               (d, reply_error (if has_text emsg ''no such'' then 404 else if has_text emsg ''not empty'' then 409 else 500) emsg r)
           | (Inr u, d) \<Rightarrow>
               let (p, r) = request_json_escape (drop (length FILES_ROOT) fspath) r
               in (d, reply_json 200 (json_obj [member ''deleted'' (quoted p)]) r)))"

definition post_move :: "'a disk_scheme handler" where
  "post_move dr =
     (let (d, r) = dr in
      case resolve_query_path 768 r of
        (None, r) \<Rightarrow> (d, r)
      | (Some source, r) \<Rightarrow>
          (let missing = (d, reply_error 400 ''missing 'to' query parameter'' r) in
           case http_query_get r ''to'' 512 of
             None \<Rightarrow> missing
           | Some to \<Rightarrow>
               if to = [] then missing
               else case files_resolve to 768 of
                 Inl emsg \<Rightarrow> (d, reply_error 400 emsg r)
               | Inr dst \<Rightarrow>
                   (case files_move_path source dst d of
                      (Inl emsg, d) \<Rightarrow>
                        (d, reply_error (if has_text emsg ''no such'' then 404 else if has_text emsg ''exists'' then 409 else 500) emsg r)
                    | (Inr u, d) \<Rightarrow>
                        let (p, r) = request_json_escape (drop (length FILES_ROOT) source) r;
                            (q, r) = request_json_escape (drop (length FILES_ROOT) dst) r
                        in (d, reply_json 200 (json_obj [member ''moved'' (quoted p), member ''to'' (quoted q)]) r))))"

definition FILES_WAIT_MAX_NEEDLE :: nat where
  "FILES_WAIT_MAX_NEEDLE = 256"

definition FILES_WAIT_DEFAULT_TIMEOUT_MS :: int where
  "FILES_WAIT_DEFAULT_TIMEOUT_MS = 10000"

text \<open>A wait that never ends leaves the card and the request as they are; see \<open>file_wait_returns\<close>.\<close>

definition get_wait :: "(int \<Rightarrow> 'a disk_scheme \<Rightarrow> bool \<times> 'a disk_scheme) \<Rightarrow> 'a disk_scheme handler" where
  "get_wait wait dr =
     (let (d, r) = dr in
      case resolve_query_path 768 r of
        (None, r) \<Rightarrow> (d, r)
      | (Some fspath, r) \<Rightarrow>
          let contains = (case http_query_get r ''contains'' (FILES_WAIT_MAX_NEEDLE + 1) of Some v \<Rightarrow> v | None \<Rightarrow> []);
              new_only = (case http_query_get r ''newOnly'' 16 of Some v \<Rightarrow> v = ''1'' \<or> v = ''true'' | None \<Rightarrow> False);
              timeout = (case http_query_get r ''timeoutMs'' 16 of Some v \<Rightarrow> atoi v | None \<Rightarrow> FILES_WAIT_DEFAULT_TIMEOUT_MS)
          in case request_alloc FILES_IO_BUF_SIZE r of
               (None, r) \<Rightarrow> (d, reply_error 500 ''out of request memory'' r)
             | (Some buf, r) \<Rightarrow>
                 (case files_wait wait fspath contains new_only timeout FILES_IO_BUF_SIZE d of
                    None \<Rightarrow> (d, r)
                  | Some (res, d) \<Rightarrow>
                      (d, reply_json 200 (json_obj [member ''met'' (json_bool (met res)), member ''elapsedMs'' (dec_int (elapsed_ms res)),
                         member ''exists'' (json_bool (fexists res)), member ''size'' (dec (file_size res))]) r)))"

definition files_http_register ::
    "string \<Rightarrow> u8 list \<Rightarrow> (int \<Rightarrow> 'a disk_scheme \<Rightarrow> bool \<times> 'a disk_scheme) \<Rightarrow> 'a disk_scheme Server \<Rightarrow> 'a disk_scheme Server" where
  "files_http_register stale garbage wait s =
     fold (\<lambda>(m, p, h) s. snd (http_server_register_route m p h s))
       [(''GET'', ''/files'', get_files stale), (''GET'', ''/files/hash'', get_hash garbage), (''PUT'', ''/files'', put_files),
        (''DELETE'', ''/files'', delete_files), (''POST'', ''/files/move'', post_move), (''GET'', ''/wait/file'', get_wait wait)] s"

section \<open>The temporary file is another file\<close>

lemma split_on_append_nosep:
  "c \<notin> set x \<Longrightarrow> split_on c (u @ x) = butlast (split_on c u) @ [last (split_on c u) @ x]"
proof (induction u)
  case Nil
  then show ?case by (simp add: split_on_nodot)
next
  case (Cons a u)
  obtain y ys where "split_on c u = y # ys" using split_on_nonempty by (cases "split_on c u") auto
  with Cons show ?case by (cases ys) auto
qed

lemma key_suffixed_at:
  assumes "files_resolve u n = Inr p" and x: "CHR ''/'' \<notin> set x" "2 < length x"
    and up: "up = filter (\<lambda>s. s \<noteq> [] \<and> s \<noteq> ''.'') (butlast (split_on (CHR ''/'') u))" and l: "l = last (split_on (CHR ''/'') u)"
  shows "key (p @ x) = up @ [l @ x]" and "key p = up @ (if l \<noteq> [] \<and> l \<noteq> ''.'' then [l] else [])"
proof -
  from assms have p: "p = FILES_ROOT @ u" and nd: "''..'' \<notin> set (split_on (CHR ''/'') u)"
    by (auto simp: files_resolve_iff)
  define ss where "ss = butlast (split_on (CHR ''/'') u)"
  have s: "split_on (CHR ''/'') u = ss @ [l]" by (simp add: ss_def l split_on_nonempty)
  have t: "split_on (CHR ''/'') (u @ x) = ss @ [l @ x]"
    using x(1) by (simp add: split_on_append_nosep ss_def l)
  have len: "2 < length (l @ x)" using x(2) by simp
  have ne: "l @ x \<noteq> ''..''" "l @ x \<noteq> [] \<and> l @ x \<noteq> ''.''"
    using len by (auto dest: arg_cong [of _ _ length])
  with nd s have "''..'' \<notin> set (split_on (CHR ''/'') (u @ x))" by (auto simp: t)
  from key_resolved [OF this] ne show "key (p @ x) = up @ [l @ x]" by (simp add: p t up ss_def)
  show "key p = up @ (if l \<noteq> [] \<and> l \<noteq> ''.'' then [l] else [])" using key_resolved [OF nd] by (simp add: p s up ss_def [symmetric])
qed

lemma key_suffixed:
  assumes "files_resolve u n = Inr p" and "CHR ''/'' \<notin> set x" "2 < length x"
  shows "key (p @ x) \<noteq> key p" and "key (p @ x) \<noteq> []"
    and "\<not> prefix (key (p @ x)) (key p)"
  unfolding key_suffixed_at [OF assms refl refl] using assms(3) by auto

lemma key_upload_tmp:
  assumes "files_resolve u n = Inr p"
  shows "key (p @ FILES_UPLOAD_SUFFIX) \<noteq> key p" and "key (p @ FILES_UPLOAD_SUFFIX) \<noteq> []"
    and "\<not> prefix (key (p @ FILES_UPLOAD_SUFFIX)) (key p)"
  by (rule key_suffixed [OF assms]; simp add: FILES_UPLOAD_SUFFIX_def)+

section \<open>The write loop\<close>

lemma http_read_body_length: "content_length (snd (http_read_body n r)) = content_length r"
proof -
  obtain ok r1 where s: "send_continue r = (ok, r1)" by fastforce
  from send_continue_keeps [OF s] show ?thesis
    by (simp add: http_read_body_def s Let_def split: option.split prod.split)
qed

lemma upload_loop_length:
  "upload_loop tmp len sofar d r = (werr, n, d', r') \<Longrightarrow> content_length r' = content_length r"
proof (induction tmp len sofar d r rule: upload_loop.induct)
  case (1 tmp len sofar d r)
  obtain x r1 where b: "http_read_body FILES_IO_BUF_SIZE r = (x, r1)" by fastforce
  then have c: "content_length r1 = content_length r" using http_read_body_length [of FILES_IO_BUF_SIZE r] by simp
  show ?case
  proof (cases "sofar < len \<and> (\<exists>y. x = Some y \<and> y \<noteq> [] \<and> fst (sd_write tmp y d))")
    case True
    then obtain y d1 where y: "sofar < len" "x = Some y" "y \<noteq> []" "sd_write tmp y d = (True, d1)"
      by (auto simp: prod_eq_iff)
    with "1.prems" b have "upload_loop tmp len (sofar + length y) d1 r1 = (werr, n, d', r')"
      by (simp add: upload_loop.simps [of tmp len sofar])
    from "1.IH" [OF _ b [symmetric] y(2,3) y(4) [symmetric] refl this] y(1) c show ?thesis by simp
  next
    case False
    with "1.prems" b c show ?thesis
      by (auto simp: upload_loop.simps [of tmp len sofar] split: if_splits option.splits prod.splits bool.splits)
  qed
qed

lemma upload_loop_spec:
  assumes "upload_loop tmp len sofar d r = (werr, n, d', r')" and "sd_stat d tmp = Some (Reg c t)"
    and "has_content_length r" and "content_length r = len" and "body_ok r" and "tree_ok d"
    and "body_consumed r = off + sofar" and "length c = sofar"
  shows "tree_ok d' \<and> (\<exists>c'. node_at d' = (node_at d)(key tmp \<mapsto> Reg (c @ c') t) \<and> n = length (c @ c') \<and>
     (\<exists>rest. body_stream r = c' @ rest)) \<and> content_length r' = content_length r \<and> (faults d = [] \<longrightarrow> faults d' = [] \<and> \<not> werr)"
  using assms
proof (induction tmp len sofar d r arbitrary: c rule: upload_loop.induct)
  case (1 tmp len sofar d r)
  have same: "\<exists>c'. node_at d = (node_at d)(key tmp \<mapsto> Reg (c @ c') t) \<and> sofar = length (c @ c') \<and> (\<exists>rest. body_stream r = c' @ rest)"
    using "1.prems"(2,8) by (intro exI [of _ "[]"]) (auto simp: sd_stat_def fun_upd_idem_iff)
  have fin: ?case if "n = sofar" "d' = d \<or> node_at d' = node_at d \<and> tree_ok d'" "content_length r' = content_length r"
      "faults d = [] \<longrightarrow> faults d' = [] \<and> \<not> werr"
  proof -
    have n: "node_at d' = node_at d" "tree_ok d'" using that(2) "1.prems"(6) by auto
    show ?thesis unfolding that(1) n(1) using same that n(2) by blast
  qed
  note unf = upload_loop.simps [of tmp len sofar d r]
  show ?case
  proof (cases "sofar < len")
    case False
    with "1.prems"(1) show ?thesis by (intro fin) (simp_all add: unf)
  next
    case lt: True
    obtain o1 r1 where b: "http_read_body FILES_IO_BUF_SIZE r = (o1, r1)" by fastforce
    then have cl: "content_length r1 = content_length r" using http_read_body_length [of FILES_IO_BUF_SIZE r] by simp
    show ?thesis
    proof (cases o1)
      case None
      with "1.prems"(1) lt b cl show ?thesis by (intro fin) (simp_all add: unf)
    next
      case (Some x)
      note bs = http_read_body_stream [OF b [unfolded Some]]
      show ?thesis
      proof (cases "x = []")
        case True
        with "1.prems"(1) lt b Some bs(4) show ?thesis by (intro fin) (simp_all add: unf)
      next
        case False
        obtain w d1 where w: "sd_write tmp x d = (w, d1)" by fastforce
        note wn = sd_write_nodes [where p = tmp and data = x and d = d]
        have fl: "faults d = [] \<Longrightarrow> w \<and> faults d1 = []"
          using w "1.prems"(2) by (auto simp: sd_write_def attempt_def sd_stat_def put_node_def node_at_def split: if_splits)
        show ?thesis
        proof (cases w)
          case wf: False
          then have "node_at d1 = node_at d" "tree_ok d1" using wn(1,3) w "1.prems"(6) by simp_all
          moreover have "n = sofar" "d' = d1" "r' = r1" using "1.prems"(1) lt b Some False w wf by (simp_all add: unf)
          ultimately show ?thesis using cl fl wf by (intro fin) auto
        next
          case True
          then have wt: "w = True" by simp
          have n1: "node_at d1 = (node_at d)(key tmp \<mapsto> Reg (c @ x) t)" "tree_ok d1"
            using wn(1,3) w wt "1.prems"(2,6) by simp_all
          then have s1: "sd_stat d1 tmp = Some (Reg (c @ x) t)" by (simp add: sd_stat_def)
          have rec: "upload_loop tmp len (sofar + length x) d1 r1 = (werr, n, d', r')"
            using "1.prems"(1) lt b Some False w wt by (simp add: unf)
          from "1.IH" [OF _ b [symmetric] Some False w [symmetric] wt rec s1]
          have ih: "tree_ok d' \<and> (\<exists>c'. node_at d' = (node_at d1)(key tmp \<mapsto> Reg ((c @ x) @ c') t) \<and> n = length ((c @ x) @ c') \<and>
            (\<exists>rest. body_stream r1 = c' @ rest)) \<and> content_length r' = content_length r1 \<and> (faults d1 = [] \<longrightarrow> faults d' = [] \<and> \<not> werr)"
            using lt bs "1.prems" n1(2) by (simp add: fun_upd_def)
          then obtain c' rest where c': "node_at d' = (node_at d1)(key tmp \<mapsto> Reg ((c @ x) @ c') t)" "n = length ((c @ x) @ c')"
            "body_stream r1 = c' @ rest" by blast
          have "node_at d' = (node_at d)(key tmp \<mapsto> Reg (c @ x @ c') t)" using c'(1) n1(1) by simp
          moreover have "body_stream r = (x @ c') @ rest" using bs(1) c'(3) by simp
          moreover have "n = length (c @ x @ c')" using c'(2) by simp
          ultimately have "\<exists>z. node_at d' = (node_at d)(key tmp \<mapsto> Reg (c @ z) t) \<and> n = length (c @ z) \<and>
              (\<exists>rest. body_stream r = z @ rest)" by blast
          with ih fl bs(4) show ?thesis by (simp add: fun_upd_def)
        qed
      qed
    qed
  qed
qed

section \<open>An upload replaces the file with all of the body, or not at all\<close>

lemma resolve_query_path_Some:
  "resolve_query_path n r = (Some p, r') \<Longrightarrow> r' = r \<and> (\<exists>u. files_resolve u n = Inr p)"
  by (auto simp: resolve_query_path_def split: option.splits if_splits sum.splits)

lemma request_alloc_keeps:
  "request_alloc n r = (x, r') \<Longrightarrow> content_length r' = content_length r \<and> has_content_length r' = has_content_length r \<and>
     body_consumed r' = body_consumed r \<and> body_stream r' = body_stream r \<and> body_ok r' = body_ok r"
  by (auto simp: request_alloc_def Let_def body_stream_def body_ok_def split: if_splits)

lemma no_faults: "faults d = [] \<Longrightarrow> attempt d = (True, d)"
  by (simp add: attempt_def)

definition others_kept :: "string \<Rightarrow> string \<Rightarrow> 'a disk_scheme \<Rightarrow> 'a disk_scheme \<Rightarrow> bool" where
  "others_kept tmp p d e \<longleftrightarrow> tree_ok e \<and>
     (\<forall>k. node_at d k \<noteq> None \<longrightarrow> k \<noteq> key p \<longrightarrow> k \<noteq> key tmp \<longrightarrow> node_at e k = node_at d k)"

lemma others_kept_upd:
  "others_kept tmp p d e \<Longrightarrow> tree_ok f \<Longrightarrow> node_at f = (node_at e)(key tmp := x) \<or> node_at f = (node_at e)(key p := x) \<or>
     node_at f = node_at e \<Longrightarrow> others_kept tmp p d f"
  by (auto simp: others_kept_def)

lemma others_kept_remove:
  assumes "others_kept tmp p d e"
  shows "others_kept tmp p d (snd (sd_remove tmp e))" and "others_kept tmp p d (snd (sd_remove p e))"
  using assms sd_remove_nodes(1,3) [where d = e] by (auto simp: others_kept_def)

text \<open>The last steps of a complete upload: remove the target, move the temporary file over it.\<close>

definition into_place :: "string \<Rightarrow> string \<Rightarrow> 'a disk_scheme \<Rightarrow> bool \<times> 'a disk_scheme" where
  "into_place tmp p d =
     (let d = snd (sd_remove p d); (renamed, d) = sd_rename tmp p d
      in (renamed, if renamed then d else snd (sd_remove tmp d)))"

lemma into_place_spec:
  assumes e: "others_kept tmp p d e" and t: "node_at e (key tmp) = Some (Reg body mt)"
    and k: "key tmp \<noteq> key p" "key p \<noteq> [] \<Longrightarrow> \<not> prefix (key tmp) (key p)"
    and r: "into_place tmp p e = (renamed, f)"
  shows "others_kept tmp p d f"
    and "renamed \<Longrightarrow> node_at f (key p) = Some (Reg body mt)"
    and "\<not> renamed \<Longrightarrow> node_at f (key p) = node_at e (key p) \<or> node_at f (key p) = None"
    and "faults e = [] \<Longrightarrow> node_at e (key p) = Some (Reg c0 t0) \<Longrightarrow> renamed"
proof -
  define e1 where "e1 = snd (sd_remove p e)"
  obtain ok e2 where rn: "sd_rename tmp p e1 = (ok, e2)" by fastforce
  have f: "renamed = ok" "f = (if ok then e2 else snd (sd_remove tmp e2))"
    using r rn by (auto simp: into_place_def e1_def)
  have o1: "others_kept tmp p d e1" unfolding e1_def by (rule others_kept_remove(2) [OF e])
  then have tree1: "tree_ok e1" by (simp add: others_kept_def)
  have t1: "node_at e1 (key tmp) = Some (Reg body mt)"
    using t k(1) sd_remove_nodes(1) [of p e] by (simp add: e1_def)
  have p1: "node_at e1 (key p) = node_at e (key p) \<or> node_at e1 (key p) = None"
    using sd_remove_nodes(1) [of p e] by (simp add: e1_def)
  show "others_kept tmp p d f" "renamed \<Longrightarrow> node_at f (key p) = Some (Reg body mt)"
    "\<not> renamed \<Longrightarrow> node_at f (key p) = node_at e (key p) \<or> node_at f (key p) = None"
  proof -
    have "others_kept tmp p d f \<and> (if ok then node_at f (key p) = Some (Reg body mt)
        else node_at f (key p) = node_at e (key p) \<or> node_at f (key p) = None)"
    proof (cases ok)
      case True
      then have rn': "sd_rename tmp p e1 = (True, e2)" using rn by simp
      note n = sd_rename_nodes [OF tree1 rn'] and c = sd_rename_cases [OF rn']
      have "node_at e2 j = node_at d j" if j: "node_at d j \<noteq> None" "j \<noteq> key p" "j \<noteq> key tmp" for j
      proof -
        have j1: "node_at e1 j = node_at d j" using o1 j by (simp add: others_kept_def)
        have "\<not> prefix (key p) j"
        proof
          assume "prefix (key p) j"
          then obtain x where "j = key p @ x" "x \<noteq> []" using j(2) by (auto simp: prefix_def)
          with tree_ok_ancestor [OF tree1, of "key p" x] j(1) j1 c(5) show False by simp
        qed
        moreover have "\<not> prefix (key tmp) j"
        proof
          assume "prefix (key tmp) j"
          then obtain x where "j = key tmp @ x" "x \<noteq> []" using j(3) by (auto simp: prefix_def)
          with tree_ok_ancestor [OF tree1, of "key tmp" x] j(1) j1 t1 show False by simp
        qed
        ultimately show ?thesis using j1 by (simp add: n)
      qed
      moreover have "tree_ok e2" by (rule tree_ok_rename [OF tree1 rn'])
      ultimately show ?thesis using True t1 f(2) by (simp add: others_kept_def n)
    next
      case False
      have n: "node_at e2 = node_at e1" "tree_ok e2" using sd_rename_failed [of tmp p e1] rn False tree1 by simp_all
      have o2: "others_kept tmp p d e2" using o1 n by (simp add: others_kept_def)
      have "node_at f (key p) = node_at e2 (key p)"
        using False f(2) sd_remove_nodes(1) [of tmp e2] k(1) by simp
      with False f(2) others_kept_remove(1) [OF o2] p1 n show ?thesis by simp
    qed
    with f(1) show "others_kept tmp p d f" "renamed \<Longrightarrow> node_at f (key p) = Some (Reg body mt)"
      "\<not> renamed \<Longrightarrow> node_at f (key p) = node_at e (key p) \<or> node_at f (key p) = None" by auto
  qed
  show renamed if fe: "faults e = []" and old: "node_at e (key p) = Some (Reg c0 t0)"
  proof -
    have ne: "key p \<noteq> []" using old by (auto simp: node_at_def)
    have tree: "tree_ok e" using e by (simp add: others_kept_def)
    have dir: "is_dir e (butlast (key p))" using tree ne old by (simp add: tree_ok_iff is_dir_def)
    have e1: "e1 = drop_node (key p) e" using old fe by (simp add: e1_def sd_remove_def no_faults sd_stat_def)
    have "butlast (key p) \<noteq> key p" using ne by (metis append_butlast_last_id not_Cons_self2 self_append_conv)
    then have "is_dir e1 (butlast (key p))" "node_at e1 (key p) = None"
      using dir by (simp_all add: e1 is_dir_def node_at_drop [OF ne])
    moreover have "faults e1 = []" using fe by (simp add: e1 drop_node_def)
    moreover have "key tmp \<noteq> []" using t by (auto simp: node_at_def)
    ultimately have "fst (sd_rename tmp p e1)"
      using t1 k(2) [OF ne] by (simp add: sd_rename_def no_faults Let_def)
    with rn f(1) show renamed by simp
  qed
qed

section \<open>An upload as a whole\<close>

lemma mkdirs_new:
  "node_at (files_mkdirs_for p d) k = node_at d k \<or> node_at (files_mkdirs_for p d) k = Some Dir"
proof -
  have one: "node_at (sd_mkdir q e) k = node_at e k \<or> node_at (sd_mkdir q e) k = Some Dir" for q and e :: "'a disk_scheme"
  proof -
    obtain w e1 where at: "attempt e = (w, e1)" by (cases "attempt e")
    have "node_at e1 = node_at e" using node_at_attempt [of e] at by simp
    then show ?thesis using not_root [of e "key q"] by (auto simp: sd_mkdir_def at Let_def node_at_put)
  qed
  have "node_at (mkdirs_loop tmp is e) k = node_at e k \<or> node_at (mkdirs_loop tmp is e) k = Some Dir"
    for tmp "is" and e :: "'a disk_scheme"
  proof (induction "is" arbitrary: e)
    case (Cons i "is")
    show ?case using Cons [of "if tmp ! i = CHR ''/'' then sd_mkdir (take i tmp) e else e"] one [of "take i tmp" e]
      by (auto split: if_splits)
  qed simp
  then show ?thesis by (auto simp: files_mkdirs_for_def Let_def split: option.splits)
qed

lemma mkdirs_faults: "faults d = [] \<Longrightarrow> faults (files_mkdirs_for p d) = []"
proof -
  have "faults e = [] \<Longrightarrow> faults (sd_mkdir q e) = []" for q and e :: "'a disk_scheme"
    by (simp add: sd_mkdir_def no_faults Let_def put_node_def)
  then have "faults e = [] \<Longrightarrow> faults (mkdirs_loop tmp is e) = []" for tmp "is" and e :: "'a disk_scheme"
    by (induction "is" arbitrary: e) simp_all
  then show "faults d = [] \<Longrightarrow> faults (files_mkdirs_for p d) = []"
    by (simp add: files_mkdirs_for_def Let_def split: option.split)
qed

text \<open>The card after an upload, from the path on.\<close>

definition upload_card :: "string \<Rightarrow> 'a disk_scheme \<Rightarrow> HttpRequest \<Rightarrow> 'a disk_scheme" where
  "upload_card p d r =
     (let d = files_mkdirs_for p d; tmp = p @ FILES_UPLOAD_SUFFIX;
          (created, d) = sd_create tmp d
      in if \<not> created then d
         else let (werr, n, d, r') = upload_loop tmp (content_length r) 0 d r; (closed, d) = sd_close d
              in if werr \<or> \<not> closed \<or> n \<noteq> content_length r then snd (sd_remove tmp d)
                 else snd (into_place tmp p d))"

text \<open>All of the body was stored, and then the move into place was refused.\<close>

definition move_refused :: "string \<Rightarrow> 'a disk_scheme \<Rightarrow> HttpRequest \<Rightarrow> bool" where
  "move_refused p d r \<longleftrightarrow>
     (let tmp = p @ FILES_UPLOAD_SUFFIX; (created, d) = sd_create tmp (files_mkdirs_for p d);
          (werr, n, d, r') = upload_loop tmp (content_length r) 0 d r; (closed, d) = sd_close d
      in created \<and> \<not> werr \<and> closed \<and> n = content_length r \<and> \<not> fst (into_place tmp p d))"

lemma put_files_card:
  assumes q: "resolve_query_path 768 r = (Some p, r)" and hl: "has_content_length r"
  shows "fst (put_files (d, r)) = d \<or> (\<exists>r1. fst (put_files (d, r)) = upload_card p d r1 \<and> content_length r1 = content_length r \<and>
     has_content_length r1 \<and> body_consumed r1 = body_consumed r \<and> body_stream r1 = body_stream r \<and>
     (move_refused p d r1 \<longrightarrow> (\<exists>r2. snd (put_files (d, r)) = reply_error 500 ''failed to move upload into place'' r2)))"
proof (cases "request_alloc FILES_IO_BUF_SIZE r")
  case (Pair buf r1)
  show ?thesis
  proof (cases buf)
    case None
    with q hl Pair show ?thesis by (simp add: put_files_def)
  next
    case (Some b)
    note a = request_alloc_keeps [OF Pair]
    obtain u where "files_resolve u 768 = Inr p" using resolve_query_path_Some [OF q] by blast
    then have "length p < 768" by (auto simp: files_resolve_iff FILES_ROOT_def)
    then have tmp: "fit 800 (p @ FILES_UPLOAD_SUFFIX) = p @ FILES_UPLOAD_SUFFIX"
      by (intro fit_id) (simp add: FILES_UPLOAD_SUFFIX_def)
    obtain created d1 where c: "sd_create (p @ FILES_UPLOAD_SUFFIX) (files_mkdirs_for p d) = (created, d1)" by fastforce
    obtain werr n d2 r2 where l: "upload_loop (p @ FILES_UPLOAD_SUFFIX) (content_length r1) 0 d1 r1 = (werr, n, d2, r2)"
      by (metis prod_cases4)
    obtain closed d3 where cl: "sd_close d2 = (closed, d3)" by fastforce
    obtain ok d4 where rn: "sd_rename (p @ FILES_UPLOAD_SUFFIX) p (snd (sd_remove p d3)) = (ok, d4)" by fastforce
    have cl2: "content_length r2 = content_length r1" by (rule upload_loop_length [OF l])
    have "fst (put_files (d, r)) = upload_card p d r1"
      using q hl Pair Some c l cl rn a cl2
      by (cases created; cases ok; cases werr; cases closed)
        (simp_all add: put_files_def upload_card_def into_place_def tmp Let_def case_prod_unfold)
    moreover have "\<exists>r3. snd (put_files (d, r)) = reply_error 500 ''failed to move upload into place'' r3" if "move_refused p d r1"
      using that q hl Pair Some c l cl rn a cl2
      by (auto simp: move_refused_def put_files_def into_place_def tmp Let_def)
    ultimately show ?thesis using a hl by blast
  qed
qed

lemma upload_card_spec:
  assumes res: "files_resolve u n0 = Inr p" and ok: "tree_ok d" and hl: "has_content_length r" and bo: "body_ok r"
    and bc: "body_consumed r = 0"
  shows "others_kept (p @ FILES_UPLOAD_SUFFIX) p d (upload_card p d r)"
    and "node_at (upload_card p d r) (key p) = Some (Reg c t) \<Longrightarrow> node_at d (key p) = Some (Reg c t) \<or>
      (length c = content_length r \<and> (\<exists>rest. body_stream r = c @ rest))"
    and "faults d = [] \<Longrightarrow> node_at d (key p) = Some (Reg c0 t0) \<Longrightarrow> \<exists>c t. node_at (upload_card p d r) (key p) = Some (Reg c t)"
    and "node_at d (key p) = Some (Reg c0 t0) \<Longrightarrow> node_at (upload_card p d r) (key p) = Some (Reg c0 t0) \<or>
      (\<exists>z t. node_at (upload_card p d r) (key p) = Some (Reg z t) \<and> length z = content_length r \<and> (\<exists>rest. body_stream r = z @ rest)) \<or>
      node_at (upload_card p d r) (key p) = None \<and> move_refused p d r"
proof -
  define tmp where "tmp = p @ FILES_UPLOAD_SUFFIX"
  note kt = key_upload_tmp [OF res, folded tmp_def]
  define d0 where "d0 = files_mkdirs_for p d"
  define e where "e = upload_card p d r"
  have o0: "others_kept tmp p d d0" using mkdirs_nodes [of d] ok by (simp add: others_kept_def d0_def)
  have f0: "faults d0 = []" if "faults d = []" using mkdirs_faults [OF that] by (simp add: d0_def)
  have old: "node_at d (key p) = Some (Reg x y)" if "node_at d0 (key p) = Some (Reg x y)" for x y
    using that mkdirs_new [of p d "key p"] by (auto simp: d0_def)
  have old0: "node_at d0 (key p) = node_at d (key p)" if "node_at d (key p) = Some (Reg x y)" for x y
    using mkdirs_nodes(1) [of d "key p" p] that by (simp add: d0_def)
  obtain created d1 where c: "sd_create tmp d0 = (created, d1)" by fastforce
  have cn: "node_at d1 = (if created then (node_at d0)(key tmp \<mapsto> Reg [] (now_ms d0 div 1000)) else node_at d0)" "tree_ok d1"
    using sd_create_nodes(1) [of tmp d0] sd_create_nodes(3) [of d0 tmp] o0 c by (simp_all add: others_kept_def)
  have f1: "faults d1 = []" if "faults d = []"
    using f0 [OF that] c by (auto simp: sd_create_def no_faults Let_def put_node_def split: if_splits)
  have o1: "others_kept tmp p d d1" using others_kept_upd [OF o0 cn(2)] cn(1) by (cases created) auto
  have k1: "node_at d1 (key p) = node_at d0 (key p)" using kt(1) cn(1) by simp
  obtain werr n d2 r2 where l: "upload_loop tmp (content_length r) 0 d1 r = (werr, n, d2, r2)" by (metis prod_cases4)
  obtain closed d3 where cl: "sd_close d2 = (closed, d3)" by fastforce
  have e: "e = (if \<not> created then d1 else if werr \<or> \<not> closed \<or> n \<noteq> content_length r then snd (sd_remove tmp d3)
      else snd (into_place tmp p d3))"
    by (simp add: e_def upload_card_def tmp_def [symmetric] d0_def [symmetric] c l cl Let_def)
  have unchanged: "others_kept tmp p d f \<and> (node_at f (key p) = Some (Reg c t) \<longrightarrow> node_at d (key p) = Some (Reg c t)) \<and>
      (node_at d (key p) = Some (Reg c0 t0) \<longrightarrow> node_at f (key p) = Some (Reg c0 t0))"
    if "others_kept tmp p d f" "node_at f (key p) = node_at d0 (key p)" for f
    using that old [of c t] old0 [of c0 t0] by simp
  have "others_kept tmp p d e \<and> (node_at e (key p) = Some (Reg c t) \<longrightarrow> node_at d (key p) = Some (Reg c t) \<or>
      (length c = content_length r \<and> (\<exists>rest. body_stream r = c @ rest))) \<and>
      (faults d = [] \<longrightarrow> node_at d (key p) = Some (Reg c0 t0) \<longrightarrow> (\<exists>c t. node_at e (key p) = Some (Reg c t))) \<and>
      (node_at d (key p) = Some (Reg c0 t0) \<longrightarrow> node_at e (key p) = Some (Reg c0 t0) \<or>
        (\<exists>z t. node_at e (key p) = Some (Reg z t) \<and> length z = content_length r \<and> (\<exists>rest. body_stream r = z @ rest)) \<or>
        node_at e (key p) = None \<and> move_refused p d r)"
  proof (cases created)
    case False
    then show ?thesis using unchanged [OF o1 k1] e by auto
  next
    case True
    then have s1: "sd_stat d1 tmp = Some (Reg [] (now_ms d0 div 1000))" using cn(1) by (simp add: sd_stat_def)
    from upload_loop_spec [OF l s1 hl refl bo cn(2), of 0] bc obtain z rest
      where tr: "tree_ok d2" and z: "node_at d2 = (node_at d1)(key tmp \<mapsto> Reg z (now_ms d0 div 1000))" "n = length z"
        "body_stream r = z @ rest" and fl: "faults d1 = [] \<longrightarrow> faults d2 = [] \<and> \<not> werr" by auto
    have n3: "node_at d3 = node_at d2" "tree_ok d3" using sd_close_nodes [of d2] cl tr by simp_all
    have o3: "others_kept tmp p d d3" using others_kept_upd [OF o1 n3(2), of "Some (Reg z (now_ms d0 div 1000))"] n3(1) z(1) by simp
    have k3: "node_at d3 (key p) = node_at d0 (key p)" using n3(1) z(1) kt(1) k1 by simp
    show ?thesis
    proof (cases "werr \<or> \<not> closed \<or> n \<noteq> content_length r")
      case bad: True
      then have ee: "e = snd (sd_remove tmp d3)" using True e by simp
      have "node_at e (key p) = node_at d0 (key p)" using k3 kt(1) sd_remove_nodes(1) [of tmp d3] by (simp add: ee)
      with unchanged [OF others_kept_remove(1) [OF o3, folded ee]] show ?thesis by auto
    next
      case good: False
      obtain renamed f where ip: "into_place tmp p d3 = (renamed, f)" by fastforce
      have ee: "e = f" using good True e ip by simp
      have t3: "node_at d3 (key tmp) = Some (Reg z (now_ms d0 div 1000))" using n3(1) z(1) by simp
      note ips = into_place_spec [OF o3 t3 kt(1) kt(3) ip]
      have "renamed" if "faults d = []" "node_at d (key p) = Some (Reg c0 t0)"
      proof -
        have "faults d3 = []" using f1 [OF that(1)] fl cl by (auto simp: sd_close_def no_faults)
        with ips(4) k3 old0 [OF that(2)] that(2) show ?thesis by simp
      qed
      moreover have "node_at e (key p) = Some (Reg z (now_ms d0 div 1000)) \<or>
          (\<not> renamed \<and> (node_at e (key p) = node_at d0 (key p) \<or> node_at e (key p) = None))"
        using ips(2,3) k3 ee by (cases renamed) auto
      moreover have "move_refused p d r" if "\<not> renamed"
        using that True good ip by (simp add: move_refused_def tmp_def [symmetric] d0_def [symmetric] c l cl Let_def)
      ultimately show ?thesis using ips(1) ee z(2,3) good old [of c t] old0 [of c0 t0] by fastforce
    qed
  qed
  then show "others_kept (p @ FILES_UPLOAD_SUFFIX) p d (upload_card p d r)"
    and "node_at (upload_card p d r) (key p) = Some (Reg c t) \<Longrightarrow> node_at d (key p) = Some (Reg c t) \<or>
      (length c = content_length r \<and> (\<exists>rest. body_stream r = c @ rest))"
    and "faults d = [] \<Longrightarrow> node_at d (key p) = Some (Reg c0 t0) \<Longrightarrow> \<exists>c t. node_at (upload_card p d r) (key p) = Some (Reg c t)"
    and "node_at d (key p) = Some (Reg c0 t0) \<Longrightarrow> node_at (upload_card p d r) (key p) = Some (Reg c0 t0) \<or>
      (\<exists>z t. node_at (upload_card p d r) (key p) = Some (Reg z t) \<and> length z = content_length r \<and> (\<exists>rest. body_stream r = z @ rest)) \<or>
      node_at (upload_card p d r) (key p) = None \<and> move_refused p d r"
    unfolding e_def tmp_def by blast+
qed

section \<open>Properties\<close>

text \<open>
  C3: whatever the network and the card do, an upload leaves at its path what was there or all of the announced body, never
  part of it, and touches no other path that was there; a file that was there may also be gone, but only when the final
  move is refused after the whole body was stored, and then the reply says so; on a card that works it is never lost.
\<close>

theorem upload_all_or_nothing:
  assumes "resolve_query_path 768 r = (Some p, r)" and "tree_ok d" and "has_content_length r" and "body_consumed r = 0"
  shows "tree_ok (fst (put_files (d, r))) \<and>
    (node_at d k \<noteq> None \<longrightarrow> k \<noteq> key p \<longrightarrow> k \<noteq> key (p @ FILES_UPLOAD_SUFFIX) \<longrightarrow>
      node_at (fst (put_files (d, r))) k = node_at d k) \<and>
    (node_at (fst (put_files (d, r))) (key p) = Some (Reg c t) \<longrightarrow>
      node_at d (key p) = Some (Reg c t) \<or> c = take (content_length r) (body_stream r) \<and> length c = content_length r) \<and>
    (node_at d (key p) = Some (Reg c0 t0) \<longrightarrow>
      node_at (fst (put_files (d, r))) (key p) = Some (Reg c0 t0) \<or>
      (\<exists>t. node_at (fst (put_files (d, r))) (key p) = Some (Reg (take (content_length r) (body_stream r)) t) \<and>
        content_length r \<le> length (body_stream r)) \<or>
      node_at (fst (put_files (d, r))) (key p) = None \<and>
        (\<exists>r1. snd (put_files (d, r)) = reply_error 500 ''failed to move upload into place'' r1)) \<and>
    (faults d = [] \<longrightarrow> node_at d (key p) = Some (Reg c0 t0) \<longrightarrow>
      (\<exists>c t. node_at (fst (put_files (d, r))) (key p) = Some (Reg c t)))"
proof -
  obtain u where u: "files_resolve u 768 = Inr p" using resolve_query_path_Some [OF assms(1)] by blast
  let ?e = "fst (put_files (d, r))"
  show ?thesis
    using put_files_card [OF assms(1,3), of d]
  proof
    assume "?e = d"
    then show ?thesis using assms(2) by simp
  next
    assume "\<exists>r1. ?e = upload_card p d r1 \<and> content_length r1 = content_length r \<and>
      has_content_length r1 \<and> body_consumed r1 = body_consumed r \<and> body_stream r1 = body_stream r \<and>
      (move_refused p d r1 \<longrightarrow> (\<exists>r2. snd (put_files (d, r)) = reply_error 500 ''failed to move upload into place'' r2))"
    then obtain r1 where e: "?e = upload_card p d r1" and r1: "content_length r1 = content_length r"
      "has_content_length r1" "body_consumed r1 = 0" "body_stream r1 = body_stream r"
      and mv: "move_refused p d r1 \<longrightarrow> (\<exists>r2. snd (put_files (d, r)) = reply_error 500 ''failed to move upload into place'' r2)"
      using assms(4) by auto
    have bo: "body_ok r1" using r1 by (simp add: body_ok_def)
    note s = upload_card_spec [OF u assms(2) r1(2) bo r1(3)]
    have "tree_ok ?e" "node_at d k \<noteq> None \<Longrightarrow> k \<noteq> key p \<Longrightarrow> k \<noteq> key (p @ FILES_UPLOAD_SUFFIX) \<Longrightarrow> node_at ?e k = node_at d k"
      using s(1) by (simp_all add: others_kept_def e)
    moreover have "node_at ?e (key p) = Some (Reg c t) \<Longrightarrow> node_at d (key p) = Some (Reg c t) \<or>
        c = take (content_length r) (body_stream r) \<and> length c = content_length r"
      using s(2) [of c t] r1 by (auto simp: e)
    moreover have whole: "node_at ?e (key p) = Some (Reg (take (content_length r) (body_stream r)) t) \<and> content_length r \<le> length (body_stream r)"
      if "node_at ?e (key p) = Some (Reg z t)" "length z = content_length r" "body_stream r = z @ rest" for z t rest
      using that(1) unfolding that(2) [symmetric] that(3) by simp
    moreover have "node_at d (key p) = Some (Reg c0 t0) \<Longrightarrow> node_at ?e (key p) = Some (Reg c0 t0) \<or>
        (\<exists>t. node_at ?e (key p) = Some (Reg (take (content_length r) (body_stream r)) t) \<and> content_length r \<le> length (body_stream r)) \<or>
        node_at ?e (key p) = None \<and> (\<exists>r1. snd (put_files (d, r)) = reply_error 500 ''failed to move upload into place'' r1)"
      using s(4) [of c0 t0] whole mv unfolding e r1 by meson
    ultimately show ?thesis using s(3) [of c0 t0] unfolding e by blast
  qed
qed

definition demo_put :: HttpRequest where
  "demo_put = (empty_request \<lparr>rx = [RecvData ''new''], tx = [], polls = [], sent = [], g_keep_alive = False\<rparr>)
     \<lparr>rmethod := ''PUT'', query := ''path=/a'', has_content_length := True, content_length := 3\<rparr>"

lemma demo_put_path: "resolve_query_path 768 demo_put = (Some ''sdmc:/a'', demo_put)"
  by (simp add: resolve_query_path_def http_query_get_def http_param_get.simps demo_put_def empty_request_def strneq_def
      url_decode_def url_decode_loop.simps c_str_def files_resolve_def traversal_loop.simps starts_with_def FILES_ROOT_def)

lemma demo_key: "key ''sdmc:/a'' = [''a'']" "key ''sdmc:/a.upload'' = [''a.upload'']"
  by (simp_all add: key_def FILES_ROOT_def starts_with_def)

theorem upload_all_or_nothing_witness:
  "\<exists>c t. node_at (fst (put_files (demo_disk, demo_put))) [''a''] = Some (Reg c t)"
proof -
  have t: "tree_ok demo_disk" by (simp add: tree_ok_def demo_disk_def is_dir_def node_at_def)
  have h: "has_content_length demo_put" "body_consumed demo_put = 0" by (simp_all add: demo_put_def empty_request_def)
  have n: "node_at demo_disk (key ''sdmc:/a'') = Some (Reg ''xyz'' 7)" "faults demo_disk = []"
    by (simp_all add: demo_key node_at_def demo_disk_def)
  note u = upload_all_or_nothing [OF demo_put_path t h, of "[]" "[]" 0 "''xyz''" 7]
  from u [THEN conjunct2, THEN conjunct2, THEN conjunct2, THEN conjunct2, rule_format, OF n(2,1)]
  show ?thesis unfolding demo_key .
qed

text \<open>
  The removal before the rename leaves a gap: when the card fails between the two, the file being replaced is
  gone, and so is the upload.
\<close>

lemma failed_rename_loses_the_file:
  "node_at (upload_card ''sdmc:/a'' (demo_disk\<lparr>faults := [True, True, True, True, False]\<rparr>) demo_put) [''a''] = None"
proof -
  obtain r1 where r: "http_read_body FILES_IO_BUF_SIZE demo_put = (Some ''new'', r1)"
    by (simp add: http_read_body_def demo_put_def empty_request_def send_continue_def io_recv.simps FILES_IO_BUF_SIZE_def)
  have l: "content_length demo_put = 3" by (simp add: demo_put_def)
  have l1: "upload_loop tmp 3 n d r1 = (False, n, d, r1)" if "3 \<le> n" for tmp n and d :: disk using that by (simp add: upload_loop.simps)
  have l0: "upload_loop tmp 3 0 d demo_put =
      (case sd_write tmp ''new'' d of (False, d) \<Rightarrow> (True, 0, d, r1) | (True, d) \<Rightarrow> (False, Suc (Suc (Suc 0)), d, r1))" for tmp and d :: disk
    by (subst upload_loop.simps) (simp add: r l1 split: prod.split bool.split)
  show ?thesis
    by (simp add: upload_card_def files_mkdirs_for_def fit_def FILES_UPLOAD_SUFFIX_def sd_create_def demo_key attempt_def
        demo_disk_def is_dir_def node_at_def put_node_def l l0 sd_write_def sd_stat_def sd_close_def
        into_place_def sd_remove_def drop_node_def sd_rename_def Let_def)
qed

end
