(* ===== verification/Mcp_Server.thy ===== *)
theory Mcp_Server
  imports Jstream Mdns Files_Http
begin

text \<open>
  \<open>source/features/mcp/mcp_server.c\<close>: the MCP endpoint, JSON-RPC over POST /mcp. The tool table is a list, the
  static \<open>g_upload\<close> a field of the world the handlers act on (the SD card, extended by the features), and a
  request's buffers are offsets in its memory. The generated tool definitions, the version and the bytes a stack
  buffer happens to hold past its text (\<open>stale\<close>) are arguments. The log lines are left out.
\<close>

section \<open>State\<close>

definition MCP_DOC_MAX :: nat where "MCP_DOC_MAX = 16384"
definition MCP_READ_CHUNK :: nat where "MCP_READ_CHUNK = 0x2000"
definition UPLOAD_DECODE_SIZE :: nat where "UPLOAD_DECODE_SIZE = (MCP_READ_CHUNK div 4 + 1) * 3"
definition CONFIG_DIR :: string where "CONFIG_DIR = ''sdmc:/config/sys-autopilot''"
definition MCP_UPLOAD_TMP :: string where "MCP_UPLOAD_TMP = CONFIG_DIR @ ''/.upload.tmp''"
definition MCP_PROTO_LATEST :: string where "MCP_PROTO_LATEST = ''2025-06-18''"
definition MCP_MAX_TOOLS :: nat where "MCP_MAX_TOOLS = 52"
definition RPC_HEAD_MAX :: nat where "RPC_HEAD_MAX = 96"

text \<open>\<open>decbuf\<close> is the buffer's offset, \<open>ufile\<close> whether the temporary file is open.\<close>

record UploadCtx =
  decbuf :: "nat option"
  ufile :: bool
  udec :: B64Decoder
  ubytes :: nat
  ufailed :: bool

definition empty_upload :: UploadCtx where
  "empty_upload = \<lparr>decbuf = None, ufile = False, udec = b64dec_init, ubytes = 0, ufailed = False\<rparr>"

record mcp_world = disk +
  g_upload :: UploadCtx

record McpCall =
  call_id :: string
  call_doc :: JsonDoc
  call_args :: int
  content_streamed :: bool

type_synonym 'w tool_handler = "McpCall \<Rightarrow> 'w handler"

datatype 'w Tool = Tool (tool_def: "string list") (tool_handler: "'w tool_handler")

definition mcp_server_register_tool :: "string list \<Rightarrow> 'w tool_handler \<Rightarrow> 'w Tool list \<Rightarrow> 'w Tool list" where
  "mcp_server_register_tool def h tools = (if length tools \<ge> MCP_MAX_TOOLS then tools else tools @ [Tool def h])"

section \<open>The upload sink\<close>

definition upload_sink :: "string \<Rightarrow> 'a mcp_world_scheme \<times> HttpRequest \<Rightarrow> 'a mcp_world_scheme \<times> HttpRequest" where
  "upload_sink inp wr =
     (let (w, r) = wr; u = g_upload w;
          fail = (\<lambda>w. w\<lparr>g_upload := (g_upload w)\<lparr>ufailed := True\<rparr>\<rparr>)
      in if ufailed u then (w, r)
         else
           let (buf, r) = (case decbuf u of Some p \<Rightarrow> (Some p, r) | None \<Rightarrow> request_alloc UPLOAD_DECODE_SIZE r);
               u = u\<lparr>decbuf := buf\<rparr>; w = w\<lparr>g_upload := u\<rparr>
           in if buf = None then (fail w, r)
              else
                let (opened, w) = (if ufile u then (True, w) else sd_create MCP_UPLOAD_TMP (sd_mkdir CONFIG_DIR w));
                    u = u\<lparr>ufile := opened\<rparr>; w = w\<lparr>g_upload := u\<rparr>
                in if \<not> opened then (fail w, r)
                   else
                     let (dec', decoded) = b64dec_update (udec u) inp;
                         u = u\<lparr>udec := dec'\<rparr>; w = w\<lparr>g_upload := u\<rparr>
                     in case decoded of
                          None \<Rightarrow> (fail w, r)
                        | Some bs \<Rightarrow>
                            let (written, w) = (if bs = [] then (True, w) else sd_write MCP_UPLOAD_TMP (map unbyte bs) w)
                            in if \<not> written then (fail w, r)
                               else (w\<lparr>g_upload := u\<lparr>ubytes := ubytes u + length bs\<rparr>\<rparr>, r))"

definition upload_cleanup :: "'a mcp_world_scheme \<Rightarrow> 'a mcp_world_scheme" where
  "upload_cleanup w =
     (let u = g_upload w;
          w = (if ufile u then snd (sd_close w) else w);
          w = (if ufile u \<or> ubytes u > 0 \<or> ufailed u then snd (sd_remove MCP_UPLOAD_TMP w) else w)
      in w\<lparr>g_upload := empty_upload\<rparr>)"

definition mcp_call_streamed_content :: "McpCall \<Rightarrow> 'a mcp_world_scheme \<Rightarrow> (string + string \<times> nat) \<times> 'a mcp_world_scheme" where
  "mcp_call_streamed_content call w =
     (if \<not> content_streamed call then (Inl ''missing 'content' (base64 string)'', w)
      else if ufailed (g_upload w) \<or> \<not> ufile (g_upload w) \<or> \<not> b64dec_finish (udec (g_upload w))
      then (Inl ''invalid base64 content'', w)
      else let w = snd (sd_close w)
           in (Inr (MCP_UPLOAD_TMP, ubytes (g_upload w)), w\<lparr>g_upload := (g_upload w)\<lparr>ufile := False\<rparr>\<rparr>))"

section \<open>Replies\<close>

text \<open>Writing the first \<open>strlen\<close> bytes of what \<open>snprintf\<close> printed into a buffer: past the buffer lies \<open>stale\<close>.\<close>

definition printed :: "nat \<Rightarrow> (nat \<Rightarrow> char) \<Rightarrow> string \<Rightarrow> string" where
  "printed cap stale txt = (if length txt < cap then txt else fit cap txt @ NUL # map stale [cap..<length txt])"

definition rpc_head :: "string \<Rightarrow> string \<Rightarrow> string" where
  "rpc_head id' key' = ''{'' @ quoted ''jsonrpc'' @ '':'' @ quoted ''2.0'' @ '','' @ quoted ''id'' @ '':'' @ id' @ '','' @ quoted key' @ '':''"

definition sent_head :: "(nat \<Rightarrow> char) \<Rightarrow> string \<Rightarrow> string \<Rightarrow> string" where
  "sent_head stale id' key' = printed RPC_HEAD_MAX stale (rpc_head id' key')"

definition write_pieces :: "string list \<Rightarrow> conn \<Rightarrow> conn" where
  "write_pieces ps c = foldl (\<lambda>c p. snd (http_write_all p c)) c ps"

definition send_rpc_value :: "(nat \<Rightarrow> char) \<Rightarrow> string \<Rightarrow> string \<Rightarrow> string \<Rightarrow> HttpRequest \<Rightarrow> HttpRequest" where
  "send_rpc_value stale id' key' val r =
     (let hn = length (rpc_head id' key');
          c = http_send_header 200 json_type (hn + length val + 1) (fd r)
      in r\<lparr>fd := write_pieces [sent_head stale id' key', val, ''}''] c\<rparr>)"

definition rpc_error_value :: "int \<Rightarrow> string \<Rightarrow> string" where
  "rpc_error_value code msg = json_obj [member ''code'' (dec_int code), member ''message'' (quoted msg)]"

definition send_rpc_error :: "(nat \<Rightarrow> char) \<Rightarrow> string \<Rightarrow> int \<Rightarrow> string \<Rightarrow> HttpRequest \<Rightarrow> HttpRequest" where
  "send_rpc_error stale id' code msg r =
     send_rpc_value stale id' ''error'' (printed 256 stale (rpc_error_value code msg)) r"

definition mcp_reply_rpc_error :: "(nat \<Rightarrow> char) \<Rightarrow> McpCall \<Rightarrow> int \<Rightarrow> string \<Rightarrow> HttpRequest \<Rightarrow> HttpRequest" where
  "mcp_reply_rpc_error stale call code msg r = send_rpc_error stale (call_id call) code msg r"

definition send_result_stream :: "(nat \<Rightarrow> char) \<Rightarrow> string \<Rightarrow> string \<Rightarrow> string \<Rightarrow> string \<Rightarrow> HttpRequest \<Rightarrow> HttpRequest" where
  "send_result_stream stale id' pre payload post r =
     (let hn = length (rpc_head id' ''result'');
          len = hn + length pre + length payload + length post + 1;
          c = http_send_header 200 json_type len (fd r);
          c = write_pieces [sent_head stale id' ''result'', pre] c;
          c = (if length payload > 0 then snd (http_write_all payload c) else c)
      in r\<lparr>fd := write_pieces [post, ''}''] c\<rparr>)"

definition TEXT_PRE :: string where
  "TEXT_PRE = ''{'' @ quoted ''content'' @ '':[{'' @ quoted ''type'' @ '':'' @ quoted ''text'' @ '','' @ quoted ''text'' @ '':'' @ [DQUOTE]"

definition TEXT_POST_OK :: string where
  "TEXT_POST_OK = [DQUOTE] @ ''}],'' @ quoted ''isError'' @ '':false}''"

definition TEXT_POST_ERR :: string where
  "TEXT_POST_ERR = [DQUOTE] @ ''}],'' @ quoted ''isError'' @ '':true}''"

definition send_tool_text :: "(nat \<Rightarrow> char) \<Rightarrow> McpCall \<Rightarrow> bool \<Rightarrow> string \<Rightarrow> HttpRequest \<Rightarrow> HttpRequest" where
  "send_tool_text stale call is_error msg r =
     (let esc_len = json_escaped_len msg in
      case request_alloc (esc_len + 1) r of
        (None, r) \<Rightarrow> mcp_reply_rpc_error stale call (-32603) ''out of request memory'' r
      | (Some p, r) \<Rightarrow>
          let escaped = (case json_escape msg (esc_len + 1) of Some e \<Rightarrow> e | None \<Rightarrow> [])
          in send_result_stream stale (call_id call) TEXT_PRE escaped (if is_error then TEXT_POST_ERR else TEXT_POST_OK) r)"

definition mcp_reply_text :: "(nat \<Rightarrow> char) \<Rightarrow> McpCall \<Rightarrow> string \<Rightarrow> HttpRequest \<Rightarrow> HttpRequest" where
  "mcp_reply_text stale call msg r = send_tool_text stale call False msg r"

definition mcp_reply_text_len :: "(nat \<Rightarrow> char) \<Rightarrow> McpCall \<Rightarrow> string \<Rightarrow> HttpRequest \<Rightarrow> HttpRequest" where
  "mcp_reply_text_len stale call msg r = send_tool_text stale call False msg r"

definition mcp_reply_error :: "(nat \<Rightarrow> char) \<Rightarrow> McpCall \<Rightarrow> string \<Rightarrow> HttpRequest \<Rightarrow> HttpRequest" where
  "mcp_reply_error stale call msg r = send_tool_text stale call True msg r"

text \<open>Base64 in pieces of 3072 bytes; stops when a write fails.\<close>

function write_base64_loop :: "u8 list \<Rightarrow> conn \<Rightarrow> bool \<times> conn" where
  "write_base64_loop bs c =
     (if bs = [] then (True, c)
      else case http_write_all (b64_encode (take 3072 bs)) c of
        (False, c) \<Rightarrow> (False, c)
      | (True, c) \<Rightarrow> write_base64_loop (drop 3072 bs) c)"
  by pat_completeness auto
termination
  by (relation "measure (\<lambda>(bs, c). length bs)") auto

declare write_base64_loop.simps [simp del]

definition write_base64 :: "u8 list \<Rightarrow> HttpRequest \<Rightarrow> bool \<times> HttpRequest" where
  "write_base64 jpeg r =
     (case request_alloc 4096 r of
        (None, r) \<Rightarrow> (False, r)
      | (Some p, r) \<Rightarrow> (let (ok, c) = write_base64_loop jpeg (fd r) in (ok, r\<lparr>fd := c\<rparr>)))"

definition img_only_pre :: string where
  "img_only_pre = ''{'' @ quoted ''content'' @ '':[{'' @ quoted ''type'' @ '':'' @ quoted ''image'' @ '','' @ quoted ''data'' @ '':'' @ [DQUOTE]"

definition img_pre :: string where
  "img_pre = [DQUOTE] @ ''},{'' @ quoted ''type'' @ '':'' @ quoted ''image'' @ '','' @ quoted ''data'' @ '':'' @ [DQUOTE]"

definition img_post :: string where
  "img_post = [DQUOTE] @ '','' @ quoted ''mimeType'' @ '':'' @ quoted ''image/jpeg'' @ ''}],'' @ quoted ''isError'' @ '':false}''"

definition mcp_reply_image :: "(nat \<Rightarrow> char) \<Rightarrow> McpCall \<Rightarrow> string option \<Rightarrow> u8 list \<Rightarrow> HttpRequest \<Rightarrow> HttpRequest" where
  "mcp_reply_image stale call txt' jpeg r =
     (let pre = (case txt' of Some t \<Rightarrow> [TEXT_PRE, t, img_pre] | None \<Rightarrow> [img_only_pre]);
          len = length (rpc_head (call_id call) ''result'') + b64_encoded_len (length jpeg) + length img_post + 1 +
                length (concat pre);
          c = http_send_header 200 json_type len (fd r);
          r = r\<lparr>fd := write_pieces (sent_head stale (call_id call) ''result'' # pre) c\<rparr>
      in case write_base64 jpeg r of
           (False, r) \<Rightarrow> r
         | (True, r) \<Rightarrow> r\<lparr>fd := write_pieces [img_post, ''}''] (fd r)\<rparr>)"

section \<open>Arguments\<close>

definition mcp_arg_int :: "McpCall \<Rightarrow> string \<Rightarrow> int \<Rightarrow> int" where
  "mcp_arg_int call k fallback = json_obj_int (call_doc call) (call_args call) k fallback"

definition mcp_arg_string :: "McpCall \<Rightarrow> string \<Rightarrow> nat \<Rightarrow> string option" where
  "mcp_arg_string call k outsz =
     (let t = json_obj_get (call_doc call) (call_args call) k
      in if t \<ge> 0 then json_get_string (call_doc call) t outsz else None)"

definition mcp_arg_bool :: "McpCall \<Rightarrow> string \<Rightarrow> bool option" where
  "mcp_arg_bool call k =
     (let t = json_obj_get (call_doc call) (call_args call) k
      in if t \<ge> 0 then json_get_bool (call_doc call) t else None)"

section \<open>Dispatch\<close>

definition initialize_value :: "string \<Rightarrow> string \<Rightarrow> string" where
  "initialize_value version proto =
     json_obj [member ''protocolVersion'' (quoted proto), member ''capabilities'' (json_obj [member ''tools'' ''{}'']),
       member ''serverInfo'' (json_obj [member ''name'' (quoted ''sys-autopilot''), member ''version'' (quoted version)])]"

definition handle_initialize :: "string \<Rightarrow> (nat \<Rightarrow> char) \<Rightarrow> string \<Rightarrow> JsonDoc \<Rightarrow> int \<Rightarrow> HttpRequest \<Rightarrow> HttpRequest" where
  "handle_initialize version stale id' doc params r =
     (let vtok = json_obj_get doc params ''protocolVersion'';
          proto = (if vtok \<ge> 0 then
                     (case json_get_string doc vtok 24 of
                        Some v \<Rightarrow> if v = ''2024-11-05'' \<or> v = ''2025-03-26'' \<or> v = ''2025-06-18'' then v else MCP_PROTO_LATEST
                      | None \<Rightarrow> MCP_PROTO_LATEST)
                   else MCP_PROTO_LATEST)
      in send_rpc_value stale id' ''result'' (printed 256 stale (initialize_value version proto)) r)"

text \<open>\<open>write_tool\<close>: the runs it writes, and their length; with no connection it only measures.\<close>

function tool_runs :: "string list \<Rightarrow> string \<Rightarrow> string list" where
  "tool_runs def [] = []"
| "tool_runs def (c # cs) =
     (if ord c < 0x20 then def ! ord c # tool_runs def cs
      else takeWhile (\<lambda>c. ord c \<ge> 0x20) (c # cs) # tool_runs def (dropWhile (\<lambda>c. ord c \<ge> 0x20) (c # cs)))"
  by pat_completeness auto
termination
  by (relation "measure (\<lambda>(def, cs). length cs)") (auto simp: less_Suc_eq_le length_dropWhile_le)

definition write_tool :: "conn option \<Rightarrow> string list \<Rightarrow> nat \<times> conn option" where
  "write_tool c def =
     (let runs = tool_runs def (def ! 0) in (length (concat runs), map_option (write_pieces runs) c))"

fun write_tools :: "'w Tool list \<Rightarrow> conn \<Rightarrow> conn" where
  "write_tools [] c = c"
| "write_tools (t # ts) c =
     (let c = (case write_tool (Some c) (tool_def t) of (n, Some c) \<Rightarrow> c | (n, None) \<Rightarrow> c)
      in if ts = [] then c else write_tools ts (snd (http_write_all '','' c)))"

definition handle_tools_list :: "'w Tool list \<Rightarrow> (nat \<Rightarrow> char) \<Rightarrow> string \<Rightarrow> HttpRequest \<Rightarrow> HttpRequest" where
  "handle_tools_list tools stale id' r =
     (let pre = ''{'' @ quoted ''tools'' @ '':['';
          post = '']}'';
          measured = sum_list (map (\<lambda>t. fst (write_tool None (tool_def t))) tools) + (length tools - 1);
          len = length (rpc_head id' ''result'') + length pre + length post + 1 + measured;
          c = http_send_header 200 json_type len (fd r);
          c = write_pieces [sent_head stale id' ''result'', pre] c;
          c = write_tools tools c
      in r\<lparr>fd := write_pieces [post, ''}''] c\<rparr>)"

definition tool_is :: "string list \<Rightarrow> string \<Rightarrow> bool" where
  "tool_is def name =
     (let p = drop (length (''{'' @ quoted ''name'' @ '':'' @ [DQUOTE])) (def ! 0); n = length name
      in take n p = name \<and> n < length p \<and> p ! n = DQUOTE)"

fun call_tool :: "'w Tool list \<Rightarrow> (nat \<Rightarrow> char) \<Rightarrow> string \<Rightarrow> McpCall \<Rightarrow> 'w handler" where
  "call_tool [] stale name call (w, r) = (w, send_rpc_error stale (call_id call) (-32602) ''unknown tool'' r)"
| "call_tool (t # ts) stale name call (w, r) =
     (if tool_is (tool_def t) name then tool_handler t call (w, r) else call_tool ts stale name call (w, r))"

definition handle_tools_call :: "'w Tool list \<Rightarrow> (nat \<Rightarrow> char) \<Rightarrow> string \<Rightarrow> JsonDoc \<Rightarrow> int \<Rightarrow> bool \<Rightarrow> 'w handler" where
  "handle_tools_call tools stale id' doc params streamed wr =
     (let (w, r) = wr; ntok' = json_obj_get doc params ''name'';
          missing = (w, send_rpc_error stale id' (-32602) ''missing tool name'' r)
      in if ntok' < 0 then missing
         else case json_get_string doc ntok' 40 of
           None \<Rightarrow> missing
         | Some name \<Rightarrow>
             call_tool tools stale name
               \<lparr>call_id = id', call_doc = doc, call_args = json_obj_get doc params ''arguments'', content_streamed = streamed\<rparr>
               (w, r))"

section \<open>A request\<close>

lemma feed_loop_inv:
  assumes "\<And>inp c. P c \<Longrightarrow> P (sink inp c)"
  shows "P (snd s) \<Longrightarrow> P (snd (feed_loop sink s cs))"
  using assms by (induction sink s cs rule: feed_loop.induct) (simp_all split: option.splits)

lemma request_alloc_stream: "request_alloc n r = (b, r') \<Longrightarrow> body_stream r' = body_stream r"
  by (auto simp: request_alloc_def body_stream_def Let_def split: if_splits)

lemma upload_sink_stream [simp]: "body_stream (snd (upload_sink inp wr)) = body_stream (snd wr)"
  by (cases wr) (auto simp: upload_sink_def Let_def dest: request_alloc_stream split: prod.splits option.splits)

lemma feed_stream: "jstream_feed upload_sink (js, w, r) d = (js', w', r') \<Longrightarrow> body_stream r' = body_stream r"
  using feed_loop_inv [where P = "\<lambda>wr. body_stream (snd wr) = body_stream r" and sink = upload_sink and s = "(js, w, r)" and cs = d]
  by (simp add: jstream_feed_def)

text \<open>Streaming the body through the scanner: whether the last read worked, the scanner, and the upload.\<close>

function post_loop ::
    "Jstream \<Rightarrow> 'a mcp_world_scheme \<Rightarrow> HttpRequest \<Rightarrow> bool \<times> Jstream \<times> 'a mcp_world_scheme \<times> HttpRequest" where
  "post_loop js w r =
     (case http_read_body MCP_READ_CHUNK r of
        (None, r) \<Rightarrow> (False, js, w, r)
      | (Some d, r) \<Rightarrow>
          if d = [] then (True, js, w, r)
          else case jstream_feed upload_sink (js, w, r) d of
            (js, w, r) \<Rightarrow> if jerr js \<noteq> None then (True, js, w, r) else post_loop js w r)"
  by pat_completeness auto
termination
  by (relation "measure (\<lambda>(js, w, r). length (body_stream r))")
    (auto dest!: http_read_body_stream(1) [OF sym] dest: feed_stream split: prod.splits)

declare post_loop.simps [simp del]

definition post_error :: "jstream_error option \<Rightarrow> string" where
  "post_error e =
     (if e = Some JSTREAM_EDOC then ''request too large''
      else if e = Some JSTREAM_ECONTENT then ''invalid base64 content'' else ''parse error'')"

text \<open>The method of a parsed request; the upload is cleaned up afterwards.\<close>

definition post_method ::
    "string \<Rightarrow> 'a mcp_world_scheme Tool list \<Rightarrow> (nat \<Rightarrow> char) \<Rightarrow> JsonDoc \<Rightarrow> string \<Rightarrow> string \<Rightarrow> bool \<Rightarrow> 'a mcp_world_scheme handler" where
  "post_method version tools stale doc id' method streamed wr =
     (let (w, r) = wr; params = json_obj_get doc 0 ''params'' in
      if method = ''initialize'' then (w, handle_initialize version stale id' doc params r)
      else if method = ''ping'' then (w, send_rpc_value stale id' ''result'' ''{}'' r)
      else if method = ''tools/list'' then (w, handle_tools_list tools stale id' r)
      else if method = ''tools/call'' then
        (if params < 0 then (w, send_rpc_error stale id' (-32602) ''missing params'' r)
         else handle_tools_call tools stale id' doc params streamed (w, r))
      else (w, send_rpc_error stale id' (-32601) ''method not found'' r))"

definition post_document ::
    "string \<Rightarrow> 'a mcp_world_scheme Tool list \<Rightarrow> (nat \<Rightarrow> char) \<Rightarrow> string \<Rightarrow> bool \<Rightarrow> 'a mcp_world_scheme handler" where
  "post_document version tools stale text' streamed wr =
     (let (w, r) = wr; bad = (upload_cleanup w, send_rpc_error stale ''null'' (-32700) ''parse error'' r) in
      case json_parse text' of
        Inl e \<Rightarrow> bad
      | Inr doc \<Rightarrow>
          if ntok doc < 1 \<or> ttype (tok doc ! 0) \<noteq> JSMN_OBJECT then bad
          else
            let id_tok = json_obj_get doc 0 ''id'';
                raw = (if id_tok \<ge> 0 then json_raw doc id_tok 80 else None);
                id' = (case raw of Some i \<Rightarrow> i | None \<Rightarrow> ''null'');
                mtok = json_obj_get doc 0 ''method''
            in case (if mtok < 0 then None else json_get_string doc mtok 48) of
                 None \<Rightarrow> (upload_cleanup w, send_rpc_error stale id' (-32600) ''missing method'' r)
               | Some method \<Rightarrow>
                   if raw = None \<or> strneq 14 method ''notifications/'' then
                     (upload_cleanup w, r\<lparr>fd := http_send_header 202 ''text/plain'' 0 (fd r)\<rparr>)
                   else (case post_method version tools stale doc id' method streamed (w, r) of
                           (w, r) \<Rightarrow> (upload_cleanup w, r)))"

definition handle_post ::
    "string \<Rightarrow> 'a mcp_world_scheme Tool list \<Rightarrow> (nat \<Rightarrow> char) \<Rightarrow> 'a mcp_world_scheme handler" where
  "handle_post version tools stale wr =
     (let (w, r) = wr in
      if \<not> has_content_length r then (w, reply_error 411 ''Content-Length required'' r)
      else
        let (doc_buf, r) = request_alloc MCP_DOC_MAX r;
            (chunk, r) = request_alloc MCP_READ_CHUNK r;
            (doc, r) = request_alloc sizeof_JsonDoc r
        in if doc_buf = None \<or> chunk = None \<or> doc = None then (w, reply_error 500 ''out of request memory'' r)
           else
             let (read_ok, js, w, r) = post_loop (jstream_init MCP_DOC_MAX) (w\<lparr>g_upload := empty_upload\<rparr>) r;
                 fin = (if jerr js = None \<and> read_ok then jstream_finish js
                        else case jerr js of Some e \<Rightarrow> Inl e | None \<Rightarrow> Inr False);
                 jerr' = (case fin of Inl e \<Rightarrow> Some e | Inr b \<Rightarrow> None)
             in if jerr' \<noteq> None \<or> \<not> read_ok
                then (upload_cleanup w, send_rpc_error stale ''null'' (-32700) (post_error jerr') r)
                else post_document version tools stale (jdoc js) (fin = Inr True) (w, r))"

definition handle_get :: "'w handler" where
  "handle_get wr =
     (let (w, r) = wr; r = r\<lparr>keep_alive := False, fd := http_set_keep_alive False (fd r)\<rparr>
      in (w, reply_error 405 ''method not allowed'' r))"

definition mcp_server_http_register ::
    "string \<Rightarrow> 'a mcp_world_scheme Tool list \<Rightarrow> (nat \<Rightarrow> char) \<Rightarrow> 'a mcp_world_scheme Server \<times> string list \<Rightarrow>
     'a mcp_world_scheme Server \<times> string list" where
  "mcp_server_http_register version tools stale st =
     (let (s, txt') = st;
          s = snd (http_server_register_route ''POST'' ''/mcp'' (handle_post version tools stale) s);
          s = snd (http_server_register_route ''GET'' ''/mcp'' handle_get s)
      in (s, snd (mdns_add_txt ''path=/mcp'' txt')))"

section \<open>Replies are framed exactly\<close>

lemma length_dec: "0 < k \<Longrightarrow> n < 10 ^ k \<Longrightarrow> length (dec n) \<le> k"
proof (induction n arbitrary: k rule: dec.induct)
  case (1 n)
  show ?case
  proof (cases "n < 10")
    case True
    with "1.prems" show ?thesis by (simp add: dec.simps [of n])
  next
    case False
    with "1.prems" obtain j where j: "k = Suc j" "0 < j" by (cases k; cases "k = 1") auto
    have "n div 10 < 10 ^ j" using "1.prems"(2) j by (simp add: less_mult_imp_div_less)
    with "1.IH" [OF False j(2)] False j show ?thesis by (simp add: dec.simps [of n])
  qed
qed

lemma write_pieces_healthy: "tx c = [] \<Longrightarrow> write_pieces ps c = c\<lparr>sent := sent c @ concat ps\<rparr>"
  by (induction ps arbitrary: c) (simp_all add: write_pieces_def http_write_all_healthy)

lemma http_send_header_200:
  assumes "tx c = []" and "n < 2 ^ 64"
  shows "http_send_header 200 json_type n c = c\<lparr>sent := sent c @ header_text 200 json_type n [] c\<rparr>"
proof -
  have "n < 10 ^ 20" using assms(2) by (rule less_trans) simp
  then have "length (dec n) \<le> 20" "length (dec 200) \<le> 3" by (intro length_dec; simp)+
  then have "length (header_text 200 json_type n [] c) < 768"
    by (simp add: header_text_def status_reason_def json_type_def conn_hdr_def CRLF_def)
  then show ?thesis using assms(1)
    by (simp add: http_send_header_def send_header_extra_def http_write_all_healthy Let_def)
qed

text \<open>A response with exactly this body, and the length it announces.\<close>

definition framed :: "HttpRequest \<Rightarrow> string \<Rightarrow> HttpRequest \<Rightarrow> bool" where
  "framed r body r' \<longleftrightarrow> sent (fd r') = sent (fd r) @ header_text 200 json_type (length body) [] (fd r) @ body"

definition rpc_message :: "string \<Rightarrow> string \<Rightarrow> string \<Rightarrow> string" where
  "rpc_message id' key' val = rpc_head id' key' @ val @ ''}''"

lemma length_rpc_head: "length (rpc_head id' key') = 26 + length id' + length key'"
  by (simp add: rpc_head_def quoted_def)

lemma sent_head_short: "length id' < 64 \<Longrightarrow> key' = ''result'' \<or> key' = ''error'' \<Longrightarrow> sent_head stale id' key' = rpc_head id' key'"
  by (auto simp: sent_head_def printed_def length_rpc_head RPC_HEAD_MAX_def)

lemma send_rpc_value_framed:
  assumes "tx (fd r) = []" and "length id' < 64" and "key' = ''result'' \<or> key' = ''error''" and "length val < 2 ^ 32"
  shows "framed r (rpc_message id' key' val) (send_rpc_value stale id' key' val r)"
  using assms(1,4) sent_head_short [OF assms(2,3)]
    http_send_header_200 [of "fd r" "length (rpc_message id' key' val)"] assms(2,3)
  by (auto simp: send_rpc_value_def framed_def Let_def write_pieces_healthy rpc_message_def length_rpc_head)

lemma send_result_stream_framed:
  assumes "tx (fd r) = []" and "length id' < 64" and "length pre + length payload + length post < 2 ^ 32"
  shows "framed r (rpc_message id' ''result'' (pre @ payload @ post)) (send_result_stream stale id' pre payload post r)"
  using assms(1,3) sent_head_short [OF assms(2), of "''result''"]
    http_send_header_200 [of "fd r" "length (rpc_message id' ''result'' (pre @ payload @ post))"] assms(2)
  by (auto simp: send_result_stream_def framed_def Let_def write_pieces_healthy rpc_message_def length_rpc_head http_write_all_healthy)

lemma request_alloc_fd: "request_alloc n r = (b, r') \<Longrightarrow> fd r' = fd r"
  by (auto simp: request_alloc_def Let_def split: if_splits)

definition tool_text :: "bool \<Rightarrow> string \<Rightarrow> string" where
  "tool_text is_error msg = TEXT_PRE @ concat (map escape_char msg) @ (if is_error then TEXT_POST_ERR else TEXT_POST_OK)"

lemma send_tool_text_framed:
  assumes "tx (fd r) = []" and "length (call_id call) < 64" and "align16 (mem_used r) + json_escaped_len msg < REQUEST_MEMORY_SIZE"
  shows "framed r (rpc_message (call_id call) ''result'' (tool_text is_error msg)) (send_tool_text stale call is_error msg r)"
proof -
  let ?e = "concat (map escape_char msg)"
  have alloc: "\<exists>p r'. request_alloc (json_escaped_len msg + 1) r = (Some p, r') \<and> fd r' = fd r"
    using assms(3) by (auto simp: request_alloc_def Let_def)
  then obtain p r' where p: "request_alloc (json_escaped_len msg + 1) r = (Some p, r')" "fd r' = fd r" by blast
  have e: "json_escape msg (json_escaped_len msg + 1) = Some ?e"
    using escape_loop_fits [of "[]" "json_escaped_len msg + 1" msg] by (simp add: json_escape_def)
  have "length ?e < 0xA0000" using assms(3) by (simp add: json_escaped_len_eq REQUEST_MEMORY_SIZE_def)
  then have "length TEXT_PRE + length ?e + length (if is_error then TEXT_POST_ERR else TEXT_POST_OK) < 2 ^ 32"
    by (simp add: TEXT_PRE_def TEXT_POST_ERR_def TEXT_POST_OK_def quoted_def)
  from send_result_stream_framed [OF _ assms(2) this, of r' stale] p assms(1) e show ?thesis
    by (simp add: send_tool_text_def Let_def tool_text_def framed_def)
qed

text \<open>Base64 in pieces is the base64 of the whole.\<close>

lemma write_base64_healthy:
  "tx c = [] \<Longrightarrow> write_base64_loop bs c = (True, c\<lparr>sent := sent c @ b64_encode bs\<rparr>)"
proof (induction bs c rule: write_base64_loop.induct)
  case (1 bs c)
  show ?case
  proof (cases "bs = []")
    case True
    then show ?thesis by (simp add: write_base64_loop.simps)
  next
    case False
    let ?c = "c\<lparr>sent := sent c @ b64_encode (take 3072 bs)\<rparr>"
    have w: "http_write_all (b64_encode (take 3072 bs)) c = (True, ?c)" using "1.prems" by (simp add: http_write_all_healthy)
    have "b64_encode (take 3072 bs) @ b64_encode (drop 3072 bs) = b64_encode bs"
    proof (cases "length bs \<le> 3072")
      case True
      then show ?thesis by simp
    next
      case False
      then show ?thesis using b64_encode_append [of "take 3072 bs" "drop 3072 bs"] by simp
    qed
    moreover have "write_base64_loop bs c = write_base64_loop (drop 3072 bs) ?c"
      using False w by (simp add: write_base64_loop.simps [of bs c])
    moreover have "write_base64_loop (drop 3072 bs) ?c = (True, ?c\<lparr>sent := sent ?c @ b64_encode (drop 3072 bs)\<rparr>)"
      by (rule "1.IH" [OF False w [symmetric]]) (use "1.prems" in simp_all)
    ultimately show ?thesis by simp
  qed
qed

definition image_content :: "string option \<Rightarrow> u8 list \<Rightarrow> string" where
  "image_content txt' jpeg =
     (case txt' of Some t \<Rightarrow> TEXT_PRE @ t @ img_pre | None \<Rightarrow> img_only_pre) @ b64_encode jpeg @ img_post"

lemma mcp_reply_image_framed:
  assumes "tx (fd r) = []" and "length (call_id call) < 64" and "align16 (mem_used r) + 4096 \<le> REQUEST_MEMORY_SIZE"
    and "length (case txt' of Some t \<Rightarrow> t | None \<Rightarrow> []) < 2 ^ 20" and "length jpeg < 2 ^ 24"
  shows "framed r (rpc_message (call_id call) ''result'' (image_content txt' jpeg)) (mcp_reply_image stale call txt' jpeg r)"
proof -
  let ?b = "rpc_message (call_id call) ''result'' (image_content txt' jpeg)"
  let ?pre = "case txt' of Some t \<Rightarrow> [TEXT_PRE, t, img_pre] | None \<Rightarrow> [img_only_pre]"
  have pre: "concat ?pre @ b64_encode jpeg @ img_post = image_content txt' jpeg"
    by (simp add: image_content_def split: option.split)
  then have pl: "length (concat ?pre) + (b64_encoded_len (length jpeg) + length img_post) = length (image_content txt' jpeg)"
    by (metis length_append length_b64_encode)
  have "b64_encoded_len (length jpeg) < 2 ^ 25" using assms(5) by (simp add: b64_encoded_len_def)
  then have "length (image_content txt' jpeg) < 2 ^ 26" using assms(4)
    by (simp add: image_content_def length_b64_encode TEXT_PRE_def img_pre_def img_only_pre_def img_post_def quoted_def split: option.splits)
  then have "length ?b < 2 ^ 64" using assms(2) by (simp add: rpc_message_def length_rpc_head)
  from http_send_header_200 [OF assms(1) this]
  have h: "http_send_header 200 json_type (length ?b) (fd r) = (fd r)\<lparr>sent := sent (fd r) @ header_text 200 json_type (length ?b) [] (fd r)\<rparr>" .
  have len: "length (rpc_head (call_id call) ''result'') + b64_encoded_len (length jpeg) + length img_post + 1 + length (concat ?pre) = length ?b"
    using pl by (simp add: rpc_message_def)
  have a: "request_alloc 4096 (r\<lparr>fd := c\<rparr>) =
      (Some (align16 (mem_used r)), r\<lparr>fd := c, mem_used := align16 (mem_used r) + 4096\<rparr>)" for c
    using assms(3) by (simp add: request_alloc_def Let_def)
  show ?thesis unfolding mcp_reply_image_def Let_def len h framed_def
    using assms(1) sent_head_short [OF assms(2), of "''result''" stale] pre
    by (simp add: write_pieces_healthy write_base64_def a write_base64_healthy rpc_message_def)
qed

section \<open>The tool table\<close>

interpretation mcp_tools: bounded_table "\<lambda>ts. ts"
    "\<lambda>t ts. (length ts < MCP_MAX_TOOLS, mcp_server_register_tool (tool_def t) (tool_handler t) ts)" MCP_MAX_TOOLS
  by unfold_locales (auto simp: mcp_server_register_tool_def)

text \<open>A definition with its markers expanded.\<close>

definition tool_json :: "string list \<Rightarrow> string" where
  "tool_json def = concat (map (\<lambda>c. if ord c < 0x20 then def ! ord c else [c]) (def ! 0))"

lemma tool_runs_expand: "concat (tool_runs def s) = concat (map (\<lambda>c. if ord c < 0x20 then def ! ord c else [c]) s)"
proof (induction def s rule: tool_runs.induct)
  case (2 def c cs)
  let ?P = "\<lambda>c. ord c \<ge> (0x20 :: nat)" and ?x = "\<lambda>c. if ord c < (0x20 :: nat) then def ! ord c else [c]"
  show ?case
  proof (cases "ord c < (0x20 :: nat)")
    case True
    with "2.IH"(1) show ?thesis by simp
  next
    case False
    have t: "concat (map ?x (takeWhile ?P (c # cs))) = takeWhile ?P (c # cs)"
    proof -
      have "\<forall>y \<in> set (takeWhile ?P (c # cs)). ?x y = [y]" by (auto dest: set_takeWhileD)
      then have "map ?x (takeWhile ?P (c # cs)) = map (\<lambda>y. [y]) (takeWhile ?P (c # cs))" by (intro map_cong) auto
      moreover have "concat (map (\<lambda>y. [y]) xs) = xs" for xs :: string by (induction xs) simp_all
      ultimately show ?thesis by (simp only:)
    qed
    have "concat (map ?x (c # cs)) = concat (map ?x (takeWhile ?P (c # cs) @ dropWhile ?P (c # cs)))"
      by (simp only: takeWhile_dropWhile_id)
    also have "\<dots> = takeWhile ?P (c # cs) @ concat (map ?x (dropWhile ?P (c # cs)))" by (simp only: map_append concat_append t)
    also have "\<dots> = concat (tool_runs def (c # cs))" using "2.IH"(2) False by simp
    finally show ?thesis by (rule sym)
  qed
qed simp

lemma write_tool_measures: "fst (write_tool c def) = length (tool_json def)"
  by (simp add: write_tool_def Let_def tool_runs_expand tool_json_def)

lemma write_tools_healthy: "tx c = [] \<Longrightarrow> write_tools ts c = c\<lparr>sent := sent c @ json_members (map (\<lambda>t. tool_json (tool_def t)) ts)\<rparr>"
proof (induction ts arbitrary: c)
  case (Cons t ts)
  have w: "write_tool (Some c) (tool_def t) = (length (tool_json (tool_def t)), Some (c\<lparr>sent := sent c @ tool_json (tool_def t)\<rparr>))"
    using Cons.prems by (simp add: write_tool_def Let_def write_pieces_healthy tool_runs_expand tool_json_def)
  show ?case using Cons by (cases ts) (simp_all add: w http_write_all_healthy)
qed simp

lemma length_json_members: "length (json_members xs) = sum_list (map length xs) + (length xs - 1)"
  by (induction xs rule: json_members.induct) simp_all

definition tools_value :: "'w Tool list \<Rightarrow> string" where
  "tools_value tools = ''{'' @ quoted ''tools'' @ '':['' @ json_members (map (\<lambda>t. tool_json (tool_def t)) tools) @ '']}''"

lemma handle_tools_list_framed:
  assumes "tx (fd r) = []" and "length id' < 64" and "length (tools_value tools) < 2 ^ 32"
  shows "framed r (rpc_message id' ''result'' (tools_value tools)) (handle_tools_list tools stale id' r)"
proof -
  let ?b = "rpc_message id' ''result'' (tools_value tools)"
  have "length ?b < 2 ^ 64" using assms(2,3) by (simp add: rpc_message_def length_rpc_head)
  from http_send_header_200 [OF assms(1) this]
  have h: "http_send_header 200 json_type (length ?b) (fd r) = (fd r)\<lparr>sent := sent (fd r) @ header_text 200 json_type (length ?b) [] (fd r)\<rparr>" .
  have len: "length (rpc_head id' ''result'') + length (''{'' @ quoted ''tools'' @ '':['') + length '']}'' + 1 +
      (sum_list (map (\<lambda>t. fst (write_tool None (tool_def t))) tools) + (length tools - 1)) = length ?b"
    by (simp add: rpc_message_def tools_value_def length_json_members write_tool_measures comp_def)
  show ?thesis unfolding handle_tools_list_def Let_def len h framed_def
    using assms(1) sent_head_short [OF assms(2), of "''result''" stale]
    by (simp add: write_pieces_healthy write_tools_healthy rpc_message_def tools_value_def)
qed

definition tool_prefix :: string where
  "tool_prefix = ''{'' @ quoted ''name'' @ '':'' @ [DQUOTE]"

text \<open>The name a definition starts with.\<close>

definition tool_name :: "'w Tool \<Rightarrow> string" where
  "tool_name t = takeWhile (\<lambda>c. c \<noteq> DQUOTE) (drop (length tool_prefix) (tool_def t ! 0))"

definition named :: "'w Tool \<Rightarrow> bool" where
  "named t \<longleftrightarrow> DQUOTE \<in> set (drop (length tool_prefix) (tool_def t ! 0))"

lemma take_while_unique:
  assumes "c \<in> set p" and "c \<notin> set n"
  shows "take (length n) p = n \<and> length n < length p \<and> p ! length n = c \<longleftrightarrow> takeWhile (\<lambda>x. x \<noteq> c) p = n"
proof
  assume l: "take (length n) p = n \<and> length n < length p \<and> p ! length n = c"
  then have "p = n @ c # drop (Suc (length n)) p" by (metis append_take_drop_id Cons_nth_drop_Suc)
  then have "takeWhile (\<lambda>x. x \<noteq> c) p = takeWhile (\<lambda>x. x \<noteq> c) (n @ c # drop (Suc (length n)) p)" by simp
  also have "\<dots> = n" using assms(2) by (subst takeWhile_append2) auto
  finally show "takeWhile (\<lambda>x. x \<noteq> c) p = n" .
next
  assume n: "takeWhile (\<lambda>x. x \<noteq> c) p = n"
  obtain a b where p: "p = a @ c # b" "c \<notin> set a" using split_list_first [OF assms(1)] by blast
  then have "n = a" using n by (subst (asm) p) (subst (asm) takeWhile_append2; auto)
  with p show "take (length n) p = n \<and> length n < length p \<and> p ! length n = c" by simp
qed

lemma tool_is_name: "named t \<Longrightarrow> DQUOTE \<notin> set name \<Longrightarrow> tool_is (tool_def t) name \<longleftrightarrow> tool_name t = name"
  unfolding tool_is_def Let_def tool_name_def named_def tool_prefix_def by (rule take_while_unique)

lemma call_tool_find:
  assumes "\<forall>t \<in> set tools. named t" and "DQUOTE \<notin> set name"
  shows "call_tool tools stale name call (w, r) =
    (case find (\<lambda>t. tool_name t = name) tools of Some t \<Rightarrow> tool_handler t call (w, r)
     | None \<Rightarrow> (w, send_rpc_error stale (call_id call) (-32602) ''unknown tool'' r))"
  using assms by (induction tools) (auto simp: tool_is_name)

section \<open>A streamed upload\<close>

lemma feed_loop_sim:
  shows "R (snd p) c \<Longrightarrow> (\<And>inp a c. inp \<noteq> [] \<Longrightarrow> R a c \<Longrightarrow> R (s1 inp a) (s2 inp c)) \<Longrightarrow> fst (feed_loop s2 (fst p, c) cs) = fst (feed_loop s1 p cs) \<and>
    R (snd (feed_loop s1 p cs)) (snd (feed_loop s2 (fst p, c) cs))"
proof (induction s1 p cs arbitrary: c rule: feed_loop.induct)
  case (2 sink js ctx x cs)
  have R: "R ctx c" using "2.prems"(1) by simp
  note step = "2.prems"(2)
  show ?case
  proof (cases "jerr js \<noteq> None")
    case True
    then show ?thesis using R by simp
  next
    case e: False
    show ?thesis
    proof (cases "divert js")
      case d: True
      show ?thesis
      proof (cases "esc js")
        case s: True
        show ?thesis
        proof (cases "content_escape x")
          case None
          then show ?thesis using R e d s by simp
        next
          case (Some u)
          with "2.IH"(1) [OF e d s Some, of "s2 [u] c"] R step e d s show ?thesis by simp
        qed
      next
        case s: False
        consider (q) "x = DQUOTE" | (b) "x \<noteq> DQUOTE" "x = BACKSLASH" | (r) "x \<noteq> DQUOTE" "x \<noteq> BACKSLASH" by blast
        then show ?thesis
        proof cases
          case q
          with "2.IH"(2) [OF e d s q, of c] R step e d s show ?thesis by simp
        next
          case b
          with "2.IH"(3) [OF e d s b, of c] R step e d s show ?thesis by simp
        next
          case r
          let ?t = "takeWhile run_char (x # cs)" and ?d = "dropWhile run_char (x # cs)"
          have "R (sink ?t ctx) (s2 ?t c)"
            by (rule step [OF _ R]) (use r in \<open>simp add: run_char_def\<close>)
          then have ih: "fst (feed_loop s2 (js, s2 ?t c) ?d) = fst (feed_loop sink (js, sink ?t ctx) ?d) \<and>
              R (snd (feed_loop sink (js, sink ?t ctx) ?d)) (snd (feed_loop s2 (js, s2 ?t c) ?d))"
            by (rule "2.IH"(4) [OF e d s r, unfolded fst_conv snd_conv]) (rule step)
          have "feed_loop sink (js, ctx) (x # cs) = feed_loop sink (js, sink ?t ctx) ?d"
            "feed_loop s2 (js, c) (x # cs) = feed_loop s2 (js, s2 ?t c) ?d"
            using e d s r by (simp_all add: run_char_def)
          then show ?thesis by (simp only: fst_conv ih)
        qed
      qed
    next
      case d: False
      show ?thesis
      proof (cases "in_string js")
        case True
        with "2.IH"(5) [OF e d True, of c] R step e d show ?thesis by simp
      next
        case False
        with "2.IH"(6) [OF e d False, of c] R step e d show ?thesis by simp
      qed
    qed
  qed
qed simp

lemma upload_keys: "key CONFIG_DIR = [''config'', ''sys-autopilot'']"
    "key MCP_UPLOAD_TMP = [''config'', ''sys-autopilot'', ''.upload.tmp'']"
  by (simp_all add: key_def CONFIG_DIR_def MCP_UPLOAD_TMP_def FILES_ROOT_def starts_with_def)

text \<open>The card an upload starts from: the configuration directory is there, the temporary path is not a directory.\<close>

definition upload_ready :: "'a mcp_world_scheme \<Rightarrow> bool" where
  "upload_ready w \<longleftrightarrow> is_dir w (key CONFIG_DIR) \<and> \<not> is_dir w (key MCP_UPLOAD_TMP)"

definition temp_written :: "'a mcp_world_scheme \<Rightarrow> u8 list \<Rightarrow> 'a mcp_world_scheme \<Rightarrow> bool" where
  "temp_written w0 bs w \<longleftrightarrow> node_at w = (node_at w0)(key MCP_UPLOAD_TMP \<mapsto> Reg (map unbyte bs) (now_ms w0 div 1000))"

definition uploading :: "'a mcp_world_scheme \<Rightarrow> string \<Rightarrow> 'a mcp_world_scheme \<times> HttpRequest \<Rightarrow> bool" where
  "uploading w0 received wr \<longleftrightarrow> faults (fst wr) = [] \<and> now_ms (fst wr) = now_ms w0 \<and>
     (if received = [] then g_upload (fst wr) = empty_upload \<and> node_at (fst wr) = node_at w0 \<and>
        align16 (mem_used (snd wr)) + UPLOAD_DECODE_SIZE \<le> REQUEST_MEMORY_SIZE
      else case b64dec_loop b64dec_init received [] of
        (d, None) \<Rightarrow> ufailed (g_upload (fst wr))
      | (d, Some bs) \<Rightarrow>
          (\<exists>p. g_upload (fst wr) = \<lparr>decbuf = Some p, ufile = True, udec = d, ubytes = length bs, ufailed = False\<rparr>) \<and>
          temp_written w0 bs (fst wr))"

lemma upload_node_at [simp]: "node_at (w\<lparr>g_upload := u\<rparr>) = node_at w" "is_dir (w\<lparr>g_upload := u\<rparr>) = is_dir w"
    "sd_stat (w\<lparr>g_upload := u\<rparr>) = sd_stat w"
  by (rule ext, simp add: node_at_def is_dir_def sd_stat_def)+

lemma upload_attempt: "faults w = [] \<Longrightarrow> attempt w = (True, w)"
  by (rule no_faults)

text \<open>What the sink does with the first piece and with the next ones, the medium working.\<close>

lemma b64dec_init_append:
  "b64dec_loop b64dec_init (a @ b) [] = (case b64dec_loop b64dec_init a [] of
     (d, None) \<Rightarrow> (d, None) | (d, Some out) \<Rightarrow> (case b64dec_loop d b [] of (d', None) \<Rightarrow> (d', None) | (d', Some o2) \<Rightarrow> (d', Some (out @ o2))))"
proof -
  obtain d o1 where l: "b64dec_loop b64dec_init a [] = (d, o1)" by (cases "b64dec_loop b64dec_init a []")
  show ?thesis
  proof (cases o1)
    case None
    then show ?thesis by (simp add: b64dec_loop_append l)
  next
    case (Some bs)
    then show ?thesis using b64dec_loop_out [of d b bs]
      by (simp add: b64dec_loop_append l split: prod.split option.split)
  qed
qed

definition sink_write :: "string \<Rightarrow> 'a mcp_world_scheme \<Rightarrow> 'a mcp_world_scheme" where
  "sink_write inp w =
     (let u = g_upload w; (dec', decoded) = b64dec_update (udec u) inp in
      case decoded of
        None \<Rightarrow> w\<lparr>g_upload := u\<lparr>udec := dec', ufailed := True\<rparr>\<rparr>
      | Some bs \<Rightarrow>
          let (written, w) = (if bs = [] then (True, w\<lparr>g_upload := u\<lparr>udec := dec'\<rparr>\<rparr>)
                              else sd_write MCP_UPLOAD_TMP (map unbyte bs) (w\<lparr>g_upload := u\<lparr>udec := dec'\<rparr>\<rparr>))
          in if \<not> written then w\<lparr>g_upload := (g_upload w)\<lparr>ufailed := True\<rparr>\<rparr>
             else w\<lparr>g_upload := u\<lparr>udec := dec', ubytes := ubytes u + length bs\<rparr>\<rparr>)"

lemma sink_open:
  assumes "g_upload w = \<lparr>decbuf = Some p, ufile = True, udec = d, ubytes = n, ufailed = False\<rparr>"
  shows "upload_sink inp (w, r) = (sink_write inp w, r)"
  using assms by (simp add: upload_sink_def sink_write_def Let_def split: prod.split option.split)

abbreviation opened_upload :: "nat \<Rightarrow> B64Decoder \<Rightarrow> nat \<Rightarrow> UploadCtx" where
  "opened_upload p d n \<equiv> \<lparr>decbuf = Some p, ufile = True, udec = d, ubytes = n, ufailed = False\<rparr>"

lemma tmp_key_ne [simp]: "key MCP_UPLOAD_TMP \<noteq> []" "key CONFIG_DIR \<noteq> []" "butlast (key MCP_UPLOAD_TMP) = key CONFIG_DIR"
  by (simp_all add: upload_keys)

lemma upload_absorb [simp]: "w\<lparr>g_upload := a, nodes := n, g_upload := b\<rparr> = w\<lparr>nodes := n, g_upload := b\<rparr>"
  by (cases w) simp

lemma sink_first:
  assumes "upload_ready w" and "faults w = []" and "g_upload w = empty_upload"
    and "align16 (mem_used r) + UPLOAD_DECODE_SIZE \<le> REQUEST_MEMORY_SIZE"
  shows "\<exists>p r'. upload_sink inp (w, r) =
    (sink_write inp ((put_node (key MCP_UPLOAD_TMP) (Reg [] (now_ms w div 1000)) w)\<lparr>g_upload := opened_upload p b64dec_init 0\<rparr>), r')"
proof -
  let ?w1 = "\<lambda>p. w\<lparr>g_upload := \<lparr>decbuf = Some p, ufile = False, udec = b64dec_init, ubytes = 0, ufailed = False\<rparr>\<rparr>"
  have mk: "sd_mkdir CONFIG_DIR (?w1 p) = ?w1 p" for p
  proof -
    have "node_at w (key CONFIG_DIR) = Some Dir" using assms(1) by (simp add: upload_ready_def is_dir_def)
    then show ?thesis using assms(2) by (simp add: sd_mkdir_def upload_attempt Let_def)
  qed
  have cr: "sd_create MCP_UPLOAD_TMP (?w1 p) = (True, put_node (key MCP_UPLOAD_TMP) (Reg [] (now_ms w div 1000)) (?w1 p))" for p
    using assms(1,2) by (simp add: sd_create_def upload_attempt Let_def upload_ready_def)
  have al: "request_alloc UPLOAD_DECODE_SIZE r = (Some (align16 (mem_used r)), r\<lparr>mem_used := align16 (mem_used r) + UPLOAD_DECODE_SIZE\<rparr>)"
    using assms(4) by (simp add: request_alloc_def Let_def)
  let ?p = "align16 (mem_used r)"
  let ?w2 = "(put_node (key MCP_UPLOAD_TMP) (Reg [] (now_ms w div 1000)) w)\<lparr>g_upload := opened_upload ?p b64dec_init 0\<rparr>"
  have "upload_sink inp (w, r) = upload_sink inp (?w2, r\<lparr>mem_used := ?p + UPLOAD_DECODE_SIZE\<rparr>)"
    by (simp add: upload_sink_def Let_def assms(3) empty_upload_def al mk cr put_node_def split: prod.split option.split)
  also have "\<dots> = (sink_write inp ?w2, r\<lparr>mem_used := ?p + UPLOAD_DECODE_SIZE\<rparr>)" by (rule sink_open) simp
  finally show ?thesis by blast
qed

lemma sink_write_spec:
  assumes "faults w = []" and "g_upload w = opened_upload p d (length bs)" and "temp_written w0 bs w" and "\<not> err d"
  shows "faults (sink_write inp w) = [] \<and> now_ms (sink_write inp w) = now_ms w \<and>
    (case b64dec_loop d inp [] of
       (d', None) \<Rightarrow> ufailed (g_upload (sink_write inp w))
     | (d', Some o2) \<Rightarrow> g_upload (sink_write inp w) = opened_upload p d' (length (bs @ o2)) \<and> temp_written w0 (bs @ o2) (sink_write inp w))"
proof (cases "b64dec_loop d inp []")
  case (Pair d' res)
  have u: "b64dec_update (udec (g_upload w)) inp = (d', res)" using assms(2,4) Pair by (simp add: b64dec_update_def)
  let ?w1 = "w\<lparr>g_upload := (g_upload w)\<lparr>udec := d'\<rparr>\<rparr>"
  have st: "sd_stat w MCP_UPLOAD_TMP = Some (Reg (map unbyte bs) (now_ms w0 div 1000))"
    using assms(3) by (simp add: sd_stat_def temp_written_def)
  have wr: "sd_write MCP_UPLOAD_TMP x ?w1 =
      (True, put_node (key MCP_UPLOAD_TMP) (Reg (map unbyte bs @ x) (now_ms w0 div 1000)) ?w1)" for x
    using assms(1) st by (simp add: sd_write_def upload_attempt Let_def)
  show ?thesis
  proof (cases res)
    case None
    then show ?thesis using assms(1) u Pair by (simp add: sink_write_def Let_def)
  next
    case (Some o2)
    show ?thesis
    proof (cases "o2 = []")
      case True
      then show ?thesis using assms u Pair Some by (simp add: sink_write_def Let_def temp_written_def)
    next
      case False
      have e: "sink_write inp w = (put_node (key MCP_UPLOAD_TMP) (Reg (map unbyte bs @ map unbyte o2) (now_ms w0 div 1000)) ?w1)
          \<lparr>g_upload := (g_upload w)\<lparr>udec := d', ubytes := ubytes (g_upload w) + length o2\<rparr>\<rparr>"
        using u Some False by (simp add: sink_write_def Let_def wr)
      then show ?thesis using assms Pair Some
        by (simp add: temp_written_def node_at_put) (simp add: put_node_def)
    qed
  qed
qed

lemma b64dec_loop_ok: "b64dec_loop b64dec_init a [] = (d, Some out) \<Longrightarrow> \<not> err d"
  using b64dec_loop_err [of b64dec_init a "[]"] by (simp add: b64dec_init_def)

lemma failed_stays: "ufailed (g_upload w) \<Longrightarrow> upload_sink inp (w, r) = (w, r)"
  by (simp add: upload_sink_def Let_def)

lemma uploading_step:
  assumes ready: "upload_ready w0" and inp: "inp \<noteq> []" and up: "uploading w0 received (w, r)"
  shows "uploading w0 (received @ inp) (upload_sink inp (w, r))"
proof (cases "received = []")
  case True
  with up have w: "faults w = []" "now_ms w = now_ms w0" "g_upload w = empty_upload" "node_at w = node_at w0"
    "align16 (mem_used r) + UPLOAD_DECODE_SIZE \<le> REQUEST_MEMORY_SIZE" by (simp_all add: uploading_def)
  have "upload_ready w" using ready w(4) by (simp add: upload_ready_def is_dir_def)
  from sink_first [OF this w(1,3,5)] obtain p r' where s: "upload_sink inp (w, r) =
    (sink_write inp ((put_node (key MCP_UPLOAD_TMP) (Reg [] (now_ms w div 1000)) w)\<lparr>g_upload := opened_upload p b64dec_init 0\<rparr>), r')"
    by blast
  let ?w1 = "(put_node (key MCP_UPLOAD_TMP) (Reg [] (now_ms w div 1000)) w)\<lparr>g_upload := opened_upload p b64dec_init 0\<rparr>"
  have "temp_written w0 [] ?w1" using w by (simp add: temp_written_def node_at_put)
  moreover have "faults ?w1 = []" "now_ms ?w1 = now_ms w0" using w by (simp_all add: put_node_def)
  ultimately show ?thesis using sink_write_spec [of ?w1 p b64dec_init "[]" w0 inp] inp True
    by (auto simp: s uploading_def b64dec_init_def split: prod.splits option.splits)
next
  case False
  obtain d res where l: "b64dec_loop b64dec_init received [] = (d, res)" by (cases "b64dec_loop b64dec_init received []")
  show ?thesis
  proof (cases res)
    case None
    with up False l have "ufailed (g_upload w)" by (simp add: uploading_def)
    then show ?thesis using up False l None by (simp add: failed_stays uploading_def b64dec_init_append)
  next
    case (Some bs)
    with up False l obtain p where w: "faults w = []" "now_ms w = now_ms w0" "g_upload w = opened_upload p d (length bs)" "temp_written w0 bs w"
      by (auto simp: uploading_def)
    from sink_write_spec [OF w(1,3,4), of inp] b64dec_loop_ok [of received d bs] l Some False w(2)
    show ?thesis unfolding sink_open [OF w(3)] uploading_def b64dec_init_append
      by (auto split: prod.splits option.splits)
  qed
qed

abbreviation collect :: "string \<Rightarrow> string \<Rightarrow> string" where
  "collect s got \<equiv> got @ s"

lemma upload_sink_request:
  "snd (upload_sink inp (w, r)) =
     (if ufailed (g_upload w) \<or> decbuf (g_upload w) \<noteq> None then r else snd (request_alloc UPLOAD_DECODE_SIZE r))"
  by (cases "decbuf (g_upload w)")
    (simp_all add: upload_sink_def Let_def split_beta if_distrib [of snd] option.case_eq_if)

lemma feed_keeps_request:
  "\<exists>m. snd (snd (jstream_feed upload_sink (js, w, r) d)) = r\<lparr>mem_used := m\<rparr>"
proof -
  have step: "\<exists>m. snd (upload_sink inp c) = r\<lparr>mem_used := m\<rparr>" if "\<exists>m. snd c = r\<lparr>mem_used := m\<rparr>" for inp and c :: "'a mcp_world_scheme \<times> HttpRequest"
  proof -
    obtain w1 m where c: "c = (w1, r\<lparr>mem_used := m\<rparr>)" using \<open>\<exists>m. snd c = r\<lparr>mem_used := m\<rparr>\<close> by (cases c) auto
    show ?thesis unfolding c upload_sink_request by (simp add: request_alloc_def Let_def) blast
  qed
  have "\<exists>m. snd (snd (js, w, r)) = r\<lparr>mem_used := m\<rparr>" by (intro exI [of _ "mem_used r"]) simp
  from feed_loop_inv [where P = "\<lambda>c. \<exists>m. snd c = r\<lparr>mem_used := m\<rparr>" and sink = upload_sink and s = "(js, w, r)" and cs = d] this step
  show ?thesis unfolding jstream_feed_def by blast
qed

lemma collect_stream: "stream_sink collect"
  by (simp add: stream_sink_def)

lemma collect_append: "jstream_feed collect s (a @ b) = jstream_feed collect (jstream_feed collect s a) b"
  by (rule jstream_collect.feed_append)

lemma collect_err: "jerr js \<noteq> None \<Longrightarrow> jstream_feed collect (js, c) d = (js, c)"
  unfolding jstream_feed_def feed_loop_steps [OF collect_stream] by (rule jstep_err)

text \<open>
  The body loop on a clean link: what it hands the scanner is the body, and the upload follows what the scanner
  collects.
\<close>

lemma post_loop_uploads:
  assumes "upload_ready w0" and "uploading w0 c (w, r)" and "clean (fd r)" and "body_ok r" and "has_content_length r"
    and "jstream_feed collect (js, c) (take (content_length r - body_consumed r) (body_stream r)) = (js', c')"
    and "jerr js = None" and "jerr js' = None"
  shows "\<exists>w' r'. post_loop js w r = (True, js', w', r') \<and> uploading w0 c' (w', r')"
  using assms(2-8)
proof (induction js w r arbitrary: c rule: post_loop.induct)
  case (1 js w r)
  let ?n = "content_length r - body_consumed r"
  from http_read_body_clean [OF "1.prems"(2), of MCP_READ_CHUNK] "1.prems"(3,4) obtain d r1 where
    d: "http_read_body MCP_READ_CHUNK r = (Some d, r1)" "clean (fd r1)" "d = [] \<longleftrightarrow> take ?n (body_stream r) = []"
    by (auto simp: MCP_READ_CHUNK_def)
  note st = http_read_body_stream [OF d(1)]
  have mem: "mem_used r1 = mem_used r"
    using d(1) by (auto simp: http_read_body_def send_continue_def Let_def split: if_splits prod.splits option.splits)
  have up1: "uploading w0 c (w, r1)" using "1.prems"(1) unfolding uploading_def fst_conv snd_conv mem .
  show ?case
  proof (cases "d = []")
    case True
    then show ?thesis using d "1.prems"(5) up1 by (auto simp: post_loop.simps [of js w r] jstream_feed_def)
  next
    case False
    have len: "length d \<le> ?n" using st(2,4,5) st(6) [OF "1.prems"(3)] "1.prems"(4) by (simp add: body_ok_def)
    have whole: "take ?n (body_stream r) = d @ take (content_length r1 - body_consumed r1) (body_stream r1)"
      using st(1,2,4) len by simp
    obtain j1 c1 where f: "jstream_feed collect (js, c) d = (j1, c1)" by (cases "jstream_feed collect (js, c) d")
    have rest: "jstream_feed collect (j1, c1) (take (content_length r1 - body_consumed r1) (body_stream r1)) = (js', c')"
      using "1.prems"(5) unfolding whole collect_append f .
    have e1: "jerr j1 = None"
    proof (rule ccontr)
      assume "jerr j1 \<noteq> None"
      from collect_err [OF this] rest have "jerr js' \<noteq> None" using \<open>jerr j1 \<noteq> None\<close> by (metis prod.inject)
      with "1.prems"(7) show False by simp
    qed
    have sim: "fst (feed_loop upload_sink (fst (js, c), (w, r1)) d) = fst (feed_loop collect (js, c) d) \<and>
        uploading w0 (snd (feed_loop collect (js, c) d)) (snd (feed_loop upload_sink (fst (js, c), (w, r1)) d))"
    proof (rule feed_loop_sim)
      show "uploading w0 (snd (js, c)) (w, r1)" using up1 by simp
      fix inp a :: string and p :: "'a mcp_world_scheme \<times> HttpRequest"
      assume "inp \<noteq> []" "uploading w0 a p"
      then show "uploading w0 (a @ inp) (upload_sink inp p)" using uploading_step [OF assms(1)] by (cases p) simp
    qed
    obtain w2 r2 where g: "jstream_feed upload_sink (js, w, r1) d = (j1, w2, r2)" and up2: "uploading w0 c1 (w2, r2)"
      using sim f by (cases "feed_loop upload_sink (js, w, r1) d") (auto simp: jstream_feed_def)
    obtain m where r2: "r2 = r1\<lparr>mem_used := m\<rparr>" using feed_keeps_request [of js w r1 d] g by auto
    have "\<exists>w' r'. post_loop j1 w2 r2 = (True, js', w', r') \<and> uploading w0 c' (w', r')"
    proof (rule "1.IH" [OF d(1) [symmetric] refl False g [symmetric] refl])
      show "\<not> jerr j1 \<noteq> None" using e1 by simp
      show "uploading w0 c1 (w2, r2)" by (rule up2)
      show "clean (fd r2)" "body_ok r2" "has_content_length r2"
        using r2 d(2) st(5) st(6) [OF "1.prems"(3)] "1.prems"(4) by (simp_all add: body_ok_def)
      show "jstream_feed collect (j1, c1) (take (content_length r2 - body_consumed r2) (body_stream r2)) = (js', c')"
        using rest r2 by (simp add: body_stream_def)
      show "jerr j1 = None" "jerr js' = None" using e1 "1.prems"(7) by simp_all
    qed
    then show ?thesis using d(1) False g e1 by (simp add: post_loop.simps [of js w r])
  qed
qed

section \<open>Properties\<close>

lemma long_id_sends_stale_bytes:
  "sent_head stale (replicate 70 (CHR ''1'')) ''result'' =
     fit 96 (rpc_head (replicate 70 (CHR ''1'')) ''result'') @ NUL # map stale [96, 97, 98, 99, 100, 101]"
proof -
  have l: "length (rpc_head (replicate 70 (CHR ''1'')) ''result'') = 102" by (simp add: length_rpc_head)
  have u: "[96..<102] = [96, 97, 98, 99, 100, 101]" by (simp add: upt_rec)
  show ?thesis unfolding sent_head_def printed_def RPC_HEAD_MAX_def l u by simp
qed

text \<open>
  On a link that takes everything, a tool's text, error and image replies are one response each whose announced
  length is exactly what follows: the JSON-RPC message with the escaped text or the base64 of the whole image.
\<close>

theorem tool_replies_framed:
  assumes "tx (fd r) = []" and "length (call_id call) < 64" and "length jpeg < 2 ^ 24"
    and "align16 (mem_used r) + json_escaped_len msg < REQUEST_MEMORY_SIZE"
    and "align16 (mem_used r) + 4096 \<le> REQUEST_MEMORY_SIZE"
  shows "framed r (rpc_message (call_id call) ''result'' (tool_text False msg)) (mcp_reply_text stale call msg r) \<and>
    framed r (rpc_message (call_id call) ''result'' (tool_text True msg)) (mcp_reply_error stale call msg r) \<and>
    framed r (rpc_message (call_id call) ''result'' (image_content None jpeg)) (mcp_reply_image stale call None jpeg r)"
  using send_tool_text_framed [OF assms(1,2,4)] mcp_reply_image_framed [OF assms(1,2,5) _ assms(3), of None]
  by (simp add: mcp_reply_text_def mcp_reply_error_def)

definition demo_call :: McpCall where
  "demo_call = \<lparr>call_id = ''7'', call_doc = \<lparr>src = ''{}'', tok = [], ntok = 0\<rparr>, call_args = -1, content_streamed = True\<rparr>"

definition demo_conn :: conn where
  "demo_conn = \<lparr>rx = [], tx = [], polls = [], sent = [], g_keep_alive = True\<rparr>"

theorem tool_replies_framed_witness:
  "framed (empty_request demo_conn) (rpc_message ''7'' ''result'' (tool_text False ''ok'')) (mcp_reply_text (\<lambda>i. NUL) demo_call ''ok'' (empty_request demo_conn))"
  using tool_replies_framed [of "empty_request demo_conn" demo_call "[1, 2]" "''ok''" "\<lambda>i. NUL"]
  by (simp add: demo_conn_def demo_call_def empty_request_def align16_def REQUEST_MEMORY_SIZE_def json_escaped_len_def escape_char_def)

text \<open>
  Tools/list sends, under the length it measured beforehand, the registered definitions in order with every marker
  replaced by the shared text it stands for, separated by commas.
\<close>

theorem tools_list_expands_the_table:
  assumes "tx (fd r) = []" and "length id' < 64" and "length (tools_value tools) < 2 ^ 32"
  shows "framed r (rpc_message id' ''result'' (tools_value tools)) (handle_tools_list tools stale id' r)"
  using assms by (rule handle_tools_list_framed)

definition demo_entry :: "string list" where
  "demo_entry = [tool_prefix @ ''tap'' @ [DQUOTE, CHR '','', CHR 0x01, CHR ''}''], ''shared'']"

definition demo_tools :: "unit mcp_world_scheme Tool list" where
  "demo_tools = [Tool demo_entry (\<lambda>call wr. wr), Tool [tool_prefix @ ''tap2'' @ [DQUOTE, CHR ''}'']] (\<lambda>call wr. wr)]"

theorem tools_list_expands_the_table_witness:
  "framed (empty_request demo_conn)
     (rpc_message ''1'' ''result'' (''{'' @ quoted ''tools'' @ '':['' @ ''{'' @ quoted ''name'' @ '':'' @ quoted ''tap'' @ '',shared},{'' @
        quoted ''name'' @ '':'' @ quoted ''tap2'' @ ''}]}''))
     (handle_tools_list demo_tools (\<lambda>i. NUL) ''1'' (empty_request demo_conn))"
  using tools_list_expands_the_table [of "empty_request demo_conn" "''1''" demo_tools "\<lambda>i. NUL"]
  by (simp add: demo_conn_def empty_request_def tools_value_def demo_tools_def tool_json_def demo_entry_def tool_prefix_def quoted_def)

text \<open>
  A tools/call runs the handler of the first registered tool with that name, with the call's arguments, and answers
  an unknown name with the JSON-RPC error -32602, for a table of definitions that start with their name and a name
  without quotes.
\<close>

theorem tools_call_by_name:
  assumes "\<forall>t \<in> set tools. named t" and "0 \<le> json_obj_get doc params ''name''"
    and "json_get_string doc (json_obj_get doc params ''name'') 40 = Some name" and "DQUOTE \<notin> set name"
  shows "handle_tools_call tools stale id' doc params streamed (w, r) =
    (case find (\<lambda>t. tool_name t = name) tools of
       Some t \<Rightarrow> tool_handler t \<lparr>call_id = id', call_doc = doc, call_args = json_obj_get doc params ''arguments'', content_streamed = streamed\<rparr> (w, r)
     | None \<Rightarrow> (w, send_rpc_error stale id' (-32602) ''unknown tool'' r))"
  using assms(2,3) call_tool_find [OF assms(1,4)] by (simp add: handle_tools_call_def Let_def split: option.split)

definition demo_doc :: JsonDoc where
  "demo_doc = (case json_parse (''{'' @ quoted ''name'' @ '':'' @ quoted ''tap2'' @ ''}'') of Inr d \<Rightarrow> d | Inl e \<Rightarrow> \<lparr>src = [], tok = [], ntok = 0\<rparr>)"

definition demo_card :: "unit mcp_world_scheme" where
  "demo_card = \<lparr>nodes = [([''config''], Dir), ([''config'', ''sys-autopilot''], Dir)], faults = [], now_ms = 5000, rename_over = False,
     g_upload = empty_upload\<rparr>"

lemma demo_doc_name: "json_obj_get demo_doc 0 ''name'' = 2" "json_get_string demo_doc 2 40 = Some ''tap2''"
  by code_simp+

theorem tools_call_by_name_witness:
  "handle_tools_call demo_tools (\<lambda>i. NUL) ''1'' demo_doc 0 False (demo_card, empty_request demo_conn) = (demo_card, empty_request demo_conn)"
  using tools_call_by_name [of demo_tools demo_doc 0 "''tap2''" "\<lambda>i. NUL" "''1''" False demo_card "empty_request demo_conn"]
  by (simp add: demo_doc_name demo_tools_def demo_entry_def named_def tool_name_def tool_prefix_def quoted_def)

text \<open>
  C7: a request whose body is a JSON text with the base64 of some bytes at params.arguments.content, arriving in any
  pieces on a clean link and with a working card, leaves those bytes in the temporary file, and the tool gets its path
  and their number; the document the tool sees is the text with the content replaced, and nothing else on the card changes.
\<close>

theorem streamed_upload_decoded:
  assumes "jv_ok v" and "jheight v \<le> JSTREAM_MAX_DEPTH" and "contents 0 Off v = [s]" and "content_text s = Some (b64_encode bs)"
    and "bs \<noteq> []" and "length (jreduced 0 Off v) \<le> MCP_DOC_MAX"
    and "clean (fd r)" and "has_content_length r" and "body_consumed r = 0" and "content_length r = length (jtext v)"
    and "body_stream r = jtext v @ rest"
    and "upload_ready w" and "faults w = []" and "align16 (mem_used r) + UPLOAD_DECODE_SIZE \<le> REQUEST_MEMORY_SIZE"
    and "content_streamed call"
  shows "\<exists>js w' r'. post_loop (jstream_init MCP_DOC_MAX) (w\<lparr>g_upload := empty_upload\<rparr>) r = (True, js, w', r') \<and>
    jdoc js = jreduced 0 Off v \<and> jstream_finish js = Inr True \<and>
    fst (mcp_call_streamed_content call w') = Inr (MCP_UPLOAD_TMP, length bs) \<and>
    node_at w' = (node_at w)(key MCP_UPLOAD_TMP \<mapsto> Reg (map unbyte bs) (now_ms w div 1000))"
proof -
  let ?w = "w\<lparr>g_upload := empty_upload\<rparr>"
  let ?s = "contents 0 Off v"
  obtain js where j: "jstream_feed collect (jstream_init MCP_DOC_MAX, []) (jtext v) = (js, b64_encode bs)"
    "jdoc js = jreduced 0 Off v" "jstream_finish js = Inr True" "jerr js = None"
  proof -
    have "let (js, received) = foldl (jstream_feed collect) (jstream_init MCP_DOC_MAX, []) [jtext v]
        in jdoc js = jreduced 0 Off v \<and> received = decoded ?s \<and> jstream_finish js = Inr (?s \<noteq> [])"
      by (rule scanned_content) (use assms(1-4,6) in simp_all)
    moreover have "decoded ?s = b64_encode bs" using assms(3,4) by (simp add: decoded_def)
    moreover have "jstream_finish js = Inr b \<Longrightarrow> jerr js = None" for js b
      by (simp add: jstream_finish_def split: option.splits if_splits)
    ultimately show ?thesis using that assms(3)
      by (cases "jstream_feed collect (jstream_init MCP_DOC_MAX, []) (jtext v)") auto
  qed
  have ready: "upload_ready ?w" and up: "uploading ?w [] (?w, r)"
    using assms(12-14) by (simp_all add: upload_ready_def uploading_def)
  have body: "jstream_feed collect (jstream_init MCP_DOC_MAX, []) (take (content_length r - body_consumed r) (body_stream r)) = (js, b64_encode bs)"
    using j(1) assms(9-11) by simp
  have bo: "body_ok r" using assms(9) by (simp add: body_ok_def)
  from post_loop_uploads [OF ready up assms(7) bo assms(8) body _ j(4)] obtain w' r' where
    p: "post_loop (jstream_init MCP_DOC_MAX) ?w r = (True, js, w', r')" "uploading ?w (b64_encode bs) (w', r')"
    by (auto simp: jstream_init_def)
  obtain d where d: "b64dec_finish d" "b64dec_loop b64dec_init (b64_encode bs) [] = (d, Some bs)"
    using decode_encode_loop [of 0 bs "[]"] by (auto simp: dstate_def b64dec_init_def)
  have ne: "b64_encode bs \<noteq> []" using assms(5) by (cases bs rule: b64_encode.cases) (simp_all add: Let_def)
  from p(2) d(2) ne obtain q where q: "g_upload w' = opened_upload q d (length bs)" "temp_written ?w bs w'"
    by (auto simp: uploading_def)
  have "g_upload (snd (sd_close w')) = g_upload w'" by (simp add: sd_close_def attempt_def split: list.split)
  then have "fst (mcp_call_streamed_content call w') = Inr (MCP_UPLOAD_TMP, length bs)"
    using q(1) d(1) assms(15) by (simp add: mcp_call_streamed_content_def Let_def)
  then show ?thesis using p(1) j(2,3) q(2) by (auto simp: temp_written_def)
qed

definition demo_upload :: jv where
  "demo_upload = JObj [([], ''params'', [], JObj [([], ''arguments'', [], JObj [([], ''content'', [], JStr ''QUI='')] [])] [])] []"

definition demo_post :: HttpRequest where
  "demo_post = (empty_request demo_conn)\<lparr>has_content_length := True, content_length := length (jtext demo_upload),
     body_leftover := jtext demo_upload\<rparr>"

theorem streamed_upload_decoded_witness:
  "\<exists>js w' r'. post_loop (jstream_init MCP_DOC_MAX) (demo_card\<lparr>g_upload := empty_upload\<rparr>) demo_post = (True, js, w', r') \<and>
    jdoc js = jreduced 0 Off demo_upload \<and> jstream_finish js = Inr True \<and>
    fst (mcp_call_streamed_content demo_call w') = Inr (MCP_UPLOAD_TMP, length [0x41, 0x42 :: u8]) \<and>
    node_at w' = (node_at demo_card)(key MCP_UPLOAD_TMP \<mapsto> Reg (map unbyte [0x41, 0x42]) (now_ms demo_card div 1000))"
proof (rule streamed_upload_decoded [where s = "''QUI=''" and rest = "[]"])
  show "jv_ok demo_upload" "jheight demo_upload \<le> JSTREAM_MAX_DEPTH" "contents 0 Off demo_upload = [''QUI='']"
    "length (jreduced 0 Off demo_upload) \<le> MCP_DOC_MAX"
    by (simp_all add: demo_upload_def JSTREAM_MAX_DEPTH_def member_kind_def kTarget_def jreduced_def MCP_DOC_MAX_def quoted_def kPlaceholder_def)
  have "b64_encode [0x41, 0x42] = ''QUI=''" by code_simp
  then show "content_text ''QUI='' = Some (b64_encode [0x41, 0x42])" by (simp add: content_escape_def)
  show "clean (fd demo_post)" by (simp add: demo_post_def demo_conn_def empty_request_def clean_def)
  show "body_stream demo_post = jtext demo_upload @ []"
    by (simp add: body_stream_def demo_post_def demo_conn_def empty_request_def)
  show "has_content_length demo_post" "body_consumed demo_post = 0" "content_length demo_post = length (jtext demo_upload)"
    by (simp_all add: demo_post_def empty_request_def)
  show "upload_ready demo_card"
    unfolding upload_ready_def upload_keys by (simp add: demo_card_def is_dir_def node_at_def)
  show "align16 (mem_used demo_post) + UPLOAD_DECODE_SIZE \<le> REQUEST_MEMORY_SIZE"
    by (simp add: demo_post_def empty_request_def align16_def UPLOAD_DECODE_SIZE_def MCP_READ_CHUNK_def REQUEST_MEMORY_SIZE_def)
qed (simp_all add: demo_card_def demo_call_def)

text \<open>A content that decodes to nothing leaves the temporary file behind once a tool has taken it.\<close>

lemma empty_upload_stays:
  assumes "faults w = []" and "g_upload w = opened_upload p b64dec_init 0" and "content_streamed call"
    and "sd_stat w MCP_UPLOAD_TMP = Some (Reg [] t)"
  shows "sd_stat (upload_cleanup (snd (mcp_call_streamed_content call w))) MCP_UPLOAD_TMP = Some (Reg [] t)"
proof -
  have f: "b64dec_finish b64dec_init" by (simp add: b64dec_finish_def b64dec_init_def)
  have c: "sd_close w = (True, w)" using assms(1) by (simp add: sd_close_def upload_attempt)
  show ?thesis using assms(2-4) f by (simp add: mcp_call_streamed_content_def c upload_cleanup_def Let_def)
qed

end
