(* ===== verification/Files_Mcp.thy ===== *)
theory Files_Mcp
  imports Mcp_Server
begin

text \<open>
  \<open>source/features/files/files_mcp.c\<close>: the file operations as MCP tools. What a tool cannot compute is an argument:
  the bytes of a stack buffer past its text (\<open>stale\<close>) and before it is written (\<open>junk\<close>, \<open>garbage\<close>), the wait of the
  server (\<open>wait\<close>) and the generated tool definitions (\<open>defs\<close>). The log lines are left out.
\<close>

section \<open>The tools\<close>

definition READ_FILE_MAX :: int where
  "READ_FILE_MAX = 32768"

definition get_path_arg :: "(nat \<Rightarrow> char) \<Rightarrow> McpCall \<Rightarrow> nat \<Rightarrow> HttpRequest \<Rightarrow> string option \<times> HttpRequest" where
  "get_path_arg stale call outsz r =
     (case mcp_arg_string call ''path'' 512 of
        None \<Rightarrow> (None, mcp_reply_error stale call (''missing 'path'' @ [SQUOTE]) r)
      | Some p \<Rightarrow>
          (case files_resolve p outsz of
             Inl emsg \<Rightarrow> (None, mcp_reply_error stale call emsg r)
           | Inr fspath \<Rightarrow> (Some fspath, r)))"

definition tool_list_directory :: "string \<Rightarrow> (nat \<Rightarrow> char) \<Rightarrow> 'a mcp_world_scheme tool_handler" where
  "tool_list_directory junk stale call wr =
     (let (w, r) = wr in
      case get_path_arg stale call 768 r of
        (None, r) \<Rightarrow> (w, r)
      | (Some fspath, r) \<Rightarrow>
          let (slash, fspath) = files_trim_slash fspath;
              ((json, cap), r) = request_alloc_rest r;
              (res, w) = files_build_listing junk fspath (drop (length FILES_ROOT) fspath) cap w
          in case res of
               Inl emsg \<Rightarrow> (w, mcp_reply_error stale call emsg (request_trim json 0 r))
             | Inr txt' \<Rightarrow> (w, mcp_reply_text_len stale call txt' (request_trim json (length txt') r)))"

text \<open>\<open>sanitize_utf8\<close>; the number of continuation bytes a lead byte announces.\<close>

definition utf8_extra :: "char \<Rightarrow> nat option" where
  "utf8_extra c =
     (if byte c < 0x80 then Some 0
      else if byte c AND 0xE0 = 0xC0 then Some 1
      else if byte c AND 0xF0 = 0xE0 then Some 2
      else if byte c AND 0xF8 = 0xF0 then Some 3
      else None)"

definition utf8_cont :: "char \<Rightarrow> bool" where
  "utf8_cont c \<longleftrightarrow> byte c AND 0xC0 = 0x80"

function sanitize_utf8 :: "string \<Rightarrow> string" where
  "sanitize_utf8 [] = []"
| "sanitize_utf8 (c # cs) =
     (case utf8_extra c of
        None \<Rightarrow> CHR ''?'' # sanitize_utf8 cs
      | Some n \<Rightarrow>
          if n \<le> length cs \<and> list_all utf8_cont (take n cs) then c # take n cs @ sanitize_utf8 (drop n cs)
          else CHR ''?'' # sanitize_utf8 cs)"
  by pat_completeness auto
termination by (relation "measure length") auto

definition tool_read_file :: "(nat \<Rightarrow> char) \<Rightarrow> 'a mcp_world_scheme tool_handler" where
  "tool_read_file stale call wr =
     (let (w, r) = wr in
      case get_path_arg stale call 768 r of
        (None, r) \<Rightarrow> (w, r)
      | (Some fspath, r) \<Rightarrow>
          (case sd_stat w fspath of
             Some (Reg c t) \<Rightarrow>
               let (offset, len) = files_clamp_range (int (length c)) (mcp_arg_int call ''offset'' 0) (mcp_arg_int call ''length'' READ_FILE_MAX);
                   len = (if len > READ_FILE_MAX then READ_FILE_MAX else len)
               in (case request_alloc (nat len) r of
                     (None, r) \<Rightarrow> (w, mcp_reply_rpc_error stale call (-32603) ''out of request memory'' r)
                   | (Some p, r) \<Rightarrow>
                       (case sd_open fspath w of
                          (None, w) \<Rightarrow> (w, mcp_reply_error stale call ''open failed'' r)
                        | (Some cont, w) \<Rightarrow>
                            let (got, w) = sd_read (nat len) (drop (nat offset) cont) w
                            in (w, mcp_reply_text_len stale call (sanitize_utf8 (case got of Some b \<Rightarrow> b | None \<Rightarrow> [])) r)))
           | _ \<Rightarrow> (w, mcp_reply_error stale call ''no such file'' r)))"

definition tool_upload_file :: "(nat \<Rightarrow> char) \<Rightarrow> 'a mcp_world_scheme tool_handler" where
  "tool_upload_file stale call wr =
     (let (w, r) = wr in
      case get_path_arg stale call 768 r of
        (None, r) \<Rightarrow> (w, r)
      | (Some fspath, r) \<Rightarrow>
          (case mcp_call_streamed_content call w of
             (Inl emsg, w) \<Rightarrow> (w, mcp_reply_error stale call emsg r)
           | (Inr (tmp, n), w) \<Rightarrow>
               let w = files_mkdirs_for fspath w;
                   w = snd (sd_remove fspath w);
                   (renamed, w) = sd_rename tmp fspath w
               in if \<not> renamed then (w, mcp_reply_error stale call ''failed to move upload into place'' r)
                  else (w, mcp_reply_text stale call
                     (fit 820 (''wrote '' @ dec n @ '' bytes to '' @ drop (length FILES_ROOT) fspath)) r)))"

definition tool_move_file :: "(nat \<Rightarrow> char) \<Rightarrow> 'a mcp_world_scheme tool_handler" where
  "tool_move_file stale call wr =
     (let (w, r) = wr in
      case get_path_arg stale call 768 r of
        (None, r) \<Rightarrow> (w, r)
      | (Some source, r) \<Rightarrow>
          (case (case mcp_arg_string call ''to'' 512 of Some to \<Rightarrow> to | None \<Rightarrow> []) of
             [] \<Rightarrow> (w, mcp_reply_error stale call ''missing 'to' (destination path)'' r)
           | to \<Rightarrow>
               (case files_resolve to 768 of
                  Inl emsg \<Rightarrow> (w, mcp_reply_error stale call emsg r)
                | Inr dst \<Rightarrow>
                    (case files_move_path source dst w of
                       (Inl emsg, w) \<Rightarrow> (w, mcp_reply_error stale call emsg r)
                     | (Inr u, w) \<Rightarrow> (w, mcp_reply_text stale call (fit 820 (''moved to '' @ drop (length FILES_ROOT) dst)) r)))))"

definition tool_delete_file :: "(nat \<Rightarrow> char) \<Rightarrow> 'a mcp_world_scheme tool_handler" where
  "tool_delete_file stale call wr =
     (let (w, r) = wr in
      case get_path_arg stale call 768 r of
        (None, r) \<Rightarrow> (w, r)
      | (Some fspath, r) \<Rightarrow>
          (case files_delete_path fspath w of
             (Inl emsg, w) \<Rightarrow> (w, mcp_reply_error stale call emsg r)
           | (Inr u, w) \<Rightarrow> (w, mcp_reply_text stale call ''deleted'' r)))"

definition tool_hash_file :: "u8 list \<Rightarrow> (nat \<Rightarrow> char) \<Rightarrow> 'a mcp_world_scheme tool_handler" where
  "tool_hash_file garbage stale call wr =
     (let (w, r) = wr in
      case get_path_arg stale call 768 r of
        (None, r) \<Rightarrow> (w, r)
      | (Some fspath, r) \<Rightarrow>
          (case request_alloc FILES_IO_BUF_SIZE r of
             (None, r) \<Rightarrow> (w, mcp_reply_rpc_error stale call (-32603) ''out of request memory'' r)
           | (Some p, r) \<Rightarrow>
               (case files_hash_sha256 garbage fspath FILES_IO_BUF_SIZE w of
                  (Inl emsg, w) \<Rightarrow> (w, mcp_reply_error stale call emsg r)
                | (Inr (h, sz), w) \<Rightarrow>
                    let base = [member ''algorithm'' (quoted ''sha256''), member ''hash'' (quoted h), member ''size'' (dec sz)];
                        msg = (case mcp_arg_string call ''expected'' 80 of
                                 Some expected \<Rightarrow> json_obj (base @ [member ''matched'' (json_bool (strcaseeq expected h))])
                               | None \<Rightarrow> json_obj base)
                    in (w, mcp_reply_text stale call (fit 256 msg) r))))"

definition wait_message :: "FilesWait \<Rightarrow> string \<Rightarrow> string" where
  "wait_message res needle =
     (if met res \<and> needle \<noteq> [] then ''found after '' @ dec_int (elapsed_ms res) @ '' ms (file is '' @ dec (file_size res) @ '' bytes)''
      else if met res then ''file exists after '' @ dec_int (elapsed_ms res) @ '' ms ('' @ dec (file_size res) @ '' bytes)''
      else if \<not> fexists res then ''timed out after '' @ dec_int (elapsed_ms res) @ '' ms: the file does not exist''
      else ''timed out after '' @ dec_int (elapsed_ms res) @ '' ms: text not found (file is '' @ dec (file_size res) @ '' bytes)'')"

definition tool_wait_for_file ::
    "(int \<Rightarrow> 'a mcp_world_scheme \<Rightarrow> bool \<times> 'a mcp_world_scheme) \<Rightarrow> (nat \<Rightarrow> char) \<Rightarrow> 'a mcp_world_scheme tool_handler" where
  "tool_wait_for_file wait stale call wr =
     (let (w, r) = wr in
      case get_path_arg stale call 768 r of
        (None, r) \<Rightarrow> (w, r)
      | (Some fspath, r) \<Rightarrow>
          let given = mcp_arg_string call ''contains'' (FILES_WAIT_MAX_NEEDLE + 1)
          in if json_obj_get (call_doc call) (call_args call) ''contains'' \<ge> 0 \<and> given = None
             then (w, mcp_reply_error stale call (SQUOTE # ''contains' must be a string of at most 256 bytes'') r)
             else
               let needle = (case given of Some s \<Rightarrow> s | None \<Rightarrow> []);
                   new_only = (case mcp_arg_bool call ''newOnly'' of Some b \<Rightarrow> b | None \<Rightarrow> False);
                   timeout = mcp_arg_int call ''timeoutMs'' FILES_WAIT_DEFAULT_TIMEOUT_MS
               in case request_alloc FILES_IO_BUF_SIZE r of
                    (None, r) \<Rightarrow> (w, mcp_reply_rpc_error stale call (-32603) ''out of request memory'' r)
                  | (Some p, r) \<Rightarrow>
                      (case files_wait wait fspath needle new_only timeout FILES_IO_BUF_SIZE w of
                         None \<Rightarrow> (w, r)
                       | Some (res, w) \<Rightarrow> (w, mcp_reply_text stale call (fit 160 (wait_message res needle)) r)))"

definition files_mcp_register ::
    "(string \<Rightarrow> string list) \<Rightarrow> string \<Rightarrow> u8 list \<Rightarrow> (int \<Rightarrow> 'a mcp_world_scheme \<Rightarrow> bool \<times> 'a mcp_world_scheme) \<Rightarrow>
     (nat \<Rightarrow> char) \<Rightarrow> 'a mcp_world_scheme Tool list \<Rightarrow> 'a mcp_world_scheme Tool list" where
  "files_mcp_register defs junk garbage wait stale tools =
     fold (\<lambda>(def, h). mcp_server_register_tool (defs def) h)
       [(''kToolListDirectory'', tool_list_directory junk stale), (''kToolReadFile'', tool_read_file stale),
        (''kToolUploadFile'', tool_upload_file stale), (''kToolDeleteFile'', tool_delete_file stale),
        (''kToolMoveFile'', tool_move_file stale), (''kToolHashFile'', tool_hash_file garbage stale),
        (''kToolWaitForFile'', tool_wait_for_file wait stale)] tools"

section \<open>Sanitized text\<close>

text \<open>Structurally valid UTF-8: every lead byte is followed by the continuation bytes it announces.\<close>

inductive utf8_shape :: "string \<Rightarrow> bool" where
  Empty: "utf8_shape []"
| Char: "utf8_extra c = Some (length ks) \<Longrightarrow> list_all utf8_cont ks \<Longrightarrow> utf8_shape cs \<Longrightarrow> utf8_shape (c # ks @ cs)"

inductive_cases utf8_shape_ConsE: "utf8_shape (c # cs)"

lemma utf8_question: "utf8_extra (CHR ''?'') = Some 0"
  by (simp add: utf8_extra_def)

lemma sanitize_shape: "utf8_shape (sanitize_utf8 s)"
proof (induction s rule: sanitize_utf8.induct)
  case 1
  then show ?case by (simp add: utf8_shape.Empty)
next
  case (2 c cs)
  have q: "utf8_shape (CHR ''?'' # sanitize_utf8 cs)" if "utf8_shape (sanitize_utf8 cs)"
    using utf8_shape.Char [of "CHR ''?''" "[]"] that by (simp add: utf8_question)
  show ?case
  proof (cases "utf8_extra c")
    case None
    with "2.IH"(1) q show ?thesis by simp
  next
    case (Some n)
    show ?thesis
    proof (cases "n \<le> length cs \<and> list_all utf8_cont (take n cs)")
      case True
      with "2.IH"(2) [OF Some True] Some utf8_shape.Char [of c "take n cs" "sanitize_utf8 (drop n cs)"] show ?thesis by simp
    next
      case False
      with "2.IH"(3) [OF Some False] Some q show ?thesis by (simp add: False)
    qed
  qed
qed

lemma sanitize_id: "utf8_shape s \<Longrightarrow> sanitize_utf8 s = s"
  by (induction s rule: utf8_shape.induct) simp_all

lemma sanitize_length: "length (sanitize_utf8 s) = length s"
  by (induction s rule: sanitize_utf8.induct) (auto split: option.split)

lemma sanitize_ascii: "\<forall>c \<in> set s. byte c < 0x80 \<Longrightarrow> sanitize_utf8 s = s"
  by (induction s rule: sanitize_utf8.induct) (simp_all add: utf8_extra_def)

text \<open>An overlong encoding passes: the check is of the shape only.\<close>

lemma overlong_passes: "sanitize_utf8 [CHR 0xC0, CHR 0x80] = [CHR 0xC0, CHR 0x80]"
  by (simp add: utf8_extra_def utf8_cont_def)

section \<open>An upload moved into place\<close>

lemma get_path_arg_resolved:
  "get_path_arg stale call n r = (Some p, r') \<Longrightarrow> \<exists>u. files_resolve u n = Inr p \<and> r' = r"
  by (auto simp: get_path_arg_def split: option.splits sum.splits)

lemma upload_file_card:
  assumes arg: "get_path_arg stale call 768 r = (Some p, r)" and tree: "tree_ok w" and call: "content_streamed call"
    and u: "g_upload w = opened_upload q d n" "b64dec_finish d" and tmp: "sd_stat w MCP_UPLOAD_TMP = Some (Reg body mt)"
    and np: "\<not> prefix (key MCP_UPLOAD_TMP) (key p)"
  shows "others_kept MCP_UPLOAD_TMP p w (fst (tool_upload_file stale call (w, r)))"
    and "node_at (fst (tool_upload_file stale call (w, r))) (key p) = Some (Reg body mt) \<or>
      node_at (fst (tool_upload_file stale call (w, r))) (key p) \<in> {node_at w (key p), Some Dir, None}"
    and "faults w = [] \<Longrightarrow> node_at w (key p) = Some (Reg c0 t0) \<Longrightarrow>
      node_at (fst (tool_upload_file stale call (w, r))) (key p) = Some (Reg body mt)"
proof -
  let ?t = MCP_UPLOAD_TMP
  define w0 where "w0 = (snd (sd_close w))\<lparr>g_upload := (g_upload (snd (sd_close w)))\<lparr>ufile := False\<rparr>\<rparr>"
  have sc: "mcp_call_streamed_content call w = (Inr (?t, ubytes (g_upload (snd (sd_close w)))), w0)"
    using call u by (simp add: mcp_call_streamed_content_def w0_def Let_def)
  define w1 where "w1 = files_mkdirs_for p w0"
  define w2 where "w2 = snd (sd_remove p w1)"
  obtain ok w3 where rn: "sd_rename ?t p w2 = (ok, w3)" by fastforce
  have e: "fst (tool_upload_file stale call (w, r)) = w3"
    using arg sc rn by (simp add: tool_upload_file_def Let_def w1_def w2_def)
  have n0: "node_at w0 = node_at w" "tree_ok w0" "faults w = [] \<Longrightarrow> faults w0 = []"
  proof -
    have "tree_ok (snd (sd_close w))" using tree by (simp add: sd_close_nodes)
    then show "tree_ok w0" by (simp add: w0_def tree_ok_def)
  qed (simp_all add: w0_def sd_close_nodes, simp add: sd_close_def no_faults)
  have o1: "others_kept ?t p w w1" using mkdirs_nodes [of w0] n0(1,2) by (simp add: others_kept_def w1_def)
  have t1: "node_at w1 (key ?t) = Some (Reg body mt)"
    using mkdirs_nodes(1) [of w0 "key ?t" p] tmp n0(1) by (simp add: w1_def sd_stat_def)
  have f1: "faults w = [] \<Longrightarrow> faults w1 = []" using mkdirs_faults [of w0 p] n0(3) by (simp add: w1_def)
  have ne: "key ?t \<noteq> key p" using np by auto
  obtain f where ip: "into_place ?t p w1 = (ok, f)" "ok \<Longrightarrow> f = w3"
    using rn by (auto simp: into_place_def w2_def [symmetric] Let_def)
  note ips = into_place_spec [OF o1 t1 ne np ip(1)]
  have p1: "node_at w1 (key p) \<in> {node_at w (key p), Some Dir}" using mkdirs_new [of p w0 "key p"] n0(1) by (auto simp: w1_def)
  have failed: "others_kept ?t p w w3 \<and> node_at w3 (key p) \<in> {node_at w (key p), Some Dir, None}" if "\<not> ok"
  proof -
    have o2: "others_kept ?t p w w2" unfolding w2_def by (rule others_kept_remove(2) [OF o1])
    then have "node_at w3 = node_at w2" "tree_ok w3" using sd_rename_failed [of ?t p w2] rn that by (simp_all add: others_kept_def)
    moreover have "node_at w2 (key p) \<in> {node_at w (key p), Some Dir, None}" using p1 sd_remove_nodes(1) [of p w1] by (auto simp: w2_def)
    ultimately show ?thesis using o2 by (simp add: others_kept_def)
  qed
  show "others_kept ?t p w (fst (tool_upload_file stale call (w, r)))" using failed ips(1) ip(2) by (cases ok) (simp_all add: e)
  show "node_at (fst (tool_upload_file stale call (w, r))) (key p) = Some (Reg body mt) \<or>
      node_at (fst (tool_upload_file stale call (w, r))) (key p) \<in> {node_at w (key p), Some Dir, None}"
    using failed ips(2) ip(2) by (cases ok) (simp_all add: e)
  show "node_at (fst (tool_upload_file stale call (w, r))) (key p) = Some (Reg body mt)"
    if "faults w = []" "node_at w (key p) = Some (Reg c0 t0)"
  proof -
    have "node_at w1 (key p) = Some (Reg c0 t0)" using mkdirs_nodes(1) [of w0 "key p" p] that(2) n0(1) by (simp add: w1_def)
    from ips(4) [OF f1 [OF that(1)] this] ips(2) ip(2) show ?thesis by (simp add: e)
  qed
qed

section \<open>Properties\<close>

text \<open>
  Whatever the bytes of a file, the text a read returns has their number and is structurally valid UTF-8, and text
  that already is comes back unchanged.
\<close>

theorem sanitized_text_is_utf8_shaped:
  "utf8_shape (sanitize_utf8 s) \<and> length (sanitize_utf8 s) = length s \<and> (utf8_shape s \<longrightarrow> sanitize_utf8 s = s)"
  using sanitize_shape sanitize_length sanitize_id by blast

theorem sanitized_text_is_utf8_shaped_witness: "sanitize_utf8 ''abc'' = ''abc''"
proof -
  have "utf8_shape ''abc''"
    using sanitize_shape [of "''abc''"] sanitize_ascii [of "''abc''"] by simp
  with sanitized_text_is_utf8_shaped [of "''abc''"] show ?thesis by blast
qed

text \<open>
  Upload_file moves the streamed bytes into place: the target holds them afterwards or what it held before (or nothing,
  or the directory that is there), nothing else on the card is lost, and with a working card a replaced file always ends up
  with the new bytes.
\<close>

theorem upload_file_moves_into_place:
  assumes "get_path_arg stale call 768 r = (Some p, r)" and "tree_ok w" and "content_streamed call"
    and "g_upload w = opened_upload q d n" and "b64dec_finish d" and "sd_stat w MCP_UPLOAD_TMP = Some (Reg body mt)"
    and "\<not> prefix (key MCP_UPLOAD_TMP) (key p)"
  shows "let w' = fst (tool_upload_file stale call (w, r)) in
    tree_ok w' \<and> (\<forall>k. node_at w k \<noteq> None \<longrightarrow> k \<noteq> key p \<longrightarrow> k \<noteq> key MCP_UPLOAD_TMP \<longrightarrow> node_at w' k = node_at w k) \<and>
    node_at w' (key p) \<in> {Some (Reg body mt), node_at w (key p), Some Dir, None} \<and>
    (faults w = [] \<longrightarrow> node_at w (key p) = Some (Reg c0 t0) \<longrightarrow> node_at w' (key p) = Some (Reg body mt))"
  using upload_file_card [OF assms] unfolding Let_def others_kept_def by auto

definition demo_upload_doc :: string where
  "demo_upload_doc = ''{'' @ quoted ''path'' @ '':'' @ quoted ''/a'' @ ''}''"

definition demo_upload_call :: McpCall where
  "demo_upload_call = \<lparr>call_id = ''7'', call_doc = (case json_parse demo_upload_doc of Inr d \<Rightarrow> d | Inl e \<Rightarrow> \<lparr>src = [], tok = [], ntok = 0\<rparr>),
     call_args = 0, content_streamed = True\<rparr>"

lemma demo_upload_path: "mcp_arg_string demo_upload_call ''path'' 512 = Some ''/a''"
  by code_simp

lemma demo_resolve: "files_resolve ''/a'' 768 = Inr ''sdmc:/a''"
  by code_simp

definition demo_uploaded :: "unit mcp_world_scheme" where
  "demo_uploaded = \<lparr>nodes = [([''config''], Dir), ([''config'', ''sys-autopilot''], Dir),
       ([''config'', ''sys-autopilot'', ''.upload.tmp''], Reg ''new'' 5), ([''a''], Reg ''old'' 1)], faults = [], now_ms = 5000,
     rename_over = False, g_upload = opened_upload 0 b64dec_init 3\<rparr>"

theorem upload_file_moves_into_place_witness:
  "node_at (fst (tool_upload_file (\<lambda>i. NUL) demo_upload_call (demo_uploaded, empty_request demo_conn))) [''a''] = Some (Reg ''new'' 5)"
proof -
  let ?r = "empty_request demo_conn"
  have arg: "get_path_arg (\<lambda>i. NUL) demo_upload_call 768 ?r = (Some ''sdmc:/a'', ?r)"
    by (simp add: get_path_arg_def demo_upload_path demo_resolve)
  have tree: "tree_ok demo_uploaded" by (simp add: tree_ok_def demo_uploaded_def is_dir_def node_at_def)
  have np: "\<not> prefix (key MCP_UPLOAD_TMP) (key ''sdmc:/a'')" unfolding upload_keys demo_key by simp
  have tmp: "sd_stat demo_uploaded MCP_UPLOAD_TMP = Some (Reg ''new'' 5)"
    unfolding sd_stat_def upload_keys by (simp add: demo_uploaded_def node_at_def)
  have old: "faults demo_uploaded = []" "node_at demo_uploaded (key ''sdmc:/a'') = Some (Reg ''old'' 1)"
    unfolding demo_key by (simp_all add: demo_uploaded_def node_at_def)
  from upload_file_moves_into_place [OF arg tree _ _ _ tmp np, of 0 b64dec_init 3 "''old''" 1] old
  show ?thesis by (simp add: demo_upload_call_def demo_uploaded_def b64dec_finish_def b64dec_init_def Let_def demo_key)
qed

end
