(* ===== verification/Oauth_Tokens.thy ===== *)
theory Oauth_Tokens
  imports Files_Mcp Sha256 Config_File
begin

text \<open>
  \<open>source/features/oauth/oauth.c\<close>, first half: escaping, the persisted token store and the pending authorization
  codes. The statics of the file are fields of the world. \<open>entropy n i\<close> is the i-th byte of the n-th draw from the system's random
  generator and \<open>wall\<close> the real-time clock; the calendar split of a time (\<open>gm\<close>) is an argument. A SHA-256 context
  starts as zeros here: its result does not depend on it (\<open>sha256_stream_spec\<close>). Log lines are left out.
\<close>

section \<open>State\<close>

definition OAUTH_TOKENS_PATH :: string where "OAUTH_TOKENS_PATH = CONFIG_DIR @ ''/tokens.txt''"
definition CODE_LIFETIME_SECS :: nat where "CODE_LIFETIME_SECS = 300"
definition MAX_AUTH_CODES :: nat where "MAX_AUTH_CODES = 8"
definition MAX_TOKENS :: nat where "MAX_TOKENS = 32"
definition TOKEN_HEX_LEN :: nat where "TOKEN_HEX_LEN = 64"

record AuthCode =
  acode :: string
  achallenge :: string
  redirect_hash :: "u8 list"
  expires_at :: nat

definition free_slot :: AuthCode where
  "free_slot = \<lparr>acode = [], achallenge = [], redirect_hash = replicate 32 0, expires_at = 0\<rparr>"

record oauth_world = mcp_world +
  g_tokens :: "u8 list list"
  g_tokens_mtime :: nat
  g_codes :: "AuthCode list"
  entropy :: "nat \<Rightarrow> nat \<Rightarrow> u8"
  draws :: nat
  wall :: int
  dir_mtime :: nat

definition fill_random :: "nat \<Rightarrow> 'a oauth_world_scheme \<Rightarrow> u8 list \<times> 'a oauth_world_scheme" where
  "fill_random n w = (map (entropy w (draws w)) [0..<n], w\<lparr>draws := draws w + 1\<rparr>)"

definition now_secs :: "'a oauth_world_scheme \<Rightarrow> nat" where
  "now_secs w = now_ms w div 1000"

definition digest_of :: "string \<Rightarrow> u8 list" where
  "digest_of s = sha256_hash (replicate 64 0) (map byte s)"

section \<open>Escaping\<close>

definition html_rep :: "char \<Rightarrow> string" where
  "html_rep c =
     (if c = CHR ''&'' then ''&amp;'' else if c = CHR ''<'' then ''&lt;'' else if c = CHR ''>'' then ''&gt;''
      else if c = DQUOTE then ''&quot;'' else if c = SQUOTE then ''&#39;'' else [c])"

fun html_escape_append :: "nat \<Rightarrow> string \<Rightarrow> string \<Rightarrow> string option" where
  "html_escape_append cap b [] = Some b"
| "html_escape_append cap b (c # cs) =
     (if length b + length (html_rep c) + 1 > cap then None else html_escape_append cap (b @ html_rep c) cs)"

definition url_safe :: "char \<Rightarrow> bool" where
  "url_safe c \<longleftrightarrow> is_upper c \<or> is_lower c \<or> is_digit c \<or> c \<in> set ''-._~''"

definition url_rep :: "char \<Rightarrow> string" where
  "url_rep c = (if url_safe c then [c]
     else [CHR ''%'', ''0123456789ABCDEF'' ! (ord c div 16), ''0123456789ABCDEF'' ! (ord c mod 16)])"

fun url_encode_append :: "nat \<Rightarrow> string \<Rightarrow> string \<Rightarrow> string option" where
  "url_encode_append cap b [] = Some b"
| "url_encode_append cap b (c # cs) =
     (if length b + 4 > cap then None else url_encode_append cap (b @ url_rep c) cs)"

interpretation html: escaping_loop html_rep html_escape_append "\<lambda>cap b c. length b + length (html_rep c) + 1 \<le> cap"
  by unfold_locales auto

interpretation url: escaping_loop url_rep url_encode_append "\<lambda>cap b c. length b + 4 \<le> cap"
  by unfold_locales (auto simp: url_rep_def)

section \<open>The token store\<close>

definition digest_eq :: "u8 list \<Rightarrow> u8 list \<Rightarrow> bool" where
  "digest_eq a b \<longleftrightarrow> foldl (\<lambda>d i. d OR (a ! i XOR b ! i)) 0 [0..<32] = 0"

text \<open>The token of a line of tokens.txt: its first field.\<close>

definition line_token :: "string \<Rightarrow> string" where
  "line_token line = takeWhile (\<lambda>c. c \<notin> {CHR '' '', TAB, CR, LF, CHR ''#''}) (dropWhile (\<lambda>c. c = CHR '' '' \<or> c = TAB) line)"

definition token_len_ok :: "string \<Rightarrow> bool" where
  "token_len_ok t \<longleftrightarrow> 16 \<le> length t \<and> length t \<le> TOKEN_HEX_LEN"

fun load_lines :: "string list \<Rightarrow> u8 list list \<Rightarrow> u8 list list" where
  "load_lines [] ts = ts"
| "load_lines (l # ls) ts =
     (if \<not> length ts < MAX_TOKENS then ts
      else if \<not> token_len_ok (line_token l) then load_lines ls ts
      else load_lines ls (ts @ [digest_of (line_token l)]))"

text \<open>The \<open>st_mtime\<close> of a node; the card keeps none for a directory, whose time is what \<open>dir_mtime\<close> says.\<close>

definition node_mtime :: "'a oauth_world_scheme \<Rightarrow> node \<Rightarrow> nat" where
  "node_mtime w n = (case n of Reg c t \<Rightarrow> t | Dir \<Rightarrow> dir_mtime w)"

definition tokens_load :: "'a oauth_world_scheme \<Rightarrow> 'a oauth_world_scheme" where
  "tokens_load w =
     (let w = w\<lparr>g_tokens := []\<rparr>;
          w = (case sd_stat w OAUTH_TOKENS_PATH of Some n \<Rightarrow> w\<lparr>g_tokens_mtime := node_mtime w n\<rparr> | None \<Rightarrow> w);
          (f, w) = sd_open OAUTH_TOKENS_PATH w
      in case f of None \<Rightarrow> w | Some c \<Rightarrow> w\<lparr>g_tokens := load_lines (fgets_lines 256 c) []\<rparr>)"

lemma node_mtime_Reg [simp]: "node_mtime w (Reg c t) = t"
  by (simp add: node_mtime_def)

definition file_mtime :: "'a oauth_world_scheme \<Rightarrow> nat" where
  "file_mtime w = (case sd_stat w OAUTH_TOKENS_PATH of Some n \<Rightarrow> node_mtime w n | None \<Rightarrow> 0)"

definition tokens_refresh :: "'a oauth_world_scheme \<Rightarrow> 'a oauth_world_scheme" where
  "tokens_refresh w = (if file_mtime w \<noteq> g_tokens_mtime w then tokens_load w else w)"

text \<open>\<open>fopen(p, "ab")\<close>, and the \<open>fputs\<close> calls on the open file; their results are not looked at.\<close>

definition sd_append :: "string \<Rightarrow> 'a disk_scheme \<Rightarrow> bool \<times> 'a disk_scheme" where
  "sd_append p d =
     (case sd_stat d p of
        Some (Reg c t) \<Rightarrow> (let (works, d) = attempt d in if works then (True, put_node (key p) (Reg c (now_ms d div 1000)) d) else (False, d))
      | _ \<Rightarrow> sd_create p d)"

fun sd_puts :: "string \<Rightarrow> string list \<Rightarrow> 'a disk_scheme \<Rightarrow> 'a disk_scheme" where
  "sd_puts p [] d = d"
| "sd_puts p (s # ss) d = sd_puts p ss (if s = [] then d else snd (sd_write p s d))"

definition issue_stamp :: "(int \<Rightarrow> tm) \<Rightarrow> int \<Rightarrow> string" where
  "issue_stamp gm t =
     (if t > 1600000000 then
        fit 64 ('' issued '' @ pad0 4 (dec (tm_year (gm t) + 1900)) @ ''-'' @ pad0 2 (dec (tm_mon (gm t) + 1)) @ ''-'' @ pad0 2 (dec (tm_mday (gm t))) @
          ''T'' @ pad0 2 (dec (tm_hour (gm t))) @ '':'' @ pad0 2 (dec (tm_min (gm t))) @ '':'' @ pad0 2 (dec (tm_sec (gm t))) @ ''Z'')
      else [])"

definition tokens_append :: "(int \<Rightarrow> tm) \<Rightarrow> string \<Rightarrow> string option \<Rightarrow> 'a oauth_world_scheme \<Rightarrow> bool \<times> 'a oauth_world_scheme" where
  "tokens_append gm tk note w =
     (case sd_append OAUTH_TOKENS_PATH w of
        (False, w) \<Rightarrow> (False, w)
      | (True, w) \<Rightarrow>
          let w = sd_puts OAUTH_TOKENS_PATH
                [tk, '' #'', issue_stamp gm (wall w), '' '', (case note of Some n \<Rightarrow> n | None \<Rightarrow> []), [LF]] w;
              w = snd (sd_close w);
              w = (case sd_stat w OAUTH_TOKENS_PATH of Some n \<Rightarrow> w\<lparr>g_tokens_mtime := node_mtime w n\<rparr> | None \<Rightarrow> w);
              w = (if length (g_tokens w) < MAX_TOKENS then w\<lparr>g_tokens := g_tokens w @ [digest_of tk]\<rparr> else w)
          in (True, w))"

definition oauth_token_valid :: "'a oauth_world_scheme \<Rightarrow> string \<Rightarrow> bool \<times> 'a oauth_world_scheme" where
  "oauth_token_valid w tk =
     (let w = tokens_refresh w in
      if \<not> token_len_ok tk then (False, w)
      else (foldl (\<lambda>valid d. if digest_eq (digest_of tk) d then True else valid) False (g_tokens w), w))"

definition oauth_init :: "'a oauth_world_scheme \<Rightarrow> 'a oauth_world_scheme" where
  "oauth_init w = tokens_load w"

definition kept_lines :: "string \<Rightarrow> string list \<Rightarrow> string list" where
  "kept_lines tk ls = filter (\<lambda>l. line_token l \<noteq> tk) ls"

definition oauth_revoke_token :: "string \<Rightarrow> 'a oauth_world_scheme \<Rightarrow> bool \<times> 'a oauth_world_scheme" where
  "oauth_revoke_token tk w =
     (case oauth_token_valid w tk of
        (False, w) \<Rightarrow> (False, w)
      | (True, w) \<Rightarrow>
          (case sd_open OAUTH_TOKENS_PATH w of
             (None, w) \<Rightarrow> (False, w)
           | (Some c, w) \<Rightarrow>
               let tmp = OAUTH_TOKENS_PATH @ ''.tmp'' in
               (case sd_create tmp w of
                  (False, w) \<Rightarrow> (False, w)
                | (True, w) \<Rightarrow>
                    let w = sd_puts tmp (kept_lines tk (fgets_lines 256 c)) w;
                        w = snd (sd_close (snd (sd_close w)));
                        w = snd (sd_remove OAUTH_TOKENS_PATH w);
                        (renamed, w) = sd_rename tmp OAUTH_TOKENS_PATH w
                    in if \<not> renamed then (False, w) else (True, tokens_load w))))"

definition oauth_mint_token :: "(int \<Rightarrow> tm) \<Rightarrow> nat \<Rightarrow> string option \<Rightarrow> 'a oauth_world_scheme \<Rightarrow> string option \<times> 'a oauth_world_scheme" where
  "oauth_mint_token gm outsz note w =
     (if outsz < TOKEN_HEX_LEN + 1 then (None, w)
      else let (rnd, w) = fill_random 32 w; tk = hex_encode rnd; (stored, w) = tokens_append gm tk note w
           in (if stored then Some tk else None, w))"

section \<open>Authorization codes\<close>

fun pick_slot :: "AuthCode list \<Rightarrow> nat \<Rightarrow> nat list \<Rightarrow> nat \<Rightarrow> nat" where
  "pick_slot codes now [] slot = slot"
| "pick_slot codes now (i # is) slot =
     (if expires_at (codes ! i) = 0 \<or> expires_at (codes ! i) < now then i
      else pick_slot codes now is (if expires_at (codes ! i) < expires_at (codes ! slot) then i else slot))"

definition code_create :: "string \<Rightarrow> string \<Rightarrow> 'a oauth_world_scheme \<Rightarrow> AuthCode \<times> 'a oauth_world_scheme" where
  "code_create challenge redirect_uri w =
     (let now = now_secs w; slot = pick_slot (g_codes w) now [0..<MAX_AUTH_CODES] 0;
          (rnd, w) = fill_random 16 w;
          e = \<lparr>acode = hex_encode rnd, achallenge = fit 48 challenge, redirect_hash = digest_of redirect_uri,
               expires_at = now + CODE_LIFETIME_SECS\<rparr>
      in (e, w\<lparr>g_codes := (g_codes w)[slot := e]\<rparr>))"

definition code_live :: "nat \<Rightarrow> string \<Rightarrow> AuthCode \<Rightarrow> bool" where
  "code_live now c e \<longleftrightarrow> expires_at e \<noteq> 0 \<and> expires_at e \<ge> now \<and> http_secure_streq c (acode e)"

fun take_loop :: "nat \<Rightarrow> string \<Rightarrow> AuthCode list \<Rightarrow> AuthCode option \<times> AuthCode list" where
  "take_loop now c [] = (None, [])"
| "take_loop now c (e # es) =
     (if code_live now c e then (let e = e\<lparr>expires_at := 0\<rparr> in (Some e, e # es))
      else (let (r, es) = take_loop now c es in (r, e # es)))"

definition code_take :: "string \<Rightarrow> 'a oauth_world_scheme \<Rightarrow> AuthCode option \<times> 'a oauth_world_scheme" where
  "code_take c w = (let (r, es) = take_loop (now_secs w) c (g_codes w) in (r, w\<lparr>g_codes := es\<rparr>))"

section \<open>Validation is membership\<close>

lemma digest_of_spec: "digest_of s = sha256_spec (map byte s)"
  using sha256_stream_correct [of "replicate 64 0" "[map byte s]"] by (simp add: digest_of_def sha256_hash_def)

lemma length_digest_of [simp]: "length (digest_of s) = 32"
  by (simp add: digest_of_spec sha256_spec_def length_digest)

lemma digest_eq_iff:
  assumes "length a = 32" and "length b = 32"
  shows "digest_eq a b \<longleftrightarrow> a = b"
proof
  assume "digest_eq a b"
  then have "\<forall>i \<in> set [0..<32]. a ! i = b ! i" unfolding digest_eq_def foldl_or_0 xor_0_iff by (rule conjunct2)
  then show "a = b" using assms by (intro nth_equalityI) auto
next
  assume "a = b"
  then show "digest_eq a b" unfolding digest_eq_def foldl_or_0 by simp
qed

definition store_ok :: "'a oauth_world_scheme \<Rightarrow> bool" where
  "store_ok w \<longleftrightarrow> length (g_tokens w) \<le> MAX_TOKENS \<and> (\<forall>d \<in> set (g_tokens w). length d = 32)"

lemma any_digest: "foldl (\<lambda>v d. if P d then True else v) b ds \<longleftrightarrow> b \<or> (\<exists>d \<in> set ds. P d)"
  by (induction ds arbitrary: b) auto

lemma valid_iff:
  assumes "store_ok (tokens_refresh w)"
  shows "fst (oauth_token_valid w tk) \<longleftrightarrow> token_len_ok tk \<and> digest_of tk \<in> set (g_tokens (tokens_refresh w))"
proof -
  have "digest_eq (digest_of tk) d \<longleftrightarrow> d = digest_of tk" if "d \<in> set (g_tokens (tokens_refresh w))" for d
    using assms that by (auto simp: store_ok_def digest_eq_iff)
  then show ?thesis by (auto simp: oauth_token_valid_def Let_def any_digest)
qed

lemma valid_world: "snd (oauth_token_valid w tk) = tokens_refresh w"
  by (simp add: oauth_token_valid_def Let_def)

text \<open>The digests a file lists: the first 32 tokens of acceptable length.\<close>

definition listed :: "string list \<Rightarrow> string list" where
  "listed ls = filter token_len_ok (map line_token ls)"

lemma load_lines_eq: "length ts \<le> MAX_TOKENS \<Longrightarrow> load_lines ls ts = take MAX_TOKENS (ts @ map digest_of (listed ls))"
proof (induction ls arbitrary: ts)
  case (Cons l ls)
  show ?case
  proof (cases "length ts < MAX_TOKENS")
    case True
    with Cons.IH [of "ts @ [digest_of (line_token l)]"] Cons.IH [of ts] show ?thesis by (simp add: listed_def)
  next
    case False
    with Cons.prems show ?thesis by simp
  qed
qed (simp add: listed_def)

lemma oauth_upd [simp]:
  "node_at (w\<lparr>g_tokens := ts\<rparr>) = node_at w" "node_at (w\<lparr>g_tokens_mtime := t\<rparr>) = node_at w"
  "node_at (w\<lparr>draws := n\<rparr>) = node_at w" "node_at (w\<lparr>g_codes := cs\<rparr>) = node_at w"
  by (rule ext, simp add: node_at_def)+

lemma oauth_upd_stat [simp]:
  "sd_stat (w\<lparr>g_tokens := ts\<rparr>) = sd_stat w" "sd_stat (w\<lparr>g_tokens_mtime := t\<rparr>) = sd_stat w"
  "sd_stat (w\<lparr>draws := n\<rparr>) = sd_stat w" "sd_stat (w\<lparr>g_codes := cs\<rparr>) = sd_stat w"
  by (rule ext, simp add: sd_stat_def)+

lemma tokens_load_file:
  assumes "faults w = []" and "sd_stat w OAUTH_TOKENS_PATH = Some (Reg c t)"
  shows "tokens_load w = w\<lparr>g_tokens := take MAX_TOKENS (map digest_of (listed (fgets_lines 256 c))), g_tokens_mtime := t\<rparr>"
proof -
  have "sd_open OAUTH_TOKENS_PATH (w\<lparr>g_tokens := [], g_tokens_mtime := t\<rparr>) = (Some c, w\<lparr>g_tokens := [], g_tokens_mtime := t\<rparr>)"
    using assms by (simp add: sd_open_def no_faults)
  then show ?thesis using assms(2) load_lines_eq [of "[]" "fgets_lines 256 c"] by (simp add: tokens_load_def Let_def)
qed

lemma taken_digest: "d \<in> set (take n (map digest_of ts)) \<Longrightarrow> length d = 32"
  by (auto simp: take_map)

lemma store_ok_loaded: "store_ok (w\<lparr>g_tokens := take MAX_TOKENS (map digest_of ts), g_tokens_mtime := t\<rparr>)"
  by (auto simp: store_ok_def dest: taken_digest)

text \<open>The store reflects the file: loaded from this content, at this time.\<close>

definition in_sync :: "'a oauth_world_scheme \<Rightarrow> bool" where
  "in_sync w \<longleftrightarrow> (\<exists>c t. sd_stat w OAUTH_TOKENS_PATH = Some (Reg c t) \<and> g_tokens_mtime w = t \<and>
     g_tokens w = take MAX_TOKENS (map digest_of (listed (fgets_lines 256 c))))"

lemma tokens_refresh_file:
  assumes "faults w = []" and "sd_stat w OAUTH_TOKENS_PATH = Some (Reg c t)" and "g_tokens_mtime w \<noteq> t \<or> in_sync w"
  shows "in_sync (tokens_refresh w)" and "store_ok (tokens_refresh w)"
    and "g_tokens (tokens_refresh w) = take MAX_TOKENS (map digest_of (listed (fgets_lines 256 c)))"
proof -
  have "in_sync (tokens_refresh w) \<and> store_ok (tokens_refresh w) \<and>
    g_tokens (tokens_refresh w) = take MAX_TOKENS (map digest_of (listed (fgets_lines 256 c)))"
  proof (cases "g_tokens_mtime w = t")
    case True
    with assms have "in_sync w" by simp
    with assms(2) True show ?thesis
      by (auto simp: tokens_refresh_def file_mtime_def in_sync_def store_ok_def dest: taken_digest)
  next
    case False
    then have "tokens_refresh w = tokens_load w" using assms(2) by (simp add: tokens_refresh_def file_mtime_def)
    with assms(2) show ?thesis
      by (simp add: tokens_load_file [OF assms(1,2)] store_ok_loaded in_sync_def)
  qed
  then show "in_sync (tokens_refresh w)" "store_ok (tokens_refresh w)"
    "g_tokens (tokens_refresh w) = take MAX_TOKENS (map digest_of (listed (fgets_lines 256 c)))" by blast+
qed

lemma in_sync_refresh: "in_sync w \<Longrightarrow> tokens_refresh w = w"
  by (auto simp: in_sync_def tokens_refresh_def file_mtime_def)

section \<open>Minting\<close>

lemma tokens_key: "key OAUTH_TOKENS_PATH = [''config'', ''sys-autopilot'', ''tokens.txt'']"
    "key (OAUTH_TOKENS_PATH @ ''.tmp'') = [''config'', ''sys-autopilot'', ''tokens.txt.tmp'']"
  by (simp_all add: key_def CONFIG_DIR_def OAUTH_TOKENS_PATH_def FILES_ROOT_def starts_with_def)

lemma sd_puts_file:
  assumes "faults d = []" and "sd_stat d p = Some (Reg c t)"
  shows "\<exists>ns. sd_puts p ss d = d\<lparr>nodes := ns\<rparr> \<and> node_at (sd_puts p ss d) = (node_at d)(key p \<mapsto> Reg (c @ concat ss) t)"
  using assms
proof (induction ss arbitrary: d c)
  case Nil
  then show ?case by (intro exI [of _ "nodes d"]) (auto simp: sd_stat_def)
next
  case (Cons s ss)
  show ?case
  proof (cases "s = []")
    case True
    with Cons.IH [OF Cons.prems] show ?thesis by simp
  next
    case False
    have k: "key p \<noteq> []" using key_nonempty_of_file [OF Cons.prems(2)] .
    have w: "sd_write p s d = (True, put_node (key p) (Reg (c @ s) t) d)"
      using Cons.prems by (simp add: sd_write_def no_faults)
    let ?d = "put_node (key p) (Reg (c @ s) t) d"
    have "faults ?d = []" "sd_stat ?d p = Some (Reg (c @ s) t)" using Cons.prems(1) k
      by (simp_all add: put_node_def [of _ _ d] sd_stat_def node_at_put [unfolded put_node_def])
    from Cons.IH [OF this] obtain ns where "sd_puts p ss ?d = ?d\<lparr>nodes := ns\<rparr>"
      "node_at (sd_puts p ss ?d) = (node_at ?d)(key p \<mapsto> Reg ((c @ s) @ concat ss) t)" by blast
    then show ?thesis using False by (simp add: w node_at_put [OF k]) (auto simp: put_node_def)
  qed
qed

lemma sd_puts_tree: "tree_ok d \<Longrightarrow> tree_ok (sd_puts p ss d)"
  by (induction ss arbitrary: d) (simp_all add: sd_write_nodes(3))

text \<open>The card tokens are kept on: the directory is there and tokens.txt is not a directory.\<close>

definition tokens_ready :: "'a oauth_world_scheme \<Rightarrow> bool" where
  "tokens_ready w \<longleftrightarrow> faults w = [] \<and> is_dir w (key CONFIG_DIR) \<and> \<not> is_dir w (key OAUTH_TOKENS_PATH)"

definition file_text :: "'a oauth_world_scheme \<Rightarrow> string" where
  "file_text w = (case sd_stat w OAUTH_TOKENS_PATH of Some (Reg c t) \<Rightarrow> c | _ \<Rightarrow> [])"

definition token_line :: "(int \<Rightarrow> tm) \<Rightarrow> int \<Rightarrow> string \<Rightarrow> string option \<Rightarrow> string" where
  "token_line gm t tk note = tk @ '' #'' @ issue_stamp gm t @ '' '' @ (case note of Some n \<Rightarrow> n | None \<Rightarrow> []) @ [LF]"

lemma sd_append_ready:
  assumes "tokens_ready w"
  shows "sd_append OAUTH_TOKENS_PATH w = (True, put_node (key OAUTH_TOKENS_PATH) (Reg (file_text w) (now_ms w div 1000)) w)"
  using assms tmp_key_ne(3)
  by (auto simp: sd_append_def tokens_ready_def file_text_def no_faults sd_create_def is_dir_def sd_stat_def tokens_key upload_keys Let_def
      split: option.splits node.splits)

lemma tokens_append_ready:
  assumes "tokens_ready w"
  shows "\<exists>ns. tokens_append gm tk note w = (True, w\<lparr>nodes := ns, g_tokens_mtime := now_ms w div 1000,
      g_tokens := (if length (g_tokens w) < MAX_TOKENS then g_tokens w @ [digest_of tk] else g_tokens w)\<rparr>) \<and>
    node_at (w\<lparr>nodes := ns\<rparr>) = (node_at w)(key OAUTH_TOKENS_PATH \<mapsto> Reg (file_text w @ token_line gm (wall w) tk note) (now_ms w div 1000)) \<and>
    (tree_ok w \<longrightarrow> tree_ok (w\<lparr>nodes := ns\<rparr>))"
proof -
  let ?p = OAUTH_TOKENS_PATH and ?t = "now_ms w div 1000"
  let ?w1 = "put_node (key ?p) (Reg (file_text w) ?t) w"
  have k: "key ?p \<noteq> []" by (simp add: tokens_key)
  have f1: "faults ?w1 = []" "sd_stat ?w1 ?p = Some (Reg (file_text w) ?t)"
    using assms by (simp_all add: tokens_ready_def sd_stat_def node_at_put [OF k]) (simp add: put_node_def)
  let ?ss = "[tk, '' #'', issue_stamp gm (wall w), '' '', (case note of Some n \<Rightarrow> n | None \<Rightarrow> []), [LF]]"
  obtain ns where ns: "sd_puts ?p ?ss ?w1 = ?w1\<lparr>nodes := ns\<rparr>"
    "node_at (sd_puts ?p ?ss ?w1) = (node_at ?w1)(key ?p \<mapsto> Reg (file_text w @ concat ?ss) ?t)"
    using sd_puts_file [OF f1, of ?ss] by blast
  have w2: "?w1\<lparr>nodes := ns\<rparr> = w\<lparr>nodes := ns\<rparr>" by (simp add: put_node_def)
  have line: "concat ?ss = token_line gm (wall w) tk note" by (simp add: token_line_def)
  have n2: "node_at (w\<lparr>nodes := ns\<rparr>) = (node_at w)(key ?p \<mapsto> Reg (file_text w @ token_line gm (wall w) tk note) ?t)"
    using ns(2) unfolding ns(1) w2 line by (simp add: node_at_put [OF k])
  then have st: "sd_stat (w\<lparr>nodes := ns\<rparr>) ?p = Some (Reg (file_text w @ token_line gm (wall w) tk note) ?t)" by (simp add: sd_stat_def)
  have cl: "sd_close (w\<lparr>nodes := ns\<rparr>) = (True, w\<lparr>nodes := ns\<rparr>)" using assms by (simp add: sd_close_def no_faults tokens_ready_def)
  have wl: "wall ?w1 = wall w" by (simp add: put_node_def)
  have "tokens_append gm tk note w = (True, w\<lparr>nodes := ns, g_tokens_mtime := ?t,
      g_tokens := (if length (g_tokens w) < MAX_TOKENS then g_tokens w @ [digest_of tk] else g_tokens w)\<rparr>)"
    unfolding tokens_append_def sd_append_ready [OF assms] Let_def
    by (simp only: prod.case bool.case wl ns(1) w2 cl snd_conv st option.case node.case) simp
  moreover have "tree_ok (w\<lparr>nodes := ns\<rparr>)" if "tree_ok w"
  proof -
    have "butlast (key ?p) = key CONFIG_DIR" unfolding tokens_key upload_keys by simp
    then have "tree_ok ?w1" using that assms k by (intro tree_ok_put) (simp_all add: tokens_ready_def)
    from sd_puts_tree [OF this, of ?p ?ss] show ?thesis unfolding ns(1) w2 .
  qed
  ultimately show ?thesis using n2 by blast
qed

section \<open>Lines read back\<close>

definition text_line :: "string \<Rightarrow> bool" where
  "text_line l \<longleftrightarrow> l \<noteq> [] \<and> length l < 256 \<and> last l = LF \<and> LF \<notin> set (butlast l) \<and> cstr l"

lemma fgets_lines_concat: "list_all text_line ls \<Longrightarrow> fgets_lines 256 (concat ls) = ls"
proof (induction ls)
  case Nil
  then show ?case by (simp add: fgets_lines.simps)
next
  case (Cons l ls)
  then have l: "l = butlast l @ [LF]" "LF \<notin> set (butlast l)" "length l < 256" "cstr l" "l \<noteq> []"
    using append_butlast_last_id [of l] by (auto simp: text_line_def)
  have n: "length (butlast l) < 255" using l(3,5) by (cases l) auto
  then have "255 - length (butlast l) = Suc (254 - length (butlast l))" by simp
  then obtain r where r: "take 255 (butlast l @ LF # concat ls) = butlast l @ LF # r"
    using n by (simp only: take_append take_Suc_Cons) (simp add: min_def)
  have "fgets_len 256 (butlast l @ LF # concat ls) = length l"
  proof -
    have m: "(256 :: nat) - 1 = 255" by simp
    have "length (butlast l) + 1 = length l" using l(5) by simp
    then show ?thesis unfolding fgets_len_def m r strchr_append [OF l(2)] by simp
  qed
  moreover have "concat (l # ls) = butlast l @ LF # concat ls" using l(1) by (metis append.assoc append_Cons append_Nil concat.simps(2))
  ultimately have n: "fgets_len 256 (concat (l # ls)) = length l" by (simp only:)
  show ?case using Cons l(4,5) n by (subst fgets_lines.simps) (simp add: c_str_id)
qed

section \<open>Revoking\<close>

lemma sd_puts_read: "tokens_ready w \<Longrightarrow> sd_stat w OAUTH_TOKENS_PATH = Some (Reg c t) \<Longrightarrow> sd_open OAUTH_TOKENS_PATH w = (Some c, w)"
  by (simp add: sd_open_def tokens_ready_def no_faults)

lemma revoke_world:
  assumes ready: "tokens_ready w" and tree: "tree_ok w" and nd: "\<not> is_dir w (key (OAUTH_TOKENS_PATH @ ''.tmp''))"
    and fil: "sd_stat w OAUTH_TOKENS_PATH = Some (Reg c t)" and sync: "in_sync w" and valid: "fst (oauth_token_valid w tk)"
  shows "\<exists>ns. oauth_revoke_token tk w = (True, tokens_load (w\<lparr>nodes := ns\<rparr>)) \<and>
    node_at (w\<lparr>nodes := ns\<rparr>) = (node_at w)(key OAUTH_TOKENS_PATH \<mapsto> Reg (concat (kept_lines tk (fgets_lines 256 c))) (now_ms w div 1000),
      key (OAUTH_TOKENS_PATH @ ''.tmp'') := None)"
proof -
  let ?p = OAUTH_TOKENS_PATH and ?q = "OAUTH_TOKENS_PATH @ ''.tmp''" and ?t = "now_ms w div 1000" and ?ls = "kept_lines tk (fgets_lines 256 c)"
  have f: "faults w = []" and dir: "is_dir w (key CONFIG_DIR)" using ready by (simp_all add: tokens_ready_def)
  have kq: "key ?q \<noteq> []" "butlast (key ?q) = key CONFIG_DIR" "key ?p \<noteq> []" "butlast (key ?p) = key CONFIG_DIR" "key ?p \<noteq> key ?q"
    "\<not> prefix (key ?q) (key ?p)" "\<not> prefix (key ?p) (key ?q)"
    unfolding tokens_key upload_keys by simp_all
  let ?w1 = "put_node (key ?q) (Reg [] ?t) w"
  have cr: "sd_create ?q w = (True, ?w1)" using f dir nd kq(2) by (simp add: sd_create_def no_faults Let_def)
  have f1: "faults ?w1 = []" using f by (simp add: put_node_def)
  have s1: "sd_stat ?w1 ?q = Some (Reg [] ?t)" by (simp add: sd_stat_def node_at_put [OF kq(1)])
  obtain ns where ns: "sd_puts ?q ?ls ?w1 = ?w1\<lparr>nodes := ns\<rparr>" "node_at (sd_puts ?q ?ls ?w1) = (node_at ?w1)(key ?q \<mapsto> Reg ([] @ concat ?ls) ?t)"
    using sd_puts_file [OF f1 s1, of ?ls] by blast
  let ?w2 = "w\<lparr>nodes := ns\<rparr>"
  have w2: "?w1\<lparr>nodes := ns\<rparr> = ?w2" by (simp add: put_node_def)
  have n2: "node_at ?w2 = (node_at w)(key ?q \<mapsto> Reg (concat ?ls) ?t)" using ns(2) unfolding ns(1) w2 by (simp add: node_at_put [OF kq(1)])
  have f2: "faults ?w2 = []" using f by simp
  have t2: "tree_ok ?w2"
  proof -
    have "tree_ok ?w1" using sd_create_nodes(3) [OF tree, of ?q] cr by simp
    from sd_puts_tree [OF this, of ?q ?ls] show ?thesis unfolding ns(1) w2 .
  qed
  have st2: "sd_stat ?w2 ?p = Some (Reg c t)" using n2 fil kq(5) by (simp add: sd_stat_def)
  let ?w3 = "drop_node (key ?p) ?w2"
  have rm: "sd_remove ?p ?w2 = (True, ?w3)" using f2 st2 by (simp add: sd_remove_def no_faults)
  have n3: "node_at ?w3 = (node_at ?w2)(key ?p := None)" by (rule node_at_drop [OF kq(3)])
  have t3: "tree_ok ?w3" using sd_remove_nodes(3) [OF t2, of ?p] rm by simp
  have dir3: "is_dir ?w3 (key CONFIG_DIR)" using dir n2 n3 kq(1-4) unfolding is_dir_def tokens_key upload_keys by simp
  have "faults ?w3 = []" using f by (simp add: drop_node_def)
  moreover define w4 where "w4 = ?w3\<lparr>nodes := map (\<lambda>(k, n). (rekey (key ?q) (key ?p) k, n)) (AList.delete (key ?p) (nodes ?w3))\<rparr>"
  ultimately have rn: "sd_rename ?q ?p ?w3 = (True, w4)" using dir3 n3 n2 kq by (simp add: sd_rename_def no_faults Let_def)
  obtain ms where w4: "w4 = w\<lparr>nodes := ms\<rparr>" by (auto simp: drop_node_def w4_def)
  have n4: "node_at w4 = (node_at w)(key ?p \<mapsto> Reg (concat ?ls) ?t, key ?q := None)"
  proof
    fix k
    have e: "node_at w4 k = (if prefix (key ?p) k then node_at ?w3 (key ?q @ drop (length (key ?p)) k) else if prefix (key ?q) k then None else node_at ?w3 k)"
      by (rule sd_rename_nodes [OF t3 rn])
    have below: "node_at ?w3 (key ?q @ x) = None" if "x \<noteq> []" for x
    proof (rule ccontr)
      assume "node_at ?w3 (key ?q @ x) \<noteq> None"
      from tree_ok_ancestor [OF t3 this that] n3 n2 kq(5) show False by simp
    qed
    have belowp: "node_at w k = None" if "prefix (key ?p) k" "k \<noteq> key ?p"
    proof (rule ccontr)
      assume a: "node_at w k \<noteq> None"
      from that obtain x where x: "k = key ?p @ x" "x \<noteq> []" by (auto simp: prefix_def)
      from tree_ok_ancestor [OF tree _ x(2), of "key ?p"] a x(1) fil show False by (simp add: sd_stat_def)
    qed
    have belowq: "node_at w k = None" if "prefix (key ?q) k" "k \<noteq> key ?q"
    proof (rule ccontr)
      assume a: "node_at w k \<noteq> None"
      from that obtain x where x: "k = key ?q @ x" "x \<noteq> []" by (auto simp: prefix_def)
      from tree_ok_ancestor [OF tree _ x(2), of "key ?q"] a x(1) nd show False by (simp add: is_dir_def)
    qed
    show "node_at w4 k = ((node_at w)(key ?p \<mapsto> Reg (concat ?ls) ?t, key ?q := None)) k"
    proof (cases "prefix (key ?p) k")
      case True
      then obtain x where x: "k = key ?p @ x" by (auto simp: prefix_def)
      show ?thesis
      proof (cases "x = []")
        case True
        then show ?thesis using e x n3 n2 kq(5) by simp
      next
        case False
        then have "k \<noteq> key ?p" using x by simp
        moreover have "k \<noteq> key ?q" using x kq(7) by (metis prefixI)
        ultimately have "k \<noteq> key ?p" "k \<noteq> key ?q" by simp_all
        then show ?thesis using e x below [OF False] belowp [OF True] True by simp
      qed
    next
      case False
      then have "k \<noteq> key ?p" by auto
      then show ?thesis using e False n3 n2 belowq by auto
    qed
  qed
  have sync': "tokens_refresh w = w" by (rule in_sync_refresh [OF sync])
  have v: "oauth_token_valid w tk = (True, w)" using valid valid_world [of w tk] sync' by (cases "oauth_token_valid w tk") simp
  have cl: "sd_close ?w2 = (True, ?w2)" using f2 by (simp add: sd_close_def no_faults)
  have "oauth_revoke_token tk w = (True, tokens_load w4)"
    unfolding oauth_revoke_token_def v prod.case bool.case sd_puts_read [OF ready fil] option.case Let_def cr ns(1) w2 cl snd_conv rm rn
    by simp
  then show ?thesis using w4 n4 by blast
qed

lemma revoke_spec:
  assumes ready: "tokens_ready w" and tree: "tree_ok w" and nd: "\<not> is_dir w (key (OAUTH_TOKENS_PATH @ ''.tmp''))"
    and fil: "sd_stat w OAUTH_TOKENS_PATH = Some (Reg (concat ls) t)" and ls: "list_all text_line ls"
    and sync: "in_sync w" and valid: "fst (oauth_token_valid w tk)"
  shows "fst (oauth_revoke_token tk w)" and "in_sync (snd (oauth_revoke_token tk w))"
    and "file_text (snd (oauth_revoke_token tk w)) = concat (kept_lines tk ls)"
    and "g_tokens (snd (oauth_revoke_token tk w)) = take MAX_TOKENS (map digest_of (filter (\<lambda>t. t \<noteq> tk) (listed ls)))"
proof -
  obtain ns where ns: "oauth_revoke_token tk w = (True, tokens_load (w\<lparr>nodes := ns\<rparr>))"
    "node_at (w\<lparr>nodes := ns\<rparr>) = (node_at w)(key OAUTH_TOKENS_PATH \<mapsto> Reg (concat (kept_lines tk ls)) (now_ms w div 1000),
      key (OAUTH_TOKENS_PATH @ ''.tmp'') := None)"
    using revoke_world [OF ready tree nd fil sync valid] by (auto simp: fgets_lines_concat [OF ls])
  have k: "key OAUTH_TOKENS_PATH \<noteq> key (OAUTH_TOKENS_PATH @ ''.tmp'')" unfolding tokens_key by simp
  let ?w = "w\<lparr>nodes := ns\<rparr>"
  have st: "sd_stat ?w OAUTH_TOKENS_PATH = Some (Reg (concat (kept_lines tk ls)) (now_ms w div 1000))" using ns(2) k by (simp add: sd_stat_def)
  have f: "faults ?w = []" using ready by (simp add: tokens_ready_def)
  have kept: "list_all text_line (kept_lines tk ls)" using ls by (auto simp: kept_lines_def list_all_iff)
  have li: "listed (kept_lines tk ls) = filter (\<lambda>t. t \<noteq> tk) (listed ls)"
    by (induction ls) (auto simp: listed_def kept_lines_def)
  note load = tokens_load_file [OF f st, unfolded fgets_lines_concat [OF kept] li]
  show "fst (oauth_revoke_token tk w)" using ns(1) by simp
  show "g_tokens (snd (oauth_revoke_token tk w)) = take MAX_TOKENS (map digest_of (filter (\<lambda>t. t \<noteq> tk) (listed ls)))"
    unfolding ns(1) snd_conv load by simp
  show "file_text (snd (oauth_revoke_token tk w)) = concat (kept_lines tk ls)"
    unfolding ns(1) snd_conv load using st by (simp add: file_text_def)
  show "in_sync (snd (oauth_revoke_token tk w))"
    unfolding ns(1) snd_conv load in_sync_def using st by (simp add: fgets_lines_concat [OF kept] li)
qed

section \<open>Codes\<close>

lemma take_loop_spec:
  "take_loop now c es = (r, es') \<Longrightarrow> length es' = length es \<and>
    (case r of
       None \<Rightarrow> es' = es \<and> (\<forall>e \<in> set es. \<not> code_live now c e)
     | Some e \<Rightarrow> \<exists>i < length es. code_live now c (es ! i) \<and> (\<forall>j < i. \<not> code_live now c (es ! j)) \<and>
         e = (es ! i)\<lparr>expires_at := 0\<rparr> \<and> es' = es[i := e])"
proof (induction es arbitrary: es' r)
  case (Cons e es)
  show ?case
  proof (cases "code_live now c e")
    case True
    with Cons.prems show ?thesis by (auto simp: Let_def intro!: exI [of _ 0])
  next
    case False
    obtain r1 es1 where t: "take_loop now c es = (r1, es1)" by fastforce
    with Cons.prems False have e: "r = r1" "es' = e # es1" by auto
    show ?thesis
    proof (cases r1)
      case None
      then show ?thesis using Cons.IH [OF t] False e by auto
    next
      case (Some x)
      with Cons.IH [OF t] obtain i where i: "i < length es" "code_live now c (es ! i)" "\<forall>j < i. \<not> code_live now c (es ! j)"
        "x = (es ! i)\<lparr>expires_at := 0\<rparr>" "es1 = es[i := x]" "length es1 = length es" by auto
      have "length es' = length (e # es) \<and> (\<exists>k < length (e # es). code_live now c ((e # es) ! k) \<and>
          (\<forall>j < k. \<not> code_live now c ((e # es) ! j)) \<and> x = ((e # es) ! k)\<lparr>expires_at := 0\<rparr> \<and> es' = (e # es)[k := x])"
        using i e False by (intro conjI exI [of _ "Suc i"]) (auto simp: less_Suc_eq_0_disj)
      then show ?thesis using e Some by simp
    qed
  qed
qed auto

text \<open>A taken code is not live any more: with distinct codes it cannot be taken again.\<close>

lemma taken_dead: "\<not> code_live now c (e\<lparr>expires_at := 0\<rparr>)"
  by (simp add: code_live_def)

definition codes_distinct :: "nat \<Rightarrow> AuthCode list \<Rightarrow> bool" where
  "codes_distinct now es \<longleftrightarrow> (\<forall>i < length es. \<forall>j < length es. \<forall>c. code_live now c (es ! i) \<longrightarrow> code_live now c (es ! j) \<longrightarrow> i = j)"

lemma code_single_use:
  assumes "codes_distinct (now_secs w) (g_codes w)" and "code_take c w = (Some e, w')"
  shows "fst (code_take c w') = None"
proof -
  obtain es where t: "take_loop (now_secs w) c (g_codes w) = (Some e, es)" and w': "w' = w\<lparr>g_codes := es\<rparr>"
    using assms(2) by (auto simp: code_take_def split: prod.splits)
  obtain i where i: "i < length (g_codes w)" "code_live (now_secs w) c (g_codes w ! i)" "es = (g_codes w)[i := (g_codes w ! i)\<lparr>expires_at := 0\<rparr>]"
    using take_loop_spec [OF t] by auto
  have "\<not> code_live (now_secs w) c x" if "x \<in> set es" for x
  proof -
    from that obtain j where j: "j < length es" "x = es ! j" by (auto simp: in_set_conv_nth)
    show ?thesis
    proof (cases "j = i")
      case True
      then show ?thesis using j i by (simp add: taken_dead)
    next
      case False
      then have "x = g_codes w ! j" "j < length (g_codes w)" using j i by simp_all
      then show ?thesis using assms(1) i(1,2) False unfolding codes_distinct_def by blast
    qed
  qed
  moreover obtain r es2 where t2: "take_loop (now_secs w) c es = (r, es2)" by fastforce
  ultimately have "r = None" using take_loop_spec [OF t2] by (cases r) auto
  then show ?thesis using t2 by (simp add: code_take_def w' now_secs_def)
qed

section \<open>A minted token\<close>

definition plain_char :: "char \<Rightarrow> bool" where
  "plain_char c \<longleftrightarrow> c \<noteq> LF \<and> c \<noteq> NUL"

lemma digit_plain: "is_digit c \<Longrightarrow> plain_char c"
  by (auto simp: is_digit_def between_def plain_char_def)

lemma dec_plain: "list_all plain_char (dec n)"
  using dec_digits digit_plain by (auto simp: list_all_iff)

lemma pad0_plain: "list_all plain_char s \<Longrightarrow> list_all plain_char (pad0 n s)"
proof -
  have "list_all plain_char (replicate k (CHR ''0''))" for k by (induction k) (simp_all add: plain_char_def)
  then show "list_all plain_char s \<Longrightarrow> list_all plain_char (pad0 n s)" by (simp add: pad0_def)
qed

lemma fit_plain: "list_all plain_char s \<Longrightarrow> list_all plain_char (fit n s)"
  by (auto simp: fit_def list_all_iff dest: in_set_takeD)

lemma issue_stamp_plain: "list_all plain_char (issue_stamp gm t)" "length (issue_stamp gm t) < 64"
proof -
  show "list_all plain_char (issue_stamp gm t)"
    unfolding issue_stamp_def by (auto intro!: fit_plain simp: list_all_append pad0_plain dec_plain) (simp_all add: plain_char_def)
  show "length (issue_stamp gm t) < 64" by (auto simp: issue_stamp_def intro: length_fit)
qed

lemma hex_char_cases: "i < 16 \<Longrightarrow> hex_char i \<in> set ''0123456789abcdef''"
proof -
  have "list_all (\<lambda>i. hex_char i \<in> set ''0123456789abcdef'') [0..<16]" by code_simp
  then show "i < 16 \<Longrightarrow> hex_char i \<in> set ''0123456789abcdef''" unfolding list_all_iff by auto
qed

lemma hex_encode_chars: "c \<in> set (hex_encode bs) \<Longrightarrow> c \<in> set ''0123456789abcdef''"
proof (induction bs)
  case (Cons b bs)
  then consider "c = hex_char (unat (drop_bit 4 b))" | "c = hex_char (unat (b AND 0xF))" | "c \<in> set (hex_encode bs)" by auto
  then show ?case using hex_char_cases [OF nibbles(1) [of b]] hex_char_cases [OF nibbles(2) [of b]] Cons.IH
    by cases (simp_all only:)
qed simp

lemma token_line_text:
  assumes "tk = hex_encode bs" and "length bs = 32" and "list_all plain_char n" and "length n \<le> 100"
  shows "text_line (token_line gm t tk (Some n))" and "line_token (token_line gm t tk (Some n)) = tk"
proof -
  have h: "c \<in> set ''0123456789abcdef''" if "c \<in> set tk" for c using hex_encode_chars that assms(1) by blast
  then have p: "list_all plain_char tk" by (auto simp: list_all_iff plain_char_def)
  have len: "length tk = 64" using assms(1,2) by (simp add: length_hex_encode)
  let ?b = "tk @ '' #'' @ issue_stamp gm t @ '' '' @ n"
  have l: "token_line gm t tk (Some n) = ?b @ [LF]" by (simp add: token_line_def)
  have b: "list_all plain_char ?b" using p issue_stamp_plain(1) assms(3) by (simp add: plain_char_def)
  have lf: "LF \<notin> set ?b" "NUL \<notin> set ?b" using b unfolding list_all_iff plain_char_def by blast+
  have "length ?b < 255" using issue_stamp_plain(2) [of gm t] len assms(4) by simp
  moreover have "butlast (?b @ [LF]) = ?b" by (rule butlast_snoc)
  ultimately show "text_line (token_line gm t tk (Some n))" unfolding l text_line_def cstr_def using lf by (simp only:) simp
  let ?d = "{CHR '' '', TAB, CR, LF, CHR ''#''}"
  have nd: "c \<notin> ?d" if "c \<in> set tk" for c using h [OF that] by auto
  obtain x xs where tk: "tk = x # xs" using len by (cases tk) auto
  have "dropWhile (\<lambda>c. c = CHR '' '' \<or> c = TAB) (?b @ [LF]) = ?b @ [LF]" using nd [of x] tk by simp
  moreover have "takeWhile (\<lambda>c. c \<notin> ?d) (tk @ CHR '' '' # r) = tk" for r
    using nd by (subst takeWhile_append2) auto
  ultimately show "line_token (token_line gm t tk (Some n)) = tk" unfolding l line_token_def by simp
qed

lemma tree_same: "nodes d = nodes e \<Longrightarrow> tree_ok d = tree_ok e"
  by (simp add: tree_ok_def is_dir_def node_at_def)

text \<open>A store in step with a well-formed file, possibly none yet.\<close>

definition store_of :: "string list \<Rightarrow> 'a oauth_world_scheme \<Rightarrow> bool" where
  "store_of ls w \<longleftrightarrow> list_all text_line ls \<and> file_text w = concat ls \<and> g_tokens w = take MAX_TOKENS (map digest_of (listed ls))"

lemma mint_spec:
  assumes ready: "tokens_ready w" and st: "store_of ls w" and room: "length (listed ls) < MAX_TOKENS"
    and n: "list_all plain_char n" "length n \<le> 100"
  shows "\<exists>ns tk. tk = hex_encode (map (entropy w (draws w)) [0..<32]) \<and>
    oauth_mint_token gm 65 (Some n) w = (Some tk, w\<lparr>draws := draws w + 1, nodes := ns, g_tokens_mtime := now_ms w div 1000,
      g_tokens := g_tokens w @ [digest_of tk]\<rparr>) \<and>
    node_at (w\<lparr>nodes := ns\<rparr>) = (node_at w)(key OAUTH_TOKENS_PATH \<mapsto>
      Reg (concat (ls @ [token_line gm (wall w) tk (Some n)])) (now_ms w div 1000)) \<and>
    (tree_ok w \<longrightarrow> tree_ok (w\<lparr>nodes := ns\<rparr>))"
proof -
  let ?tk = "hex_encode (map (entropy w (draws w)) [0..<32])"
  let ?w = "w\<lparr>draws := draws w + 1\<rparr>"
  have r: "tokens_ready ?w" using ready by (simp add: tokens_ready_def is_dir_def)
  have ft: "file_text ?w = concat ls" using st by (simp add: store_of_def file_text_def)
  have len: "length (g_tokens w) < MAX_TOKENS" using st room by (simp add: store_of_def)
  obtain ns where ns: "tokens_append gm ?tk (Some n) ?w = (True, ?w\<lparr>nodes := ns, g_tokens_mtime := now_ms ?w div 1000,
      g_tokens := (if length (g_tokens ?w) < MAX_TOKENS then g_tokens ?w @ [digest_of ?tk] else g_tokens ?w)\<rparr>)"
    "node_at (?w\<lparr>nodes := ns\<rparr>) = (node_at ?w)(key OAUTH_TOKENS_PATH \<mapsto> Reg (file_text ?w @ token_line gm (wall ?w) ?tk (Some n)) (now_ms ?w div 1000))"
    "tree_ok ?w \<longrightarrow> tree_ok (?w\<lparr>nodes := ns\<rparr>)"
    using tokens_append_ready [OF r, of gm ?tk "Some n"] by blast
  have "node_at (?w\<lparr>nodes := ns\<rparr>) = node_at (w\<lparr>nodes := ns\<rparr>)" by (rule ext) (simp add: node_at_def)
  moreover have "tree_ok w \<longrightarrow> tree_ok (w\<lparr>nodes := ns\<rparr>)" using ns(3) tree_same [of ?w w] tree_same [of "?w\<lparr>nodes := ns\<rparr>" "w\<lparr>nodes := ns\<rparr>"] by simp
  ultimately show ?thesis using ns(1,2) len ft
    by (intro exI [of _ ns] exI [of _ ?tk]) (simp add: oauth_mint_token_def fill_random_def TOKEN_HEX_LEN_def Let_def)
qed

lemma valid_in_sync:
  assumes "in_sync w"
  shows "fst (oauth_token_valid w tk) \<longleftrightarrow> token_len_ok tk \<and> digest_of tk \<in> set (g_tokens w)"
proof -
  have "store_ok w" using assms by (auto simp: in_sync_def store_ok_def dest: taken_digest)
  with valid_iff [of w tk] show ?thesis by (simp add: in_sync_refresh [OF assms])
qed

lemma listed_len_ok: "u \<in> set (listed ls) \<Longrightarrow> token_len_ok u"
  by (auto simp: listed_def)

lemma mint_revoke:
  assumes ready: "tokens_ready w" and tree: "tree_ok w" and nd: "\<not> is_dir w (key (OAUTH_TOKENS_PATH @ ''.tmp''))"
    and st: "store_of ls w" and room: "length (listed ls) < MAX_TOKENS" and n: "list_all plain_char n" "length n \<le> 100"
    and tk: "tk = hex_encode (map (entropy w (draws w)) [0..<32])" and fresh: "\<forall>u \<in> set (listed ls). digest_of u \<noteq> digest_of tk"
  shows "\<exists>w1. oauth_mint_token gm 65 (Some n) w = (Some tk, w1) \<and>
    (\<forall>u. fst (oauth_token_valid w1 u) \<longleftrightarrow> token_len_ok u \<and> (\<exists>v \<in> insert tk (set (listed ls)). digest_of v = digest_of u)) \<and>
    fst (oauth_revoke_token tk w1) \<and> file_text (snd (oauth_revoke_token tk w1)) = concat (kept_lines tk ls) \<and>
    (\<forall>u. fst (oauth_token_valid (snd (oauth_revoke_token tk w1)) u) \<longleftrightarrow>
      token_len_ok u \<and> (\<exists>v \<in> set (listed ls). digest_of v = digest_of u))"
proof -
  let ?line = "token_line gm (wall w) tk (Some n)"
  let ?t = "now_ms w div 1000"
  obtain ns where m: "oauth_mint_token gm 65 (Some n) w = (Some tk, w\<lparr>draws := draws w + 1, nodes := ns, g_tokens_mtime := ?t,
      g_tokens := g_tokens w @ [digest_of tk]\<rparr>)"
    and na: "node_at (w\<lparr>nodes := ns\<rparr>) = (node_at w)(key OAUTH_TOKENS_PATH \<mapsto> Reg (concat (ls @ [?line])) ?t)"
    and nt: "tree_ok w \<longrightarrow> tree_ok (w\<lparr>nodes := ns\<rparr>)"
    using mint_spec [OF ready st room n, of gm] unfolding tk [symmetric] by blast
  define w1 where "w1 = w\<lparr>draws := draws w + 1, nodes := ns, g_tokens_mtime := ?t, g_tokens := g_tokens w @ [digest_of tk]\<rparr>"
  have na1: "node_at w1 = (node_at w)(key OAUTH_TOKENS_PATH \<mapsto> Reg (concat (ls @ [?line])) ?t)"
  proof -
    have "node_at w1 = node_at (w\<lparr>nodes := ns\<rparr>)" by (rule ext) (simp add: w1_def node_at_def)
    with na show ?thesis by simp
  qed
  have tl: "text_line ?line" "line_token ?line = tk" using token_line_text [OF tk _ n] by simp_all
  have ll: "list_all text_line (ls @ [?line])" using st tl by (simp add: store_of_def)
  have tlen: "token_len_ok tk" unfolding token_len_ok_def tk TOKEN_HEX_LEN_def by (simp add: length_hex_encode)
  have li: "listed (ls @ [?line]) = listed ls @ [tk]" using tl tlen by (simp add: listed_def)
  have gt: "g_tokens w1 = map digest_of (listed ls @ [tk])" using st room by (simp add: w1_def store_of_def)
  have s1: "sd_stat w1 OAUTH_TOKENS_PATH = Some (Reg (concat (ls @ [?line])) ?t)" using na1 by (simp add: sd_stat_def)
  have sync: "in_sync w1"
    unfolding in_sync_def s1 using gt room fgets_lines_concat [OF ll] li by (simp add: w1_def)
  have ready1: "tokens_ready w1"
    using ready na1 unfolding tokens_ready_def is_dir_def tokens_key upload_keys by (simp add: w1_def)
  have nd1: "\<not> is_dir w1 (key (OAUTH_TOKENS_PATH @ ''.tmp''))" using nd na1 unfolding is_dir_def tokens_key by simp
  have tree1: "tree_ok w1" using nt tree tree_same [of w1 "w\<lparr>nodes := ns\<rparr>"] by (simp add: w1_def)
  have v1: "fst (oauth_token_valid w1 u) \<longleftrightarrow> token_len_ok u \<and> (\<exists>v \<in> insert tk (set (listed ls)). digest_of v = digest_of u)" for u
    unfolding valid_in_sync [OF sync, of u] gt by (simp add: image_iff) metis
  have "fst (oauth_token_valid w1 tk)" using v1 [of tk] tlen by blast
  note rv = revoke_spec [OF ready1 tree1 nd1 s1 ll sync this]
  have kl: "kept_lines tk (ls @ [?line]) = kept_lines tk ls" using tl by (simp add: kept_lines_def)
  have fl: "filter (\<lambda>t. t \<noteq> tk) (listed (ls @ [?line])) = listed ls"
    unfolding li using fresh by (auto simp: filter_id_conv)
  have v2: "fst (oauth_token_valid (snd (oauth_revoke_token tk w1)) u) \<longleftrightarrow>
      token_len_ok u \<and> (\<exists>v \<in> set (listed ls). digest_of v = digest_of u)" for u
    unfolding valid_in_sync [OF rv(2), of u] rv(4) fl using room by (simp add: image_iff) metis
  show ?thesis using m v1 rv(1,3) v2 unfolding w1_def [symmetric] kl by blast
qed

section \<open>What a mint leaves out\<close>

text \<open>
  A mint sets the remembered time of the file without rereading it, and a full table takes no more digests: a token
  minted into a full store is never valid, and a token a user has just deleted from the file stays valid.
\<close>

lemma mint_without_reload:
  assumes ready: "tokens_ready w" and ok: "store_ok w" and l: "token_len_ok u"
  shows "\<exists>tk w1. oauth_mint_token gm 65 nt w = (Some tk, w1) \<and> tk = hex_encode (map (entropy w (draws w)) [0..<32]) \<and>
    (fst (oauth_token_valid w1 u) \<longleftrightarrow> digest_of u \<in> set (g_tokens w) \<or> (length (g_tokens w) < MAX_TOKENS \<and> digest_of u = digest_of tk))"
proof -
  let ?tk = "hex_encode (map (entropy w (draws w)) [0..<32])" and ?w = "w\<lparr>draws := draws w + 1\<rparr>"
  have r: "tokens_ready ?w" using ready by (simp add: tokens_ready_def is_dir_def)
  define ts where "ts = (if length (g_tokens ?w) < MAX_TOKENS then g_tokens ?w @ [digest_of ?tk] else g_tokens ?w)"
  obtain ns where ns: "tokens_append gm ?tk nt ?w = (True, ?w\<lparr>nodes := ns, g_tokens_mtime := now_ms ?w div 1000, g_tokens := ts\<rparr>)"
    "node_at (?w\<lparr>nodes := ns\<rparr>) = (node_at ?w)(key OAUTH_TOKENS_PATH \<mapsto> Reg (file_text ?w @ token_line gm (wall ?w) ?tk nt) (now_ms ?w div 1000))"
    using tokens_append_ready [OF r, of gm ?tk nt] unfolding ts_def [symmetric] by blast
  define w1 where "w1 = ?w\<lparr>nodes := ns, g_tokens_mtime := now_ms ?w div 1000, g_tokens := ts\<rparr>"
  have "node_at w1 = node_at (?w\<lparr>nodes := ns\<rparr>)" by (rule ext) (simp add: w1_def node_at_def)
  then have "sd_stat w1 OAUTH_TOKENS_PATH = Some (Reg (file_text ?w @ token_line gm (wall ?w) ?tk nt) (now_ms w div 1000))"
    using ns(2) by (simp add: sd_stat_def)
  then have same: "tokens_refresh w1 = w1" by (simp add: tokens_refresh_def file_mtime_def w1_def)
  have "store_ok w1" using ok by (auto simp: store_ok_def w1_def ts_def)
  with valid_iff [of w1 u] same l have "fst (oauth_token_valid w1 u) \<longleftrightarrow> digest_of u \<in> set ts" by (simp add: w1_def)
  moreover have "oauth_mint_token gm 65 nt w = (Some ?tk, w1)"
    using ns(1) by (simp add: oauth_mint_token_def fill_random_def TOKEN_HEX_LEN_def Let_def w1_def)
  ultimately show ?thesis by (auto simp: ts_def)
qed

lemma full_store_mints_dead_tokens:
  assumes "tokens_ready w" and "store_ok w" and "length (g_tokens w) = MAX_TOKENS"
    and "digest_of (hex_encode (map (entropy w (draws w)) [0..<32])) \<notin> set (g_tokens w)"
  shows "\<exists>tk w1. oauth_mint_token gm 65 nt w = (Some tk, w1) \<and> \<not> fst (oauth_token_valid w1 tk)"
proof -
  let ?tk = "hex_encode (map (entropy w (draws w)) [0..<32])"
  have "token_len_ok ?tk" by (simp add: token_len_ok_def TOKEN_HEX_LEN_def length_hex_encode)
  from mint_without_reload [OF assms(1,2) this, of gm nt] assms(3,4) show ?thesis by auto
qed

lemma mint_hides_a_revocation:
  assumes "tokens_ready w" and "store_ok w" and "token_len_ok u" and "digest_of u \<in> set (g_tokens w)"
  shows "\<exists>tk w1. oauth_mint_token gm 65 nt w = (Some tk, w1) \<and> fst (oauth_token_valid w1 u)"
  using mint_without_reload [OF assms(1-3), of gm nt] assms(4) by auto

section \<open>Properties\<close>

text \<open>
  C14: with a readable file that changed since it was last read, or that the store reflects, a token is valid exactly when it
  has an acceptable length and the digest of one of the first 32 tokens the file's lines list.
\<close>

theorem token_valid_iff_listed:
  assumes "faults w = []" and "sd_stat w OAUTH_TOKENS_PATH = Some (Reg c t)" and "g_tokens_mtime w \<noteq> t \<or> in_sync w"
  shows "fst (oauth_token_valid w tk) \<longleftrightarrow>
    token_len_ok tk \<and> digest_of tk \<in> set (map digest_of (take MAX_TOKENS (listed (fgets_lines 256 c))))"
  using valid_iff [OF tokens_refresh_file(2) [OF assms], of tk] tokens_refresh_file(3) [OF assms] by (simp add: take_map)

definition demo_gm :: "int \<Rightarrow> tm" where
  "demo_gm t = \<lparr>tm_year = 126, tm_mon = 0, tm_mday = 1, tm_hour = 0, tm_min = 0, tm_sec = 0\<rparr>"

definition demo_oauth :: "unit oauth_world_scheme" where
  "demo_oauth = \<lparr>nodes = [([''config''], Dir), ([''config'', ''sys-autopilot''], Dir)], faults = [], now_ms = 5000, rename_over = False,
     g_upload = empty_upload, g_tokens = [], g_tokens_mtime = 0, g_codes = replicate 8 free_slot, entropy = (\<lambda>n i. 7), draws = 0, wall = 0, dir_mtime = 0\<rparr>"

definition demo_listed :: "unit oauth_world_scheme" where
  "demo_listed = demo_oauth\<lparr>nodes := nodes demo_oauth @ [([''config'', ''sys-autopilot'', ''tokens.txt''], Reg (''0123456789abcdef #'' @ [LF]) 9)]\<rparr>"

theorem token_valid_iff_listed_witness: "fst (oauth_token_valid demo_listed ''0123456789abcdef'')"
proof -
  have f: "faults demo_listed = []" "g_tokens_mtime demo_listed \<noteq> 9 \<or> in_sync demo_listed" by (simp_all add: demo_listed_def demo_oauth_def)
  have s: "sd_stat demo_listed OAUTH_TOKENS_PATH = Some (Reg (''0123456789abcdef #'' @ [LF]) 9)"
    unfolding sd_stat_def tokens_key by (simp add: demo_listed_def demo_oauth_def node_at_def)
  have "fgets_lines 256 (concat [''0123456789abcdef #'' @ [LF]]) = [''0123456789abcdef #'' @ [LF]]"
    by (rule fgets_lines_concat) (simp add: text_line_def cstr_def)
  then have "fgets_lines 256 (''0123456789abcdef #'' @ [LF]) = [''0123456789abcdef #'' @ [LF]]" by simp
  moreover have "line_token (''0123456789abcdef #'' @ [LF]) = ''0123456789abcdef''" by (simp add: line_token_def)
  ultimately have "listed (fgets_lines 256 (''0123456789abcdef #'' @ [LF])) = [''0123456789abcdef'']"
    by (simp add: listed_def token_len_ok_def TOKEN_HEX_LEN_def)
  with token_valid_iff_listed [OF f(1) s f(2), of "''0123456789abcdef''"] show ?thesis
    by (simp add: token_len_ok_def TOKEN_HEX_LEN_def MAX_TOKENS_def)
qed

text \<open>
  C13: on a working card with room in the store, a minted token is valid at once and the listed ones stay so; revoking it
  succeeds, removes exactly the lines it is on and leaves the store accepting exactly what it accepted before, provided no listed
  token has the same digest.
\<close>

theorem token_lifecycle:
  assumes "tokens_ready w" and "tree_ok w" and "\<not> is_dir w (key (OAUTH_TOKENS_PATH @ ''.tmp''))"
    and "store_of ls w" and "length (listed ls) < MAX_TOKENS" and "list_all plain_char n" and "length n \<le> 100"
    and "tk = hex_encode (map (entropy w (draws w)) [0..<32])" and "\<forall>u \<in> set (listed ls). digest_of u \<noteq> digest_of tk"
  shows "\<exists>w1. oauth_mint_token gm 65 (Some n) w = (Some tk, w1) \<and>
    (\<forall>u. fst (oauth_token_valid w1 u) \<longleftrightarrow> token_len_ok u \<and> (\<exists>v \<in> insert tk (set (listed ls)). digest_of v = digest_of u)) \<and>
    fst (oauth_revoke_token tk w1) \<and> file_text (snd (oauth_revoke_token tk w1)) = concat (kept_lines tk ls) \<and>
    (\<forall>u. fst (oauth_token_valid (snd (oauth_revoke_token tk w1)) u) \<longleftrightarrow>
      token_len_ok u \<and> (\<exists>v \<in> set (listed ls). digest_of v = digest_of u))"
  using assms by (rule mint_revoke)

theorem token_lifecycle_witness:
  "\<exists>tk w1. oauth_mint_token demo_gm 65 (Some ''via oauth login'') demo_oauth = (Some tk, w1) \<and> fst (oauth_revoke_token tk w1) \<and>
    \<not> fst (oauth_token_valid (snd (oauth_revoke_token tk w1)) tk)"
proof -
  have r: "tokens_ready demo_oauth" unfolding tokens_ready_def is_dir_def tokens_key upload_keys by (simp add: demo_oauth_def node_at_def)
  have t: "tree_ok demo_oauth" by (simp add: tree_ok_def demo_oauth_def is_dir_def node_at_def)
  have d: "\<not> is_dir demo_oauth (key (OAUTH_TOKENS_PATH @ ''.tmp''))"
    unfolding is_dir_def tokens_key by (simp add: demo_oauth_def node_at_def)
  have "sd_stat demo_oauth OAUTH_TOKENS_PATH = None" unfolding sd_stat_def tokens_key by (simp add: demo_oauth_def node_at_def)
  then have s: "store_of [] demo_oauth" by (simp add: store_of_def file_text_def listed_def demo_oauth_def)
  have "listed [] = []" by (simp add: listed_def)
  with token_lifecycle [OF r t d s _ _ _ refl, of "''via oauth login''" demo_gm] show ?thesis
    by (auto simp: MAX_TOKENS_def plain_char_def)
qed

end
