(* ===== verification/Oauth.thy ===== *)
theory Oauth
  imports Oauth_Tokens
begin

text \<open>
  \<open>source/features/oauth/oauth.c\<close>, second half, and \<open>oauth_mcp.c\<close>: the discovery documents, client registration, the login page,
  the authorization and token endpoints, and the two tools. The configuration, the serial number and the generated tool
  definitions are arguments; log lines are left out.
\<close>

section \<open>Requests\<close>

text \<open>The loop that reads a whole body into a buffer of \<open>cap\<close> bytes.\<close>

function small_body_loop :: "nat \<Rightarrow> string \<Rightarrow> HttpRequest \<Rightarrow> string \<times> HttpRequest" where
  "small_body_loop cap got r =
     (if \<not> length got < content_length r then (got, r)
      else case http_read_body (cap - 1 - length got) r of
        (None, r) \<Rightarrow> (got, r)
      | (Some d, r) \<Rightarrow> if d = [] then (got, r) else small_body_loop cap (got @ d) r)"
  by pat_completeness auto
termination
  by (relation "measure (\<lambda>(cap, got, r). length (body_stream r))") (auto dest!: http_read_body_stream(1) [OF sym])

declare small_body_loop.simps [simp del]

definition read_small_body :: "nat \<Rightarrow> HttpRequest \<Rightarrow> string option \<times> HttpRequest" where
  "read_small_body cap r =
     (if \<not> has_content_length r then (None, reply_error 411 ''Content-Length required'' r)
      else if content_length r \<ge> cap then (None, reply_error 413 ''request body too large'' r)
      else case request_alloc cap r of
        (None, r) \<Rightarrow> (None, reply_error 500 ''out of request memory'' r)
      | (Some p, r) \<Rightarrow>
          (let (got, r) = small_body_loop cap [] r in
           if length got \<noteq> content_length r then (None, reply_error 400 ''incomplete body'' r) else (Some (c_str got), r)))"

text \<open>A parameter read into a buffer that starts empty.\<close>

definition param :: "string \<Rightarrow> string \<Rightarrow> nat \<Rightarrow> string" where
  "param p k n = (case http_param_get p k n of Some v \<Rightarrow> c_str v | None \<Rightarrow> [])"

section \<open>Discovery and registration\<close>

definition OAUTH_CLIENT_ID :: string where "OAUTH_CLIENT_ID = ''sys-autopilot''"

definition base_url :: "Config \<Rightarrow> string option \<Rightarrow> HttpRequest \<Rightarrow> nat \<Rightarrow> string" where
  "base_url cfg sn r outsz =
     (if host r \<noteq> [] then fit outsz (''http://'' @ host r)
      else fit outsz (''http://'' @ config_hostname cfg sn 64 @ ''.local:'' @ dec_int (port cfg)))"

definition handle_protected_resource :: "Config \<Rightarrow> string option \<Rightarrow> 'w handler" where
  "handle_protected_resource cfg sn wr =
     (let (w, r) = wr; base = base_url cfg sn r 160 in
      (w, reply_json 200 (json_obj [member ''resource'' (quoted (base @ ''/mcp'')), member ''authorization_servers'' (''['' @ quoted base @ '']''),
         member ''bearer_methods_supported'' (''['' @ quoted ''header'' @ '']'')]) r))"

definition handle_as_metadata :: "Config \<Rightarrow> string option \<Rightarrow> 'w handler" where
  "handle_as_metadata cfg sn wr =
     (let (w, r) = wr; base = base_url cfg sn r 160 in
      (w, reply_json 200 (json_obj [member ''issuer'' (quoted base), member ''authorization_endpoint'' (quoted (base @ ''/oauth/authorize'')),
         member ''token_endpoint'' (quoted (base @ ''/oauth/token'')), member ''registration_endpoint'' (quoted (base @ ''/oauth/register'')),
         member ''response_types_supported'' (''['' @ quoted ''code'' @ '']''), member ''grant_types_supported'' (''['' @ quoted ''authorization_code'' @ '']''),
         member ''token_endpoint_auth_methods_supported'' (''['' @ quoted ''none'' @ '']''),
         member ''code_challenge_methods_supported'' (''['' @ quoted ''S256'' @ '']'')]) r))"

definition handle_register :: "'w handler" where
  "handle_register wr =
     (let (w, r) = wr in
      case read_small_body 8192 r of
        (None, r) \<Rightarrow> (w, r)
      | (Some body, r) \<Rightarrow>
          (let (p, r) = request_alloc sizeof_JsonDoc r;
               uris = (if p = None then ''[]'' else
                 (case json_parse body of
                    Inl e \<Rightarrow> ''[]''
                  | Inr doc \<Rightarrow>
                      if ntok doc > 0 \<and> ttype (tok doc ! 0) = JSMN_OBJECT \<and> json_obj_get doc 0 ''redirect_uris'' \<ge> 0
                      then (case json_raw doc (json_obj_get doc 0 ''redirect_uris'') 1024 of Some u \<Rightarrow> u | None \<Rightarrow> ''[]'')
                      else ''[]''))
           in (w, reply_json 201 (json_obj [member ''client_id'' (quoted OAUTH_CLIENT_ID), member ''redirect_uris'' uris,
                 member ''token_endpoint_auth_method'' (quoted ''none''), member ''grant_types'' (''['' @ quoted ''authorization_code'' @ '']''),
                 member ''response_types'' (''['' @ quoted ''code'' @ '']'')]) r)))"

section \<open>The login page\<close>

definition kPageHead :: string where
  "kPageHead =
     ''<!DOCTYPE html><html><head><meta charset='' @ [DQUOTE] @ ''utf-8'' @ [DQUOTE] @ ''>'' @
     ''<meta name='' @ [DQUOTE] @ ''viewport'' @ [DQUOTE] @ '' content='' @ [DQUOTE] @ ''width=device-width, initial-scale=1'' @ [DQUOTE] @ ''>'' @
     ''<title>sys-autopilot</title><style>'' @
     ''body{font-family:-apple-system,system-ui,sans-serif;background:#1a1b1e;'' @
     ''color:#e8e8e8;display:flex;justify-content:center;align-items:center;'' @
     ''min-height:100vh;margin:0}'' @
     ''form{background:#26272b;padding:2rem;border-radius:12px;width:20rem;'' @
     ''display:flex;flex-direction:column;gap:.75rem}'' @
     ''h1{font-size:1.2rem;margin:0}'' @
     ''p{margin:0;color:#9a9aa3;font-size:.9rem}'' @
     ''.err{color:#ff6b6b;font-size:.9rem;margin:0}'' @
     ''input{background:#1a1b1e;border:1px solid #3a3b40;border-radius:8px;'' @
     ''padding:.6rem .8rem;color:#e8e8e8;font-size:1rem}'' @
     ''button{background:#e60012;border:none;border-radius:8px;padding:.7rem;'' @
     ''color:#fff;font-size:1rem;font-weight:600;cursor:pointer}'' @
     ''</style></head><body>''"

definition kPageFoot :: string where
  "kPageFoot = ''</body></html>''"

text \<open>The bounded string builder: \<^term>\<open>None\<close> once something did not fit.\<close>

definition sb_puts :: "nat \<Rightarrow> string \<Rightarrow> string option \<Rightarrow> string option" where
  "sb_puts cap s sb = (case sb of None \<Rightarrow> None | Some b \<Rightarrow> if length b + length s + 1 > cap then None else Some (b @ s))"

definition sb_puts_html :: "nat \<Rightarrow> string \<Rightarrow> string option \<Rightarrow> string option" where
  "sb_puts_html cap s sb = Option.bind sb (\<lambda>b. html_escape_append cap b s)"

definition PAGE_SIZE :: nat where "PAGE_SIZE = 8192"

definition hidden_field :: "string \<Rightarrow> string \<Rightarrow> string option \<Rightarrow> string option" where
  "hidden_field name v sb =
     sb_puts PAGE_SIZE ([DQUOTE] @ ''>'') (sb_puts_html PAGE_SIZE v (sb_puts PAGE_SIZE ([DQUOTE] @ '' value='' @ [DQUOTE])
       (sb_puts PAGE_SIZE name (sb_puts PAGE_SIZE (''<input type='' @ quoted ''hidden'' @ '' name='' @ [DQUOTE]) sb))))"

definition form_open :: string where
  "form_open = ''<form method='' @ quoted ''POST'' @ '' action='' @ quoted ''/oauth/authorize'' @
     ''><h1>sys-autopilot</h1><p>An application is requesting access to your Switch.</p>''"

definition form_close :: string where
  "form_close = ''<input name='' @ quoted ''username'' @ '' placeholder='' @ quoted ''Username'' @ '' autofocus><input type='' @ quoted ''password'' @
     '' name='' @ quoted ''password'' @ '' placeholder='' @ quoted ''Password'' @ ''><button>Sign in</button></form>''"

definition error_line :: "string option \<Rightarrow> string option \<Rightarrow> string option" where
  "error_line emsg sb = (case emsg of None \<Rightarrow> sb | Some e \<Rightarrow>
     sb_puts PAGE_SIZE ''</p>'' (sb_puts_html PAGE_SIZE e (sb_puts PAGE_SIZE (''<p class='' @ quoted ''err'' @ ''>'') sb)))"

definition login_page :: "string option \<Rightarrow> string \<Rightarrow> string \<Rightarrow> string \<Rightarrow> string option" where
  "login_page emsg redirect_uri ost challenge =
     (let sb = sb_puts PAGE_SIZE form_open (sb_puts PAGE_SIZE kPageHead (Some []));
          sb = error_line emsg sb;
          sb = hidden_field ''code_challenge'' challenge (hidden_field ''state'' ost (hidden_field ''redirect_uri'' redirect_uri sb))
      in sb_puts PAGE_SIZE kPageFoot (sb_puts PAGE_SIZE form_close sb))"

definition send_login_page :: "string option \<Rightarrow> string \<Rightarrow> string \<Rightarrow> string \<Rightarrow> HttpRequest \<Rightarrow> HttpRequest" where
  "send_login_page emsg redirect_uri ost challenge r =
     (case request_alloc PAGE_SIZE r of
        (None, r) \<Rightarrow> reply_error 500 ''out of request memory'' r
      | (Some p, r) \<Rightarrow>
          (case login_page emsg redirect_uri ost challenge of
             None \<Rightarrow> reply_error 400 ''request parameters too long'' r
           | Some page \<Rightarrow> r\<lparr>fd := http_send_response 200 ''text/html'' page (fd r)\<rparr>))"

section \<open>Authorization\<close>

definition creds_configured :: "Config \<Rightarrow> bool" where
  "creds_configured cfg \<longleftrightarrow> config_basic_enabled cfg"

definition redirect_uri_ok :: "string \<Rightarrow> bool" where
  "redirect_uri_ok uri \<longleftrightarrow> uri \<noteq> [] \<and>
     list_all (\<lambda>c. \<not> (ord c \<le> (0x20 :: nat) \<or> c = DQUOTE \<or> c = CHR ''<'' \<or> c = CHR ''>'')) uri \<and> strstr ''://'' uri \<noteq> None"

definition no_credentials_page :: string where
  "no_credentials_page = ''<form><h1>sys-autopilot</h1><p class='' @ [DQUOTE] @ ''err'' @ [DQUOTE] @ ''>No credentials configured. Set username and password in config/sys-autopilot/config.ini on the SD card and reboot, then try again.</p></form>''"

definition handle_authorize_get :: "Config \<Rightarrow> 'w handler" where
  "handle_authorize_get cfg wr =
     (let (w, r) = wr in
      if \<not> creds_configured cfg then
        (w, r\<lparr>fd := write_pieces [kPageHead, no_credentials_page, kPageFoot]
           (http_send_header 403 ''text/html'' (length kPageHead + length no_credentials_page + length kPageFoot) (fd r))\<rparr>)
      else
        (let redirect_uri = param (query r) ''redirect_uri'' 512; ost = param (query r) ''state'' 256;
             challenge = param (query r) ''code_challenge'' 96; method = param (query r) ''code_challenge_method'' 16
         in if \<not> redirect_uri_ok redirect_uri then (w, reply_error 400 ''missing or invalid redirect_uri'' r)
            else if challenge = [] \<or> method \<noteq> [] \<and> method \<noteq> ''S256'' then (w, reply_error 400 ''PKCE S256 code_challenge required'' r)
            else (w, send_login_page None redirect_uri ost challenge r)))"

definition redirect_location :: "string \<Rightarrow> string \<Rightarrow> string \<Rightarrow> string option" where
  "redirect_location redirect_uri code ost =
     (let sb = sb_puts 1024 redirect_uri (Some []);
          sb = sb_puts 1024 (if strchr (CHR ''?'') redirect_uri \<noteq> None then ''&code='' else ''?code='') sb;
          sb = sb_puts 1024 code sb
      in if ost \<noteq> [] then Option.bind (sb_puts 1024 ''&state='' sb) (\<lambda>b. url_encode_append 1024 b ost) else sb)"

definition handle_authorize_post :: "Config \<Rightarrow> 'a oauth_world_scheme handler" where
  "handle_authorize_post cfg wr =
     (let (w, r) = wr in
      if \<not> creds_configured cfg then (w, reply_error 403 ''no credentials configured'' r)
      else case read_small_body 4096 r of
        (None, r) \<Rightarrow> (w, r)
      | (Some body, r) \<Rightarrow>
          (let redirect_uri = param body ''redirect_uri'' 512; ost = param body ''state'' 256;
               challenge = param body ''code_challenge'' 96; user = param body ''username'' 64; pass = param body ''password'' 64
           in if \<not> redirect_uri_ok redirect_uri \<or> challenge = [] then (w, reply_error 400 ''missing or invalid OAuth parameters'' r)
              else if \<not> http_secure_streq user (username cfg) \<or> \<not> http_secure_streq pass (password cfg)
              then (w, send_login_page (Some ''Incorrect username or password.'') redirect_uri ost challenge r)
              else
                (let (e, w) = code_create challenge redirect_uri w in
                 case redirect_location redirect_uri (acode e) ost of
                   None \<Rightarrow> (w, reply_error 400 ''redirect_uri too long'' r)
                 | Some location \<Rightarrow> (w, r\<lparr>fd := http_send_redirect location (fd r)\<rparr>))))"

section \<open>Tokens\<close>

definition send_oauth_error :: "nat \<Rightarrow> string \<Rightarrow> string \<Rightarrow> HttpRequest \<Rightarrow> HttpRequest" where
  "send_oauth_error status code desc r = reply_json status (json_obj [member ''error'' (quoted code), member ''error_description'' (quoted desc)]) r"

definition handle_token :: "(int \<Rightarrow> tm) \<Rightarrow> 'a oauth_world_scheme handler" where
  "handle_token gm wr =
     (let (w, r) = wr in
      case read_small_body 4096 r of
        (None, r) \<Rightarrow> (w, r)
      | (Some body, r) \<Rightarrow>
          (let grant_type = param body ''grant_type'' 40; code = param body ''code'' 64;
               verifier = param body ''code_verifier'' 160; redirect_uri = param body ''redirect_uri'' 512
           in if grant_type \<noteq> ''authorization_code''
              then (w, send_oauth_error 400 ''unsupported_grant_type'' ''only authorization_code is supported'' r)
              else if code = [] \<or> verifier = [] then (w, send_oauth_error 400 ''invalid_request'' ''code and code_verifier are required'' r)
              else case code_take code w of
                (None, w) \<Rightarrow> (w, send_oauth_error 400 ''invalid_grant'' ''unknown, expired, or already-used code'' r)
              | (Some e, w) \<Rightarrow>
                  if redirect_uri \<noteq> [] \<and> \<not> digest_eq (digest_of redirect_uri) (redirect_hash e)
                  then (w, send_oauth_error 400 ''invalid_grant'' ''redirect_uri mismatch'' r)
                  else if \<not> http_secure_streq (b64url_encode (digest_of verifier)) (achallenge e)
                  then (w, send_oauth_error 400 ''invalid_grant'' ''PKCE verification failed'' r)
                  else case oauth_mint_token gm (TOKEN_HEX_LEN + 1) (Some ''via oauth login'') w of
                    (None, w) \<Rightarrow> (w, send_oauth_error 500 ''server_error'' ''failed to persist token'' r)
                  | (Some tk, w) \<Rightarrow> (w, reply_json 200 (json_obj [member ''access_token'' (quoted tk), member ''token_type'' (quoted ''Bearer'')]) r)))"

definition oauth_http_register ::
    "Config \<Rightarrow> string option \<Rightarrow> (int \<Rightarrow> tm) \<Rightarrow> 'a oauth_world_scheme Server \<times> string list \<Rightarrow> 'a oauth_world_scheme Server \<times> string list" where
  "oauth_http_register cfg sn gm st =
     (let (s, txt') = st;
          s = snd (http_server_register_prefix ''GET'' ''/.well-known/oauth-protected-resource'' (handle_protected_resource cfg sn) s);
          s = snd (http_server_register_prefix ''GET'' ''/.well-known/oauth-authorization-server'' (handle_as_metadata cfg sn) s);
          s = snd (http_server_register_prefix ''GET'' ''/.well-known/openid-configuration'' (handle_as_metadata cfg sn) s);
          s = snd (http_server_register_route ''POST'' ''/oauth/register'' handle_register s);
          s = snd (http_server_register_route ''GET'' ''/oauth/authorize'' (handle_authorize_get cfg) s);
          s = snd (http_server_register_route ''POST'' ''/oauth/authorize'' (handle_authorize_post cfg) s);
          s = snd (http_server_register_route ''POST'' ''/oauth/token'' (handle_token gm) s);
          s = snd (http_server_add_public_prefix ''/.well-known/'' s);
          s = snd (http_server_add_public_prefix ''/oauth/'' s);
          s = http_server_set_token_validator oauth_token_valid (Some ''/.well-known/oauth-protected-resource'') s
      in (s, if creds_configured cfg then snd (mdns_add_txt ''auth=oauth'' txt') else txt'))"

section \<open>Tools\<close>

definition create_token_text :: "string \<Rightarrow> string \<Rightarrow> string" where
  "create_token_text tk hst =
     ''token: '' @ tk @ [LF, LF] @ ''Use it as a Bearer credential with the raw HTTP API, e.g. to upload a file:'' @ [LF] @
     ''  curl -H '' @ [SQUOTE] @ ''Authorization: Bearer '' @ tk @ [SQUOTE] @ '' -T myapp.nro '' @ [SQUOTE] @ ''http://'' @ hst @
     ''/files?path=/switch/myapp.nro'' @ [SQUOTE] @ [LF, LF] @
     ''The token does not expire; revoke it by deleting its line from config/sys-autopilot/tokens.txt on the SD card.''"

definition tool_create_token :: "(int \<Rightarrow> tm) \<Rightarrow> (nat \<Rightarrow> char) \<Rightarrow> 'a oauth_world_scheme tool_handler" where
  "tool_create_token gm stale call wr =
     (let (w, r) = wr in
      case oauth_mint_token gm 65 (Some ''via create_token tool'') w of
        (None, w) \<Rightarrow> (w, mcp_reply_error stale call ''failed to persist token'' r)
      | (Some tk, w) \<Rightarrow>
          (let hst = (if host r \<noteq> [] then host r else ''<switch-ip>:<port>'')
           in (w, mcp_reply_text stale call (fit 640 (create_token_text tk hst)) r)))"

definition tool_revoke_token :: "(nat \<Rightarrow> char) \<Rightarrow> 'a oauth_world_scheme tool_handler" where
  "tool_revoke_token stale call wr =
     (let (w, r) = wr in
      case mcp_arg_string call ''token'' 160 of
        None \<Rightarrow> (w, mcp_reply_error stale call (''missing '' @ [SQUOTE] @ ''token'' @ [SQUOTE]) r)
      | Some tk \<Rightarrow>
          (case oauth_revoke_token tk w of
             (False, w) \<Rightarrow> (w, mcp_reply_error stale call ''unknown token (note: the static config.ini token cannot be revoked this way)'' r)
           | (True, w) \<Rightarrow> (w, mcp_reply_text stale call ''token revoked'' r)))"

definition oauth_mcp_register ::
    "(string \<Rightarrow> string list) \<Rightarrow> (int \<Rightarrow> tm) \<Rightarrow> (nat \<Rightarrow> char) \<Rightarrow> 'a oauth_world_scheme Tool list \<Rightarrow> 'a oauth_world_scheme Tool list" where
  "oauth_mcp_register defs gm stale tools =
     mcp_server_register_tool (defs ''kToolRevokeToken'') (tool_revoke_token stale)
       (mcp_server_register_tool (defs ''kToolCreateToken'') (tool_create_token gm stale) tools)"

section \<open>A token needs the code and its verifier\<close>

definition codes_ok :: "AuthCode list \<Rightarrow> bool" where
  "codes_ok es \<longleftrightarrow> length es = MAX_AUTH_CODES \<and>
     (\<forall>e \<in> set es. cstr (acode e) \<and> cstr (achallenge e) \<and> length (redirect_hash e) = 32)"

lemma cstr_b64url_loop: "cstr s \<Longrightarrow> cstr (b64url_loop s)"
  by (induction s rule: b64url_loop.induct) (auto simp: cstr_def)

lemma b64_sym_cstr: "b64_sym v \<noteq> NUL"
proof
  assume "b64_sym v = NUL"
  then have "b64_val NUL = uint (v AND 0x3F)" using b64_val_sym [of v] by simp
  moreover have "b64_val NUL = -1" by (simp add: b64_val_def between_def)
  ultimately show False using uint_ge_0 [of "v AND 0x3F"] by linarith
qed

lemma cstr_b64_encode: "cstr (b64_encode bs)"
  by (induction bs rule: b64_encode.induct) (use b64_sym_cstr in \<open>auto simp: cstr_def Let_def eq_commute [of NUL]\<close>)

lemma cstr_b64url: "cstr (b64url_encode bs)"
  by (simp add: b64url_encode_def cstr_b64url_loop cstr_b64_encode)

lemma cstr_param [simp]: "cstr (param p k n)"
  by (simp add: param_def cstr_def split: option.split) (metis cstr_c_str cstr_def)

lemma pick_slot_bound: "slot < n \<Longrightarrow> \<forall>i \<in> set is. i < n \<Longrightarrow> pick_slot codes now is slot < n"
  by (induction codes now "is" slot rule: pick_slot.induct) auto

lemma cstr_hex: "cstr (hex_encode bs)"
  using hex_encode_chars [of NUL bs] by (auto simp: cstr_def)

lemma codes_ok_create:
  assumes "codes_ok (g_codes w)" and "cstr challenge" and "code_create challenge uri w = (e, w')"
  shows "codes_ok (g_codes w')"
  using assms by (auto simp: code_create_def fill_random_def Let_def codes_ok_def cstr_hex cstr_fit dest!: set_update_subset_insert [THEN subsetD])

lemma codes_ok_init: "codes_ok (replicate MAX_AUTH_CODES free_slot)"
  by (simp add: codes_ok_def free_slot_def cstr_def)

lemma code_take_cases:
  assumes "code_take c w = (x, w')"
  shows "case x of None \<Rightarrow> w' = w \<and> (\<forall>e \<in> set (g_codes w). \<not> code_live (now_secs w) c e)
    | Some e \<Rightarrow> \<exists>i < length (g_codes w). code_live (now_secs w) c (g_codes w ! i) \<and>
        (\<forall>j < i. \<not> code_live (now_secs w) c (g_codes w ! j)) \<and> e = (g_codes w ! i)\<lparr>expires_at := 0\<rparr> \<and>
        w' = w\<lparr>g_codes := (g_codes w)[i := e]\<rparr>"
proof -
  obtain es where t: "take_loop (now_secs w) c (g_codes w) = (x, es)" and w': "w' = w\<lparr>g_codes := es\<rparr>"
    using assms by (auto simp: code_take_def split: prod.splits)
  show ?thesis
  proof (cases x)
    case None
    then show ?thesis using take_loop_spec [OF t] w' by simp
  next
    case (Some e)
    then show ?thesis using take_loop_spec [OF t] w' by auto
  qed
qed


text \<open>
  C2: what the token endpoint does to the server. Without a body it can read, or unless the grant is an authorization code
  and a code and a verifier are given and the code is one that was issued, is not spent and has not expired: nothing. Else
  that code is spent, whatever follows, and a token is minted exactly when the verifier hashes to the challenge the code was
  issued for and a redirect URI, when one is given (a request without one is taken), hashes to the one of the authorization
  request.
\<close>

theorem token_needs_code_and_verifier:
  assumes "codes_ok (g_codes w)" and "handle_token gm (w, r) = (w', r')"
  shows "case fst (read_small_body 4096 r) of
      None \<Rightarrow> w' = w
    | Some body \<Rightarrow>
       (let code = param body ''code'' 64; verifier = param body ''code_verifier'' 160; uri = param body ''redirect_uri'' 512;
            live = (\<lambda>e. acode e = code \<and> expires_at e \<noteq> 0 \<and> now_secs w \<le> expires_at e)
        in if param body ''grant_type'' 40 = ''authorization_code'' \<and> code \<noteq> [] \<and> verifier \<noteq> [] \<and> list_ex live (g_codes w)
           then \<exists>i < MAX_AUTH_CODES. live (g_codes w ! i) \<and> (\<forall>j < i. \<not> live (g_codes w ! j)) \<and>
             (let e = g_codes w ! i; w1 = w\<lparr>g_codes := (g_codes w)[i := e\<lparr>expires_at := 0\<rparr>]\<rparr> in
              w' = (if (uri = [] \<or> digest_of uri = redirect_hash e) \<and> b64url_encode (digest_of verifier) = achallenge e
                    then snd (oauth_mint_token gm 65 (Some ''via oauth login'') w1) else w1))
           else w' = w)"
proof (cases "read_small_body 4096 r")
  case (Pair bo r1)
  show ?thesis
  proof (cases bo)
    case None
    then show ?thesis using assms(2) Pair by (simp add: handle_token_def)
  next
    case (Some body)
    let ?code = "param body ''code'' 64" and ?v = "param body ''code_verifier'' 160" and ?uri = "param body ''redirect_uri'' 512"
    let ?asked = "param body ''grant_type'' 40 = ''authorization_code'' \<and> ?code \<noteq> [] \<and> ?v \<noteq> []"
    let ?live = "\<lambda>e. acode e = ?code \<and> expires_at e \<noteq> 0 \<and> now_secs w \<le> expires_at e"
    have live: "code_live (now_secs w) ?code e = ?live e" if "e \<in> set (g_codes w)" for e
      using that assms(1) by (auto simp: code_live_def codes_ok_def http_secure_streq_iff)
    have len: "length (g_codes w) = MAX_AUTH_CODES" using assms(1) by (simp add: codes_ok_def)
    note h = assms(2) [unfolded handle_token_def Let_def prod.case Pair Some option.case]
    have goal: ?thesis if "if ?asked \<and> list_ex ?live (g_codes w)
      then \<exists>i < MAX_AUTH_CODES. ?live (g_codes w ! i) \<and> (\<forall>j < i. \<not> ?live (g_codes w ! j)) \<and>
        (let e = g_codes w ! i; w1 = w\<lparr>g_codes := (g_codes w)[i := e\<lparr>expires_at := 0\<rparr>]\<rparr> in
         w' = (if (?uri = [] \<or> digest_of ?uri = redirect_hash e) \<and> b64url_encode (digest_of ?v) = achallenge e
               then snd (oauth_mint_token gm 65 (Some ''via oauth login'') w1) else w1))
      else w' = w"
      using that unfolding Pair Some fst_conv option.case Let_def by (simp only: conj_assoc)
    show ?thesis
    proof (cases ?asked)
      case False
      then have "w' = w" using h by (auto split: if_splits)
      then show ?thesis by (intro goal) (simp only: False simp_thms if_False)
    next
      case True
      obtain x w1 where t: "code_take ?code w = (x, w1)" by fastforce
      note h2 = h [unfolded t prod.case]
      show ?thesis
      proof (cases x)
        case None
        then have "w' = w" "\<not> list_ex ?live (g_codes w)" using h2 True code_take_cases [OF t] live by (auto simp: list_ex_iff)
        then show ?thesis by (intro goal) simp
      next
        case (Some d)
        with code_take_cases [OF t] obtain i where i: "i < length (g_codes w)" "code_live (now_secs w) ?code (g_codes w ! i)"
          "\<forall>j < i. \<not> code_live (now_secs w) ?code (g_codes w ! j)"
          "d = (g_codes w ! i)\<lparr>expires_at := 0\<rparr>" "w1 = w\<lparr>g_codes := (g_codes w)[i := d]\<rparr>" by auto
        let ?e = "g_codes w ! i"
        from i(1) assms(1) have ok: "cstr (achallenge ?e)" "length (redirect_hash ?e) = 32" by (simp_all add: codes_ok_def)
        have dg: "digest_eq (digest_of ?uri) (redirect_hash ?e) \<longleftrightarrow> digest_of ?uri = redirect_hash ?e" using ok by (simp add: digest_eq_iff)
        have ch: "http_secure_streq (b64url_encode (digest_of ?v)) (achallenge ?e) \<longleftrightarrow> b64url_encode (digest_of ?v) = achallenge ?e"
          using ok by (simp add: http_secure_streq_iff cstr_b64url)
        have li: "?live ?e" "\<forall>j < i. \<not> ?live (g_codes w ! j)" using i(1-3) live by auto
        have "w' = (if (?uri = [] \<or> digest_of ?uri = redirect_hash ?e) \<and> b64url_encode (digest_of ?v) = achallenge ?e
           then snd (oauth_mint_token gm 65 (Some ''via oauth login'') w1) else w1)"
          using h2 True Some i(4) dg ch unfolding TOKEN_HEX_LEN_def by (auto split: if_splits prod.splits option.splits)
        moreover have "list_ex ?live (g_codes w)" using li(1) i(1) nth_mem by (auto simp: list_ex_iff)
        ultimately show ?thesis using i(1,4,5) li len True by (intro goal) (auto simp: Let_def intro!: exI [of _ i])
      qed
    qed
  qed
qed

text \<open>A code issued for a challenge and the URI \<open>u\<close>, and a request that presents it with a verifier.\<close>

definition demo_code :: "string \<Rightarrow> AuthCode" where
  "demo_code challenge = \<lparr>acode = ''c'', achallenge = challenge, redirect_hash = digest_of ''u'', expires_at = 600\<rparr>"

definition token_body :: "string \<Rightarrow> string" where
  "token_body v = ''grant_type=authorization_code&code=c&redirect_uri=u&code_verifier='' @ v"

definition demo_token_post :: "string \<Rightarrow> HttpRequest" where
  "demo_token_post v = (empty_request \<lparr>rx = [], tx = [], polls = [], sent = [], g_keep_alive = False\<rparr>)
     \<lparr>has_content_length := True, content_length := length (token_body v), body_leftover := token_body v\<rparr>"


lemma token_bodies:
  "param (token_body v) ''grant_type'' 40 = ''authorization_code''" "param (token_body v) ''code'' 64 = ''c''"
  "param (token_body v) ''redirect_uri'' 512 = ''u''" "param (token_body ''v'') ''code_verifier'' 160 = ''v''"
  "param (token_body ''x'') ''code_verifier'' 160 = ''x''"
  by (simp_all add: token_body_def param_def http_param_get.simps strneq_def url_decode_def url_decode_loop.simps c_str_def)

lemma token_posted:
  assumes "length v = 1" and "cstr v"
  shows "fst (read_small_body 4096 (demo_token_post v)) = Some (token_body v)"
proof -
  have c: "cstr (token_body v)" using assms(2) by (simp add: token_body_def cstr_def)
  have l: "length (token_body v) = 67" by (simp add: token_body_def assms(1))
  then have ne: "token_body v \<noteq> []" by auto
  show ?thesis
    using l c ne by (simp add: read_small_body_def demo_token_post_def request_alloc_def small_body_loop.simps http_read_body_def
        empty_request_def align16_def REQUEST_MEMORY_SIZE_def c_str_id Let_def)
qed


lemma challenge_nonempty: "xs \<noteq> [] \<Longrightarrow> b64url_encode xs \<noteq> []"
  by (cases xs rule: b64_encode.cases) (auto simp: b64url_encode_def Let_def b64_sym_plain)

definition demo_issued :: "string \<Rightarrow> unit oauth_world_scheme" where
  "demo_issued challenge = demo_oauth\<lparr>g_codes := demo_code challenge # replicate 7 free_slot\<rparr>"

definition demo_spent :: "string \<Rightarrow> unit oauth_world_scheme" where
  "demo_spent challenge = demo_oauth\<lparr>g_codes := (demo_code challenge)\<lparr>expires_at := 0\<rparr> # replicate 7 free_slot\<rparr>"

text \<open>With the verifier it was issued for a token is minted, with another none is; the code is spent either way.\<close>

theorem token_needs_code_and_verifier_witness:
  "fst (handle_token demo_gm (demo_issued (b64url_encode (digest_of ''v'')), demo_token_post ''v'')) =
     snd (oauth_mint_token demo_gm 65 (Some ''via oauth login'') (demo_spent (b64url_encode (digest_of ''v'')))) \<and>
   fst (handle_token demo_gm (demo_issued [], demo_token_post ''v'')) = demo_spent []"
proof -
  have ex: "fst (handle_token demo_gm (demo_issued ch, demo_token_post ''v'')) =
      (if b64url_encode (digest_of ''v'') = ch then snd (oauth_mint_token demo_gm 65 (Some ''via oauth login'') (demo_spent ch)) else demo_spent ch)"
    if ch: "cstr ch" for ch
  proof -
    have c: "codes_ok (g_codes (demo_issued ch))"
      using ch by (auto simp: codes_ok_def demo_issued_def demo_code_def free_slot_def cstr_def MAX_AUTH_CODES_def)
    have b: "fst (read_small_body 4096 (demo_token_post ''v'')) = Some (token_body ''v'')" by (rule token_posted) (simp_all add: cstr_def)
    have n: "now_secs (demo_issued ch) = 5" by (simp add: now_secs_def demo_issued_def demo_oauth_def)
    have g: "g_codes (demo_issued ch) = demo_code ch # replicate 7 free_slot" by (simp add: demo_issued_def)
    have f: "acode (replicate 7 free_slot ! k) = []" if "k < 7" for k using that by (simp add: free_slot_def)
    have z: "i = 0" if "i < MAX_AUTH_CODES" "acode ((demo_code ch # replicate 7 free_slot) ! i) = ''c''" for i
      using that f [of "i - 1"] by (cases i) (auto simp: MAX_AUTH_CODES_def)
    obtain w' r' where h: "handle_token demo_gm (demo_issued ch, demo_token_post ''v'') = (w', r')" by fastforce
    show ?thesis
      using token_needs_code_and_verifier [OF c h] unfolding b option.case token_bodies n g Let_def h fst_conv
      by (auto simp: demo_code_def dest!: z) (simp_all add: demo_code_def demo_spent_def demo_issued_def)
  qed
  have "digest_of ''v'' \<noteq> []" by (metis length_digest_of list.size(3) zero_neq_numeral)
  with ex [OF cstr_b64url, of "digest_of ''v''"] ex [of "[]"] show ?thesis by (simp add: challenge_nonempty cstr_def)
qed

section \<open>A code needs the credentials\<close>

text \<open>
  C6: the authorization endpoint leaves the server as it was, or credentials are configured and the posted user name and
  password are those, the redirect URI is acceptable and a challenge is given; then one code is created for that challenge
  and URI and the pending codes stay well formed.
\<close>

theorem code_needs_the_credentials:
  assumes "cstr (username cfg)" and "cstr (password cfg)" and "handle_authorize_post cfg (w, r) = (w', r')"
  shows "w' = w \<or> (\<exists>body r1. read_small_body 4096 r = (Some body, r1) \<and> config_basic_enabled cfg \<and>
    param body ''username'' 64 = username cfg \<and> param body ''password'' 64 = password cfg \<and>
    redirect_uri_ok (param body ''redirect_uri'' 512) \<and> param body ''code_challenge'' 96 \<noteq> [] \<and>
    w' = snd (code_create (param body ''code_challenge'' 96) (param body ''redirect_uri'' 512) w) \<and>
    (codes_ok (g_codes w) \<longrightarrow> codes_ok (g_codes w')))"
proof (cases "read_small_body 4096 r")
  case (Pair bo r1)
  show ?thesis
  proof (cases "config_basic_enabled cfg \<and> bo \<noteq> None")
    case False
    then show ?thesis using assms(3) Pair by (auto simp: handle_authorize_post_def creds_configured_def split: if_splits)
  next
    case True
    then obtain body where b: "bo = Some body" and cr: "creds_configured cfg" by (auto simp: creds_configured_def)
    let ?u = "param body ''username'' 64" and ?p = "param body ''password'' 64" and ?uri = "param body ''redirect_uri'' 512"
      and ?c = "param body ''code_challenge'' 96"
    have eq: "http_secure_streq ?u (username cfg) \<longleftrightarrow> ?u = username cfg" "http_secure_streq ?p (password cfg) \<longleftrightarrow> ?p = password cfg"
      using assms by (simp_all add: http_secure_streq_iff)
    note h = assms(3) [unfolded handle_authorize_post_def Let_def prod.case Pair b option.case eq]
    show ?thesis
    proof (cases "redirect_uri_ok ?uri \<and> ?c \<noteq> [] \<and> ?u = username cfg \<and> ?p = password cfg")
      case False
      then show ?thesis using h cr by (auto split: if_splits)
    next
      case ok: True
      obtain e w1 where c: "code_create ?c ?uri w = (e, w1)" by fastforce
      have "w' = w1" using h cr ok c by (simp split: option.splits)
      then show ?thesis using Pair b True ok c codes_ok_create [OF _ _ c] by (intro disjI2 exI [of _ body] exI [of _ r1]) simp
    qed
  qed
qed

section \<open>What goes into the Location header\<close>

lemma sb_puts_Some: "sb_puts cap s x = Some b \<longleftrightarrow> (\<exists>a. x = Some a \<and> b = a @ s \<and> length b < cap)"
  by (auto simp: sb_puts_def split: option.split)

lemma hex_digit_facts: "\<forall>i < 16. (let c = ''0123456789ABCDEF'' ! i in is_xdigit c \<and> xdigit_val c = i \<and> 32 < (ord c :: nat))"
  by (simp add: All_less_Suc numeral_eq_Suc is_xdigit_def xdigit_val_def is_digit_def between_def)

lemma url_rep_decoded:
  assumes "length b + 1 < n"
  shows "url_decode_loop n (url_rep c @ cs) b = url_decode_loop n cs (b @ [c])"
proof (cases "url_safe c")
  case True
  then have "c \<noteq> CHR ''%''" "c \<noteq> CHR ''+''" by (auto simp: url_safe_def is_upper_def is_lower_def is_digit_def between_def)
  with assms True show ?thesis by (simp add: url_rep_def)
next
  case False
  have o: "ord c < (256 :: nat)" by simp
  have d: "ord c div 16 < (16 :: nat)" "ord c mod 16 < (16 :: nat)" by (use o in linarith) simp
  have "chr (16 * (ord c div 16) + ord c mod 16) = c" by simp
  with assms False d hex_digit_facts show ?thesis by (simp add: url_rep_def unhex2_def Let_def)
qed

lemma url_round_trip: "length b + length s < n \<Longrightarrow> url_decode_loop n (concat (map url_rep s)) b = b @ s"
  by (induction s arbitrary: b) (simp_all add: url_rep_decoded)

lemma url_rep_visible: "c \<in> set (url_rep x) \<Longrightarrow> 32 < (ord c :: nat)"
proof -
  have o: "ord x < (256 :: nat)" by simp
  have d: "ord x div 16 < (16 :: nat)" "ord x mod 16 < (16 :: nat)" by (use o in linarith) simp
  assume "c \<in> set (url_rep x)"
  with d hex_digit_facts show ?thesis
    by (auto simp: url_rep_def url_safe_def is_upper_def is_lower_def is_digit_def between_def Let_def split: if_splits)
qed


theorem code_needs_the_credentials_witness:
  "fst (handle_authorize_post (default_config\<lparr>username := ''u''\<rparr>) (demo_oauth, demo_put)) = demo_oauth"
proof -
  let ?cfg = "default_config\<lparr>username := ''u''\<rparr>"
  have c: "cstr (username ?cfg)" "cstr (password ?cfg)" "\<not> config_basic_enabled ?cfg"
    by (simp_all add: cstr_def default_config_def config_basic_enabled_def)
  from code_needs_the_credentials [OF c(1,2), of demo_oauth demo_put "fst (handle_authorize_post ?cfg (demo_oauth, demo_put))"
      "snd (handle_authorize_post ?cfg (demo_oauth, demo_put))"] c(3)
  show ?thesis by simp
qed

lemma hex_visible: "c \<in> set (hex_encode bs) \<Longrightarrow> 32 < (ord c :: nat)"
proof -
  have "list_all (\<lambda>c. 32 < (ord c :: nat)) ''0123456789abcdef''" by code_simp
  then show "c \<in> set (hex_encode bs) \<Longrightarrow> 32 < (ord c :: nat)" using hex_encode_chars unfolding list_all_iff by blast
qed

text \<open>
  C30: the Location a code is sent back with is the redirect URI, the code and the client's state: it holds no space and no
  control character, so it cannot add a header to the reply, and the state it carries decodes to the one that was posted.
\<close>

theorem redirect_carries_the_state:
  assumes "redirect_uri_ok uri" and "redirect_location uri (hex_encode bs) ost = Some loc" and "cstr ost"
  shows "(\<forall>c \<in> set loc. 32 < (ord c :: nat)) \<and> length loc < 1024 \<and>
    (\<exists>q e. loc = uri @ q @ ''code='' @ hex_encode bs @ e \<and> (q = ''?'' \<or> q = ''&'') \<and>
      (ost = [] \<and> e = [] \<or> (\<exists>v. e = ''&state='' @ v \<and> url_decode v (length ost + 1) = ost)))"
proof -
  let ?h = "hex_encode bs" and ?q = "if strchr (CHR ''?'') uri \<noteq> None then ''&'' else ''?''"
  have u: "\<forall>c \<in> set uri. 32 < (ord c :: nat)" using assms(1) unfolding redirect_uri_ok_def list_all_iff by (blast intro: not_le_imp_less)
  have h: "32 < (ord c :: nat)" if "c \<in> set ?h" for c using hex_visible that by blast
  have "\<exists>e. loc = uri @ ?q @ ''code='' @ ?h @ e \<and> length loc < 1024 \<and>
      (ost = [] \<and> e = [] \<or> (\<exists>v. e = ''&state='' @ v \<and> v = concat (map url_rep ost)))"
  proof (cases "ost = []")
    case True
    with assms(2) show ?thesis by (auto simp: redirect_location_def Let_def sb_puts_Some split: if_splits)
  next
    case False
    with assms(2) obtain b where b: "b = uri @ ?q @ ''code='' @ ?h @ ''&state=''" "length b < 1024" "url_encode_append 1024 b ost = Some loc"
      by (auto simp: redirect_location_def Let_def sb_puts_Some bind_eq_Some_conv split: if_splits)
    from url.run_result [OF b(3)] url.run_bounded [OF b(3,2)] b(1) show ?thesis using False by simp
  qed
  then obtain e where e: "loc = uri @ ?q @ ''code='' @ ?h @ e" "length loc < 1024"
    "ost = [] \<and> e = [] \<or> (\<exists>v. e = ''&state='' @ v \<and> v = concat (map url_rep ost))" by blast
  have dec: "url_decode (concat (map url_rep ost)) (length ost + 1) = ost"
    using url_round_trip [of "[]" ost "length ost + 1"] assms(3) by (simp add: url_decode_def c_str_id)
  have "\<forall>c \<in> set e. 32 < (ord c :: nat)" using e(3) url_rep_visible by auto
  then have "\<forall>c \<in> set loc. 32 < (ord c :: nat)" using u h unfolding e(1) by (simp add: ball_Un)
  moreover have "\<exists>q e. loc = uri @ q @ ''code='' @ ?h @ e \<and> (q = ''?'' \<or> q = ''&'') \<and>
      (ost = [] \<and> e = [] \<or> (\<exists>v. e = ''&state='' @ v \<and> url_decode v (length ost + 1) = ost))"
    using e dec by (intro exI [of _ ?q] exI [of _ e]) auto
  ultimately show ?thesis using e(2) by blast
qed

theorem redirect_carries_the_state_witness:
  "\<exists>loc. redirect_location ''http://a'' (hex_encode []) ''a b'' = Some loc \<and> (\<forall>c \<in> set loc. 32 < (ord c :: nat))"
proof -
  have u: "redirect_uri_ok ''http://a''" by (simp add: redirect_uri_ok_def strstr.simps starts_with_def)
  obtain loc where l: "redirect_location ''http://a'' (hex_encode []) ''a b'' = Some loc"
    by (simp add: redirect_location_def sb_puts_def url_rep_def url_safe_def is_upper_def is_lower_def is_digit_def between_def)
  have "cstr ''a b''" by (simp add: cstr_def)
  from redirect_carries_the_state [OF u l this] l show ?thesis by blast
qed

section \<open>The page shows what it is given as text\<close>

definition html_text :: "string \<Rightarrow> string" where
  "html_text s = concat (map html_rep s)"

lemma html_text_inert: "c \<in> set (html_text s) \<Longrightarrow> c \<noteq> CHR ''<'' \<and> c \<noteq> CHR ''>'' \<and> c \<noteq> DQUOTE \<and> c \<noteq> SQUOTE"
  by (auto simp: html_text_def html_rep_def split: if_splits)

lemma sb_puts_html_Some: "sb_puts_html cap s x = Some b \<longleftrightarrow>
    (\<exists>a. x = Some a \<and> html_escape_append cap a s = Some b)"
  by (auto simp: sb_puts_html_def bind_eq_Some_conv)

definition hidden_html :: "string \<Rightarrow> string \<Rightarrow> string" where
  "hidden_html n v = ''<input type='' @ quoted ''hidden'' @ '' name='' @ quoted n @ '' value='' @ quoted (html_text v) @ ''>''"

lemma hidden_field_Some:
  assumes "hidden_field n v x = Some b"
  shows "\<exists>a. x = Some a \<and> b = a @ hidden_html n v"
  using assms html.run_result
  by (fastforce simp: hidden_field_def sb_puts_Some sb_puts_html_Some hidden_html_def html_text_def quoted_def)

definition error_html :: "string option \<Rightarrow> string" where
  "error_html emsg = (case emsg of None \<Rightarrow> [] | Some e \<Rightarrow> ''<p class='' @ quoted ''err'' @ ''>'' @ html_text e @ ''</p>'')"

lemma error_line_Some:
  assumes "error_line emsg x = Some b"
  shows "\<exists>a. x = Some a \<and> b = a @ error_html emsg"
  using assms html.run_result
  by (fastforce simp: error_line_def error_html_def sb_puts_Some sb_puts_html_Some html_text_def split: option.splits)

text \<open>
  The login page is its fixed text with the message, the redirect URI, the state and the challenge in escaped form;
  no escaped form holds a quote or an angle bracket, so what a client sends can neither close an attribute nor open a tag.
\<close>

theorem login_page_inert:
  assumes "login_page emsg uri ost ch = Some p"
  shows "p = kPageHead @ form_open @ error_html emsg @ hidden_html ''redirect_uri'' uri @ hidden_html ''state'' ost @
      hidden_html ''code_challenge'' ch @ form_close @ kPageFoot \<and> length p < PAGE_SIZE \<and>
    (\<forall>s. \<forall>c \<in> set (html_text s). c \<notin> {CHR ''<'', CHR ''>'', DQUOTE, SQUOTE})"
proof -
  obtain b where b: "hidden_field ''code_challenge'' ch (hidden_field ''state'' ost (hidden_field ''redirect_uri'' uri
      (error_line emsg (sb_puts PAGE_SIZE form_open (sb_puts PAGE_SIZE kPageHead (Some [])))))) = Some b"
    "p = b @ form_close @ kPageFoot" "length p < PAGE_SIZE"
    using assms by (auto simp: login_page_def Let_def sb_puts_Some)
  from hidden_field_Some [OF b(1)] obtain b1 where b1: "hidden_field ''state'' ost (hidden_field ''redirect_uri'' uri
      (error_line emsg (sb_puts PAGE_SIZE form_open (sb_puts PAGE_SIZE kPageHead (Some []))))) = Some b1" "b = b1 @ hidden_html ''code_challenge'' ch" by blast
  from hidden_field_Some [OF b1(1)] obtain b2 where b2: "hidden_field ''redirect_uri'' uri
      (error_line emsg (sb_puts PAGE_SIZE form_open (sb_puts PAGE_SIZE kPageHead (Some [])))) = Some b2" "b1 = b2 @ hidden_html ''state'' ost" by blast
  from hidden_field_Some [OF b2(1)] obtain b3 where b3: "error_line emsg (sb_puts PAGE_SIZE form_open (sb_puts PAGE_SIZE kPageHead (Some []))) = Some b3"
    "b2 = b3 @ hidden_html ''redirect_uri'' uri" by blast
  from error_line_Some [OF b3(1)] have "b3 = kPageHead @ form_open @ error_html emsg" by (auto simp: sb_puts_Some)
  then have "p = kPageHead @ form_open @ error_html emsg @ hidden_html ''redirect_uri'' uri @ hidden_html ''state'' ost @
      hidden_html ''code_challenge'' ch @ form_close @ kPageFoot" using b(2) b1(2) b2(2) b3(2) by (simp only: append.assoc)
  then show ?thesis using b(3) html_text_inert by blast
qed

theorem login_page_inert_witness:
  "\<exists>p. login_page None ''u://'' ''<'' ''x'' = Some p \<and> length p < PAGE_SIZE"
proof -
  have l: "length kPageHead = 811" "length form_open = 126" "length form_close = 149" "length kPageFoot = 14"
    by (simp_all add: kPageHead_def form_open_def form_close_def kPageFoot_def quoted_def)
  have "login_page None ''u://'' ''<'' ''x'' \<noteq> None"
    by (simp add: login_page_def hidden_field_def error_line_def sb_puts_html_def sb_puts_def PAGE_SIZE_def l html_rep_def quoted_def)
  then obtain p where "login_page None ''u://'' ''<'' ''x'' = Some p" by blast
  with login_page_inert [OF this] show ?thesis by blast
qed

end
