(* ===== verification/Install.thy ===== *)
theory Install
  imports Files_Http "HOL-Library.Multiset"
begin

text \<open>
  \<open>source/features/install/install.c\<close> and \<open>install_http.c\<close>: the container formats, the streaming installer and its REST route.
  The content services of the console (ncm, ns, es, fs) are not under src/: a call to one is an event appended to the
  history of the world, and what it returns is a function of that history, so nothing is assumed about them. Their
  struct layouts and constants are the fields of \<open>nx\<close>. Bytes read from the stream are counted by unbounded numbers,
  sums with numbers taken from the stream wrap at 64 bits. Log lines are left out.
\<close>

section \<open>Partition headers\<close>

definition PFS0_MAGIC :: u32 where "PFS0_MAGIC = 0x30534650"
definition HFS0_MAGIC :: u32 where "HFS0_MAGIC = 0x30534648"
definition XCI_HEAD_MAGIC :: u32 where "XCI_HEAD_MAGIC = 0x48454144"

record FsFormat =
  fs_magic :: u32
  entry_size :: nat
  allow_empty :: bool
  e_short :: string
  e_magic :: string
  e_large :: string
  e_many :: string
  e_incomplete :: string

definition kPfs0 :: FsFormat where
  "kPfs0 = \<lparr>fs_magic = PFS0_MAGIC, entry_size = 0x18, allow_empty = False, e_short = ''short PFS0 header'', e_magic = ''bad PFS0 magic'',
     e_large = ''PFS0 too large'', e_many = ''too many files in PFS0'', e_incomplete = ''incomplete PFS0 header''\<rparr>"

definition kHfs0 :: FsFormat where
  "kHfs0 = \<lparr>fs_magic = HFS0_MAGIC, entry_size = 0x40, allow_empty = True, e_short = ''short HFS0 header'', e_magic = ''bad HFS0 magic'',
     e_large = ''HFS0 too large'', e_many = ''too many files in HFS0'', e_incomplete = ''incomplete HFS0 header''\<rparr>"

record FsEntry =
  fs_name :: string
  fs_offset :: nat
  fs_size :: nat

definition rd_u32 :: "u8 list \<Rightarrow> u32" where
  "rd_u32 p = ucast (p ! 0) OR push_bit 8 (ucast (p ! 1)) OR push_bit 16 (ucast (p ! 2)) OR push_bit 24 (ucast (p ! 3))"

definition rd_u64 :: "u8 list \<Rightarrow> u64" where
  "rd_u64 p = ucast (rd_u32 p) OR push_bit 32 (ucast (rd_u32 (drop 4 p)))"

definition rd_be32 :: "u8 list \<Rightarrow> u32" where
  "rd_be32 p = push_bit 24 (ucast (p ! 0)) OR push_bit 16 (ucast (p ! 1)) OR push_bit 8 (ucast (p ! 2)) OR ucast (p ! 3)"

definition fs_header_size :: "FsFormat \<Rightarrow> u8 list \<Rightarrow> nat" where
  "fs_header_size f b =
     (if rd_u32 b \<noteq> fs_magic f then 0
      else let count = unat (rd_u32 (drop 4 b)); strtab = unat (rd_u32 (drop 8 b))
      in if count > 4096 \<or> strtab > 0x10000 then 0 else 0x10 + count * entry_size f + strtab)"

text \<open>One file entry: \<open>e\<close> starts at the entry, \<open>names\<close> is the string table.\<close>

definition fs_parse_entry :: "u8 list \<Rightarrow> u8 list \<Rightarrow> string + FsEntry" where
  "fs_parse_entry e names =
     (let noff = unat (rd_u32 (drop 16 e)) in
      if noff \<ge> length names then Inl ''bad name offset''
      else let nm = takeWhile (\<lambda>b. b \<noteq> 0) (drop noff names); maxlen = length names - noff in
        if length nm \<ge> maxlen then Inl ''unterminated filename''
        else if length nm \<ge> 256 then Inl ''filename too long''
        else Inr \<lparr>fs_name = map unbyte nm, fs_offset = unat (rd_u64 e), fs_size = unat (rd_u64 (drop 8 e))\<rparr>)"

fun fs_parse_entries :: "FsFormat \<Rightarrow> u8 list \<Rightarrow> u8 list \<Rightarrow> nat \<Rightarrow> string + FsEntry list" where
  "fs_parse_entries f tab names 0 = Inr []"
| "fs_parse_entries f tab names (Suc n) =
     (case fs_parse_entry tab names of
        Inl e \<Rightarrow> Inl e
      | Inr x \<Rightarrow> (case fs_parse_entries f (drop (entry_size f) tab) names n of Inl e \<Rightarrow> Inl e | Inr xs \<Rightarrow> Inr (x # xs)))"

definition fs_parse_header :: "FsFormat \<Rightarrow> u8 list \<Rightarrow> nat \<Rightarrow> string + FsEntry list \<times> nat" where
  "fs_parse_header f buf max_entries =
     (if length buf < 0x10 then Inl (e_short f)
      else if rd_u32 buf \<noteq> fs_magic f then Inl (e_magic f)
      else let count = unat (rd_u32 (drop 4 buf)); strtab_size = unat (rd_u32 (drop 8 buf)) in
        if count = 0 \<and> \<not> allow_empty f then Inl ''empty PFS0''
        else if count > 4096 \<or> strtab_size > 0x10000 then Inl (e_large f)
        else if count > max_entries then Inl (e_many f)
        else let strtab_off = 0x10 + count * entry_size f; data_start = strtab_off + strtab_size in
          if length buf < data_start then Inl (e_incomplete f)
          else case fs_parse_entries f (drop 0x10 buf) (take strtab_size (drop strtab_off buf)) count of
            Inl e \<Rightarrow> Inl e
          | Inr es \<Rightarrow> Inr (es, data_start))"

definition pfs0_header_size :: "u8 list \<Rightarrow> nat" where "pfs0_header_size = fs_header_size kPfs0"
definition pfs0_parse_header :: "u8 list \<Rightarrow> nat \<Rightarrow> string + FsEntry list \<times> nat" where "pfs0_parse_header = fs_parse_header kPfs0"
definition hfs0_header_size :: "u8 list \<Rightarrow> nat" where "hfs0_header_size = fs_header_size kHfs0"
definition hfs0_parse_header :: "u8 list \<Rightarrow> nat \<Rightarrow> string + FsEntry list \<times> nat" where "hfs0_parse_header = fs_parse_header kHfs0"

datatype ContainerKind = CONTAINER_UNKNOWN | CONTAINER_NSP | CONTAINER_XCI

definition container_detect :: "u8 list \<Rightarrow> ContainerKind \<times> nat" where
  "container_detect buf =
     (if length buf \<ge> 4 \<and> rd_u32 buf = PFS0_MAGIC then (CONTAINER_NSP, 0)
      else if length buf \<ge> 0x104 \<and> rd_be32 (drop 0x100 buf) = XCI_HEAD_MAGIC then (CONTAINER_XCI, 0xF000)
      else if length buf \<ge> 0x1104 \<and> rd_be32 (drop 0x1100 buf) = XCI_HEAD_MAGIC then (CONTAINER_XCI, 0x10000)
      else (CONTAINER_UNKNOWN, 0))"

section \<open>The services\<close>

type_synonym cid = "u8 list"

record PackagedContentMetaHeader =
  pkg_id :: u64
  pkg_version :: u32
  pkg_type :: u8
  extended_header_size :: nat
  content_count :: nat
  content_meta_count :: nat
  attributes :: u8

record MetaKey =
  key_id :: u64
  key_version :: u32
  key_type :: u8

datatype StorageId = SdCard | BuiltInUser

datatype service = Ncm | Ns | NsApp | Es | Storage StorageId | MetaDb StorageId | CnmtFs | CnmtDir | CnmtFile string

datatype svc =
    OpenService service | CloseService service
  | GeneratePlaceHolder | DeletePlaceHolder | CreatePlaceHolder cid nat | WritePlaceHolder nat "u8 list"
  | Register cid | DeleteContent cid
  | GetPath cid | FileRead int
  | ImportTicket "u8 list" "u8 list"
  | DbSet MetaKey "u8 list" | DbCommit
  | ListRecords u64 | DeleteRecord u64 | PushRecord u64 "(MetaKey \<times> StorageId) list"

record svc_world =
  calls :: "svc list"
  rc_of :: "svc list \<Rightarrow> u32"
  dir_of :: "svc list \<Rightarrow> string list"
  size_of :: "svc list \<Rightarrow> int"
  data_of :: "svc list \<Rightarrow> u8 list"
  records_of :: "svc list \<Rightarrow> (MetaKey \<times> StorageId) list"
  count_of :: "svc list \<Rightarrow> int"
  g_ncm_ok :: bool
  g_ns_ok :: bool
  g_es_ok :: bool

definition svc_do :: "svc \<Rightarrow> 'a svc_world_scheme \<Rightarrow> u32 \<times> 'a svc_world_scheme" where
  "svc_do c w = (let w = w\<lparr>calls := calls w @ [c]\<rparr> in (rc_of w (calls w), w))"

definition svc_run :: "svc \<Rightarrow> 'a svc_world_scheme \<Rightarrow> 'a svc_world_scheme" where
  "svc_run c w = snd (svc_do c w)"

text \<open>What the sources take from libnx: error codes, struct sizes and encodings, content types.\<close>

record nx =
  IoError :: u32
  BadInput :: u32
  pci_size :: nat
  pci_info :: "u8 list \<Rightarrow> u8 list"
  pci_is_delta :: "u8 list \<Rightarrow> bool"
  enc_meta_header :: "nat \<Rightarrow> nat \<Rightarrow> nat \<Rightarrow> u8 \<Rightarrow> u8 list"
  enc_meta_info :: "cid \<Rightarrow> nat \<Rightarrow> u8 list"
  MetaType_Patch :: u8
  MetaType_AddOnContent :: u8

definition INSTALL_CHUNK :: nat where "INSTALL_CHUNK = 0x20000"
definition MAX_FILES :: nat where "MAX_FILES = 64"

text \<open>\<open>nsext_init\<close> and \<open>nsext_exit\<close> of nx_ext.c are inlined in the two functions that call them.\<close>

definition nsext_init :: "'a svc_world_scheme \<Rightarrow> u32 \<times> 'a svc_world_scheme" where
  "nsext_init w =
     (let (rc, w) = svc_do (OpenService Ns) w in
      if rc \<noteq> 0 then (rc, w)
      else let (rc, w) = svc_do (OpenService NsApp) w in if rc \<noteq> 0 then (rc, svc_run (CloseService Ns) w) else (0, w))"

definition install_init :: "'a svc_world_scheme \<Rightarrow> bool \<times> 'a svc_world_scheme" where
  "install_init w =
     (let (rc, w) = svc_do (OpenService Ncm) w; w = w\<lparr>g_ncm_ok := (rc = 0)\<rparr>;
          (rc, w) = nsext_init w; w = w\<lparr>g_ns_ok := (rc = 0)\<rparr>;
          (rc, w) = svc_do (OpenService Es) w; w = w\<lparr>g_es_ok := (rc = 0)\<rparr>
      in (g_ncm_ok w \<and> g_ns_ok w, w))"

definition install_exit :: "'a svc_world_scheme \<Rightarrow> 'a svc_world_scheme" where
  "install_exit w =
     (let w = (if g_es_ok w then (svc_run (CloseService Es) w)\<lparr>g_es_ok := False\<rparr> else w);
          w = (if g_ns_ok w then (svc_run (CloseService Ns) (svc_run (CloseService NsApp) w))\<lparr>g_ns_ok := False\<rparr> else w)
      in (if g_ncm_ok w then (svc_run (CloseService Ncm) w)\<lparr>g_ncm_ok := False\<rparr> else w))"

section \<open>Content ids\<close>

text \<open>\<open>strtol(b, &end, 16)\<close> on two characters, accepted when it takes both: blanks and signs are taken too.\<close>

definition hex_pair :: "char \<Rightarrow> char \<Rightarrow> u8 option" where
  "hex_pair a b =
     (if \<not> is_xdigit b then None
      else if is_xdigit a then Some (word_of_nat (16 * xdigit_val a + xdigit_val b))
      else if is_space a \<or> a = CHR ''+'' then Some (word_of_nat (xdigit_val b))
      else if a = CHR ''-'' then Some (- word_of_nat (xdigit_val b))
      else None)"

fun hex_pairs :: "string \<Rightarrow> u8 list option" where
  "hex_pairs (a # b # s) = (case hex_pair a b of None \<Rightarrow> None | Some v \<Rightarrow> map_option (Cons v) (hex_pairs s))"
| "hex_pairs _ = Some []"

definition content_id_from_name :: "string \<Rightarrow> cid option" where
  "content_id_from_name name =
     (let h = take 32 (takeWhile (\<lambda>c. c \<noteq> CHR ''.'') name) in if length h \<noteq> 32 then None else hex_pairs h)"

section \<open>Reading the stream\<close>

type_synonym 'r reader = "nat \<Rightarrow> 'r \<Rightarrow> u8 list option \<times> 'r"

function read_loop :: "'r reader \<Rightarrow> nat \<Rightarrow> u8 list \<Rightarrow> nat \<Rightarrow> 'r \<Rightarrow> u8 list option \<times> nat \<times> 'r" where
  "read_loop rd len got consumed r =
     (if \<not> length got < len then (Some got, consumed, r)
      else case rd (len - length got) r of
        (None, r) \<Rightarrow> (None, consumed, r)
      | (Some d, r) \<Rightarrow> if d = [] then (None, consumed, r) else read_loop rd len (got @ d) (consumed + length d) r)"
  by pat_completeness auto
termination by (relation "measure (\<lambda>(rd, len, got, consumed, r). len - length got)") (auto intro!: diff_less_mono2)

definition read_exact :: "'r reader \<Rightarrow> nat \<Rightarrow> u8 list \<Rightarrow> nat \<Rightarrow> 'r \<Rightarrow> u8 list option \<times> u8 list \<times> nat \<times> 'r" where
  "read_exact rd len pre consumed r =
     (let n = min (length pre) len; (got, consumed, r) = read_loop rd len (take n pre) (consumed + n) r
      in (got, drop n pre, consumed, r))"

function skip_peeked :: "nat \<Rightarrow> u8 list \<Rightarrow> nat \<Rightarrow> u8 list \<times> nat" where
  "skip_peeked target pre consumed =
     (if pre \<noteq> [] \<and> consumed < target
      then let n = min (length pre) (target - consumed) in skip_peeked target (drop n pre) (consumed + n)
      else (pre, consumed))"
  by pat_completeness auto
termination by (relation "measure (\<lambda>(target, pre, consumed). length pre)") auto

function skip_stream :: "'r reader \<Rightarrow> nat \<Rightarrow> nat \<Rightarrow> 'r \<Rightarrow> bool \<times> nat \<times> 'r" where
  "skip_stream rd target consumed r =
     (if \<not> consumed < target then (True, consumed, r)
      else case rd (min INSTALL_CHUNK (target - consumed)) r of
        (None, r) \<Rightarrow> (False, consumed, r)
      | (Some d, r) \<Rightarrow> if d = [] then (False, consumed, r) else skip_stream rd target (consumed + length d) r)"
  by pat_completeness auto
termination by (relation "measure (\<lambda>(rd, target, consumed, r). target - consumed)") (auto intro!: diff_less_mono2)

declare read_loop.simps [simp del] skip_peeked.simps [simp del] skip_stream.simps [simp del]

definition skip_to :: "'r reader \<Rightarrow> nat \<Rightarrow> u8 list \<Rightarrow> nat \<Rightarrow> 'r \<Rightarrow> bool \<times> u8 list \<times> nat \<times> 'r" where
  "skip_to rd target pre consumed r =
     (let (pre, consumed) = skip_peeked target pre consumed; (found, consumed, r) = skip_stream rd target consumed r
      in (found, pre, consumed, r))"

section \<open>Writing a content\<close>

function write_loop :: "'r reader \<Rightarrow> u32 \<Rightarrow> nat \<Rightarrow> nat \<Rightarrow> Sha256Ctx \<Rightarrow> 'a svc_world_scheme \<Rightarrow> 'r \<Rightarrow> u32 \<times> Sha256Ctx \<times> 'a svc_world_scheme \<times> 'r" where
  "write_loop rd io_error sz written sha w r =
     (if \<not> written < sz then (0, sha, w, r)
      else case rd (min INSTALL_CHUNK (sz - written)) r of
        (None, r) \<Rightarrow> (io_error, sha, w, r)
      | (Some d, r) \<Rightarrow>
          if d = [] then (io_error, sha, w, r)
          else let (rc, w) = svc_do (WritePlaceHolder written d) w in
            if rc \<noteq> 0 then (rc, sha, w, r) else write_loop rd io_error sz (written + length d) (ctx_update sha d) w r)"
  by pat_completeness auto
termination by (relation "measure (\<lambda>(rd, io_error, sz, written, sha, w, r). sz - written)") (auto intro!: diff_less_mono2)

declare write_loop.simps [simp del]

text \<open>The part between creating the placeholder and deleting it. The digest is kept whether or not it is used.\<close>

definition fill_placeholder :: "nx \<Rightarrow> 'r reader \<Rightarrow> cid \<Rightarrow> nat \<Rightarrow> u8 list \<Rightarrow> bool \<Rightarrow> 'a svc_world_scheme \<Rightarrow> 'r \<Rightarrow> u32 \<times> 'a svc_world_scheme \<times> 'r" where
  "fill_placeholder x rd cid sz prebuf verify w r =
     (let sha = ctx_init (replicate 64 0);
          (rc, w) = (if prebuf \<noteq> [] then svc_do (WritePlaceHolder 0 prebuf) w else (0, w))
      in if rc \<noteq> 0 then (rc, w, r)
         else let (rc, sha, w, r) = write_loop rd (IoError x) sz (length prebuf) (ctx_update sha prebuf) w r in
           if rc \<noteq> 0 then (rc, w, r)
           else if verify \<and> take 16 (ctx_final sha) \<noteq> cid then (BadInput x, w, r)
           else let w = svc_run (DeleteContent cid) w; (rc, w) = svc_do (Register cid) w in (rc, w, r))"

definition write_content :: "nx \<Rightarrow> 'r reader \<Rightarrow> cid \<Rightarrow> nat \<Rightarrow> u8 list \<Rightarrow> bool \<Rightarrow> 'a svc_world_scheme \<Rightarrow> 'r \<Rightarrow> u32 \<times> 'a svc_world_scheme \<times> 'r" where
  "write_content x rd cid sz prebuf verify w r =
     (let (rc, w) = svc_do GeneratePlaceHolder w in
      if rc \<noteq> 0 then (rc, w, r)
      else let w = svc_run DeletePlaceHolder w; (rc, w) = svc_do (CreatePlaceHolder cid sz) w in
        if rc \<noteq> 0 then (rc, w, r)
        else let (rc, w, r) = fill_placeholder x rd cid sz prebuf verify w r in (rc, svc_run DeletePlaceHolder w, r))"

section \<open>The content meta\<close>

definition sizeof_PackagedContentMetaHeader :: nat where "sizeof_PackagedContentMetaHeader = 32"

definition rd_u16 :: "u8 list \<Rightarrow> nat" where
  "rd_u16 p = unat (p ! 0) + 256 * unat (p ! 1)"

definition meta_header_at :: "u8 list \<Rightarrow> PackagedContentMetaHeader" where
  "meta_header_at b = \<lparr>pkg_id = rd_u64 b, pkg_version = rd_u32 (drop 8 b), pkg_type = b ! 12, extended_header_size = rd_u16 (drop 14 b),
     content_count = rd_u16 (drop 16 b), content_meta_count = rd_u16 (drop 18 b), attributes = b ! 20\<rparr>"

fun cnmt_infos :: "nx \<Rightarrow> nat \<Rightarrow> u8 list \<Rightarrow> nat \<Rightarrow> u8 list list \<Rightarrow> u8 list list" where
  "cnmt_infos x 0 b off infos = infos"
| "cnmt_infos x (Suc n) b off infos =
     (if \<not> length infos < MAX_FILES \<or> off + pci_size x > length b then infos
      else let pci = take (pci_size x) (drop off b) in
        cnmt_infos x n b (off + pci_size x) (if pci_is_delta x pci then infos else infos @ [pci_info x pci]))"

definition parse_cnmt :: "nx \<Rightarrow> u8 list \<Rightarrow> string + PackagedContentMetaHeader \<times> u8 list \<times> u8 list list" where
  "parse_cnmt x b =
     (if length b < sizeof_PackagedContentMetaHeader then Inl ''cnmt too small''
      else let h = meta_header_at b; n = extended_header_size h in
        if n > 0x80 \<or> sizeof_PackagedContentMetaHeader + n > length b then Inl ''bad extended header size''
        else Inr (h, take n (drop sizeof_PackagedContentMetaHeader b), cnmt_infos x (content_count h) b (sizeof_PackagedContentMetaHeader + n) []))"

definition find_cnmt :: "string list \<Rightarrow> string option" where
  "find_cnmt names = map_option (\<lambda>n. CHR ''/'' # n)
     (find (\<lambda>n. case after_last (CHR ''.'') n of None \<Rightarrow> False | Some e \<Rightarrow> strcaseeq e ''cnmt'') names)"

definition read_cnmt :: "nx \<Rightarrow> cid \<Rightarrow> 'a svc_world_scheme \<Rightarrow> (string + PackagedContentMetaHeader \<times> u8 list \<times> u8 list list) \<times> 'a svc_world_scheme" where
  "read_cnmt x meta_cid w =
     (let (rc, w) = svc_do (GetPath meta_cid) w in
      if rc \<noteq> 0 then (Inl ''get meta nca path failed'', w)
      else let (rc, w) = svc_do (OpenService CnmtFs) w in
        if rc \<noteq> 0 then (Inl ''mount cnmt nca failed'', w)
        else let (rc, w) = svc_do (OpenService CnmtDir) w;
                 (found, w) = (if rc = 0 then (find_cnmt (dir_of w (calls w)), svc_run (CloseService CnmtDir) w) else (None, w))
          in case found of
               None \<Rightarrow> (Inl ''no .cnmt in meta nca'', svc_run (CloseService CnmtFs) w)
             | Some found \<Rightarrow>
                 let (rc, w) = svc_do (OpenService (CnmtFile found)) w in
                 if rc \<noteq> 0 then (Inl ''open .cnmt failed'', svc_run (CloseService CnmtFs) w)
                 else let csize = size_of w (calls w) in
                   if csize \<le> 0 \<or> csize > 0x4000 then (Inl ''.cnmt size invalid'', svc_run (CloseService CnmtFs) (svc_run (CloseService (CnmtFile found)) w))
                   else let (rc, w) = svc_do (FileRead csize) w; d = data_of w (calls w); w = svc_run (CloseService (CnmtFile found)) w in
                     if rc \<noteq> 0 \<or> int (length d) \<noteq> csize then (Inl ''read .cnmt failed'', svc_run (CloseService CnmtFs) w)
                     else (parse_cnmt x d, svc_run (CloseService CnmtFs) w))"

section \<open>Installing the entries\<close>

record InstallResult =
  res_ok :: bool
  res_message :: string
  title_id :: u64
  res_version :: u32
  http_status :: nat

text \<open>What the entry loop carries along; a failure is a status and a message.\<close>

record progress =
  consumed :: nat
  cnmt_nca_size :: nat
  meta_cid :: cid
  tik_data :: "u8 list"
  cert_data :: "u8 list"
  written :: "cid list"

definition w64 :: "nat \<Rightarrow> nat" where "w64 n = n mod 2 ^ 64"

definition has_ext :: "string \<Rightarrow> string \<Rightarrow> bool" where
  "has_ext e name = (case after_last (CHR ''.'') name of None \<Rightarrow> False | Some x \<Rightarrow> strcaseeq x e)"

definition is_cnmt :: "string \<Rightarrow> bool" where
  "is_cnmt name \<longleftrightarrow> length name > 9 \<and> strcaseeq (drop (length name - 9) name) ''.cnmt.nca''"

type_synonym failure = "nat \<times> string"

definition rc_message :: "string \<Rightarrow> u32 \<Rightarrow> string" where
  "rc_message m rc = m @ '' (0x'' @ hex (unat rc) @ '')''"

definition store_meta :: "nx \<Rightarrow> 'r reader \<Rightarrow> FsEntry \<Rightarrow> progress \<Rightarrow> 'a svc_world_scheme \<Rightarrow> 'r \<Rightarrow> failure option \<times> progress \<times> 'a svc_world_scheme \<times> 'r" where
  "store_meta x rd e p w r =
     (if fs_size e > 0x4000 then (Some (400, ''cnmt nca too large''), p, w, r)
      else case read_exact rd (fs_size e) [] (consumed p) r of
        (None, _, c, r) \<Rightarrow> (Some (400, ''truncated cnmt''), p\<lparr>consumed := c\<rparr>, w, r)
      | (Some nca, _, c, r) \<Rightarrow>
          let p = p\<lparr>consumed := c, cnmt_nca_size := fs_size e\<rparr> in
          case content_id_from_name (fs_name e) of
            None \<Rightarrow> (Some (400, ''bad cnmt nca filename: '' @ fs_name e), p, w, r)
          | Some cid \<Rightarrow>
              let p = p\<lparr>meta_cid := cid\<rparr>; (rc, w, r) = write_content x rd cid (fs_size e) nca True w r in
              if rc \<noteq> 0 then (Some (500, rc_message ''write meta nca failed'' rc), p, w, r)
              else (None, p\<lparr>written := written p @ [cid]\<rparr>, w, r))"

definition store_ticket :: "'r reader \<Rightarrow> bool \<Rightarrow> FsEntry \<Rightarrow> progress \<Rightarrow> 'r \<Rightarrow> failure option \<times> progress \<times> 'r" where
  "store_ticket rd tik e p r =
     (let what = (if tik then ''ticket'' else ''cert'') in
      if fs_size e > (if tik then 0x600 else 0x800) then (Some (400, what @ '' too large''), p, r)
      else case read_exact rd (fs_size e) [] (consumed p) r of
        (None, _, c, r) \<Rightarrow> (Some (400, ''truncated '' @ what), p\<lparr>consumed := c\<rparr>, r)
      | (Some d, _, c, r) \<Rightarrow>
          let p = p\<lparr>consumed := c\<rparr> in (None, if tik then p\<lparr>tik_data := d\<rparr> else p\<lparr>cert_data := d\<rparr>, r))"

definition store_nca :: "nx \<Rightarrow> 'r reader \<Rightarrow> bool \<Rightarrow> FsEntry \<Rightarrow> progress \<Rightarrow> 'a svc_world_scheme \<Rightarrow> 'r \<Rightarrow> failure option \<times> progress \<times> 'a svc_world_scheme \<times> 'r" where
  "store_nca x rd verify e p w r =
     (case content_id_from_name (fs_name e) of
        None \<Rightarrow> (Some (400, ''bad NCA filename: '' @ fs_name e), p, w, r)
      | Some cid \<Rightarrow>
          let (rc, w, r) = write_content x rd cid (fs_size e) [] verify w r in
          if rc \<noteq> 0 then (Some (500, rc_message ''write nca failed'' rc), p, w, r)
          else (None, p\<lparr>consumed := w64 (consumed p + fs_size e), written := written p @ [cid]\<rparr>, w, r))"

definition install_entry :: "nx \<Rightarrow> 'r reader \<Rightarrow> bool \<Rightarrow> FsEntry \<Rightarrow> progress \<Rightarrow> 'a svc_world_scheme \<Rightarrow> 'r \<Rightarrow> failure option \<times> progress \<times> 'a svc_world_scheme \<times> 'r" where
  "install_entry x rd verify e p w r =
     (case skip_to rd (fs_offset e) [] (consumed p) r of
        (False, _, c, r) \<Rightarrow> (Some (400, ''unexpected end of stream''), p\<lparr>consumed := c\<rparr>, w, r)
      | (True, _, c, r) \<Rightarrow>
          let p = p\<lparr>consumed := c\<rparr>; name = fs_name e; tik = has_ext ''tik'' name in
          if is_cnmt name then store_meta x rd e p w r
          else if tik \<or> has_ext ''cert'' name then (let (f, p, r) = store_ticket rd tik e p r in (f, p, w, r))
          else if has_ext ''nca'' name then store_nca x rd verify e p w r
          else case skip_to rd (w64 (consumed p + fs_size e)) [] (consumed p) r of
            (False, _, c, r) \<Rightarrow> (Some (400, ''truncated entry''), p\<lparr>consumed := c\<rparr>, w, r)
          | (True, _, c, r) \<Rightarrow> (None, p\<lparr>consumed := c\<rparr>, w, r))"

fun entries_loop :: "nx \<Rightarrow> 'r reader \<Rightarrow> bool \<Rightarrow> FsEntry list \<Rightarrow> progress \<Rightarrow> 'a svc_world_scheme \<Rightarrow> 'r \<Rightarrow> failure option \<times> progress \<times> 'a svc_world_scheme \<times> 'r" where
  "entries_loop x rd verify [] p w r = (None, p, w, r)"
| "entries_loop x rd verify (e # es) p w r =
     (case install_entry x rd verify e p w r of
        (Some f, p, w, r) \<Rightarrow> (Some f, p, w, r)
      | (None, p, w, r) \<Rightarrow> entries_loop x rd verify es p w r)"

section \<open>Registering the title\<close>

definition base_id :: "nx \<Rightarrow> PackagedContentMetaHeader \<Rightarrow> u64" where
  "base_id x h =
     (if pkg_type h = MetaType_Patch x then pkg_id h XOR 0x800
      else if pkg_type h = MetaType_AddOnContent x then (pkg_id h XOR 0x1000) AND NOT 0xFFF
      else pkg_id h)"

definition meta_blob :: "nx \<Rightarrow> PackagedContentMetaHeader \<Rightarrow> u8 list \<Rightarrow> u8 list list \<Rightarrow> cid \<Rightarrow> nat \<Rightarrow> u8 list" where
  "meta_blob x h ext infos mc n =
     enc_meta_header x (extended_header_size h) (length infos + 1) (content_meta_count h) (attributes h) @ ext @ enc_meta_info x mc n @ concat infos"

definition set_content_meta :: "StorageId \<Rightarrow> MetaKey \<Rightarrow> u8 list \<Rightarrow> 'a svc_world_scheme \<Rightarrow> u32 \<times> 'a svc_world_scheme" where
  "set_content_meta sid k blob w =
     (let (rc, w) = svc_do (OpenService (MetaDb sid)) w in
      if rc \<noteq> 0 then (rc, w)
      else let (rc, w) = svc_do (DbSet k blob) w;
               (rc, w) = (if rc = 0 then svc_do DbCommit w else (rc, w))
           in (rc, svc_run (CloseService (MetaDb sid)) w))"

definition push_record :: "u64 \<Rightarrow> MetaKey \<Rightarrow> StorageId \<Rightarrow> 'a svc_world_scheme \<Rightarrow> u32 \<times> 'a svc_world_scheme" where
  "push_record app k sid w =
     (let w = svc_run (ListRecords app) w;
          n = count_of w (calls w);
          n = (if n < 0 \<or> n > 63 then 0 else n);
          recs = take (nat n) (records_of w (calls w)) @ [(k, sid)];
          w = svc_run (DeleteRecord app) w
      in svc_do (PushRecord app recs) w)"

definition register_title :: "nx \<Rightarrow> StorageId \<Rightarrow> progress \<Rightarrow> PackagedContentMetaHeader \<times> u8 list \<times> u8 list list \<Rightarrow> 'a svc_world_scheme \<Rightarrow> failure option \<times> 'a svc_world_scheme" where
  "register_title x sid p m w =
     (let (h, ext, infos) = m;
          w = (if g_es_ok w \<and> tik_data p \<noteq> [] then svc_run (ImportTicket (tik_data p) (cert_data p)) w else w);
          k = \<lparr>key_id = pkg_id h, key_version = pkg_version h, key_type = pkg_type h\<rparr>;
          (rc, w) = set_content_meta sid k (meta_blob x h ext infos (meta_cid p) (cnmt_nca_size p)) w
      in if rc \<noteq> 0 then (Some (500, rc_message ''content-meta set failed'' rc), w)
         else let (rc, w) = push_record (base_id x h) k sid w in
           (if rc \<noteq> 0 then Some (500, rc_message ''push application record failed'' rc) else None, w))"

definition rollback :: "StorageId \<Rightarrow> cid list \<Rightarrow> 'a svc_world_scheme \<Rightarrow> 'a svc_world_scheme" where
  "rollback sid cids w =
     (let (rc, w) = svc_do (OpenService (Storage sid)) w in
      if rc \<noteq> 0 then w else svc_run (CloseService (Storage sid)) (fold (\<lambda>c. svc_run (DeleteContent c)) cids w))"

definition empty_progress :: "nat \<Rightarrow> progress" where
  "empty_progress n = \<lparr>consumed = n, cnmt_nca_size = 0, meta_cid = replicate 16 0, tik_data = [], cert_data = [], written = []\<rparr>"

definition failed :: "failure \<Rightarrow> InstallResult" where
  "failed f = \<lparr>res_ok = False, res_message = fit 256 (snd f), title_id = 0, res_version = 0, http_status = fst f\<rparr>"

definition installed :: "PackagedContentMetaHeader \<Rightarrow> InstallResult" where
  "installed h = \<lparr>res_ok = True, res_message = fit 256 (''installed '' @ pad0 16 (hex (unat (pkg_id h))) @ '' v'' @ dec (unat (pkg_version h))),
     title_id = pkg_id h, res_version = pkg_version h, http_status = 0\<rparr>"

definition install_entries :: "nx \<Rightarrow> 'r reader \<Rightarrow> nat \<Rightarrow> FsEntry list \<Rightarrow> StorageId \<Rightarrow> bool \<Rightarrow> 'a svc_world_scheme \<Rightarrow> 'r \<Rightarrow> InstallResult \<times> 'a svc_world_scheme \<times> 'r" where
  "install_entries x rd c entries sid verify w r =
     (let (rc, w) = svc_do (OpenService (Storage sid)) w in
      if rc \<noteq> 0 then (failed (500, ''cannot open content storage''), w, r)
      else let (f, p, w, r) = entries_loop x rd verify entries (empty_progress c) w r;
               (m, w) = (case f of
                   Some f \<Rightarrow> (Inl f, w)
                 | None \<Rightarrow>
                     if cnmt_nca_size p = 0 then (Inl (400, ''no cnmt.nca in NSP''), w)
                     else case read_cnmt x (meta_cid p) w of (Inl e, w) \<Rightarrow> (Inl (400, ''cnmt: '' @ e), w) | (Inr m, w) \<Rightarrow> (Inr m, w));
               w = svc_run (CloseService (Storage sid)) w
           in case m of
                Inl f \<Rightarrow> (failed f, rollback sid (written p) w, r)
              | Inr m \<Rightarrow>
                  (case register_title x sid p m w of
                     (Some f, w) \<Rightarrow> (failed f, rollback sid (written p) w, r)
                   | (None, w) \<Rightarrow> (installed (fst m), w, r)))"

section \<open>The two containers\<close>

record FsTableMsgs =
  m_skip :: "string option"
  m_head :: string
  m_size :: string
  m_table :: string
  m_parse :: string

definition HDRBUF_SIZE :: nat where "HDRBUF_SIZE = 0x10 + 64 * 0x40 + 0x4000"

definition read_fs_table :: "'r reader \<Rightarrow> nat \<Rightarrow> FsFormat \<Rightarrow> FsTableMsgs \<Rightarrow> u8 list \<Rightarrow> nat \<Rightarrow> 'r \<Rightarrow>
    (failure + FsEntry list \<times> nat) \<times> u8 list \<times> nat \<times> 'r" where
  "read_fs_table rd at f m pre c r =
     (let (found, pre, c, r) = (if m_skip m = None then (True, pre, c, r) else skip_to rd at pre c r) in
      if \<not> found then (Inl (400, the (m_skip m)), pre, c, r)
      else case read_exact rd 0x10 pre c r of
        (None, pre, c, r) \<Rightarrow> (Inl (400, m_head m), pre, c, r)
      | (Some h, pre, c, r) \<Rightarrow>
          let hsize = fs_header_size f h in
          if hsize = 0 \<or> hsize > HDRBUF_SIZE then (Inl (400, m_size m), pre, c, r)
          else case read_exact rd (hsize - 0x10) pre c r of
            (None, pre, c, r) \<Rightarrow> (Inl (400, m_table m), pre, c, r)
          | (Some t, pre, c, r) \<Rightarrow>
              (case fs_parse_header f (h @ t) MAX_FILES of
                 Inl e \<Rightarrow> (Inl (400, m_parse m @ '': '' @ e), pre, c, r)
               | Inr es \<Rightarrow> (Inr es, pre, c, r)))"

definition shift_offset :: "nat \<Rightarrow> FsEntry \<Rightarrow> FsEntry" where
  "shift_offset n e = e\<lparr>fs_offset := w64 (fs_offset e + n)\<rparr>"

definition nsp_msgs :: FsTableMsgs where
  "nsp_msgs = \<lparr>m_skip = None, m_head = ''stream too short'', m_size = ''not a valid NSP (PFS0)'', m_table = ''truncated PFS0 header'', m_parse = ''PFS0 parse''\<rparr>"

definition install_nsp :: "nx \<Rightarrow> 'r reader \<Rightarrow> StorageId \<Rightarrow> u8 list \<Rightarrow> nat \<Rightarrow> 'a svc_world_scheme \<Rightarrow> 'r \<Rightarrow> InstallResult \<times> 'a svc_world_scheme \<times> 'r" where
  "install_nsp x rd sid pre c w r =
     (case read_fs_table rd 0 kPfs0 nsp_msgs pre c r of
        (Inl f, pre, c, r) \<Rightarrow> (failed f, w, r)
      | (Inr (es, data_start), pre, c, r) \<Rightarrow> install_entries x rd c (map (shift_offset data_start) es) sid True w r)"

definition root_msgs :: FsTableMsgs where
  "root_msgs = \<lparr>m_skip = Some ''stream ended before root HFS0'', m_head = ''truncated XCI root header'', m_size = ''not a valid XCI (root HFS0)'',
     m_table = ''truncated XCI root table'', m_parse = ''XCI root''\<rparr>"

definition secure_msgs :: FsTableMsgs where
  "secure_msgs = \<lparr>m_skip = Some ''stream ended before secure partition'', m_head = ''truncated secure header'', m_size = ''bad secure HFS0'',
     m_table = ''truncated secure table'', m_parse = ''secure HFS0''\<rparr>"

text \<open>The insertion sort, on the sorted part read from its end.\<close>

fun shift_in_place :: "FsEntry \<Rightarrow> FsEntry list \<Rightarrow> FsEntry list" where
  "shift_in_place k [] = [k]"
| "shift_in_place k (e # es) = (if fs_offset e > fs_offset k then e # shift_in_place k es else k # e # es)"

definition sort_entries :: "FsEntry list \<Rightarrow> FsEntry list" where
  "sort_entries es = rev (foldl (\<lambda>done_part k. shift_in_place k done_part) [] es)"

definition install_xci :: "nx \<Rightarrow> 'r reader \<Rightarrow> StorageId \<Rightarrow> nat \<Rightarrow> u8 list \<Rightarrow> nat \<Rightarrow> 'a svc_world_scheme \<Rightarrow> 'r \<Rightarrow> InstallResult \<times> 'a svc_world_scheme \<times> 'r" where
  "install_xci x rd sid root_off pre c w r =
     (case read_fs_table rd root_off kHfs0 root_msgs pre c r of
        (Inl f, pre, c, r) \<Rightarrow> (failed f, w, r)
      | (Inr (rparts, rdata), pre, c, r) \<Rightarrow>
          (case find (\<lambda>e. strcaseeq (fs_name e) ''secure'') rparts of
             None \<Rightarrow> (failed (400, ''XCI has no secure partition''), w, r)
           | Some e \<Rightarrow>
               let secure_abs = w64 (root_off + rdata + fs_offset e) in
               (case read_fs_table rd secure_abs kHfs0 secure_msgs pre c r of
                  (Inl f, pre, c, r) \<Rightarrow> (failed f, w, r)
                | (Inr (es, sdata), pre, c, r) \<Rightarrow>
                    install_entries x rd c (sort_entries (map (shift_offset (w64 (secure_abs + sdata))) es)) sid False w r)))"

definition PREFIX_SIZE :: nat where "PREFIX_SIZE = 0x1104"

text \<open>The peek: it reads until the buffer is full or the stream gives nothing.\<close>

function peek_loop :: "'r reader \<Rightarrow> u8 list \<Rightarrow> 'r \<Rightarrow> u8 list \<times> 'r" where
  "peek_loop rd got r =
     (if \<not> length got < PREFIX_SIZE then (got, r)
      else case rd (PREFIX_SIZE - length got) r of
        (None, r) \<Rightarrow> (got, r)
      | (Some d, r) \<Rightarrow> if d = [] then (got, r) else peek_loop rd (got @ d) r)"
  by pat_completeness auto
termination by (relation "measure (\<lambda>(rd, got, r). PREFIX_SIZE - length got)") (auto intro!: diff_less_mono2)

declare peek_loop.simps [simp del]

datatype InstallStorage = INSTALL_STORAGE_SD | INSTALL_STORAGE_NAND

definition install_stream :: "nx \<Rightarrow> 'r reader \<Rightarrow> InstallStorage \<Rightarrow> 'a svc_world_scheme \<Rightarrow> 'r \<Rightarrow> InstallResult \<times> 'a svc_world_scheme \<times> 'r" where
  "install_stream x rd st w r =
     (if \<not> g_ncm_ok w \<or> \<not> g_ns_ok w then (failed (500, ''install services unavailable''), w, r)
      else let sid = (if st = INSTALL_STORAGE_NAND then BuiltInUser else SdCard); (pre, r) = peek_loop rd [] r in
        case container_detect pre of
          (CONTAINER_NSP, _) \<Rightarrow> install_nsp x rd sid pre 0 w r
        | (CONTAINER_XCI, root) \<Rightarrow> install_xci x rd sid root pre 0 w r
        | (CONTAINER_UNKNOWN, _) \<Rightarrow> (failed (400, ''unrecognized container (need NSP/PFS0 or XCI)''), w, r))"

section \<open>The REST route\<close>

definition install_body_read :: "HttpRequest reader" where
  "install_body_read n r = (case http_read_body n r of (None, r) \<Rightarrow> (None, r) | (Some d, r) \<Rightarrow> (Some (map byte d), r))"

definition handle_install :: "nx \<Rightarrow> nat \<Rightarrow> 'a svc_world_scheme handler" where
  "handle_install x work_size wr =
     (let (w, r) = wr in
      if \<not> has_content_length r then (w, reply_error 411 ''Content-Length required (stream the NSP/XCI with curl -T)'' r)
      else let st = (case http_query_get r ''storage'' 8 of
                 Some v \<Rightarrow> if strcaseeq (c_str v) ''nand'' then INSTALL_STORAGE_NAND else INSTALL_STORAGE_SD
               | None \<Rightarrow> INSTALL_STORAGE_SD)
        in case request_alloc work_size r of
          (None, r) \<Rightarrow> (w, reply_error 500 ''out of request memory'' r)
        | (Some _, r) \<Rightarrow>
            let (res, w, r) = install_stream x install_body_read st w r; (esc, r) = request_json_escape (res_message res) r in
            (w, if res_ok res
                then reply_json 200 (json_obj [member ''ok'' ''true'', member ''titleId'' (quoted (pad0 16 (hex (unat (title_id res))))),
                   member ''version'' (dec (unat (res_version res))), member ''message'' (quoted esc)]) r
                else reply_json (http_status res) (json_obj [member ''ok'' ''false'', member ''error'' (quoted esc)]) r))"

definition install_http_register :: "nx \<Rightarrow> nat \<Rightarrow> 'a svc_world_scheme Server \<Rightarrow> 'a svc_world_scheme Server" where
  "install_http_register x work_size s =
     snd (http_server_register_route ''PUT'' ''/install'' (handle_install x work_size)
       (snd (http_server_register_route ''POST'' ''/install'' (handle_install x work_size) s)))"

section \<open>Headers written and read back\<close>

definition le32 :: "u32 \<Rightarrow> u8 list" where
  "le32 v = [ucast v, ucast (drop_bit 8 v), ucast (drop_bit 16 v), ucast (drop_bit 24 v)]"

definition le64 :: "u64 \<Rightarrow> u8 list" where
  "le64 v = le32 (ucast v) @ le32 (ucast (drop_bit 32 v))"

lemma rd_u32_le32: "rd_u32 (le32 v @ s) = v"
proof (rule bit_word_eqI)
  fix n :: nat
  assume "n < LENGTH(32)"
  then consider "n < 8" | "8 \<le> n" "n < 16" | "16 \<le> n" "n < 24" | "24 \<le> n" "n < 32" by fastforce
  then show "bit (rd_u32 (le32 v @ s)) n = bit v n" by cases (auto simp: rd_u32_def le32_def bit_simps)
qed

lemma rd_u64_le64: "rd_u64 (le64 v @ s) = v"
proof -
  have "drop 4 (le64 v @ s) = le32 (ucast (drop_bit 32 v)) @ s" by (simp add: le64_def le32_def)
  moreover have "rd_u32 (le64 v @ s) = ucast v" by (simp add: le64_def rd_u32_le32)
  ultimately have "rd_u64 (le64 v @ s) = ucast (ucast v :: u32) OR push_bit 32 (ucast (ucast (drop_bit 32 v) :: u32))"
    by (simp add: rd_u64_def rd_u32_le32)
  also have "\<dots> = v" by (rule bit_word_eqI) (auto simp: bit_simps)
  finally show ?thesis .
qed

lemma length_le [simp]: "length (le32 v) = 4" "length (le64 w) = 8"
  by (simp_all add: le32_def le64_def)

text \<open>The header of some entries: their names one after the other in the string table.\<close>

definition name_bytes :: "FsEntry \<Rightarrow> u8 list" where
  "name_bytes e = map byte (fs_name e) @ [0]"

definition entry_bytes :: "FsFormat \<Rightarrow> nat \<Rightarrow> FsEntry \<Rightarrow> u8 list" where
  "entry_bytes f noff e = le64 (word_of_nat (fs_offset e)) @ le64 (word_of_nat (fs_size e)) @ le32 (word_of_nat noff) @ replicate (entry_size f - 20) 0"

fun table_bytes :: "FsFormat \<Rightarrow> nat \<Rightarrow> FsEntry list \<Rightarrow> u8 list" where
  "table_bytes f noff [] = []"
| "table_bytes f noff (e # es) = entry_bytes f noff e @ table_bytes f (noff + length (name_bytes e)) es"

definition names_bytes :: "FsEntry list \<Rightarrow> u8 list" where
  "names_bytes es = concat (map name_bytes es)"

definition header_bytes :: "FsFormat \<Rightarrow> FsEntry list \<Rightarrow> u8 list" where
  "header_bytes f es = le32 (fs_magic f) @ le32 (word_of_nat (length es)) @ le32 (word_of_nat (length (names_bytes es))) @ replicate 4 0 @
     table_bytes f 0 es @ names_bytes es"

definition entry_ok :: "FsEntry \<Rightarrow> bool" where
  "entry_ok e \<longleftrightarrow> cstr (fs_name e) \<and> length (fs_name e) < 256 \<and> fs_offset e < 2 ^ 64 \<and> fs_size e < 2 ^ 64"

lemma parse_entry_bytes:
  assumes "entry_ok e" and "names = a @ name_bytes e @ b" and "length names \<le> 0x10000" and "20 \<le> entry_size f"
  shows "fs_parse_entry (entry_bytes f (length a) e @ s) names = Inr e"
proof -
  let ?E = "entry_bytes f (length a) e @ s"
  have na: "length a < 2 ^ 32" using assms(2,3) by simp
  have d: "drop 16 ?E = le32 (word_of_nat (length a)) @ replicate (entry_size f - 20) 0 @ s" "drop 8 ?E = le64 (word_of_nat (fs_size e)) @ drop 16 ?E"
    by (simp_all add: entry_bytes_def)
  have noff: "unat (rd_u32 (drop 16 ?E)) = length a" using na unfolding d(1) rd_u32_le32 by (simp add: unat_of_nat)
  have off: "unat (rd_u64 ?E) = fs_offset e"
    using assms(1) unfolding entry_bytes_def append.assoc rd_u64_le64 by (simp add: unat_of_nat entry_ok_def)
  have sz: "unat (rd_u64 (drop 8 ?E)) = fs_size e"
    using assms(1) unfolding d(2) rd_u64_le64 by (simp add: unat_of_nat entry_ok_def)
  have nz: "byte c \<noteq> 0" if "c \<in> set (fs_name e)" for c
  proof
    assume "byte c = 0"
    then have "ord c = ord NUL" using unat_byte [of c] by simp
    then have "c = NUL" by (simp only: ord_eq_iff)
    then show False using assms(1) that by (simp add: entry_ok_def cstr_def)
  qed
  have nm: "takeWhile (\<lambda>b. b \<noteq> 0) (drop (length a) names) = map byte (fs_name e)"
  proof -
    have "drop (length a) names = map byte (fs_name e) @ 0 # b" by (simp add: assms(2) name_bytes_def)
    then show ?thesis using nz by (simp only:) (subst takeWhile_append2, auto)
  qed
  have nm2: "map unbyte (map byte (fs_name e)) = fs_name e" by (simp add: comp_def)
  have len: "length (fs_name e) < length names - length a" unfolding assms(2) name_bytes_def by simp
  show ?thesis using len assms(1) nm2 unfolding fs_parse_entry_def noff nm off sz Let_def by (simp add: entry_ok_def)
qed

lemma length_entry_bytes: "20 \<le> entry_size f \<Longrightarrow> length (entry_bytes f n e) = entry_size f"
  by (simp add: entry_bytes_def)

lemma length_table_bytes: "20 \<le> entry_size f \<Longrightarrow> length (table_bytes f n es) = length es * entry_size f"
  by (induction es arbitrary: n) (simp_all add: length_entry_bytes)

lemma parse_entries_bytes:
  assumes "list_all entry_ok es" and "names = a @ names_bytes es" and "length names \<le> 0x10000" and "20 \<le> entry_size f"
  shows "fs_parse_entries f (table_bytes f (length a) es @ s) names (length es) = Inr es"
  using assms
proof (induction es arbitrary: a)
  case (Cons e es)
  have n: "names = a @ name_bytes e @ names_bytes es" using Cons.prems(2) by (simp add: names_bytes_def)
  have "names = (a @ name_bytes e) @ names_bytes es" using n by simp
  from Cons.IH [OF _ this] Cons.prems have
    "fs_parse_entries f (table_bytes f (length (a @ name_bytes e)) es @ s) names (length es) = Inr es" by simp
  moreover have "fs_parse_entry (entry_bytes f (length a) e @ table_bytes f (length (a @ name_bytes e)) es @ s) names = Inr e"
    using parse_entry_bytes [OF _ n Cons.prems(3,4)] Cons.prems(1) by simp
  ultimately show ?case using Cons.prems(4) by (simp add: length_entry_bytes)
qed simp

lemma header_roundtrip:
  assumes "f = kPfs0 \<and> es \<noteq> [] \<or> f = kHfs0" and "list_all entry_ok es" and "length es \<le> n" and "n \<le> 4096" and "length (names_bytes es) \<le> 0x10000"
  shows "fs_header_size f (header_bytes f es @ s) = length (header_bytes f es)"
    and "fs_parse_header f (header_bytes f es @ s) n = Inr (es, length (header_bytes f es))"
proof -
  let ?H = "header_bytes f es @ s" and ?m = "length es" and ?k = "length (names_bytes es)"
  have sz: "20 \<le> entry_size f" "entry_size f \<le> 64" using assms(1) by (auto simp: kPfs0_def kHfs0_def)
  have d: "drop 4 ?H = le32 (word_of_nat ?m) @ drop 8 ?H" "drop 8 ?H = le32 (word_of_nat ?k) @ drop 12 ?H"
    "drop 16 ?H = table_bytes f 0 es @ names_bytes es @ s"
    by (simp_all add: header_bytes_def)
  have m: "rd_u32 ?H = fs_magic f" unfolding header_bytes_def append.assoc by (rule rd_u32_le32)
  have cnt: "unat (rd_u32 (drop 4 ?H)) = ?m" using assms(3,4) unfolding d(1) rd_u32_le32 by (simp add: unat_of_nat)
  have st: "unat (rd_u32 (drop 8 ?H)) = ?k" using assms(5) unfolding d(2) rd_u32_le32 by (simp add: unat_of_nat)
  have len: "length (header_bytes f es) = 16 + ?m * entry_size f + ?k" using sz by (simp add: header_bytes_def length_table_bytes)
  show "fs_header_size f ?H = length (header_bytes f es)"
    unfolding fs_header_size_def m cnt st Let_def using assms(3-5) len by simp
  have "drop (16 + ?m * entry_size f) ?H = drop (?m * entry_size f) (drop 16 ?H)" unfolding drop_drop by (simp only: add.commute)
  also have "\<dots> = names_bytes es @ s" unfolding d(3) using sz by (simp add: length_table_bytes)
  finally have nm: "take ?k (drop (16 + ?m * entry_size f) ?H) = names_bytes es" by simp
  have pe: "fs_parse_entries f (drop 16 ?H) (names_bytes es) ?m = Inr es"
    using parse_entries_bytes [OF assms(2), of "names_bytes es" "[]" f "names_bytes es @ s"] assms(5) sz unfolding d(3) by simp
  have ne: "\<not> (?m = 0 \<and> \<not> allow_empty f)" using assms(1) by (auto simp: kHfs0_def)
  show "fs_parse_header f ?H n = Inr (es, length (header_bytes f es))"
    unfolding fs_parse_header_def m cnt st Let_def nm pe using assms(3-5) len ne by simp
qed

section \<open>What a parsed header is worth\<close>

lemma parse_entry_ok:
  assumes "fs_parse_entry e names = Inr x"
  shows "entry_ok x"
proof -
  let ?n = "takeWhile (\<lambda>b. b \<noteq> 0) (drop (unat (rd_u32 (drop 16 e))) names)"
  have x: "fs_name x = map unbyte ?n" "length ?n < 256" "fs_offset x = unat (rd_u64 e)" "fs_size x = unat (rd_u64 (drop 8 e))"
    using assms by (auto simp: fs_parse_entry_def Let_def split: if_splits)
  have nz: "unbyte b \<noteq> NUL" if "b \<in> set ?n" for b
  proof
    assume n: "unbyte b = NUL"
    have "unat b < 256" using unsigned_less [of b] by simp
    then have "unat b = ord (unbyte b)" by (simp only: unbyte_def ord_chr)
    then have "unat b = 0" unfolding n by simp
    then have "b = 0" by (simp add: unsigned_eq_0_iff)
    then show False using that by (auto dest!: set_takeWhileD)
  qed
  have "cstr (fs_name x)" unfolding cstr_def x(1) set_map
  proof
    assume "NUL \<in> unbyte ` set ?n"
    then obtain b where "NUL = unbyte b" "b \<in> set ?n" by (rule imageE)
    from nz [OF this(2)] this(1) [symmetric] show False by (rule notE)
  qed
  then show ?thesis using x unsigned_less [of "rd_u64 e"] unsigned_less [of "rd_u64 (drop 8 e)"] by (simp add: entry_ok_def)
qed

lemma parse_entries_ok: "fs_parse_entries f tab names n = Inr es \<Longrightarrow> length es = n \<and> list_all entry_ok es"
proof (induction n arbitrary: tab es)
  case (Suc n)
  from Suc.prems obtain x xs where "fs_parse_entry tab names = Inr x" "fs_parse_entries f (drop (entry_size f) tab) names n = Inr xs" "es = x # xs"
    by (auto split: sum.splits)
  with Suc.IH parse_entry_ok show ?case by auto
qed simp

lemma parse_header_ok:
  assumes "fs_parse_header f buf n = Inr (es, k)"
  shows "list_all entry_ok es" and "length es \<le> n" and "k = fs_header_size f buf" and "k \<le> length buf" and "16 \<le> k"
  using assms by (auto simp: fs_parse_header_def fs_header_size_def Let_def dest!: parse_entries_ok split: if_splits sum.splits)

text \<open>
  C31: on any bytes, a header that is accepted names no more files than there is room for, lies within the bytes given and
  is as long as \<open>fs_header_size\<close> announced; the names are C strings of less than 256 characters; and every set of
  entries that fits the limits is read back from its header exactly, in both formats.
\<close>

theorem partition_header_roundtrip:
  assumes "f = kPfs0 \<and> es \<noteq> [] \<or> f = kHfs0" and "list_all entry_ok es" and "length es \<le> n" and "n \<le> 4096" and "length (names_bytes es) \<le> 0x10000"
  shows "fs_header_size f (header_bytes f es @ s) = length (header_bytes f es) \<and>
    fs_parse_header f (header_bytes f es @ s) n = Inr (es, length (header_bytes f es)) \<and>
    (\<forall>buf. case fs_parse_header f buf n of Inl e \<Rightarrow> True
       | Inr (xs, k) \<Rightarrow> length xs \<le> n \<and> list_all entry_ok xs \<and> k = fs_header_size f buf \<and> k \<le> length buf)"
proof (intro conjI allI)
  show "case fs_parse_header f buf n of Inl e \<Rightarrow> True
       | Inr (xs, k) \<Rightarrow> length xs \<le> n \<and> list_all entry_ok xs \<and> k = fs_header_size f buf \<and> k \<le> length buf" for buf
    using parse_header_ok [of f buf n] by (auto split: sum.split)
qed (rule header_roundtrip [OF assms])+

definition demo_meta :: FsEntry where
  "demo_meta = \<lparr>fs_name = ''00112233445566778899aabbccddeeff.cnmt.nca'', fs_offset = 0, fs_size = 16\<rparr>"

theorem partition_header_roundtrip_witness:
  "fs_parse_header kPfs0 (header_bytes kPfs0 [demo_meta] @ [1]) 64 = Inr ([demo_meta], length (header_bytes kPfs0 [demo_meta]))"
proof -
  have "list_all entry_ok [demo_meta]" by (simp add: entry_ok_def demo_meta_def cstr_def)
  moreover have "length (names_bytes [demo_meta]) \<le> 0x10000" by (simp add: names_bytes_def name_bytes_def demo_meta_def)
  ultimately show ?thesis using partition_header_roundtrip [of kPfs0 "[demo_meta]" 64 "[1]"] by simp
qed

end
