(* ===== verification/Install_Spec.thy ===== *)
theory Install_Spec
  imports Install
begin

text \<open>
  What the installer of \<open>Install\<close> does with the stream and the services: the history of calls it leaves, the bytes each
  content is registered with, rollback, and where in the stream the contents are taken from.
\<close>

section \<open>The history of the services\<close>

text \<open>What a placeholder holds and what gets registered, read off the calls.\<close>

definition overwrite :: "nat \<Rightarrow> u8 list \<Rightarrow> u8 list \<Rightarrow> u8 list" where
  "overwrite off d held = take off held @ replicate (off - length held) 0 @ d @ drop (off + length d) held"

fun ph_step :: "svc \<Rightarrow> u8 list \<times> (cid \<times> u8 list) list \<Rightarrow> u8 list \<times> (cid \<times> u8 list) list" where
  "ph_step (CreatePlaceHolder c n) (held, regs) = ([], regs)"
| "ph_step (WritePlaceHolder off d) (held, regs) = (overwrite off d held, regs)"
| "ph_step (Register c) (held, regs) = (held, regs @ [(c, held)])"
| "ph_step _ s = s"

definition registrations :: "svc list \<Rightarrow> (cid \<times> u8 list) list" where
  "registrations cs = snd (fold ph_step cs ([], []))"

text \<open>The contents registered with success from the n-th call on.\<close>

definition ok_regs :: "nat \<Rightarrow> 'a svc_world_scheme \<Rightarrow> cid set" where
  "ok_regs n w = {c. \<exists>i. n \<le> i \<and> i < length (calls w) \<and> calls w ! i = Register c \<and> rc_of w (take (Suc i) (calls w)) = 0}"

definition ext :: "'a svc_world_scheme \<Rightarrow> svc list \<Rightarrow> 'a svc_world_scheme" where
  "ext w cs = w\<lparr>calls := calls w @ cs\<rparr>"

lemma ext_simps [simp]: "calls (ext w cs) = calls w @ cs" "rc_of (ext w cs) = rc_of w" "ext w [] = w" "ext (ext w cs) ds = ext w (cs @ ds)"
  by (simp_all add: ext_def)

lemma svc_do_ext: "svc_do c w = (rc_of w (calls w @ [c]), ext w [c])"
  by (simp add: svc_do_def ext_def)

lemma svc_run_ext: "svc_run c w = ext w [c]"
  by (simp add: svc_run_def svc_do_ext)

lemma ok_regs_ext:
  assumes "n \<le> length (calls w)"
  shows "ok_regs n (ext w cs) = ok_regs n w \<union> ok_regs (length (calls w)) (ext w cs)"
proof -
  have "c \<in> ok_regs n (ext w cs) \<longleftrightarrow> c \<in> ok_regs n w \<or> c \<in> ok_regs (length (calls w)) (ext w cs)" for c
  proof
    assume "c \<in> ok_regs n (ext w cs)"
    then obtain i where i: "n \<le> i" "i < length (calls w @ cs)" "(calls w @ cs) ! i = Register c" "rc_of w (take (Suc i) (calls w @ cs)) = 0"
      by (auto simp: ok_regs_def)
    show "c \<in> ok_regs n w \<or> c \<in> ok_regs (length (calls w)) (ext w cs)"
    proof (cases "i < length (calls w)")
      case True
      with i show ?thesis by (auto simp: ok_regs_def nth_append)
    next
      case False
      with i show ?thesis by (auto simp: ok_regs_def)
    qed
  next
    assume "c \<in> ok_regs n w \<or> c \<in> ok_regs (length (calls w)) (ext w cs)"
    then show "c \<in> ok_regs n (ext w cs)"
    proof
      assume "c \<in> ok_regs n w"
      then obtain i where "n \<le> i" "i < length (calls w)" "calls w ! i = Register c" "rc_of w (take (Suc i) (calls w)) = 0"
        by (auto simp: ok_regs_def)
      then show ?thesis unfolding ok_regs_def by (auto intro!: exI [of _ i] simp: nth_append)
    next
      assume "c \<in> ok_regs (length (calls w)) (ext w cs)"
      then show ?thesis using assms unfolding ok_regs_def by (auto intro: le_trans)
    qed
  qed
  then show ?thesis by blast
qed

text \<open>What a piece of the installer adds to the history: attempted registrations and the successful ones.\<close>

definition grows :: "'a svc_world_scheme \<Rightarrow> 'a svc_world_scheme \<Rightarrow> (cid \<times> u8 list) list \<Rightarrow> cid set \<Rightarrow> bool" where
  "grows w w' regs oks \<longleftrightarrow> (\<exists>cs. w' = ext w cs \<and> (\<forall>held rs. snd (fold ph_step cs (held, rs)) = rs @ regs) \<and>
     ok_regs (length (calls w)) w' = oks)"

lemma grows_refl [intro]: "grows w w [] {}"
  by (auto simp: grows_def ok_regs_def intro!: exI [of _ "[]"])

lemma grows_trans:
  assumes "grows w w1 a A" and "grows w1 w2 b B"
  shows "grows w w2 (a @ b) (A \<union> B)"
proof -
  obtain cs where cs: "w1 = ext w cs" "\<And>held rs. snd (fold ph_step cs (held, rs)) = rs @ a" "ok_regs (length (calls w)) w1 = A"
    using assms(1) by (auto simp: grows_def)
  obtain ds where ds: "w2 = ext w1 ds" "\<And>held rs. snd (fold ph_step ds (held, rs)) = rs @ b" "ok_regs (length (calls w1)) w2 = B"
    using assms(2) by (auto simp: grows_def)
  have "snd (fold ph_step (cs @ ds) (held, rs)) = rs @ a @ b" for held rs
    using cs(2) [of held rs] ds(2) by (cases "fold ph_step cs (held, rs)") simp
  moreover have "ok_regs (length (calls w)) w2 = A \<union> B"
    using ok_regs_ext [of "length (calls w)" w1 ds] cs(1,3) ds(1,3) by simp
  ultimately show ?thesis using cs(1) ds(1) unfolding grows_def by (intro exI [of _ "cs @ ds"]) simp
qed

fun silent :: "svc \<Rightarrow> bool" where
  "silent (CreatePlaceHolder c n) = True"
| "silent (WritePlaceHolder off d) = True"
| "silent (Register c) = False"
| "silent _ = True"

lemma ok_regs_silent: "\<forall>c \<in> set cs. silent c \<Longrightarrow> ok_regs (length (calls w)) (ext w cs) = {}"
proof -
  assume a: "\<forall>c \<in> set cs. silent c"
  have "(calls w @ cs) ! i \<noteq> Register c" if "length (calls w) \<le> i" "i < length (calls w @ cs)" for i c
  proof -
    have "(calls w @ cs) ! i \<in> set cs" using that by (simp add: nth_append)
    with a show ?thesis by auto
  qed
  then show ?thesis by (auto simp: ok_regs_def)
qed

lemma fold_silent: "\<forall>c \<in> set cs. silent c \<Longrightarrow> snd (fold ph_step cs (held, rs)) = rs"
proof (induction cs arbitrary: held)
  case (Cons c cs)
  have "\<exists>h. ph_step c (held, rs) = (h, rs)" using Cons.prems by (cases c) auto
  with Cons show ?case by auto
qed simp

lemma grows_silent: "\<forall>c \<in> set cs. silent c \<Longrightarrow> grows w (ext w cs) [] {}"
  unfolding grows_def using ok_regs_silent fold_silent by (intro exI [of _ cs]) simp

lemma grows_then_silent: "grows w w1 a A \<Longrightarrow> \<forall>c \<in> set cs. silent c \<Longrightarrow> grows w (ext w1 cs) a A"
  using grows_trans [OF _ grows_silent] by fastforce

lemma silent_then_grows: "\<forall>c \<in> set cs. silent c \<Longrightarrow> grows (ext w cs) w' a A \<Longrightarrow> grows w w' a A"
  using grows_trans [OF grows_silent] by fastforce

section \<open>The stream\<close>

text \<open>A reader that hands out the next bytes of a stream, never more than asked for.\<close>

locale byte_source =
  fixes rd :: "'r reader" and rest :: "'r \<Rightarrow> u8 list"
  assumes next_bytes: "rd n r = (Some d, r') \<Longrightarrow> rest r = d @ rest r' \<and> length d \<le> n"
    and no_bytes: "rd n r = (None, r') \<Longrightarrow> rest r' = rest r"
begin

lemma read_loop_bytes:
  assumes "read_loop rd len got c r = (Some out, c', r')" and "length got \<le> len"
  shows "\<exists>d. out = got @ d \<and> rest r = d @ rest r' \<and> length out = len \<and> c' = c + length d"
  using assms
proof (induction "len - length got" arbitrary: got c r rule: less_induct)
  case less
  show ?case
  proof (cases "length got < len")
    case False
    then show ?thesis using less.prems by (auto simp: read_loop.simps)
  next
    case True
    obtain x r1 where x: "rd (len - length got) r = (x, r1)" by fastforce
    with less.prems True obtain d where d: "x = Some d" "d \<noteq> []" "read_loop rd len (got @ d) (c + length d) r1 = (Some out, c', r')"
      by (auto simp: read_loop.simps [of rd len got] split: option.splits if_splits)
    from next_bytes [OF x [unfolded d(1)]] have n: "rest r = d @ rest r1" "length d \<le> len - length got" by auto
    have "len - length (got @ d) < len - length got" using True d(2) by (auto intro!: diff_less_mono2)
    from less.hyps [OF this d(3)] n True show ?thesis by fastforce
  qed
qed

lemma read_exact_bytes:
  assumes "read_exact rd len pre c r = (Some out, pre', c', r')"
  shows "out = take len (pre @ rest r) \<and> length out = len \<and> pre' @ rest r' = drop len (pre @ rest r) \<and> c' = c + len \<and> pre' = drop len pre"
proof -
  let ?n = "min (length pre) len"
  from assms have l: "read_loop rd len (take ?n pre) (c + ?n) r = (Some out, c', r')" "pre' = drop ?n pre"
    by (auto simp: read_exact_def Let_def split: prod.splits)
  from read_loop_bytes [OF l(1)] obtain d where d: "out = take ?n pre @ d" "rest r = d @ rest r'" "length out = len" "c' = c + ?n + length d" by auto
  show ?thesis
  proof (cases "length pre \<le> len")
    case True
    then have "length d = len - length pre" using d(1,3) by simp
    then show ?thesis using True d l(2) by simp
  next
    case False
    then show ?thesis using d l(2) by simp
  qed
qed

lemma skip_stream_bytes:
  assumes "skip_stream rd target c r = (True, c', r')"
  shows "rest r' = drop (target - c) (rest r) \<and> c' = max c target \<and> target - c \<le> length (rest r)"
  using assms
proof (induction "target - c" arbitrary: c r rule: less_induct)
  case less
  show ?case
  proof (cases "c < target")
    case False
    then show ?thesis using less.prems by (auto simp: skip_stream.simps)
  next
    case True
    obtain x r1 where x: "rd (min INSTALL_CHUNK (target - c)) r = (x, r1)" by fastforce
    with less.prems True obtain d where d: "x = Some d" "d \<noteq> []" "skip_stream rd target (c + length d) r1 = (True, c', r')"
      by (auto simp: skip_stream.simps [of rd target c] split: option.splits if_splits)
    from next_bytes [OF x [unfolded d(1)]] have n: "rest r = d @ rest r1" "length d \<le> target - c" by auto
    have "target - (c + length d) < target - c" using True d(2) by (auto intro!: diff_less_mono2)
    from less.hyps [OF this d(3)] n True show ?thesis by (auto simp: max_def)
  qed
qed

end

lemma skip_peeked_eq:
  "skip_peeked target pre c = (drop (target - c) pre, c + min (length pre) (target - c))"
proof (induction target pre c rule: skip_peeked.induct)
  case (1 target pre c)
  show ?case
  proof (cases "pre \<noteq> [] \<and> c < target")
    case True
    let ?n = "min (length pre) (target - c)"
    have "skip_peeked target pre c = skip_peeked target (drop ?n pre) (c + ?n)" using True by (simp add: skip_peeked.simps [of target pre] Let_def)
    also have "\<dots> = (drop (target - (c + ?n)) (drop ?n pre), c + ?n + min (length (drop ?n pre)) (target - (c + ?n)))"
      using "1.IH" [OF True refl] .
    also have "\<dots> = (drop (target - c) pre, c + ?n)" by (auto simp: min_def)
    finally show ?thesis .
  next
    case False
    then show ?thesis by (auto simp: skip_peeked.simps)
  qed
qed

context byte_source
begin

lemma skip_to_bytes:
  assumes "skip_to rd target pre c r = (True, pre', c', r')"
  shows "pre' @ rest r' = drop (target - c) (pre @ rest r) \<and> c' = max c target \<and> pre' = drop (target - c) pre"
proof -
  let ?m = "min (length pre) (target - c)"
  have l: "skip_stream rd target (c + ?m) r = (True, c', r')" "pre' = drop (target - c) pre"
    using assms by (auto simp: skip_to_def skip_peeked_eq Let_def split: prod.splits)
  from skip_stream_bytes [OF l(1)] show ?thesis using l(2) by (auto simp: min_def max_def)
qed

end

section \<open>Writing one content\<close>

lemma overwrite_end [simp]: "overwrite (length held) d held = held @ d"
  by (simp add: overwrite_def)

text \<open>A run of writes at the end of what is held.\<close>

lemma write_loop_spec:
  assumes "write_loop rd ioe sz n sha w r = (rc, sha', w', r')"
  shows "\<exists>ds. w' = ext w (ds) \<and> (\<forall>c \<in> set ds. silent c) \<and>
    (\<exists>d. (\<forall>held rs. length held = n \<longrightarrow> fold ph_step ds (held, rs) = (held @ d, rs)) \<and>
      (rc = 0 \<longrightarrow> ioe \<noteq> 0 \<longrightarrow> sha' = ctx_update sha d \<and> sz \<le> n + length d \<and>
        (\<forall>rest. byte_source rd rest \<longrightarrow> rest r = d @ rest r' \<and> (n \<le> sz \<longrightarrow> n + length d = sz))))"
  using assms
proof (induction "sz - n" arbitrary: n sha w r rule: less_induct)
  case less
  show ?case
  proof (cases "n < sz")
    case False
    then show ?thesis using less.prems by (auto simp: write_loop.simps intro!: exI [of _ "[]"] ctx_update.simps)
  next
    case True
    obtain x r1 where x: "rd (min INSTALL_CHUNK (sz - n)) r = (x, r1)" by fastforce
    show ?thesis
    proof (cases "x = None \<or> x = Some []")
      case fin: True
      then have "rc = ioe" "w' = w" using less.prems True x by (auto simp: write_loop.simps)
      then show ?thesis by (auto intro!: exI [of _ "[]"])
    next
      case False
      then obtain d where d: "x = Some d" "d \<noteq> []" by auto
      let ?c = "WritePlaceHolder n d"
      have one: "fold ph_step [?c] (held, rs) = (held @ d, rs)" if "length held = n" for held rs using that by auto
      show ?thesis
      proof (cases "rc_of w (calls w @ [?c]) = 0")
        case False
        then have "rc \<noteq> 0" "w' = ext w [?c]" using less.prems True x d by (auto simp: write_loop.simps svc_do_ext)
        then show ?thesis using one by (intro exI [of _ "[?c]"]) auto
      next
        case ok: True
        have rec: "write_loop rd ioe sz (n + length d) (ctx_update sha d) (ext w [?c]) r1 = (rc, sha', w', r')"
          using less.prems True x d ok by (simp add: write_loop.simps [of rd ioe sz n] svc_do_ext)
        have "sz - (n + length d) < sz - n" using True d(2) by (auto intro!: diff_less_mono2)
        from less.hyps [OF this rec] obtain ds e where ds: "w' = ext (ext w [?c]) ds" "\<forall>c \<in> set ds. silent c"
          "\<forall>held rs. length held = n + length d \<longrightarrow> fold ph_step ds (held, rs) = (held @ e, rs)"
          "rc = 0 \<longrightarrow> ioe \<noteq> 0 \<longrightarrow> sha' = ctx_update (ctx_update sha d) e \<and> sz \<le> n + length d + length e \<and>
            (\<forall>rest. byte_source rd rest \<longrightarrow> rest r1 = e @ rest r' \<and> (n + length d \<le> sz \<longrightarrow> n + length d + length e = sz))" by blast
        have src: "rest r = d @ rest r1 \<and> n + length d \<le> sz" if "byte_source rd rest" for rest
          using byte_source.next_bytes [OF that x [unfolded d(1)]] True by auto
        have "fold ph_step (?c # ds) (held, rs) = (held @ d @ e, rs)" if "length held = n" for held rs
          using one [OF that, of rs] ds(3) that by simp
        then show ?thesis using ds src by (intro exI [of _ "?c # ds"] conjI exI [of _ "d @ e"]) (auto simp: ctx_update_append)
      qed
    qed
  qed
qed

definition nx_ok :: "nx \<Rightarrow> bool" where
  "nx_ok x \<longleftrightarrow> IoError x \<noteq> 0 \<and> BadInput x \<noteq> 0"

text \<open>What writing a content does: it registers nothing or that content, with success exactly if it returns 0.\<close>

definition content_written :: "'r reader \<Rightarrow> cid \<Rightarrow> nat \<Rightarrow> u8 list \<Rightarrow> bool \<Rightarrow> 'r \<Rightarrow> 'r \<Rightarrow> u8 list \<Rightarrow> bool" where
  "content_written rd cid sz pre verify r r' d \<longleftrightarrow> (verify \<longrightarrow> take 16 (sha256_spec d) = cid) \<and>
     (\<forall>rest. byte_source rd rest \<longrightarrow> length pre \<le> sz \<longrightarrow> (\<exists>e. d = pre @ e \<and> length d = sz \<and> rest r = e @ rest r'))"

lemma last_call_regs:
  assumes "\<forall>c \<in> set cs. silent c"
  shows "ok_regs (length (calls w)) (ext w (cs @ [Register cid])) = (if rc_of w (calls w @ cs @ [Register cid]) = 0 then {cid} else {})"
proof -
  have "ok_regs (length (calls w)) (ext w (cs @ [Register cid])) =
      ok_regs (length (calls w)) (ext w cs) \<union> ok_regs (length (calls w @ cs)) (ext (ext w cs) [Register cid])"
    using ok_regs_ext [of "length (calls w)" "ext w cs" "[Register cid]"] by simp
  also have "ok_regs (length (calls w)) (ext w cs) = {}" by (rule ok_regs_silent [OF assms])
  finally show ?thesis by (auto simp: ok_regs_def nth_append less_Suc_eq)
qed

lemma fill_placeholder_spec:
  assumes nx: "nx_ok x" and f: "fill_placeholder x rd cid sz pre verify w r = (rc, w', r')"
  shows "\<exists>cs regs. w' = ext w cs \<and> (\<forall>rs. snd (fold ph_step cs ([], rs)) = rs @ regs) \<and>
    ok_regs (length (calls w)) w' = (if rc = 0 then {cid} else {}) \<and>
    (regs = [] \<and> rc \<noteq> 0 \<or> (\<exists>d. regs = [(cid, d)] \<and> content_written rd cid sz pre verify r r' d))"
proof -
  let ?s0 = "ctx_init (replicate 64 0)" and ?pre = "if pre = [] then [] else [WritePlaceHolder 0 pre]"
  let ?w1 = "ext w ?pre"
  have pre: "fold ph_step ?pre ([], rs) = (pre, rs)" "\<forall>c \<in> set ?pre. silent c" for rs by (simp_all add: overwrite_def)
  show ?thesis
  proof (cases "pre \<noteq> [] \<and> rc_of w (calls w @ [WritePlaceHolder 0 pre]) \<noteq> 0")
    case True
    then have "w' = ?w1" "rc \<noteq> 0" using f by (auto simp: fill_placeholder_def svc_do_ext Let_def)
    then show ?thesis using pre ok_regs_silent [OF pre(2), of w] by (intro exI [of _ ?pre] exI [of _ "[]"]) auto
  next
    case False
    obtain rc1 sha w2 r2 where wl: "write_loop rd (IoError x) sz (length pre) (ctx_update ?s0 pre) ?w1 r = (rc1, sha, w2, r2)"
      using prod_cases4 by blast
    from write_loop_spec [OF wl] obtain ds d where ds: "w2 = ext ?w1 ds" "\<forall>c \<in> set ds. silent c"
      "\<forall>held rs. length held = length pre \<longrightarrow> fold ph_step ds (held, rs) = (held @ d, rs)"
      "rc1 = 0 \<longrightarrow> IoError x \<noteq> 0 \<longrightarrow> sha = ctx_update (ctx_update ?s0 pre) d \<and> sz \<le> length pre + length d \<and>
        (\<forall>rest. byte_source rd rest \<longrightarrow> rest r = d @ rest r2 \<and> (length pre \<le> sz \<longrightarrow> length pre + length d = sz))" by blast
    have io: "IoError x \<noteq> 0" "BadInput x \<noteq> 0" using nx by (simp_all add: nx_ok_def)
    have step: "(rc, w', r') = (if rc1 \<noteq> 0 then (rc1, w2, r2)
        else if verify \<and> take 16 (ctx_final sha) \<noteq> cid then (BadInput x, w2, r2)
        else (rc_of w (calls w2 @ [DeleteContent cid, Register cid]), ext w2 [DeleteContent cid, Register cid], r2))"
      using f False wl ds(1) by (auto simp: fill_placeholder_def svc_do_ext svc_run_ext Let_def split: if_splits)
    have q: "\<forall>c \<in> set (?pre @ ds). silent c" using pre(2) ds(2) by simp
    have w2: "w2 = ext w (?pre @ ds)" using ds(1) by simp
    have fo: "fold ph_step (?pre @ ds) ([], rs) = (pre @ d, rs)" for rs using pre(1) [of rs] ds(3) by simp
    show ?thesis
    proof (cases "rc1 \<noteq> 0 \<or> verify \<and> take 16 (ctx_final sha) \<noteq> cid")
      case True
      then have "rc \<noteq> 0" "w' = w2" using step io by (auto split: if_splits)
      then show ?thesis unfolding w2 using ok_regs_silent [OF q, of w] fo by (intro exI [of _ "?pre @ ds"] exI [of _ "[]"]) simp
    next
      case ok: False
      let ?cs = "?pre @ ds @ [DeleteContent cid]"
      have e: "rc = rc_of w (calls w @ ?cs @ [Register cid])" "w' = ext w (?cs @ [Register cid])" "r' = r2" using step ok w2 by auto
      have q2: "\<forall>c \<in> set ?cs. silent c" using q by auto
      have sha: "sha = ctx_update (ctx_init (replicate 64 0)) (pre @ d)" using ds(4) ok io by (simp add: ctx_update_append)
      have dig: "ctx_final sha = sha256_spec (pre @ d)"
        using sha256_stream_correct [of "replicate 64 0" "[pre @ d]"] unfolding sha by simp
      have cw: "content_written rd cid sz pre verify r r' (pre @ d)"
        using ds(4) ok io dig e(3) by (auto simp: content_written_def)
      have "fold ph_step (?cs @ [Register cid]) ([], rs) = (pre @ d, rs @ [(cid, pre @ d)])" for rs using fo [of rs] by simp
      then show ?thesis using e(1,2) cw last_call_regs [OF q2, of w cid]
        by (intro exI [of _ "?cs @ [Register cid]"] exI [of _ "[(cid, pre @ d)]"]) simp
    qed
  qed
qed

lemma write_content_spec:
  assumes nx: "nx_ok x" and f: "write_content x rd cid sz pre verify w r = (rc, w', r')"
  shows "\<exists>regs. grows w w' regs (if rc = 0 then {cid} else {}) \<and>
    (regs = [] \<and> rc \<noteq> 0 \<or> (\<exists>d. regs = [(cid, d)] \<and> content_written rd cid sz pre verify r r' d))"
proof -
  let ?a = "[GeneratePlaceHolder]" and ?b = "[GeneratePlaceHolder, DeletePlaceHolder, CreatePlaceHolder cid sz]"
  show ?thesis
  proof (cases "rc_of w (calls w @ ?a) \<noteq> 0 \<or> rc_of w (calls w @ ?b) \<noteq> 0")
    case True
    then have "rc \<noteq> 0 \<and> (w' = ext w ?a \<or> w' = ext w ?b)"
      using f by (auto simp: write_content_def svc_do_ext svc_run_ext Let_def split: if_splits)
    then show ?thesis using grows_silent [of ?a w] grows_silent [of ?b w] by auto
  next
    case False
    obtain rc1 w1 r1 where fp: "fill_placeholder x rd cid sz pre verify (ext w ?b) r = (rc1, w1, r1)" using prod_cases3 by blast
    then have e: "rc = rc1" "w' = ext w1 [DeletePlaceHolder]" "r' = r1"
      using f False by (auto simp: write_content_def svc_do_ext svc_run_ext Let_def)
    from fill_placeholder_spec [OF nx fp] obtain cs regs where cs: "w1 = ext (ext w ?b) cs" "\<forall>rs. snd (fold ph_step cs ([], rs)) = rs @ regs"
      "ok_regs (length (calls (ext w ?b))) w1 = (if rc1 = 0 then {cid} else {})"
      "regs = [] \<and> rc1 \<noteq> 0 \<or> (\<exists>d. regs = [(cid, d)] \<and> content_written rd cid sz pre verify r r1 d)" by blast
    have b: "fold ph_step ?b (held, rs) = ([], rs)" for held rs by simp
    have "snd (fold ph_step (?b @ cs) (held, rs)) = rs @ regs" for held rs using cs(2) b [of held rs] by simp
    moreover have "ok_regs (length (calls w)) w1 = (if rc1 = 0 then {cid} else {})"
      using ok_regs_ext [of "length (calls w)" "ext w ?b" cs] cs(1,3) ok_regs_silent [of ?b w] by simp
    ultimately have "grows w w1 regs (if rc1 = 0 then {cid} else {})"
      unfolding grows_def using cs(1) by (intro exI [of _ "?b @ cs"]) simp
    from grows_then_silent [OF this, of "[DeletePlaceHolder]"] show ?thesis using e cs(4) by auto
  qed
qed

section \<open>One entry, and all of them\<close>

definition is_content :: "FsEntry \<Rightarrow> bool" where
  "is_content e \<longleftrightarrow> is_cnmt (fs_name e) \<or>
     \<not> has_ext ''tik'' (fs_name e) \<and> \<not> has_ext ''cert'' (fs_name e) \<and> has_ext ''nca'' (fs_name e)"

definition entry_id :: "FsEntry \<Rightarrow> cid" where
  "entry_id e = (case content_id_from_name (fs_name e) of Some c \<Rightarrow> c | None \<Rightarrow> [])"

text \<open>The bytes of an entry in a stream of which \<open>c\<close> bytes are gone.\<close>

definition entry_slice :: "nat \<Rightarrow> u8 list \<Rightarrow> FsEntry \<Rightarrow> u8 list" where
  "entry_slice c s e = take (fs_size e) (drop (fs_offset e - c) s)"

definition fits64 :: "FsEntry \<Rightarrow> bool" where
  "fits64 e \<longleftrightarrow> fs_offset e + fs_size e < 2 ^ 64"

text \<open>What one entry did: the contents registered, and where the stream is.\<close>

definition entry_done :: "'r reader \<Rightarrow> bool \<Rightarrow> FsEntry \<Rightarrow> progress \<Rightarrow> 'r \<Rightarrow> progress \<Rightarrow> 'r \<Rightarrow> (cid \<times> u8 list) list \<Rightarrow> bool" where
  "entry_done rd verify e p r p' r' regs \<longleftrightarrow>
     (\<forall>rest. byte_source rd rest \<longrightarrow> consumed p \<le> fs_offset e \<longrightarrow> fits64 e \<longrightarrow>
        consumed p' = fs_offset e + fs_size e \<and> rest r' = drop (fs_offset e + fs_size e - consumed p) (rest r) \<and>
        regs = (if is_content e then [(entry_id e, entry_slice (consumed p) (rest r) e)] else []))"

definition regs_hashed :: "bool \<Rightarrow> (cid \<times> u8 list) list \<Rightarrow> bool" where
  "regs_hashed verify regs \<longleftrightarrow> (verify \<longrightarrow> (\<forall>(c, d) \<in> set regs. take 16 (sha256_spec d) = c))"

definition entry_spec :: "'r reader \<Rightarrow> bool \<Rightarrow> FsEntry \<Rightarrow> progress \<Rightarrow> 'a svc_world_scheme \<Rightarrow> 'r \<Rightarrow> failure option \<times> progress \<times> 'a svc_world_scheme \<times> 'r \<Rightarrow> bool" where
  "entry_spec rd verify e p w r res \<longleftrightarrow> (case res of (f, p', w', r') \<Rightarrow>
     (\<exists>regs ys. grows w w' regs (set ys) \<and> written p' = written p @ ys \<and> regs_hashed verify regs \<and>
        (f = None \<longrightarrow> entry_done rd verify e p r p' r' regs)))"

text \<open>An entry that registers nothing.\<close>

lemma entry_spec_plain:
  assumes "written p' = written p"
    and "f = None \<Longrightarrow> \<not> is_content e"
    and "\<And>rest. f = None \<Longrightarrow> byte_source rd rest \<Longrightarrow> consumed p \<le> fs_offset e \<Longrightarrow> fits64 e \<Longrightarrow>
      consumed p' = fs_offset e + fs_size e \<and> rest r' = drop (fs_offset e + fs_size e - consumed p) (rest r)"
  shows "entry_spec rd verify e p w r (f, p', w, r')"
  using assms unfolding entry_spec_def entry_done_def
  by (auto simp: regs_hashed_def intro!: exI [of _ "[]"] exI [of _ "[] :: cid list"] grows_refl [of w])

lemma store_content_spec:
  assumes nx: "nx_ok x" and wc: "write_content x rd cid (fs_size e) pre v w r2 = (rc, w', r')"
    and cid: "content_id_from_name (fs_name e) = Some cid" and v: "verify \<Longrightarrow> v" and con: "is_content e"
    and pw: "written p' = (if rc = 0 then written p @ [cid] else written p)" and f: "f = None \<longleftrightarrow> rc = 0"
    and place: "\<And>rest. byte_source rd rest \<Longrightarrow> consumed p \<le> fs_offset e \<Longrightarrow> fits64 e \<Longrightarrow> rc = 0 \<Longrightarrow>
      consumed p' = fs_offset e + fs_size e \<and> pre @ rest r2 = drop (fs_offset e - consumed p) (rest r) \<and> length pre \<le> fs_size e"
  shows "entry_spec rd verify e p w r (f, p', w', r')"
proof -
  from write_content_spec [OF nx wc] obtain regs where g: "grows w w' regs (if rc = 0 then {cid} else {})"
    and rg: "regs = [] \<and> rc \<noteq> 0 \<or> (\<exists>d. regs = [(cid, d)] \<and> content_written rd cid (fs_size e) pre v r2 r' d)" by blast
  have h: "regs_hashed verify regs" using rg v by (auto simp: regs_hashed_def content_written_def)
  have dn: "entry_done rd verify e p r p' r' regs" if "rc = 0"
    unfolding entry_done_def
  proof (intro allI impI)
    fix rest
    assume src: "byte_source rd rest" and le: "consumed p \<le> fs_offset e" "fits64 e"
    from rg that obtain d where d: "regs = [(cid, d)]" "content_written rd cid (fs_size e) pre v r2 r' d" by auto
    from place [OF src le that] have pl: "consumed p' = fs_offset e + fs_size e" "pre @ rest r2 = drop (fs_offset e - consumed p) (rest r)"
      "length pre \<le> fs_size e" by blast+
    from d(2) src pl(3) obtain q where q: "d = pre @ q" "length d = fs_size e" "rest r2 = q @ rest r'" unfolding content_written_def by blast
    have all: "drop (fs_offset e - consumed p) (rest r) = d @ rest r'" using pl(2) q(1,3) by simp
    have "rest r' = drop (fs_size e) (drop (fs_offset e - consumed p) (rest r))" unfolding all using q(2) by simp
    then have "rest r' = drop (fs_offset e + fs_size e - consumed p) (rest r)" using le(1) by (simp add: add.commute)
    moreover have "d = entry_slice (consumed p) (rest r) e" unfolding entry_slice_def all using q(2) by simp
    ultimately show "consumed p' = fs_offset e + fs_size e \<and> rest r' = drop (fs_offset e + fs_size e - consumed p) (rest r) \<and>
        regs = (if is_content e then [(entry_id e, entry_slice (consumed p) (rest r) e)] else [])"
      using pl(1) d(1) con cid by (simp add: entry_id_def)
  qed
  let ?ys = "if rc = 0 then [cid] else []"
  have "grows w w' regs (set ?ys)" using g by (simp split: if_splits)
  moreover have "written p' = written p @ ?ys" using pw by simp
  ultimately show ?thesis unfolding entry_spec_def prod.case using h dn f by blast
qed

lemma store_meta_spec:
  assumes nx: "nx_ok x" and con: "is_cnmt (fs_name e)"
    and at: "\<And>rest. byte_source rd rest \<Longrightarrow> consumed p \<le> fs_offset e \<Longrightarrow>
      consumed p1 = fs_offset e \<and> rest r1 = drop (fs_offset e - consumed p) (rest r)" and pw: "written p1 = written p"
  shows "entry_spec rd verify e p w r (store_meta x rd e p1 w r1)"
proof (cases "fs_size e > 0x4000")
  case True
  then show ?thesis by (auto simp: store_meta_def pw intro!: entry_spec_plain)
next
  case False
  obtain out pre c r2 where re: "read_exact rd (fs_size e) [] (consumed p1) r1 = (out, pre, c, r2)" using prod_cases4 by blast
  show ?thesis
  proof (cases out)
    case None
    then show ?thesis using False re by (auto simp: store_meta_def pw intro!: entry_spec_plain)
  next
    case (Some nca)
    show ?thesis
    proof (cases "content_id_from_name (fs_name e)")
      case None
      then show ?thesis using False re Some by (auto simp: store_meta_def pw Let_def intro!: entry_spec_plain)
    next
      case cid: (Some cid)
      obtain rc w' r' where wc: "write_content x rd cid (fs_size e) nca True w r2 = (rc, w', r')" using prod_cases3 by blast
      have place: "c = fs_offset e + fs_size e \<and> nca @ rest r2 = drop (fs_offset e - consumed p) (rest r) \<and> length nca \<le> fs_size e"
        if "byte_source rd rest" "consumed p \<le> fs_offset e" for rest
      proof -
        let ?s = "drop (fs_offset e - consumed p) (rest r)"
        have "nca = take (fs_size e) ?s" "rest r2 = drop (fs_size e) ?s" "length nca = fs_size e" "c = fs_offset e + fs_size e"
          using byte_source.read_exact_bytes [OF that(1) re [unfolded Some]] at [OF that] by (auto simp del: length_take)
        then show ?thesis by (metis append_take_drop_id le_refl)
      qed
      have con': "is_content e" using con by (simp add: is_content_def)
      show ?thesis using False re Some cid wc
        by (auto simp: store_meta_def Let_def pw intro!: store_content_spec [OF nx wc cid _ con'] dest!: place)
    qed
  qed
qed

lemma store_ticket_spec:
  assumes con: "\<not> is_content e"
    and at: "\<And>rest. byte_source rd rest \<Longrightarrow> consumed p \<le> fs_offset e \<Longrightarrow>
      consumed p1 = fs_offset e \<and> rest r1 = drop (fs_offset e - consumed p) (rest r)" and pw: "written p1 = written p"
  shows "entry_spec rd verify e p w r (case store_ticket rd tik e p1 r1 of (f, p', r') \<Rightarrow> (f, p', w, r'))"
proof (cases "fs_size e > (if tik then 0x600 else 0x800)")
  case True
  then show ?thesis by (auto simp: store_ticket_def Let_def pw intro!: entry_spec_plain)
next
  case False
  obtain out pre c r2 where re: "read_exact rd (fs_size e) [] (consumed p1) r1 = (out, pre, c, r2)" using prod_cases4 by blast
  have place: "c = fs_offset e + fs_size e \<and> rest r2 = drop (fs_offset e + fs_size e - consumed p) (rest r)"
    if "byte_source rd rest" "consumed p \<le> fs_offset e" "out = Some d" for rest d
    using byte_source.read_exact_bytes [OF that(1) re [unfolded that(3)]] at [OF that(1,2)] that(2) by (auto simp: add.commute)
  show ?thesis using False re con
    by (cases out) (auto simp: store_ticket_def Let_def pw intro!: entry_spec_plain dest!: place)
qed

lemma store_nca_spec:
  assumes nx: "nx_ok x" and con: "is_content e"
    and at: "\<And>rest. byte_source rd rest \<Longrightarrow> consumed p \<le> fs_offset e \<Longrightarrow>
      consumed p1 = fs_offset e \<and> rest r1 = drop (fs_offset e - consumed p) (rest r)" and pw: "written p1 = written p"
  shows "entry_spec rd verify e p w r (store_nca x rd verify e p1 w r1)"
proof (cases "content_id_from_name (fs_name e)")
  case None
  then show ?thesis by (auto simp: store_nca_def pw intro!: entry_spec_plain)
next
  case cid: (Some cid)
  obtain rc w' r' where wc: "write_content x rd cid (fs_size e) [] verify w r1 = (rc, w', r')" using prod_cases3 by blast
  show ?thesis using cid wc
    by (auto simp: store_nca_def Let_def pw w64_def fits64_def intro!: store_content_spec [OF nx wc cid _ con] dest!: at)
qed

lemma install_entry_spec:
  assumes nx: "nx_ok x"
  shows "entry_spec rd verify e p w r (install_entry x rd verify e p w r)"
proof -
  obtain found pre c r1 where sk: "skip_to rd (fs_offset e) [] (consumed p) r = (found, pre, c, r1)" using prod_cases4 by blast
  let ?p = "p\<lparr>consumed := c\<rparr>"
  show ?thesis
  proof (cases found)
    case False
    then show ?thesis using sk by (auto simp: install_entry_def intro!: entry_spec_plain)
  next
    case True
    have at: "consumed ?p = fs_offset e \<and> rest r1 = drop (fs_offset e - consumed p) (rest r)"
      if "byte_source rd rest" "consumed p \<le> fs_offset e" for rest
      using byte_source.skip_to_bytes [OF that(1) sk [unfolded eqTrueI [OF True]]] that(2) by auto
    have pw: "written ?p = written p" by simp
    note i = install_entry_def [of x rd verify e p w r, unfolded sk eqTrueI [OF True] prod.case bool.case Let_def]
    consider "is_cnmt (fs_name e)" | "\<not> is_cnmt (fs_name e)" "has_ext ''tik'' (fs_name e) \<or> has_ext ''cert'' (fs_name e)"
      | "\<not> is_cnmt (fs_name e)" "\<not> (has_ext ''tik'' (fs_name e) \<or> has_ext ''cert'' (fs_name e))" "has_ext ''nca'' (fs_name e)"
      | "\<not> is_cnmt (fs_name e)" "\<not> (has_ext ''tik'' (fs_name e) \<or> has_ext ''cert'' (fs_name e))" "\<not> has_ext ''nca'' (fs_name e)" by blast
    then show ?thesis
    proof cases
      case 1
      then show ?thesis unfolding i using store_meta_spec [OF nx 1 at pw] by simp
    next
      case 2
      then have "\<not> is_content e" by (auto simp: is_content_def)
      from store_ticket_spec [OF this at pw] show ?thesis unfolding i using 2 by simp
    next
      case 3
      then have "is_content e" by (auto simp: is_content_def)
      from store_nca_spec [OF nx this at pw] show ?thesis unfolding i using 3 by simp
    next
      case 4
      then have nc: "\<not> is_content e" by (auto simp: is_content_def)
      obtain found2 pre2 c2 r2 where s2: "skip_to rd (w64 (consumed ?p + fs_size e)) [] (consumed ?p) r1 = (found2, pre2, c2, r2)" using prod_cases4 by blast
      have "c2 = fs_offset e + fs_size e \<and> rest r2 = drop (fs_offset e + fs_size e - consumed p) (rest r)"
        if "found2" "byte_source rd rest" "consumed p \<le> fs_offset e" "fits64 e" for rest
        using byte_source.skip_to_bytes [OF that(2) s2 [unfolded eqTrueI [OF that(1)]]] at [OF that(2,3)] that(3,4)
        by (auto simp: w64_def fits64_def add.commute)
      then show ?thesis unfolding i using 4 s2 nc by (cases found2) (auto intro!: entry_spec_plain)
    qed
  qed
qed

fun laid_out :: "nat \<Rightarrow> FsEntry list \<Rightarrow> bool" where
  "laid_out c [] \<longleftrightarrow> True"
| "laid_out c (e # es) \<longleftrightarrow> c \<le> fs_offset e \<and> fits64 e \<and> laid_out (fs_offset e + fs_size e) es"

lemma laid_out_le: "laid_out c es \<Longrightarrow> e \<in> set es \<Longrightarrow> c \<le> fs_offset e"
  by (induction es arbitrary: c) fastforce+

text \<open>The contents among some entries, with their bytes.\<close>

definition contents_of :: "nat \<Rightarrow> u8 list \<Rightarrow> FsEntry list \<Rightarrow> (cid \<times> u8 list) list" where
  "contents_of c s es = map (\<lambda>e. (entry_id e, entry_slice c s e)) (filter is_content es)"

lemma contents_of_shift:
  assumes "laid_out k es" and "c \<le> k"
  shows "contents_of k (drop (k - c) s) es = contents_of c s es"
proof -
  have "entry_slice k (drop (k - c) s) e = entry_slice c s e" if "e \<in> set es" for e
    using laid_out_le [OF assms(1) that] assms(2) by (simp add: entry_slice_def)
  then show ?thesis by (auto simp: contents_of_def)
qed

lemma regs_hashed_append [simp]: "regs_hashed v (a @ b) \<longleftrightarrow> regs_hashed v a \<and> regs_hashed v b"
  by (auto simp: regs_hashed_def)

lemma entries_loop_spec:
  assumes nx: "nx_ok x" and l: "entries_loop x rd verify es p w r = (f, p', w', r')"
  shows "\<exists>regs ys. grows w w' regs (set ys) \<and> written p' = written p @ ys \<and> regs_hashed verify regs \<and>
    (f = None \<longrightarrow> laid_out (consumed p) es \<longrightarrow> (\<forall>rest. byte_source rd rest \<longrightarrow> regs = contents_of (consumed p) (rest r) es))"
  using l
proof (induction es arbitrary: p w r)
  case Nil
  then show ?case by (auto simp: contents_of_def regs_hashed_def intro!: exI [of _ "[]"] exI [of _ "[] :: cid list"])
next
  case (Cons e es)
  obtain g p1 w1 r1 where i: "install_entry x rd verify e p w r = (g, p1, w1, r1)" using prod_cases4 by blast
  from install_entry_spec [OF nx, of rd verify e p w r] obtain regs ys where e: "grows w w1 regs (set ys)" "written p1 = written p @ ys"
    "regs_hashed verify regs" "g = None \<longrightarrow> entry_done rd verify e p r p1 r1 regs" by (auto simp: entry_spec_def i)
  show ?case
  proof (cases g)
    case (Some m)
    then have "f = Some m" "p' = p1" "w' = w1" using Cons.prems i by auto
    then show ?thesis using e by (intro exI [of _ regs] exI [of _ ys]) simp
  next
    case None
    then have "entries_loop x rd verify es p1 w1 r1 = (f, p', w', r')" using Cons.prems i by simp
    from Cons.IH [OF this] obtain regs2 ys2 where t: "grows w1 w' regs2 (set ys2)" "written p' = written p1 @ ys2" "regs_hashed verify regs2"
      "f = None \<longrightarrow> laid_out (consumed p1) es \<longrightarrow> (\<forall>rest. byte_source rd rest \<longrightarrow> regs2 = contents_of (consumed p1) (rest r1) es)" by blast
    have "regs @ regs2 = contents_of (consumed p) (rest r) (e # es)"
      if "f = None" "laid_out (consumed p) (e # es)" "byte_source rd rest" for rest
    proof -
      let ?k = "fs_offset e + fs_size e"
      have d: "consumed p1 = ?k" "rest r1 = drop (?k - consumed p) (rest r)"
        "regs = (if is_content e then [(entry_id e, entry_slice (consumed p) (rest r) e)] else [])"
        using e(4) None that by (simp_all add: entry_done_def)
      have "regs2 = contents_of ?k (drop (?k - consumed p) (rest r)) es" using t(4) that d(1,2) by simp
      also have "\<dots> = contents_of (consumed p) (rest r) es" using that(2) by (intro contents_of_shift) auto
      finally show ?thesis using d(3) by (simp add: contents_of_def)
    qed
    moreover have "grows w w' (regs @ regs2) (set (ys @ ys2))" using grows_trans [OF e(1) t(1)] by simp
    moreover have "written p' = written p @ ys @ ys2" using e(2) t(2) by simp
    ultimately show ?thesis using e(3) t(3) by (intro exI [of _ "regs @ regs2"] exI [of _ "ys @ ys2"]) simp
  qed
qed

section \<open>Rollback\<close>

lemma read_cnmt_silent: "grows w (snd (read_cnmt x c w)) [] {}"
  by (auto simp: read_cnmt_def svc_do_ext svc_run_ext Let_def intro!: grows_silent split: option.split)

lemma set_content_meta_silent: "grows w (snd (set_content_meta sid k b w)) [] {}"
  by (auto simp: set_content_meta_def svc_do_ext svc_run_ext Let_def intro!: grows_silent)

lemma push_record_silent: "grows w (snd (push_record a k sid w)) [] {}"
  by (auto simp: push_record_def svc_do_ext svc_run_ext Let_def intro!: grows_silent)

lemma register_title_silent: "grows w (snd (register_title x sid p m w)) [] {}"
proof -
  obtain h e infos where m: "m = (h, e, infos)" by (cases m)
  define w1 where "w1 = (if g_es_ok w \<and> tik_data p \<noteq> [] then svc_run (ImportTicket (tik_data p) (cert_data p)) w else w)"
  have 1: "grows w w1 [] {}" by (auto simp: w1_def svc_run_ext intro!: grows_silent)
  let ?k = "\<lparr>key_id = pkg_id h, key_version = pkg_version h, key_type = pkg_type h\<rparr>"
  obtain rc w2 where s: "set_content_meta sid ?k (meta_blob x h e infos (meta_cid p) (cnmt_nca_size p)) w1 = (rc, w2)" by fastforce
  have 2: "grows w w2 [] {}" using grows_trans [OF 1 set_content_meta_silent [of w1 sid ?k "meta_blob x h e infos (meta_cid p) (cnmt_nca_size p)"]] s by simp
  have 3: "grows w (snd (push_record (base_id x h) ?k sid w2)) [] {}" using grows_trans [OF 2 push_record_silent] by simp
  have "snd (register_title x sid p m w) = (if rc \<noteq> 0 then w2 else snd (push_record (base_id x h) ?k sid w2))"
    unfolding register_title_def m Let_def prod.case w1_def [symmetric] s by (simp split: prod.split)
  then show ?thesis using 2 3 by simp
qed

definition rollback_calls :: "StorageId \<Rightarrow> cid list \<Rightarrow> 'a svc_world_scheme \<Rightarrow> svc list" where
  "rollback_calls sid cids w = OpenService (Storage sid) #
     (if rc_of w (calls w @ [OpenService (Storage sid)]) \<noteq> 0 then [] else map DeleteContent cids @ [CloseService (Storage sid)])"

lemma fold_delete: "fold (\<lambda>c. svc_run (DeleteContent c)) cids w = ext w (map DeleteContent cids)"
  by (induction cids arbitrary: w) (simp_all add: svc_run_ext)

lemma rollback_ext: "rollback sid cids w = ext w (rollback_calls sid cids w)"
  by (simp add: rollback_def rollback_calls_def svc_do_ext svc_run_ext fold_delete Let_def)

lemma rollback_silent: "\<forall>c \<in> set (rollback_calls sid cids w). silent c"
  by (auto simp: rollback_calls_def)

text \<open>Every content registered with success from the n-th call on is deleted later on.\<close>

definition undone :: "nat \<Rightarrow> 'a svc_world_scheme \<Rightarrow> bool" where
  "undone n w \<longleftrightarrow> (\<forall>i c. n \<le> i \<longrightarrow> i < length (calls w) \<longrightarrow> calls w ! i = Register c \<longrightarrow> rc_of w (take (Suc i) (calls w)) = 0 \<longrightarrow>
     (\<exists>j > i. j < length (calls w) \<and> calls w ! j = DeleteContent c))"

text \<open>The last thing that happened is that the content storage was asked for and refused.\<close>

definition storage_refused :: "'a svc_world_scheme \<Rightarrow> bool" where
  "storage_refused w \<longleftrightarrow> (\<exists>cs sid. calls w = cs @ [OpenService (Storage sid)]) \<and> rc_of w (calls w) \<noteq> 0"

lemma rollback_undone:
  assumes "grows w w1 regs oks" and "oks \<subseteq> set cids"
  shows "undone (length (calls w)) (rollback sid cids w1) \<or> storage_refused (rollback sid cids w1)"
proof (cases "rc_of w1 (calls w1 @ [OpenService (Storage sid)]) = 0")
  case False
  then show ?thesis by (simp add: storage_refused_def rollback_ext rollback_calls_def)
next
  case opens: True
  let ?w = "rollback sid cids w1" and ?rc = "rollback_calls sid cids w1"
  obtain cs where w1: "w1 = ext w cs" and ok: "ok_regs (length (calls w)) w1 = oks" using assms(1) by (auto simp: grows_def)
  have r: "?rc = OpenService (Storage sid) # map DeleteContent cids @ [CloseService (Storage sid)]"
    using opens by (simp add: rollback_calls_def)
  show ?thesis unfolding undone_def
  proof (intro disjI1 allI impI)
    fix i c
    assume i: "length (calls w) \<le> i" "i < length (calls ?w)" "calls ?w ! i = Register c" "rc_of ?w (take (Suc i) (calls ?w)) = 0"
    have li: "i < length (calls w1)"
    proof (rule ccontr)
      assume "\<not> i < length (calls w1)"
      then have "calls ?w ! i \<in> set ?rc" using i(2) by (simp add: rollback_ext nth_append)
      then show False using i(3) rollback_silent [of sid cids w1] by auto
    qed
    then have "c \<in> ok_regs (length (calls w)) w1" using i by (auto simp: ok_regs_def rollback_ext nth_append)
    then have "c \<in> set cids" using ok assms(2) by blast
    then obtain k where k: "k < length cids" "cids ! k = c" by (auto simp: in_set_conv_nth)
    have "calls ?w ! (length (calls w1) + Suc k) = DeleteContent c"
      using k by (simp add: rollback_ext r nth_append)
    then show "\<exists>j > i. j < length (calls ?w) \<and> calls ?w ! j = DeleteContent c"
      using li k by (intro exI [of _ "length (calls w1) + Suc k"]) (simp add: rollback_ext r)
  qed
qed

lemma install_entries_spec:
  assumes nx: "nx_ok x" and i: "install_entries x rd c es sid verify w r = (res, w', r')"
  shows "\<exists>regs oks. grows w w' regs oks \<and> regs_hashed verify regs \<and>
    (res_ok res \<longrightarrow> laid_out c es \<longrightarrow> (\<forall>rest. byte_source rd rest \<longrightarrow> regs = contents_of c (rest r) es)) \<and>
    (\<not> res_ok res \<longrightarrow> undone (length (calls w)) w' \<or> storage_refused w')"
proof -
  let ?o = "[OpenService (Storage sid)]" and ?cl = "[CloseService (Storage sid)]"
  show ?thesis
  proof (cases "rc_of w (calls w @ ?o) \<noteq> 0")
    case True
    then have "w' = ext w ?o" "\<not> res_ok res"
      using i by (auto simp: install_entries_def svc_do_ext failed_def)
    moreover from this have "undone (length (calls w)) w'" by (auto simp: undone_def nth_append)
    ultimately show ?thesis using grows_silent [of ?o w] by (intro exI [of _ "[]"] exI [of _ "{}"]) (simp add: regs_hashed_def)
  next
    case False
    obtain f p w1 r1 where el: "entries_loop x rd verify es (empty_progress c) (ext w ?o) r = (f, p, w1, r1)" using prod_cases4 by blast
    from entries_loop_spec [OF nx el] obtain regs ys where e: "grows (ext w ?o) w1 regs (set ys)" "written p = ys" "regs_hashed verify regs"
      "f = None \<longrightarrow> laid_out c es \<longrightarrow> (\<forall>rest. byte_source rd rest \<longrightarrow> regs = contents_of c (rest r) es)"
      by (auto simp: empty_progress_def)
    have g1: "grows w w1 regs (set ys)" using silent_then_grows [OF _ e(1)] by simp
    define mw where "mw = (case f of Some f \<Rightarrow> (Inl f, w1)
       | None \<Rightarrow> if cnmt_nca_size p = 0 then (Inl (400, ''no cnmt.nca in NSP''), w1)
                 else case read_cnmt x (meta_cid p) w1 of (Inl e, w) \<Rightarrow> (Inl (400, ''cnmt: '' @ e), w) | (Inr m, w) \<Rightarrow> (Inr m, w))"
    obtain m w2 where mw2: "mw = (m, w2)" by fastforce
    have "w2 = w1 \<or> w2 = snd (read_cnmt x (meta_cid p) w1)" using mw2 by (auto simp: mw_def split: option.splits if_splits prod.splits sum.splits)
    then have g2: "grows w (ext w2 ?cl) regs (set ys)"
      using g1 grows_trans [OF g1 read_cnmt_silent] by (intro grows_then_silent) auto
    have mf: "m = Inr a \<Longrightarrow> f = None" for a using mw2 by (auto simp: mw_def split: option.splits)
    note step = i [unfolded install_entries_def svc_do_ext Let_def prod.case, simplified False if_False, unfolded el prod.case, folded mw_def, unfolded mw2 prod.case svc_run_ext]
    show ?thesis
    proof (cases m)
      case (Inl q)
      then have w': "w' = rollback sid ys (ext w2 ?cl)" "\<not> res_ok res" using step e(2) by (auto simp: failed_def)
      have "grows w w' regs (set ys)" unfolding w'(1) rollback_ext using g2 rollback_silent by (rule grows_then_silent)
      then show ?thesis using w' e(3) rollback_undone [OF g2, of ys sid] by blast
    next
      case (Inr a)
      obtain q w3 where rt: "register_title x sid p a (ext w2 ?cl) = (q, w3)" by fastforce
      have g3: "grows w w3 regs (set ys)" using grows_trans [OF g2 register_title_silent [of _ x sid p a]] rt by simp
      show ?thesis
      proof (cases q)
        case None
        then have "w' = w3" "res_ok res" using step Inr rt by (auto simp: installed_def)
        then show ?thesis using g3 e(3,4) mf [OF Inr] by blast
      next
        case (Some b)
        then have w': "w' = rollback sid ys w3" "\<not> res_ok res" using step Inr rt e(2) by (auto simp: failed_def)
        have "grows w w' regs (set ys)" unfolding w'(1) rollback_ext using g3 rollback_silent by (rule grows_then_silent)
        then show ?thesis using w' e(3) rollback_undone [OF g3, of ys sid] by blast
      qed
    qed
  qed
qed

section \<open>The containers\<close>

definition on_stream :: "(InstallResult \<times> 'a svc_world_scheme \<times> 'r) \<Rightarrow> 'a svc_world_scheme \<Rightarrow> bool \<Rightarrow> bool" where
  "on_stream out w verify \<longleftrightarrow> (case out of (res, w', r') \<Rightarrow>
     \<exists>regs oks. grows w w' regs oks \<and> regs_hashed verify regs \<and> (\<not> res_ok res \<longrightarrow> undone (length (calls w)) w' \<or> storage_refused w'))"

lemma undone_refl [simp]: "undone (length (calls w)) w"
  by (simp add: undone_def)

lemma on_stream_failed: "on_stream (failed f, w, r) w v"
  by (auto simp: on_stream_def regs_hashed_def intro!: exI [of _ "[]"] exI [of _ "{}"])

lemma on_stream_entries: "nx_ok x \<Longrightarrow> on_stream (install_entries x rd c es sid v w r) w v"
  unfolding on_stream_def using install_entries_spec by (cases "install_entries x rd c es sid v w r") fastforce

lemma install_nsp_stream: "nx_ok x \<Longrightarrow> on_stream (install_nsp x rd sid pre c w r) w True"
  by (auto simp: install_nsp_def on_stream_failed on_stream_entries split: prod.split sum.split)

lemma install_xci_stream: "nx_ok x \<Longrightarrow> on_stream (install_xci x rd sid root pre c w r) w False"
  by (auto simp: install_xci_def on_stream_failed on_stream_entries Let_def split: prod.split sum.split option.split)

lemma install_stream_spec:
  assumes "nx_ok x" and "install_stream x rd st w r = (res, w', r')"
  shows "\<exists>regs oks. grows w w' regs oks \<and> (fst (container_detect (fst (peek_loop rd [] r))) \<noteq> CONTAINER_XCI \<longrightarrow> regs_hashed True regs) \<and>
    (\<not> res_ok res \<longrightarrow> undone (length (calls w)) w' \<or> storage_refused w')"
proof -
  obtain pre r1 where p: "peek_loop rd [] r = (pre, r1)" by fastforce
  obtain k root where k: "container_detect pre = (k, root)" by fastforce
  let ?sid = "if st = INSTALL_STORAGE_NAND then BuiltInUser else SdCard"
  consider f where "install_stream x rd st w r = (failed f, w, r) \<or> install_stream x rd st w r = (failed f, w, r1)"
    | "k = CONTAINER_NSP" "install_stream x rd st w r = install_nsp x rd ?sid pre 0 w r1"
    | "k = CONTAINER_XCI" "install_stream x rd st w r = install_xci x rd ?sid root pre 0 w r1"
  proof -
    have e: "install_stream x rd st w r = (if \<not> g_ncm_ok w \<or> \<not> g_ns_ok w then (failed (500, ''install services unavailable''), w, r)
        else case k of CONTAINER_NSP \<Rightarrow> install_nsp x rd ?sid pre 0 w r1 | CONTAINER_XCI \<Rightarrow> install_xci x rd ?sid root pre 0 w r1
          | CONTAINER_UNKNOWN \<Rightarrow> (failed (400, ''unrecognized container (need NSP/PFS0 or XCI)''), w, r1))"
      unfolding install_stream_def p Let_def prod.case k by (simp split: ContainerKind.split)
    show thesis
    proof (cases "g_ncm_ok w \<and> g_ns_ok w")
      case False
      then show thesis using that(1) [of "(500, ''install services unavailable'')"] e by auto
    next
      case True
      then show thesis using that(1) [of "(400, ''unrecognized container (need NSP/PFS0 or XCI)'')"] that(2,3) e by (cases k) auto
    qed
  qed
  then have "\<exists>v. on_stream (res, w', r') w v \<and> (k \<noteq> CONTAINER_XCI \<longrightarrow> v)"
  proof cases
    case 1
    then show ?thesis using assms(2) on_stream_failed [of f w r True] on_stream_failed [of f w r1 True] by auto
  next
    case 2
    then show ?thesis using assms(2) install_nsp_stream [OF assms(1), of rd ?sid pre 0 w r1] by auto
  next
    case 3
    then show ?thesis using assms(2) install_xci_stream [OF assms(1), of rd ?sid root pre 0 w r1] by auto
  qed
  then obtain v where "on_stream (res, w', r') w v" "k \<noteq> CONTAINER_XCI \<longrightarrow> v" by blast
  then show ?thesis unfolding on_stream_def prod.case p fst_conv k by (cases v; simp; blast)
qed

lemma grows_registrations: "grows w w' regs oks \<Longrightarrow> calls w = [] \<Longrightarrow> registrations (calls w') = regs"
  by (auto simp: grows_def registrations_def)

section \<open>The sort of the entries\<close>

lemma shift_in_place_mset: "mset (shift_in_place k es) = add_mset k (mset es)"
  by (induction es) auto

lemma shift_in_place_sorted:
  "sorted (map fs_offset (rev es)) \<Longrightarrow> sorted (map fs_offset (rev (shift_in_place k es)))"
proof (induction es)
  case (Cons e es)
  have m: "set (shift_in_place k es) = insert k (set es)" using shift_in_place_mset [of k es] by (metis set_mset_add_mset_insert set_mset_mset)
  from Cons show ?case by (auto simp: sorted_append m)
qed simp

lemma shift_in_place_stable:
  "sorted (map fs_offset (rev es)) \<Longrightarrow> filter (\<lambda>e. fs_offset e = v) (shift_in_place k es) =
    (if fs_offset k = v then k # filter (\<lambda>e. fs_offset e = v) es else filter (\<lambda>e. fs_offset e = v) es)"
proof (induction es)
  case (Cons e es)
  then show ?case by (auto simp: sorted_append filter_empty_conv)
qed simp

lemma sort_entries_eq: "sort_entries es = sort_key fs_offset es"
proof -
  define out where "out = foldl (\<lambda>done_part k. shift_in_place k done_part) [] es"
  have "mset out = mset es \<and> sorted (map fs_offset (rev out)) \<and>
    (\<forall>v. filter (\<lambda>e. fs_offset e = v) (rev out) = filter (\<lambda>e. fs_offset e = v) es)"
    unfolding out_def
  proof (induction es rule: rev_induct)
    case (snoc k es)
    let ?o = "foldl (\<lambda>done_part k. shift_in_place k done_part) [] es"
    have "sorted (map fs_offset (rev ?o))" using snoc by blast
    note st = shift_in_place_stable [OF this, of _ k] and so = shift_in_place_sorted [OF this, of k]
    have "filter (\<lambda>e. fs_offset e = v) (rev (shift_in_place k ?o)) = filter (\<lambda>e. fs_offset e = v) (es @ [k])" for v
      using snoc st [of v] by (simp add: rev_filter [symmetric])
    then show ?case using snoc so shift_in_place_mset [of k ?o] by simp
  qed simp
  then have "sort_key fs_offset es = rev out"
    by (intro properties_for_sort_key) (auto simp: eq_commute)
  then show ?thesis by (simp add: sort_entries_def out_def)
qed

section \<open>Where the contents come from\<close>

definition table_at :: "FsFormat \<Rightarrow> u8 list \<Rightarrow> nat \<Rightarrow> string + FsEntry list \<times> nat" where
  "table_at f s at = fs_parse_header f (take (fs_header_size f (drop at s)) (drop at s)) MAX_FILES"

lemma rd_u32_take: "4 \<le> n \<Longrightarrow> rd_u32 (take n b) = rd_u32 b"
  by (simp add: rd_u32_def)

lemma fs_header_size_take: "fs_header_size f (take 16 b) = fs_header_size f b"
  by (simp add: fs_header_size_def rd_u32_take drop_take)

context byte_source
begin

lemma read_fs_table_bytes:
  assumes "read_fs_table rd at f m pre c r = (Inr (es, k), pre', c', r')" and "pre @ rest r = drop c s"
  defines "p \<equiv> if m_skip m = None then c else max c at"
  shows "table_at f s p = Inr (es, k) \<and> c' = p + k \<and> pre' @ rest r' = drop (p + k) s \<and> pre' = drop (p + k - c) pre"
proof -
  obtain found pre1 c1 r1 where sk: "(if m_skip m = None then (True, pre, c, r) else skip_to rd at pre c r) = (found, pre1, c1, r1)" using prod_cases4 by blast
  have found: "found" using assms(1) sk by (auto simp: read_fs_table_def Let_def split: if_splits)
  have s1: "pre1 @ rest r1 = drop p s" "c1 = p" "pre1 = drop (p - c) pre"
  proof -
    have "pre1 @ rest r1 = drop p s \<and> c1 = p \<and> pre1 = drop (p - c) pre"
    proof (cases "m_skip m = None")
      case True
      then show ?thesis using sk assms(2) by (simp add: p_def)
    next
      case False
      then have "skip_to rd at pre c r = (True, pre1, c1, r1)" using sk found by (auto split: if_splits)
      note b = skip_to_bytes [OF this]
      have "drop (at - c) (pre @ rest r) = drop (max c at) s" unfolding assms(2) drop_drop by (simp add: max_def)
      moreover have "p = max c at" "p - c = at - c" using False by (simp_all only: p_def if_False)
      ultimately show ?thesis using b by metis
    qed
    then show "pre1 @ rest r1 = drop p s" "c1 = p" "pre1 = drop (p - c) pre" by blast+
  qed
  obtain ho pre2 c2 r2 where h0: "read_exact rd 16 pre1 c1 r1 = (ho, pre2, c2, r2)" using prod_cases4 by blast
  then obtain h where h: "ho = Some h" using assms(1) sk found by (cases ho) (auto simp: read_fs_table_def Let_def)
  note h1 = read_exact_bytes [OF h0 [unfolded h]]
  let ?n = "fs_header_size f h"
  have n: "?n \<noteq> 0" using assms(1) sk found h0 h by (auto simp: read_fs_table_def Let_def split: if_splits)
  obtain to pre3 c3 r3 where t0: "read_exact rd (?n - 16) pre2 c2 r2 = (to, pre3, c3, r3)" using prod_cases4 by blast
  then obtain t where t: "to = Some t" using assms(1) sk found h0 h by (cases to) (auto simp: read_fs_table_def Let_def split: if_splits)
  note t1 = read_exact_bytes [OF t0 [unfolded t]]
  have ph: "fs_parse_header f (h @ t) MAX_FILES = Inr (es, k)" "pre' = pre3" "c' = c3" "r' = r3"
    using assms(1) sk found h0 h t0 t by (auto simp: read_fs_table_def Let_def split: if_splits sum.splits)
  have hs: "h = take 16 (drop p s)" using h1 unfolding s1(1) by blast
  have n16: "16 \<le> ?n" using n by (auto simp: fs_header_size_def Let_def split: if_splits)
  have nh: "?n = fs_header_size f (drop p s)" unfolding hs by (rule fs_header_size_take)
  have d2: "pre2 @ rest r2 = drop 16 (drop p s)" using h1 unfolding s1(1) by blast
  have "t = take (?n - 16) (drop 16 (drop p s))" using t1 unfolding d2 by blast
  then have ht: "h @ t = take ?n (drop p s)" using n16 unfolding hs by (metis le_add_diff_inverse take_add)
  have h2: "length h = 16" "c2 = c1 + 16" "pre2 = drop 16 pre1" using h1 by blast+
  have t2: "length t = ?n - 16" "pre3 @ rest r3 = drop (?n - 16) (pre2 @ rest r2)" "c3 = c2 + (?n - 16)" "pre3 = drop (?n - 16) pre2" using t1 by blast+
  have "fs_header_size f (h @ t) = ?n"
  proof -
    have "take 16 (h @ t) = take 16 h" using h2(1) by simp
    then show ?thesis using fs_header_size_take [of f "h @ t"] fs_header_size_take [of f h] by (simp only:)
  qed
  then have k: "k = ?n" using parse_header_ok(3) [OF ph(1)] by simp
  have "?n - 16 + 16 = ?n" using n16 by simp
  then have "pre3 @ rest r3 = drop (p + ?n) s" unfolding t2(2) d2 drop_drop by (simp add: add.commute)
  moreover have "c3 = p + ?n" using t2(3) h2(2) s1(2) n16 by simp
  moreover have "pre3 = drop (p + ?n - c) pre"
  proof -
    have "c \<le> p" by (simp add: p_def)
    then have "?n - 16 + (16 + (p - c)) = p + ?n - c" using n16 by simp
    then show ?thesis unfolding t2(4) h2(3) s1(3) drop_drop by (simp only:)
  qed
  ultimately show ?thesis using ph ht nh k by (simp add: table_at_def)
qed

lemma peek_loop_bytes:
  assumes "peek_loop rd got r = (pre, r')" and "length got \<le> PREFIX_SIZE"
  shows "pre @ rest r' = got @ rest r \<and> length pre \<le> PREFIX_SIZE"
  using assms
proof (induction "PREFIX_SIZE - length got" arbitrary: got r rule: less_induct)
  case less
  obtain x r1 where x: "rd (PREFIX_SIZE - length got) r = (x, r1)" by fastforce
  show ?case
  proof (cases "length got < PREFIX_SIZE \<and> (\<exists>d. x = Some d \<and> d \<noteq> [])")
    case True
    then obtain d where d: "x = Some d" "d \<noteq> []" by blast
    with less.prems True x have p: "peek_loop rd (got @ d) r1 = (pre, r')" by (simp add: peek_loop.simps [of rd got])
    from next_bytes [OF x [unfolded d(1)]] have n: "rest r = d @ rest r1" "length d \<le> PREFIX_SIZE - length got" by auto
    have "PREFIX_SIZE - length (got @ d) < PREFIX_SIZE - length got" using True d(2) by (auto intro!: diff_less_mono2)
    from less.hyps [OF this p] n True show ?thesis by auto
  next
    case False
    then have "pre = got" "r' = r \<or> x = None \<and> r' = r1 \<or> x = Some [] \<and> r' = r1"
      using less.prems x by (auto simp: peek_loop.simps [of rd got] split: option.splits if_splits)
    moreover have "rest r1 = rest r" if "x = None \<or> x = Some []" using that no_bytes [of "PREFIX_SIZE - length got" r r1] next_bytes [of _ r "[]" r1] x by auto
    ultimately show ?thesis using less.prems(2) by auto
  qed
qed

lemma install_nsp_bytes:
  assumes nx: "nx_ok x" and i: "install_nsp x rd sid pre 0 w r = (res, w', r')" and ok: "res_ok res" and emp: "calls w = []"
    and s: "pre @ rest r = s"
  shows "\<exists>es k. table_at kPfs0 s 0 = Inr (es, k) \<and> (laid_out k (map (shift_offset k) es) \<longrightarrow>
    registrations (calls w') = contents_of k (drop (max k (length pre)) s) (map (shift_offset k) es))"
proof -
  obtain t pre1 c1 r1 where t: "read_fs_table rd 0 kPfs0 nsp_msgs pre 0 r = (t, pre1, c1, r1)" using prod_cases4 by blast
  have "\<exists>es k. t = Inr (es, k)" using i ok t by (cases t) (auto simp: install_nsp_def failed_def)
  then obtain es k where e: "t = Inr (es, k)" by blast
  have "pre @ rest r = drop 0 s" using s by simp
  from read_fs_table_bytes [OF t [unfolded e] this] have b: "table_at kPfs0 s 0 = Inr (es, k)" "c1 = k"
    "pre1 @ rest r1 = drop k s" "pre1 = drop k pre" by (auto simp: nsp_msgs_def)
  have "rest r1 = drop (length pre1) (drop k s)" using b(3) by (metis append_eq_conv_conj)
  then have r1: "rest r1 = drop (max k (length pre)) s" using b(4) by (simp add: max_def)
  have "install_entries x rd k (map (shift_offset k) es) sid True w r1 = (res, w', r')" using i t e b(2) by (simp add: install_nsp_def)
  from install_entries_spec [OF nx this] ok obtain regs oks where g: "grows w w' regs oks"
    "laid_out k (map (shift_offset k) es) \<longrightarrow> regs = contents_of k (rest r1) (map (shift_offset k) es)"
    using byte_source_axioms by blast
  then show ?thesis using b(1) grows_registrations [OF g(1) emp] r1 by metis
qed

lemma install_xci_bytes:
  assumes nx: "nx_ok x" and i: "install_xci x rd sid root pre 0 w r = (res, w', r')" and ok: "res_ok res" and emp: "calls w = []"
    and s: "pre @ rest r = s" and long: "length pre \<le> root"
    and root: "table_at kHfs0 s root = Inr (parts, rdata)" and sec: "find (\<lambda>e. strcaseeq (fs_name e) ''secure'') parts = Some e"
    and fits: "root + rdata + fs_offset e < 2 ^ 64" and table: "table_at kHfs0 s (root + rdata + fs_offset e) = Inr (es, sdata)"
  defines "base \<equiv> root + rdata + fs_offset e + sdata"
  defines "ps \<equiv> sort_key fs_offset (map (shift_offset (w64 base)) es)"
  assumes lay: "laid_out base ps"
  shows "registrations (calls w') = contents_of 0 s ps"
proof -
  let ?sec = "root + rdata + fs_offset e"
  obtain t pre1 c1 r1 where t: "read_fs_table rd root kHfs0 root_msgs pre 0 r = (t, pre1, c1, r1)" using prod_cases4 by blast
  have "\<exists>a. t = Inr a" using i ok t by (cases t) (auto simp: install_xci_def failed_def)
  then obtain parts1 rdata1 where e: "t = Inr (parts1, rdata1)" by auto
  have "pre @ rest r = drop 0 s" using s by simp
  from read_fs_table_bytes [OF t [unfolded e] this] root have b: "parts1 = parts" "rdata1 = rdata" "c1 = root + rdata"
    "pre1 @ rest r1 = drop (root + rdata) s" "pre1 = drop (root + rdata) pre" by (auto simp: root_msgs_def)
  have p1: "pre1 = []" using b(5) long by simp
  have w: "w64 ?sec = ?sec" using fits by (simp add: w64_def)
  obtain t2 pre2 c2 r2 where t2: "read_fs_table rd ?sec kHfs0 secure_msgs pre1 c1 r1 = (t2, pre2, c2, r2)" using prod_cases4 by blast
  have "\<exists>a. t2 = Inr a" using i ok t e t2 b(1,2) sec w by (cases t2) (auto simp: install_xci_def Let_def failed_def)
  then obtain es1 sdata1 where e2: "t2 = Inr (es1, sdata1)" by auto
  have "pre1 @ rest r1 = drop c1 s" using b(3,4) by simp
  from read_fs_table_bytes [OF t2 [unfolded e2] this] table b(3) have b2: "es1 = es" "sdata1 = sdata" "c2 = base"
    "pre2 @ rest r2 = drop base s" "pre2 = []" using p1 by (auto simp: secure_msgs_def base_def)
  have "install_entries x rd base ps sid False w r2 = (res, w', r')"
    using i t e t2 e2 b(1,2) b2(1,2,3) sec w by (simp add: install_xci_def Let_def sort_entries_eq ps_def base_def)
  from install_entries_spec [OF nx this] ok obtain regs oks where g: "grows w w' regs oks"
    "laid_out base ps \<longrightarrow> regs = contents_of base (rest r2) ps"
    using byte_source_axioms by blast
  have "regs = contents_of base (drop (base - 0) s) ps" using g(2) lay b2(4,5) by simp
  then show ?thesis using grows_registrations [OF g(1) emp] contents_of_shift [OF lay, of 0 s] by simp
qed

end

lemma io_recv_none: "io_recv len c = (None, c') \<Longrightarrow> rx_stream (rx c') = rx_stream (rx c)"
proof (induction len c rule: io_recv.induct)
  case (1 len c)
  show ?case
  proof (cases "rx c")
    case Nil
    with 1 show ?thesis by (simp add: io_recv.simps)
  next
    case (Cons e r)
    have w: "rx (snd (io_wait (c\<lparr>rx := r\<rparr>))) = r" by (simp add: io_wait_def split: prod.splits)
    obtain ok c1 where io: "io_wait (c\<lparr>rx := r\<rparr>) = (ok, c1)" by fastforce
    show ?thesis
    proof (cases e)
      case (RecvData d)
      with 1 Cons show ?thesis by (simp add: io_recv.simps split: if_splits)
    next
      case RecvIntr
      then have "io_recv len (c\<lparr>rx := r\<rparr>) = (None, c')" using "1.prems" Cons by (simp add: io_recv.simps [of len c])
      from "1.IH"(1) [OF Cons RecvIntr this] show ?thesis using Cons RecvIntr by simp
    next
      case RecvAgain
      show ?thesis
      proof (cases ok)
        case True
        then have "io_recv len c1 = (None, c')" using "1.prems" Cons RecvAgain io by (simp add: io_recv.simps [of len c])
        from "1.IH"(2) [OF Cons RecvAgain io [symmetric] refl _ this] True show ?thesis using Cons RecvAgain w io by simp
      next
        case False
        then show ?thesis using "1.prems" Cons RecvAgain io w by (simp add: io_recv.simps [of len c])
      qed
    next
      case RecvErr
      with 1 Cons show ?thesis by (simp add: io_recv.simps)
    qed
  qed
qed

lemma http_read_body_none: "http_read_body n r = (None, r') \<Longrightarrow> body_stream r' = body_stream r"
  using send_continue_keeps [of r] io_recv_none
  by (fastforce simp: http_read_body_def body_stream_def Let_def split: if_splits prod.splits option.splits)

interpretation http_body: byte_source install_body_read "\<lambda>r. map byte (body_stream r)"
proof
  fix n r d and r' :: HttpRequest
  assume "install_body_read n r = (Some d, r')"
  then obtain b where b: "http_read_body n r = (Some b, r')" "d = map byte b" by (auto simp: install_body_read_def split: prod.splits option.splits)
  from http_read_body_stream(1,3) [OF b(1)] b(2) show "map byte (body_stream r) = d @ map byte (body_stream r') \<and> length d \<le> n" by simp
next
  fix n r and r' :: HttpRequest
  assume "install_body_read n r = (None, r')"
  then have "http_read_body n r = (None, r')" by (auto simp: install_body_read_def split: prod.splits option.splits)
  from http_read_body_none [OF this] show "map byte (body_stream r') = map byte (body_stream r)" by simp
qed

text \<open>The names the installer expects: the id in hexadecimal, then the extension.\<close>

lemma hex_char_xdigit: "i < 16 \<Longrightarrow> is_xdigit (hex_char i) \<and> xdigit_val (hex_char i) = i"
  by (simp add: hex_char_digit xdigit_val_digit) (auto simp: digit_def is_xdigit_def is_digit_def between_def ord_chr)

lemma hex_pair_digits: "hex_pair (hex_char (unat (drop_bit 4 b))) (hex_char (unat (b AND 0xF))) = Some (b :: u8)"
  using nibbles [of b] hex_char_xdigit by (simp add: hex_pair_def)

lemma hex_pairs_encode: "hex_pairs (hex_encode bs) = Some bs"
  by (induction bs) (simp_all add: hex_pair_digits)

lemma hex_encode_xdigits: "c \<in> set (hex_encode bs) \<Longrightarrow> is_xdigit c"
  by (induction bs) (use nibbles hex_char_xdigit in auto)

lemma content_id_of_hex:
  assumes "length c = 16"
  shows "content_id_from_name (hex_encode c @ CHR ''.'' # s) = Some c"
proof -
  have "\<forall>x \<in> set (hex_encode c). x \<noteq> CHR ''.''"
  proof
    fix x
    assume "x \<in> set (hex_encode c)"
    then have "is_xdigit x" by (rule hex_encode_xdigits)
    then show "x \<noteq> CHR ''.''" by (auto simp: is_xdigit_def is_digit_def between_def)
  qed
  then have "takeWhile (\<lambda>x. x \<noteq> CHR ''.'') (hex_encode c @ CHR ''.'' # s) = hex_encode c" by (subst takeWhile_append2) auto
  moreover have "length (hex_encode c) = 32" using assms by (simp add: length_hex_encode)
  ultimately show ?thesis by (simp add: content_id_from_name_def hex_pairs_encode Let_def)
qed

text \<open>Other names are taken too: blanks and signs count as digits do.\<close>

lemma odd_name_accepted:
  "content_id_from_name ''-1+2 3445566778899aabbccddeeff00.nca'' =
     Some [0xFF, 0x02, 0x03, 0x44, 0x55, 0x66, 0x77, 0x88, 0x99, 0xAA, 0xBB, 0xCC, 0xDD, 0xEE, 0xFF, 0x00]"
  by code_simp

text \<open>
  C8: when the entries follow one another in the stream and the install succeeds, what was registered is exactly the
  contents among them, in their order, each under the id its name spells and with the bytes the stream holds at its
  place, however the stream is cut into reads.
\<close>

theorem contents_installed_in_place:
  assumes "nx_ok x" and "byte_source rd rest" and "laid_out c es" and "calls w = []"
    and "install_entries x rd c es sid verify w r = (res, w', r')" and "res_ok res"
  shows "registrations (calls w') = contents_of c (rest r) es"
  using install_entries_spec [OF assms(1,5)] assms grows_registrations by blast

definition demo_nx :: nx where
  "demo_nx = \<lparr>IoError = 1, BadInput = 2, pci_size = 56, pci_info = drop 32, pci_is_delta = (\<lambda>b. b ! 54 = 6),
     enc_meta_header = (\<lambda>e n m a. []), enc_meta_info = (\<lambda>c n. c), MetaType_Patch = 0x81, MetaType_AddOnContent = 0x82\<rparr>"

definition demo_services :: svc_world where
  "demo_services = \<lparr>calls = [], rc_of = (\<lambda>cs. 0), dir_of = (\<lambda>cs. [''a.cnmt'']), size_of = (\<lambda>cs. 32), data_of = (\<lambda>cs. replicate 32 0),
     records_of = (\<lambda>cs. []), count_of = (\<lambda>cs. 0), g_ncm_ok = True, g_ns_ok = True, g_es_ok = True\<rparr>"

definition demo_nca :: "u8 list" where "demo_nca = [1, 2, 3, 4]"

definition demo_title :: FsEntry where
  "demo_title = \<lparr>fs_name = hex_encode (take 16 (sha256_spec demo_nca)) @ ''.cnmt.nca'', fs_offset = 2, fs_size = 4\<rparr>"

definition list_reader :: "u8 list reader" where
  "list_reader n s = (Some (take (min n 3) s), drop (min n 3) s)"

lemma list_reader_source: "byte_source list_reader (\<lambda>s. s)"
  by unfold_locales (auto simp: list_reader_def)

theorem contents_installed_in_place_witness:
  "\<exists>res w' r'. install_entries demo_nx list_reader 1 [demo_title] SdCard True demo_services (0 # demo_nca) = (res, w', r') \<and>
    registrations (calls w') = [(take 16 (sha256_spec demo_nca), demo_nca)]"
proof -
  let ?cid = "take 16 (sha256_spec demo_nca)"
  have "length (sha256_spec demo_nca) = 32" by (simp add: sha256_spec_def length_digest)
  then have l: "length ?cid = 16" unfolding length_take by linarith
  have id: "content_id_from_name (fs_name demo_title) = Some ?cid"
    using content_id_of_hex [OF l, of "''cnmt.nca''"] by (simp add: demo_title_def)
  have "length (hex_encode ?cid) = 32" unfolding length_hex_encode l by simp
  then have cn: "is_cnmt (fs_name demo_title)" by (simp add: is_cnmt_def demo_title_def strcaseeq_def)
  have e: "fs_offset demo_title = 2" "fs_size demo_title = 4" by (simp_all add: demo_title_def)
  have dig: "ctx_final (ctx_update (ctx_init (replicate 64 0)) demo_nca) = sha256_spec demo_nca"
    using sha256_stream_correct [of "replicate 64 0" "[demo_nca]"] by simp
  obtain res w' r' where i: "install_entries demo_nx list_reader 1 [demo_title] SdCard True demo_services (0 # demo_nca) = (res, w', r')"
    using prod_cases3 by blast
  have rc: "rc_of demo_services = (\<lambda>cs. 0)" by (simp add: demo_services_def)
  have sk: "skip_to list_reader 2 [] (Suc 0) (0 # demo_nca) = (True, [], 2, demo_nca)"
    by (simp add: skip_to_def skip_peeked_eq skip_stream.simps list_reader_def INSTALL_CHUNK_def)
  have re: "read_exact list_reader 4 [] 2 demo_nca = (Some demo_nca, [], 6, [])"
    by (simp add: read_exact_def read_loop.simps list_reader_def demo_nca_def)
  have n: "length demo_nca = 4" "demo_nca \<noteq> []" by (simp_all add: demo_nca_def)
  have "\<exists>cs. write_content demo_nx list_reader ?cid 4 demo_nca True w [] = (0, ext w cs, [])" if "rc_of w = (\<lambda>cs. 0)" for w :: svc_world
    using that n dig by (auto simp: write_content_def fill_placeholder_def svc_do_ext svc_run_ext Let_def write_loop.simps)
  then obtain cs where wc: "write_content demo_nx list_reader ?cid 4 demo_nca True (ext demo_services [OpenService (Storage SdCard)]) [] =
      (0, ext demo_services cs, [])" using rc by (metis ext_simps(2,4))
  have h: "parse_cnmt demo_nx (replicate 32 0) = Inr (meta_header_at (replicate 32 0), [], [])" by code_simp
  have f: "find_cnmt [''a.cnmt''] = Some ''/a.cnmt''" by code_simp
  have d: "dir_of (ext demo_services cs) = (\<lambda>cs. [''a.cnmt''])" "size_of (ext demo_services cs) = (\<lambda>cs. 32)"
    "data_of (ext demo_services cs) = (\<lambda>cs. replicate 32 0)" for cs by (simp_all add: ext_def demo_services_def)
  have "\<exists>cs'. read_cnmt demo_nx ?cid (ext demo_services cs) = (Inr (meta_header_at (replicate 32 0), [], []), ext demo_services cs')" for cs
    by (simp add: read_cnmt_def svc_do_ext svc_run_ext rc d f h) (rule exI, rule refl)
  then obtain cs2 where rd: "read_cnmt demo_nx ?cid (ext demo_services cs) = (Inr (meta_header_at (replicate 32 0), [], []), ext demo_services cs2)" by blast
  have rt: "fst (register_title demo_nx SdCard p m (ext demo_services cs)) = None" for p m cs
    by (cases m) (simp add: register_title_def set_content_meta_def push_record_def svc_do_ext svc_run_ext rc Let_def)
  obtain p where el: "entries_loop demo_nx list_reader True [demo_title] (empty_progress 1) (ext demo_services [OpenService (Storage SdCard)]) (0 # demo_nca) =
      (None, p, ext demo_services cs, [])" and p: "meta_cid p = ?cid" "cnmt_nca_size p = 4"
    by (simp add: install_entry_def empty_progress_def e sk cn store_meta_def re id wc Let_def)
  obtain w9 where w9: "register_title demo_nx SdCard p (meta_header_at (replicate 32 0), [], []) (ext demo_services (cs2 @ [CloseService (Storage SdCard)])) = (None, w9)"
    using rt [of p "(meta_header_at (replicate 32 0), [], [])" "cs2 @ [CloseService (Storage SdCard)]"] by (metis prod.collapse)
  have "fst (install_entries demo_nx list_reader 1 [demo_title] SdCard True demo_services (0 # demo_nca)) = installed (meta_header_at (replicate 32 0))"
    unfolding install_entries_def svc_do_ext rc Let_def prod.case el option.case p rd
    by (simp add: svc_run_ext rd p w9)
  then have "res_ok res" using i by (simp add: installed_def)
  have "nx_ok demo_nx" "laid_out 1 [demo_title]" "calls demo_services = []" by (simp_all add: nx_ok_def demo_nx_def e fits64_def demo_services_def)
  from contents_installed_in_place [OF this(1) list_reader_source this(2,3) i \<open>res_ok res\<close>]
  show ?thesis using i cn id by (auto simp: contents_of_def is_content_def entry_id_def entry_slice_def e demo_nca_def)
qed

section \<open>The two containers, from the request body\<close>

lemma install_stream_kind:
  assumes "install_stream x rd st w r = (res, w', r')" and "res_ok res" and "peek_loop rd [] r = (pre, r1)"
  shows "container_detect pre = (CONTAINER_NSP, k) \<Longrightarrow> \<exists>sid. install_nsp x rd sid pre 0 w r1 = (res, w', r')"
    and "container_detect pre = (CONTAINER_XCI, root) \<Longrightarrow> \<exists>sid. install_xci x rd sid root pre 0 w r1 = (res, w', r')"
  using assms by (auto simp: install_stream_def Let_def failed_def split: if_splits)

text \<open>A game card: the contents of its secure partition, by offset, each from its place in the body.\<close>

lemma xci_contents_in_place:
  assumes nx: "nx_ok x" and i: "install_stream x install_body_read st w r = (res, w', r')" and ok: "res_ok res" and emp: "calls w = []"
    and pk: "peek_loop install_body_read [] r = (pre, r1)" and kind: "container_detect pre = (CONTAINER_XCI, root)"
  defines "s \<equiv> map byte (body_stream r)"
  assumes tab: "table_at kHfs0 s root = Inr (parts, rdata)" and sec: "find (\<lambda>e. strcaseeq (fs_name e) ''secure'') parts = Some e"
    and fits: "root + rdata + fs_offset e < 2 ^ 64" and tab2: "table_at kHfs0 s (root + rdata + fs_offset e) = Inr (es, sdata)"
  defines "base \<equiv> root + rdata + fs_offset e + sdata"
  defines "ps \<equiv> sort_key fs_offset (map (shift_offset (w64 base)) es)"
  assumes lay: "laid_out base ps"
  shows "registrations (calls w') = contents_of 0 s ps"
proof -
  from http_body.peek_loop_bytes [OF pk] have p: "pre @ map byte (body_stream r1) = s" "length pre \<le> PREFIX_SIZE" by (simp_all add: s_def)
  have "PREFIX_SIZE \<le> root" using kind by (auto simp: container_detect_def PREFIX_SIZE_def split: if_splits)
  with p(2) have l: "length pre \<le> root" by simp
  from install_stream_kind(2) [OF i ok pk kind] obtain sid where x: "install_xci x install_body_read sid root pre 0 w r1 = (res, w', r')" by blast
  show ?thesis using http_body.install_xci_bytes [OF nx x ok emp p(1) l tab sec fits tab2] lay unfolding base_def ps_def by blast
qed

text \<open>
  A PFS0 stream: the bytes that were read ahead to recognise it, past its header, are dropped. Each content is taken
  from further down the stream than where it is, by the number of bytes so lost.
\<close>

lemma nsp_contents_come_late:
  assumes nx: "nx_ok x" and i: "install_stream x install_body_read st w r = (res, w', r')" and ok: "res_ok res" and emp: "calls w = []"
    and pk: "peek_loop install_body_read [] r = (pre, r1)" and kind: "container_detect pre = (CONTAINER_NSP, n)"
  defines "s \<equiv> map byte (body_stream r)"
  assumes tab: "table_at kPfs0 s 0 = Inr (es, k)"
  defines "ps \<equiv> map (shift_offset k) es"
  assumes lay: "laid_out k ps"
  shows "registrations (calls w') = map (\<lambda>e. (entry_id e, take (fs_size e) (drop (fs_offset e + (length pre - k)) s))) (filter is_content ps)"
proof -
  from http_body.peek_loop_bytes [OF pk] have p: "pre @ map byte (body_stream r1) = s" by (simp add: s_def)
  from install_stream_kind(1) [OF i ok pk kind] obtain sid where x: "install_nsp x install_body_read sid pre 0 w r1 = (res, w', r')" by blast
  from http_body.install_nsp_bytes [OF nx x ok emp p] tab lay have
    c: "registrations (calls w') = contents_of k (drop (max k (length pre)) s) ps" by (auto simp: ps_def)
  have "entry_slice k (drop (max k (length pre)) s) e = take (fs_size e) (drop (fs_offset e + (length pre - k)) s)" if "e \<in> set ps" for e
  proof -
    have "fs_offset e - k + max k (length pre) = fs_offset e + (length pre - k)" using laid_out_le [OF lay that] by simp
    then show ?thesis by (simp add: entry_slice_def)
  qed
  then show ?thesis unfolding c contents_of_def by auto
qed

text \<open>
  C1: whatever the stream and whatever the services answer, a stream not recognised as a game card has only contents
  registered whose written bytes hash to the id they are registered under; and when an install fails, every content it
  registered with success is handed to the storage for deletion afterwards, unless the storage, opened again for that, is
  refused: then the refused call is the last one made and the contents stay.
\<close>

theorem only_hashed_contents_kept:
  assumes "nx_ok x" and "install_stream x rd st w r = (res, w', r')" and "calls w = []"
  shows "(fst (container_detect (fst (peek_loop rd [] r))) \<noteq> CONTAINER_XCI \<longrightarrow>
      (\<forall>(c, d) \<in> set (registrations (calls w')). take 16 (sha256_spec d) = c)) \<and>
    (\<not> res_ok res \<longrightarrow> undone 0 w' \<or> storage_refused w')"
  using install_stream_spec [OF assms(1,2)] grows_registrations [OF _ assms(3)] assms(3)
  by (fastforce simp: regs_hashed_def)

text \<open>
  A container of one content meta whose string table is padded to the length of the peek, so that the content follows at
  once, on services that hold no meta file in it: the content is written, verified and registered, the install fails when
  the meta is looked for, and the content is deleted again.
\<close>

definition demo_cid :: cid where "demo_cid = take 16 (sha256_spec demo_nca)"

definition demo_entry :: FsEntry where
  "demo_entry = \<lparr>fs_name = hex_encode demo_cid @ ''.cnmt.nca'', fs_offset = 0, fs_size = 4\<rparr>"

definition demo_names :: "u8 list" where
  "demo_names = name_bytes demo_entry @ replicate 4274 0"

definition demo_head :: "u8 list" where
  "demo_head = le32 PFS0_MAGIC @ le32 1 @ le32 4316 @ replicate 4 0 @ entry_bytes kPfs0 0 demo_entry @ demo_names"

definition whole_reader :: "u8 list reader" where
  "whole_reader n s = (Some (take n s), drop n s)"

definition empty_meta :: svc_world where
  "empty_meta = demo_services\<lparr>dir_of := (\<lambda>cs. [])\<rparr>"

lemma demo_cid_16: "length demo_cid = 16"
proof -
  have "length (sha256_spec demo_nca) = 32" by (simp add: sha256_spec_def length_digest)
  then show ?thesis unfolding demo_cid_def length_take by linarith
qed

lemma demo_entry_name: "content_id_from_name (fs_name demo_entry) = Some demo_cid" "is_cnmt (fs_name demo_entry)" "entry_ok demo_entry"
  "length (name_bytes demo_entry) = 42"
proof -
  have h: "length (hex_encode demo_cid) = 32" unfolding length_hex_encode demo_cid_16 by simp
  show "content_id_from_name (fs_name demo_entry) = Some demo_cid"
    using content_id_of_hex [OF demo_cid_16, of "''cnmt.nca''"] by (simp add: demo_entry_def)
  show "is_cnmt (fs_name demo_entry)" "length (name_bytes demo_entry) = 42"
    using h by (simp_all add: is_cnmt_def demo_entry_def strcaseeq_def name_bytes_def)
  have "NUL \<notin> set (hex_encode demo_cid)" using hex_encode_xdigits [of NUL demo_cid] by (auto simp: is_xdigit_def is_digit_def between_def)
  then show "entry_ok demo_entry" using h by (simp add: entry_ok_def demo_entry_def cstr_def)
qed

lemma demo_head_parsed:
  "length demo_head = PREFIX_SIZE" "fs_header_size kPfs0 demo_head = PREFIX_SIZE"
  "fs_parse_header kPfs0 demo_head MAX_FILES = Inr ([demo_entry], PREFIX_SIZE)" "fst (container_detect demo_head) = CONTAINER_NSP"
proof -
  have k: "entry_size kPfs0 = 24" "fs_magic kPfs0 = PFS0_MAGIC" "length (entry_bytes kPfs0 0 demo_entry) = 24"
    by (simp_all add: kPfs0_def length_entry_bytes)
  have nl: "length demo_names = 4316" by (simp add: demo_names_def demo_entry_name)
  show l: "length demo_head = PREFIX_SIZE" by (simp add: demo_head_def k nl PREFIX_SIZE_def)
  have d: "drop 4 demo_head = le32 1 @ drop 8 demo_head" "drop 8 demo_head = le32 4316 @ drop 12 demo_head"
    "drop 16 demo_head = entry_bytes kPfs0 0 demo_entry @ demo_names"
    by (simp_all add: demo_head_def)
  have d40: "drop 40 demo_head = demo_names"
  proof -
    have "drop 40 demo_head = drop 24 (drop 16 demo_head)" by simp
    then show ?thesis unfolding d(3) using k by simp
  qed
  have r: "rd_u32 demo_head = PFS0_MAGIC" "rd_u32 (drop 4 demo_head) = 1" "rd_u32 (drop 8 demo_head) = 4316"
    unfolding d(1,2) rd_u32_le32 by (simp_all add: demo_head_def rd_u32_le32)
  show hs: "fs_header_size kPfs0 demo_head = PREFIX_SIZE" by (simp add: fs_header_size_def r k PREFIX_SIZE_def)
  have "fs_parse_entry (entry_bytes kPfs0 0 demo_entry @ demo_names) demo_names = Inr demo_entry"
    using parse_entry_bytes [OF demo_entry_name(3), of demo_names "[]" "replicate 4274 0" kPfs0 demo_names] nl k by (simp add: demo_names_def)
  then have e: "fs_parse_entries kPfs0 (drop 16 demo_head) (take 4316 demo_names) 1 = Inr [demo_entry]" using nl by (simp add: d(3))
  have l2: "length demo_head = 4356" using l by (simp add: PREFIX_SIZE_def)
  show "fs_parse_header kPfs0 demo_head MAX_FILES = Inr ([demo_entry], PREFIX_SIZE)"
    using e by (simp add: fs_parse_header_def r k l2 d40 MAX_FILES_def PREFIX_SIZE_def)
  show "fst (container_detect demo_head) = CONTAINER_NSP" by (simp add: container_detect_def r l2)
qed

lemma demo_peek: "peek_loop whole_reader [] (demo_head @ demo_nca) = (demo_head, demo_nca)"
proof -
  have p: "0 < PREFIX_SIZE" by (simp add: PREFIX_SIZE_def)
  have ne: "demo_head \<noteq> []" using demo_head_parsed(1) p by auto
  have "peek_loop whole_reader demo_head demo_nca = (demo_head, demo_nca)" by (simp add: peek_loop.simps demo_head_parsed(1))
  then show ?thesis using ne p demo_head_parsed(1) by (subst peek_loop.simps) (simp add: whole_reader_def)
qed

lemma demo_table: "read_fs_table whole_reader 0 kPfs0 nsp_msgs demo_head 0 demo_nca = (Inr ([demo_entry], PREFIX_SIZE), [], PREFIX_SIZE, demo_nca)"
proof -
  have l: "length demo_head = 4356" using demo_head_parsed(1) by (simp add: PREFIX_SIZE_def)
  have a: "read_exact whole_reader 16 demo_head 0 demo_nca = (Some (take 16 demo_head), drop 16 demo_head, 16, demo_nca)"
    by (simp add: read_exact_def l read_loop.simps)
  have b: "read_exact whole_reader 4340 (drop 16 demo_head) 16 demo_nca = (Some (drop 16 demo_head), [], 4356, demo_nca)"
    by (simp add: read_exact_def l read_loop.simps)
  have s: "fs_header_size kPfs0 (take 16 demo_head) = 4356" using demo_head_parsed(2) by (simp add: fs_header_size_take PREFIX_SIZE_def)
  show ?thesis using demo_head_parsed(3) by (simp add: read_fs_table_def nsp_msgs_def a b s HDRBUF_SIZE_def PREFIX_SIZE_def)
qed

definition demo_calls :: "svc list" where
  "demo_calls = [OpenService (Storage SdCard), GeneratePlaceHolder, DeletePlaceHolder, CreatePlaceHolder demo_cid 4,
     WritePlaceHolder 0 demo_nca, DeleteContent demo_cid, Register demo_cid, DeletePlaceHolder]"

lemma demo_loop:
  "\<exists>p. entries_loop demo_nx whole_reader True [shift_offset PREFIX_SIZE demo_entry] (empty_progress PREFIX_SIZE)
     (ext empty_meta [OpenService (Storage SdCard)]) demo_nca = (None, p, ext empty_meta demo_calls, []) \<and>
     written p = [demo_cid] \<and> cnmt_nca_size p = 4"
proof -
  let ?e = "shift_offset PREFIX_SIZE demo_entry"
  have e: "fs_name ?e = fs_name demo_entry" "fs_offset ?e = PREFIX_SIZE" "fs_size ?e = 4"
    by (simp_all add: shift_offset_def demo_entry_def w64_def PREFIX_SIZE_def)
  have n: "length demo_nca = 4" "demo_nca \<noteq> []" by (simp_all add: demo_nca_def)
  have rc: "rc_of empty_meta = (\<lambda>cs. 0)" by (simp add: empty_meta_def demo_services_def)
  have dig: "take 16 (ctx_final (ctx_update (ctx_init (replicate 64 0)) demo_nca)) = demo_cid"
    using sha256_stream_correct [of "replicate 64 0" "[demo_nca]"] by (simp add: demo_cid_def)
  have wc: "write_content demo_nx whole_reader demo_cid 4 demo_nca True (ext empty_meta [OpenService (Storage SdCard)]) [] = (0, ext empty_meta demo_calls, [])"
    using n dig by (simp add: write_content_def fill_placeholder_def svc_do_ext svc_run_ext Let_def write_loop.simps rc demo_calls_def)
  have sk: "skip_to whole_reader PREFIX_SIZE [] PREFIX_SIZE demo_nca = (True, [], PREFIX_SIZE, demo_nca)"
    by (simp add: skip_to_def skip_peeked_eq skip_stream.simps)
  have re: "read_exact whole_reader 4 [] PREFIX_SIZE demo_nca = (Some demo_nca, [], PREFIX_SIZE + 4, [])"
    using n by (simp add: read_exact_def read_loop.simps whole_reader_def)
  show ?thesis
    by (simp add: install_entry_def empty_progress_def e sk demo_entry_name store_meta_def re wc Let_def)
qed

theorem only_hashed_contents_kept_witness:
  "\<exists>res w' r'. install_stream demo_nx whole_reader INSTALL_STORAGE_SD empty_meta (demo_head @ demo_nca) = (res, w', r') \<and>
    res_ok res = False \<and> registrations (calls w') = [(take 16 (sha256_spec demo_nca), demo_nca)] \<and> undone 0 w'"
proof -
  have rc: "rc_of empty_meta = (\<lambda>cs. 0)" "calls empty_meta = []" "dir_of (ext empty_meta cs) = (\<lambda>cs. [])" for cs
    by (simp_all add: empty_meta_def demo_services_def ext_def)
  obtain p where p: "entries_loop demo_nx whole_reader True [shift_offset PREFIX_SIZE demo_entry] (empty_progress PREFIX_SIZE)
      (ext empty_meta [OpenService (Storage SdCard)]) demo_nca = (None, p, ext empty_meta demo_calls, [])"
    "written p = [demo_cid]" "cnmt_nca_size p = 4" using demo_loop by blast
  let ?tail = "[GetPath (meta_cid p), OpenService CnmtFs, OpenService CnmtDir, CloseService CnmtDir, CloseService CnmtFs, CloseService (Storage SdCard),
      OpenService (Storage SdCard), DeleteContent demo_cid, CloseService (Storage SdCard)]"
  have f: "find_cnmt [] = None" by (simp add: find_cnmt_def)
  have up: "g_ncm_ok empty_meta" "g_ns_ok empty_meta" by (simp_all add: empty_meta_def demo_services_def)
  obtain root where cd: "container_detect demo_head = (CONTAINER_NSP, root)" using demo_head_parsed(4) by (metis prod.collapse)
  have ie: "install_entries demo_nx whole_reader PREFIX_SIZE [shift_offset PREFIX_SIZE demo_entry] SdCard True empty_meta demo_nca =
      (failed (400, ''cnmt: no .cnmt in meta nca''), ext empty_meta (demo_calls @ ?tail), [])"
    unfolding install_entries_def svc_do_ext rc Let_def prod.case p
    by (simp add: read_cnmt_def svc_do_ext svc_run_ext rc f rollback_ext rollback_calls_def p)
  have i: "install_stream demo_nx whole_reader INSTALL_STORAGE_SD empty_meta (demo_head @ demo_nca) =
      (failed (400, ''cnmt: no .cnmt in meta nca''), ext empty_meta (demo_calls @ ?tail), [])"
    unfolding install_stream_def Let_def demo_peek prod.case cd using up by (simp add: install_nsp_def demo_table ie)
  have r: "registrations (calls (ext empty_meta (demo_calls @ ?tail))) = [(demo_cid, demo_nca)]"
    by (simp add: registrations_def rc demo_calls_def overwrite_def)
  have nf: "\<not> storage_refused (ext empty_meta (demo_calls @ ?tail))" by (simp add: storage_refused_def rc)
  have "nx_ok demo_nx" by (simp add: nx_ok_def demo_nx_def)
  from only_hashed_contents_kept [OF this i rc(2)] i r nf show ?thesis by (simp add: failed_def demo_cid_def)
qed

end
