(* ===== verification/Keyboard.thy ===== *)
theory Keyboard
  imports Http
begin

text \<open>
  \<open>source/features/input/keyboard.c\<close> and \<open>buttons.c\<close>: UTF-8 text to the key presses that type it on the console's
  layout, and button names to masks. A code point is an unbounded number (the decoder yields at most 21 bits), a HID
  usage too; \<open>KeyEntry\<close> keeps the dead-key follow-up \<open>then\<close> as \<open>e_then\<close>, 0 for none.
\<close>

section \<open>Tables\<close>

definition KEYBOARD_TEXT_MAX :: nat where "KEYBOARD_TEXT_MAX = 256"

definition KEYBOARD_LAYOUT_ENGLISH_US :: int where "KEYBOARD_LAYOUT_ENGLISH_US = 1"
definition KEYBOARD_LAYOUT_ENGLISH_UK :: int where "KEYBOARD_LAYOUT_ENGLISH_UK = 3"
definition KEYBOARD_LAYOUT_FRENCH :: int where "KEYBOARD_LAYOUT_FRENCH = 4"

definition KEY_MOD_SHIFT :: u8 where "KEY_MOD_SHIFT = 1"
definition KEY_MOD_ALTGR :: u8 where "KEY_MOD_ALTGR = 2"
definition KEY_USAGE_LEFT_SHIFT :: nat where "KEY_USAGE_LEFT_SHIFT = 225"
definition KEY_USAGE_RIGHT_ALT :: nat where "KEY_USAGE_RIGHT_ALT = 230"
definition KEY_USAGE_NOOP :: nat where "KEY_USAGE_NOOP = 115"

datatype KeyStroke = KeyStroke (st_usage: nat) (st_mods: u8)

datatype KeyEntry = KeyEntry (e_cp: nat) (e_usage: nat) (e_mods: u8) (e_then: nat)

definition kUsPlain :: string where
  "kUsPlain = ''1234567890'' @ [NUL, NUL, NUL, NUL, NUL] @ ''-=[]'' @ [BACKSLASH, NUL, CHR '';'', SQUOTE, CHR 0x60] @ '',./''"

definition kUsShifted :: string where
  "kUsShifted = ''!@#$%^&*()'' @ [NUL, NUL, NUL, NUL, NUL] @ ''_+{}|'' @ [NUL, CHR '':'', DQUOTE] @ ''~<>?''"

definition US_FIRST_KEY :: nat where "US_FIRST_KEY = 30"

text \<open>A plain entry of the tables: an ASCII character, its key and modifiers.\<close>

definition ascii :: "char \<Rightarrow> nat \<Rightarrow> u8 \<Rightarrow> KeyEntry" where
  "ascii c u m = KeyEntry (ord c) u m 0"

definition kUk :: "KeyEntry list" where
  "kUk = (let S = KEY_MOD_SHIFT; G = KEY_MOD_ALTGR in
     [ascii DQUOTE 31 S, ascii CHR ''@'' 52 S, KeyEntry 0xA3 32 S 0,
      ascii CHR ''#'' 50 0, ascii CHR ''~'' 50 S, ascii BACKSLASH 100 0, ascii CHR ''|'' 100 S,
      ascii CHR 0x60 53 0, KeyEntry 0xAC 53 S 0, KeyEntry 0x20AC 33 G 0])"

definition kFr :: "KeyEntry list" where
  "kFr = (let S = KEY_MOD_SHIFT; G = KEY_MOD_ALTGR in
     [ascii CHR ''&'' 30 0, ascii CHR ''1'' 30 S,
      KeyEntry 0xE9 31 0 0, ascii CHR ''2'' 31 S, ascii CHR ''~'' 31 G,
      ascii DQUOTE 32 0, ascii CHR ''3'' 32 S, ascii CHR ''#'' 32 G,
      ascii SQUOTE 33 0, ascii CHR ''4'' 33 S, ascii CHR ''{'' 33 G,
      ascii CHR ''('' 34 0, ascii CHR ''5'' 34 S, ascii CHR ''['' 34 G,
      ascii CHR ''-'' 35 0, ascii CHR ''6'' 35 S, ascii CHR ''|'' 35 G,
      KeyEntry 0xE8 36 0 0, ascii CHR ''7'' 36 S, ascii CHR 0x60 36 G,
      ascii CHR ''_'' 37 0, ascii CHR ''8'' 37 S, ascii BACKSLASH 37 G,
      KeyEntry 0xE7 38 0 0, ascii CHR ''9'' 38 S, ascii CHR ''^'' 38 G,
      KeyEntry 0xE0 39 0 0, ascii CHR ''0'' 39 S, ascii CHR ''@'' 39 G,
      ascii CHR '')'' 45 0, KeyEntry 0xB0 45 S 0, ascii CHR '']'' 45 G,
      ascii CHR ''='' 46 0, ascii CHR ''+'' 46 S, ascii CHR ''}'' 46 G,
      ascii CHR ''$'' 48 0, KeyEntry 0xA3 48 S 0, KeyEntry 0xA4 48 G 0,
      ascii CHR ''*'' 49 0, KeyEntry 0xB5 49 S 0,
      KeyEntry 0xF9 52 0 0, ascii CHR ''%'' 52 S,
      KeyEntry 0xB2 53 0 0,
      ascii CHR '','' 16 0, ascii CHR ''?'' 16 S,
      ascii CHR '';'' 54 0, ascii CHR ''.'' 54 S,
      ascii CHR '':'' 55 0, ascii CHR ''/'' 55 S,
      ascii CHR ''!'' 56 0, KeyEntry 0xA7 56 S 0,
      ascii CHR ''<'' 100 0, ascii CHR ''>'' 100 S,
      KeyEntry 0x20AC 8 G 0,
      KeyEntry 0xA8 47 S (ord CHR '' ''),
      KeyEntry 0xE2 47 0 (ord CHR ''a''), KeyEntry 0xEA 47 0 (ord CHR ''e''), KeyEntry 0xEE 47 0 (ord CHR ''i''),
      KeyEntry 0xF4 47 0 (ord CHR ''o''), KeyEntry 0xFB 47 0 (ord CHR ''u''),
      KeyEntry 0xC2 47 0 (ord CHR ''A''), KeyEntry 0xCA 47 0 (ord CHR ''E''), KeyEntry 0xCE 47 0 (ord CHR ''I''),
      KeyEntry 0xD4 47 0 (ord CHR ''O''), KeyEntry 0xDB 47 0 (ord CHR ''U''),
      KeyEntry 0xE4 47 S (ord CHR ''a''), KeyEntry 0xEB 47 S (ord CHR ''e''), KeyEntry 0xEF 47 S (ord CHR ''i''),
      KeyEntry 0xF6 47 S (ord CHR ''o''), KeyEntry 0xFC 47 S (ord CHR ''u''), KeyEntry 0xFF 47 S (ord CHR ''y''),
      KeyEntry 0xC4 47 S (ord CHR ''A''), KeyEntry 0xCB 47 S (ord CHR ''E''), KeyEntry 0xCF 47 S (ord CHR ''I''),
      KeyEntry 0xD6 47 S (ord CHR ''O''), KeyEntry 0xDC 47 S (ord CHR ''U'')])"

definition kNames :: "string list" where
  "kNames = [''Japanese'', ''English (US)'', ''English (US, international)'', ''English (UK)'', ''French'', ''French (Canada)'',
     ''Spanish'', ''Spanish (Latin America)'', ''German'', ''Italian'', ''Portuguese'', ''Russian'', ''Korean'',
     ''Chinese (simplified)'', ''Chinese (traditional)'']"

definition keyboard_layout_name :: "int \<Rightarrow> string" where
  "keyboard_layout_name l = (if l < 0 \<or> nat l \<ge> length kNames then ''unknown'' else kNames ! nat l)"

definition keyboard_layout_supported :: "int \<Rightarrow> bool" where
  "keyboard_layout_supported l \<longleftrightarrow>
     l = KEYBOARD_LAYOUT_ENGLISH_US \<or> l = KEYBOARD_LAYOUT_ENGLISH_UK \<or> l = KEYBOARD_LAYOUT_FRENCH"

section \<open>Characters\<close>

definition lead_len :: "u8 \<Rightarrow> nat" where
  "lead_len b =
     (if b < 0x80 then 1 else if b AND 0xE0 = 0xC0 then 2 else if b AND 0xF0 = 0xE0 then 3
      else if b AND 0xF8 = 0xF0 then 4 else 0)"

fun cont_loop :: "nat \<Rightarrow> string \<Rightarrow> nat \<Rightarrow> nat option" where
  "cont_loop 0 s v = Some v"
| "cont_loop (Suc n) s v =
     (if str_at s 0 AND 0xC0 \<noteq> 0x80 then None
      else cont_loop n (drop 1 s) (push_bit 6 v OR unat (str_at s 0 AND 0x3F)))"

definition keyboard_next_codepoint :: "string \<Rightarrow> (nat \<times> string) option" where
  "keyboard_next_codepoint s =
     (if str_at s 0 = 0 then None
      else let b = str_at s 0; len = lead_len b in
        if len = 0 then None
        else case cont_loop (len - 1) (drop 1 s) (unat (if len = 1 then b else b AND drop_bit len 0x7F)) of
          None \<Rightarrow> None
        | Some v \<Rightarrow> Some (v, drop len s))"

definition find_key :: "KeyEntry list \<Rightarrow> nat \<Rightarrow> KeyEntry option" where
  "find_key table cp = find (\<lambda>e. e_cp e = cp) table"

fun us_loop :: "nat \<Rightarrow> (char \<times> char) list \<Rightarrow> nat \<Rightarrow> KeyEntry option" where
  "us_loop i [] cp = None"
| "us_loop i ((p, s) # ks) cp =
     (if p \<noteq> NUL \<and> ord p = cp then Some (KeyEntry cp (US_FIRST_KEY + i) 0 0)
      else if s \<noteq> NUL \<and> ord s = cp then Some (KeyEntry cp (US_FIRST_KEY + i) KEY_MOD_SHIFT 0)
      else us_loop (i + 1) ks cp)"

definition us_entry :: "nat \<Rightarrow> KeyEntry option" where
  "us_entry cp = us_loop 0 (zip kUsPlain kUsShifted) cp"

definition letter_usage :: "int \<Rightarrow> nat \<Rightarrow> nat" where
  "letter_usage l c =
     (if l = KEYBOARD_LAYOUT_FRENCH \<and> c = ord CHR ''a'' then 20
      else if l = KEYBOARD_LAYOUT_FRENCH \<and> c = ord CHR ''q'' then 4
      else if l = KEYBOARD_LAYOUT_FRENCH \<and> c = ord CHR ''z'' then 26
      else if l = KEYBOARD_LAYOUT_FRENCH \<and> c = ord CHR ''w'' then 29
      else if l = KEYBOARD_LAYOUT_FRENCH \<and> c = ord CHR ''m'' then 51
      else 4 + (c - ord CHR ''a''))"

definition lookup :: "int \<Rightarrow> nat \<Rightarrow> KeyEntry option" where
  "lookup l cp =
     (if cp = 10 then Some (KeyEntry cp 40 0 0)
      else if cp = 8 then Some (KeyEntry cp 42 0 0)
      else if cp = 9 then Some (KeyEntry cp 43 0 0)
      else if cp = 32 then Some (KeyEntry cp 44 0 0)
      else if ord CHR ''a'' \<le> cp \<and> cp \<le> ord CHR ''z'' then Some (KeyEntry cp (letter_usage l cp) 0 0)
      else if ord CHR ''A'' \<le> cp \<and> cp \<le> ord CHR ''Z'' then
        Some (KeyEntry cp (letter_usage l (cp - ord CHR ''A'' + ord CHR ''a'')) KEY_MOD_SHIFT 0)
      else if l = KEYBOARD_LAYOUT_ENGLISH_US then us_entry cp
      else if l = KEYBOARD_LAYOUT_ENGLISH_UK then (case find_key kUk cp of None \<Rightarrow> us_entry cp | Some e \<Rightarrow> Some e)
      else if l = KEYBOARD_LAYOUT_FRENCH then find_key kFr cp
      else None)"

definition keyboard_strokes :: "int \<Rightarrow> nat \<Rightarrow> KeyStroke list" where
  "keyboard_strokes l cp =
     (if \<not> keyboard_layout_supported l \<or> cp > 0xFFFF then []
      else case lookup l cp of
        None \<Rightarrow> []
      | Some e \<Rightarrow>
          if e_then e = 0 then [KeyStroke (e_usage e) (e_mods e)]
          else case lookup l (e_then e) of
            None \<Rightarrow> []
          | Some n \<Rightarrow> if e_then n \<noteq> 0 then []
                      else [KeyStroke (e_usage e) (e_mods e), KeyStroke (e_usage n) (e_mods n)])"

lemma next_codepoint_shorter: "keyboard_next_codepoint s = Some (cp, s') \<Longrightarrow> length s' < length s"
  by (cases s) (auto simp: keyboard_next_codepoint_def str_at_def Let_def split: if_splits option.splits)

function unsupported_loop :: "int \<Rightarrow> nat \<Rightarrow> string \<Rightarrow> int" where
  "unsupported_loop l off s =
     (if s = [] then - 1
      else case keyboard_next_codepoint s of
        None \<Rightarrow> int off
      | Some (cp, s') \<Rightarrow> if keyboard_strokes l cp = [] then int off else unsupported_loop l (off + (length s - length s')) s')"
  by pat_completeness auto
termination by (relation "measure (\<lambda>(l, off, s). length s)") (auto simp: next_codepoint_shorter)

declare unsupported_loop.simps [simp del]

definition keyboard_find_unsupported :: "int \<Rightarrow> string \<Rightarrow> int" where
  "keyboard_find_unsupported l s = unsupported_loop l 0 s"

text \<open>The message for the user, or none when all of the text can be typed.\<close>

definition keyboard_check_text :: "int \<Rightarrow> string \<Rightarrow> nat \<Rightarrow> string option" where
  "keyboard_check_text l s msgsz =
     (if l < 0 then Some (fit msgsz (''could not read the console'' @ [SQUOTE] @ ''s keyboard layout''))
      else if \<not> keyboard_layout_supported l then
        Some (fit msgsz (''the console'' @ [SQUOTE] @ ''s keyboard layout ('' @ keyboard_layout_name l @
          '') is not supported yet: English (US), English (UK) and French are''))
      else let bad = keyboard_find_unsupported l s in
        if bad \<ge> 0 then
          let k = nat bad; ch = take 1 (drop k s) @ takeWhile (\<lambda>c. byte c AND 0xC0 = 0x80) (take 3 (drop (k + 1) s))
          in Some (fit msgsz (''byte '' @ dec k @ '' ('' @ [SQUOTE] @ ch @ [SQUOTE] @ '') cannot be typed on the '' @
               keyboard_layout_name l @ '' keyboard layout''))
        else None)"

section \<open>Buttons\<close>

definition kButtons :: "(string \<times> nat) list" where
  "kButtons = [(''A'', 0), (''B'', 1), (''X'', 2), (''Y'', 3), (''L'', 6), (''R'', 7), (''ZL'', 8), (''ZR'', 9),
     (''PLUS'', 10), (''START'', 10), (''MINUS'', 11), (''SELECT'', 11), (''UP'', 13), (''DOWN'', 15), (''LEFT'', 12),
     (''RIGHT'', 14), (''DUP'', 13), (''DDOWN'', 15), (''DLEFT'', 12), (''DRIGHT'', 14), (''LSTICK'', 4), (''RSTICK'', 5),
     (''HOME'', 18), (''CAPTURE'', 19)]"

definition button_from_name :: "string \<Rightarrow> u64 option" where
  "button_from_name name = map_option (\<lambda>(n, b). push_bit b 1) (find (\<lambda>(n, b). strcaseeq name n) kButtons)"

section \<open>What the strokes determine\<close>

text \<open>The entries \<open>lookup\<close> can give on a layout.\<close>

definition common_keys :: "int \<Rightarrow> KeyEntry list" where
  "common_keys l =
     [KeyEntry 10 40 0 0, KeyEntry 8 42 0 0, KeyEntry 9 43 0 0, KeyEntry 32 44 0 0] @
     map (\<lambda>c. KeyEntry c (letter_usage l c) 0 0) [97..<123] @
     map (\<lambda>c. KeyEntry c (letter_usage l (c + 32)) KEY_MOD_SHIFT 0) [65..<91]"

fun us_keys :: "nat \<Rightarrow> (char \<times> char) list \<Rightarrow> KeyEntry list" where
  "us_keys i [] = []"
| "us_keys i ((p, s) # ks) =
     (if p \<noteq> NUL then [KeyEntry (ord p) (US_FIRST_KEY + i) 0 0] else []) @
     (if s \<noteq> NUL then [KeyEntry (ord s) (US_FIRST_KEY + i) KEY_MOD_SHIFT 0] else []) @ us_keys (i + 1) ks"

definition layout_keys :: "int \<Rightarrow> KeyEntry list" where
  "layout_keys l = common_keys l @
     (if l = KEYBOARD_LAYOUT_FRENCH then kFr
      else let us = us_keys 0 (zip kUsPlain kUsShifted) in
        if l = KEYBOARD_LAYOUT_ENGLISH_UK then kUk @ filter (\<lambda>e. list_all (\<lambda>k. e_cp k \<noteq> e_cp e) kUk) us else us)"

lemma us_loop_keys: "us_loop i ks cp = Some e \<Longrightarrow> e \<in> set (us_keys i ks) \<and> e_cp e = cp"
  by (induction i ks cp rule: us_loop.induct) (auto split: if_splits)

lemma find_key_keys: "find_key t cp = Some e \<Longrightarrow> e \<in> set t \<and> e_cp e = cp"
  by (auto simp: find_key_def find_Some_iff)

lemma find_key_None: "find_key t cp = None \<longleftrightarrow> list_all (\<lambda>k. e_cp k \<noteq> cp) t"
  by (auto simp: find_key_def find_None_iff list_all_iff)

lemma ord_consts: "ord CHR ''a'' = 97" "ord CHR ''z'' = 122" "ord CHR ''A'' = 65" "ord CHR ''Z'' = 90"
    "ord CHR ''q'' = 113" "ord CHR ''w'' = 119" "ord CHR ''m'' = 109"
  by simp_all

lemma lookup_keys:
  assumes "lookup l cp = Some e" and "keyboard_layout_supported l"
  shows "e \<in> set (layout_keys l) \<and> e_cp e = cp"
proof -
  consider "e \<in> set (common_keys l)" "e_cp e = cp" | "l = KEYBOARD_LAYOUT_FRENCH" "find_key kFr cp = Some e"
    | "l = KEYBOARD_LAYOUT_ENGLISH_US" "us_entry cp = Some e"
    | "l = KEYBOARD_LAYOUT_ENGLISH_UK" "find_key kUk cp = Some e"
    | "l = KEYBOARD_LAYOUT_ENGLISH_UK" "find_key kUk cp = None" "us_entry cp = Some e"
  proof -
    have *: "KeyEntry cp (letter_usage l (cp - 65 + 97)) KEY_MOD_SHIFT 0 \<in> set (common_keys l)" if "65 \<le> cp" "cp \<le> 90"
    proof -
      from that have "cp - 65 + 97 = cp + 32" "cp \<in> {65..<91}" "cp - 65 + 97 = 32 + cp" unfolding atLeastLessThan_iff by linarith+
      then show ?thesis unfolding common_keys_def set_append set_map set_upt by (intro UnI2 image_eqI [where x = cp]) (simp_all add: add.commute)
    qed
    have **: "KeyEntry cp (letter_usage l cp) 0 0 \<in> set (common_keys l)" if "97 \<le> cp" "cp \<le> 122"
      using that unfolding common_keys_def set_append set_map set_upt by (intro UnI2 UnI1 image_eqI [where x = cp]) simp_all
    have w: "KeyEntry 10 40 0 0 \<in> set (common_keys l)" "KeyEntry 8 42 0 0 \<in> set (common_keys l)"
      "KeyEntry 9 43 0 0 \<in> set (common_keys l)" "KeyEntry 32 44 0 0 \<in> set (common_keys l)"
      by (simp_all add: common_keys_def)
    show ?thesis using assms(1) that * ** w
      unfolding lookup_def ord_consts by (auto split: if_splits option.splits)
  qed
  then show ?thesis
    by cases (auto simp: layout_keys_def Let_def us_entry_def find_key_None dest: us_loop_keys find_key_keys
      simp: KEYBOARD_LAYOUT_FRENCH_def KEYBOARD_LAYOUT_ENGLISH_UK_def KEYBOARD_LAYOUT_ENGLISH_US_def)
qed


text \<open>No key combination gives two characters, and no plain key is a dead one.\<close>

definition key_of :: "KeyEntry \<Rightarrow> nat \<times> u8 \<times> nat" where
  "key_of e = (e_usage e, e_mods e, e_then e)"

lemma us_distinct: "distinct (map key_of (layout_keys KEYBOARD_LAYOUT_ENGLISH_US))"
  by code_simp
lemma key_of_simps: "key_of (ascii c u m) = (u, m, 0)" "key_of (KeyEntry n u m t) = (u, m, t)" "e_usage (ascii c u m) = u" "e_mods (ascii c u m) = m"
  by (simp_all add: key_of_def ascii_def)
lemmas fr_keys = kFr_def common_keys_def letter_usage_def key_of_simps KEY_MOD_SHIFT_def KEY_MOD_ALTGR_def KEYBOARD_LAYOUT_FRENCH_def Let_def
lemma fr_letters: "map (letter_usage KEYBOARD_LAYOUT_FRENCH) [97..<123] =
    [20, 5, 6, 7, 8, 9, 10, 11, 12, 13, 14, 15, 51, 17, 18, 19, 4, 21, 22, 23, 24, 25, 29, 27, 28, 26]"
  unfolding letter_usage_def ord_consts by (simp add: KEYBOARD_LAYOUT_FRENCH_def)

lemma map_upt_shift: "map f [65..<91] = map (\<lambda>c. f (c - 32)) [97..<123]"
  by simp

lemma fr_common_distinct: "distinct (map key_of (common_keys KEYBOARD_LAYOUT_FRENCH))"
proof -
  let ?m = "map (letter_usage KEYBOARD_LAYOUT_FRENCH) [97..<123]"
  have "map key_of (common_keys KEYBOARD_LAYOUT_FRENCH) = [(40, 0, 0), (42, 0, 0), (43, 0, 0), (44, 0, 0)] @
      map (\<lambda>u. (u, 0, 0)) ?m @ map (\<lambda>u. (u, KEY_MOD_SHIFT, 0)) ?m"
    unfolding common_keys_def map_upt_shift by (simp add: key_of_simps)
  then show ?thesis unfolding fr_letters KEY_MOD_SHIFT_def by simp
qed
lemma kFr_apart: "list_all (\<lambda>e. e_mods e = KEY_MOD_ALTGR \<or> list_all (\<lambda>k. e_usage k \<noteq> e_usage e) (common_keys KEYBOARD_LAYOUT_FRENCH)) kFr"
  by (simp add: fr_keys)
lemma kFr_distinct: "distinct (map key_of kFr)"
  by (simp add: fr_keys)


definition us_table :: "KeyEntry list" where
  "us_table = us_keys 0 (zip kUsPlain kUsShifted)"

lemma uk_common_distinct: "distinct (map key_of (common_keys KEYBOARD_LAYOUT_ENGLISH_UK))"
  by code_simp
lemma us_table_distinct: "distinct (map key_of us_table)"
  by code_simp
lemma kUk_distinct: "distinct (map key_of kUk)"
  by code_simp
lemma kUk_apart: "list_all (\<lambda>e. list_all (\<lambda>k. e_usage k \<noteq> e_usage e) (common_keys KEYBOARD_LAYOUT_ENGLISH_UK)) kUk"
  by code_simp
lemma us_apart: "list_all (\<lambda>e. list_all (\<lambda>k. e_usage k \<noteq> e_usage e) (common_keys KEYBOARD_LAYOUT_ENGLISH_UK)) us_table"
  by code_simp
lemma kUk_moves: "list_all (\<lambda>e. list_all (\<lambda>k. key_of k \<noteq> key_of e) kUk \<or> \<not> list_all (\<lambda>k. e_cp k \<noteq> e_cp e) kUk) us_table"
  by (simp add: us_table_def kUsPlain_def kUsShifted_def US_FIRST_KEY_def KEY_MOD_SHIFT_def KEY_MOD_ALTGR_def kUk_def key_of_simps ascii_def)

lemma list_all_apartD: "list_all (\<lambda>e. list_all (\<lambda>k. P k e) ks) es \<Longrightarrow> k \<in> set ks \<Longrightarrow> e \<in> set es \<Longrightarrow> P k e"
  by (auto simp: list_all_iff)

lemma distinct_key_append:
  assumes "distinct (map key_of xs)" and "distinct (map key_of ys)" and "\<And>x y. x \<in> set xs \<Longrightarrow> y \<in> set ys \<Longrightarrow> key_of x \<noteq> key_of y"
  shows "distinct (map key_of (xs @ ys))"
  using assms by (fastforce simp: image_def)


lemma supported_cases:
  assumes "keyboard_layout_supported l"
  obtains "l = KEYBOARD_LAYOUT_ENGLISH_US" | "l = KEYBOARD_LAYOUT_ENGLISH_UK" | "l = KEYBOARD_LAYOUT_FRENCH"
  using assms by (auto simp: keyboard_layout_supported_def)

lemma common_mods: "k \<in> set (common_keys l) \<Longrightarrow> e_mods k \<noteq> KEY_MOD_ALTGR"
  unfolding common_keys_def by (fastforce simp: KEY_MOD_SHIFT_def KEY_MOD_ALTGR_def simp del: upt_Suc)

lemma layout_keys_distinct:
  assumes "keyboard_layout_supported l"
  shows "distinct (map key_of (layout_keys l))"
  using assms
proof (cases rule: supported_cases)
  case 1
  then show ?thesis using us_distinct by simp
next
  case 2
  let ?us = "filter (\<lambda>e. list_all (\<lambda>k. e_cp k \<noteq> e_cp e) kUk) us_table"
  have u: "distinct (map key_of ?us)" using us_table_distinct by (rule distinct_map_filter)
  have v: "distinct (map key_of (kUk @ ?us))"
    by (rule distinct_key_append [OF kUk_distinct u]) (use kUk_moves in \<open>auto simp: list_all_iff\<close>)
  have "distinct (map key_of (common_keys l @ (kUk @ ?us)))"
  proof (rule distinct_key_append [OF _ v])
    show "distinct (map key_of (common_keys l))" using uk_common_distinct 2 by simp
    fix x y
    assume "x \<in> set (common_keys l)" and "y \<in> set (kUk @ ?us)"
    then have "e_usage x \<noteq> e_usage y"
      using list_all_apartD [OF kUk_apart] list_all_apartD [OF us_apart] 2 by auto
    then show "key_of x \<noteq> key_of y" by (simp add: key_of_def)
  qed
  then show ?thesis
    by (simp add: layout_keys_def us_table_def 2 KEYBOARD_LAYOUT_ENGLISH_UK_def KEYBOARD_LAYOUT_FRENCH_def)
next
  case 3
  have "distinct (map key_of (common_keys l @ kFr))"
  proof (rule distinct_key_append [OF _ kFr_distinct])
    show "distinct (map key_of (common_keys l))" using fr_common_distinct 3 by simp
    fix x y
    assume "x \<in> set (common_keys l)" and "y \<in> set kFr"
    then have "e_mods y = KEY_MOD_ALTGR \<or> e_usage x \<noteq> e_usage y" using kFr_apart 3 by (auto simp: list_all_iff)
    then show "key_of x \<noteq> key_of y" using common_mods [OF \<open>x \<in> set (common_keys l)\<close>] by (auto simp: key_of_def)
  qed
  then show ?thesis by (simp add: layout_keys_def 3)
qed

section \<open>UTF-8\<close>

definition utf8 :: "nat \<Rightarrow> string" where
  "utf8 cp =
     (if cp < 0x80 then [chr cp]
      else if cp < 0x800 then [chr (0xC0 + cp div 64), chr (0x80 + cp mod 64)]
      else if cp < 0x10000 then [chr (0xE0 + cp div 4096), chr (0x80 + cp div 64 mod 64), chr (0x80 + cp mod 64)]
      else [chr (0xF0 + cp div 262144), chr (0x80 + cp div 4096 mod 64), chr (0x80 + cp div 64 mod 64), chr (0x80 + cp mod 64)])"

text \<open>The characters of a text, up to the first malformed sequence.\<close>

function codepoints :: "string \<Rightarrow> nat list" where
  "codepoints s = (case keyboard_next_codepoint s of None \<Rightarrow> [] | Some (cp, s') \<Rightarrow> cp # codepoints s')"
  by pat_completeness auto
termination by (relation "measure length") (auto simp: next_codepoint_shorter)

declare codepoints.simps [simp del]

lemma byte_chr: "n < 256 \<Longrightarrow> byte (chr n) = word_of_nat n"
  by (metis of_nat_of_char ord_chr)

lemma lead_bytes:
  "k < 128 \<Longrightarrow> lead_len (word_of_nat k) = 1"
  "k < 32 \<Longrightarrow> lead_len (word_of_nat (0xC0 + k)) = 2 \<and> unat ((word_of_nat (0xC0 + k) :: u8) AND 0x1F) = k"
  "k < 16 \<Longrightarrow> lead_len (word_of_nat (0xE0 + k)) = 3 \<and> unat ((word_of_nat (0xE0 + k) :: u8) AND 0x0F) = k"
  "k < 8 \<Longrightarrow> lead_len (word_of_nat (0xF0 + k)) = 4 \<and> unat ((word_of_nat (0xF0 + k) :: u8) AND 0x07) = k"
proof -
  have "list_all (\<lambda>k. lead_len (word_of_nat k) = 1) [0..<128]" by code_simp
  then show "k < 128 \<Longrightarrow> lead_len (word_of_nat k) = 1" by (simp add: list_all_iff)
  have "list_all (\<lambda>k. lead_len (word_of_nat (0xC0 + k)) = 2 \<and> unat ((word_of_nat (0xC0 + k) :: u8) AND 0x1F) = k) [0..<32]" by code_simp
  then show "k < 32 \<Longrightarrow> lead_len (word_of_nat (0xC0 + k)) = 2 \<and> unat ((word_of_nat (0xC0 + k) :: u8) AND 0x1F) = k" by (simp add: list_all_iff)
  have "list_all (\<lambda>k. lead_len (word_of_nat (0xE0 + k)) = 3 \<and> unat ((word_of_nat (0xE0 + k) :: u8) AND 0x0F) = k) [0..<16]" by code_simp
  then show "k < 16 \<Longrightarrow> lead_len (word_of_nat (0xE0 + k)) = 3 \<and> unat ((word_of_nat (0xE0 + k) :: u8) AND 0x0F) = k" by (simp add: list_all_iff)
  have "list_all (\<lambda>k. lead_len (word_of_nat (0xF0 + k)) = 4 \<and> unat ((word_of_nat (0xF0 + k) :: u8) AND 0x07) = k) [0..<8]" by code_simp
  then show "k < 8 \<Longrightarrow> lead_len (word_of_nat (0xF0 + k)) = 4 \<and> unat ((word_of_nat (0xF0 + k) :: u8) AND 0x07) = k" by (simp add: list_all_iff)
qed

lemma cont_byte: "k < 64 \<Longrightarrow> (word_of_nat (0x80 + k) :: u8) AND 0xC0 = 0x80 \<and> unat ((word_of_nat (0x80 + k) :: u8) AND 0x3F) = k"
proof -
  have "list_all (\<lambda>k. (word_of_nat (0x80 + k) :: u8) AND 0xC0 = 0x80 \<and> unat ((word_of_nat (0x80 + k) :: u8) AND 0x3F) = k) [0..<64]" by code_simp
  then show "k < 64 \<Longrightarrow> ?thesis" by (simp add: list_all_iff)
qed

lemma push_or_add: "k < 64 \<Longrightarrow> push_bit 6 v OR k = v * 64 + (k :: nat)"
proof -
  assume k: "k < 64"
  have "push_bit 6 v AND k = 0"
  proof (rule bit_eqI)
    fix n
    have "\<not> bit k n" if "6 \<le> n"
      using k that power_increasing [of 6 n "2 :: nat"] by (auto simp: bit_iff_odd)
    then show "bit (push_bit 6 v AND k) n \<longleftrightarrow> bit (0 :: nat) n" by (auto simp: bit_simps)
  qed
  then have "push_bit 6 v + k = push_bit 6 v OR k" by (rule disjunctive_add_eq_or)
  then show ?thesis by (simp add: push_bit_eq_mult)
qed

lemma cont_loop_byte: "k < 64 \<Longrightarrow> cont_loop (Suc n) (chr (0x80 + k) # s) v = cont_loop n s (v * 64 + k)"
  using cont_byte [of k] by (simp add: str_at_def byte_chr push_or_add)

lemma lead_byte:
  assumes "n < 256" and "n \<noteq> 0" and "lead_len (word_of_nat n) = Suc k"
  shows "keyboard_next_codepoint (chr n # s) = map_option (\<lambda>v. (v, drop k s))
    (cont_loop k s (unat (if k = 0 then word_of_nat n :: u8 else word_of_nat n AND drop_bit (Suc k) 0x7F)))"
proof -
  have "(word_of_nat n :: u8) \<noteq> 0" using assms(1,2) by (simp add: word_of_nat_eq_0_iff) (metis nat_dvd_not_less neq0_conv)
  then show ?thesis using assms(1,3) by (simp add: keyboard_next_codepoint_def str_at_def byte_chr Let_def split: option.split)
qed

lemma lead_masks: "drop_bit (Suc (Suc 0)) (0x7F :: u8) = 0x1F" "drop_bit (Suc (Suc (Suc 0))) (0x7F :: u8) = 0x0F" "drop_bit (Suc (Suc (Suc (Suc 0)))) (0x7F :: u8) = 0x07"
  by code_simp+

lemma decode_seqs:
  "a < 128 \<Longrightarrow> a \<noteq> 0 \<Longrightarrow> keyboard_next_codepoint (chr a # s) = Some (a, s)"
  "a < 32 \<Longrightarrow> b < 64 \<Longrightarrow> keyboard_next_codepoint (chr (0xC0 + a) # chr (0x80 + b) # s) = Some (a * 64 + b, s)"
  "a < 16 \<Longrightarrow> b < 64 \<Longrightarrow> c < 64 \<Longrightarrow> keyboard_next_codepoint (chr (0xE0 + a) # chr (0x80 + b) # chr (0x80 + c) # s) =
     Some ((a * 64 + b) * 64 + c, s)"
  "a < 8 \<Longrightarrow> b < 64 \<Longrightarrow> c < 64 \<Longrightarrow> d < 64 \<Longrightarrow>
     keyboard_next_codepoint (chr (0xF0 + a) # chr (0x80 + b) # chr (0x80 + c) # chr (0x80 + d) # s) =
     Some (((a * 64 + b) * 64 + c) * 64 + d, s)"
proof -
  show "a < 128 \<Longrightarrow> a \<noteq> 0 \<Longrightarrow> keyboard_next_codepoint (chr a # s) = Some (a, s)"
    using lead_byte [of a 0 s] lead_bytes(1) [of a] by (simp add: unat_of_nat)
  show "a < 32 \<Longrightarrow> b < 64 \<Longrightarrow> keyboard_next_codepoint (chr (0xC0 + a) # chr (0x80 + b) # s) = Some (a * 64 + b, s)"
    using lead_byte [of "0xC0 + a" "Suc 0" "chr (0x80 + b) # s", unfolded lead_masks] lead_bytes(2) [of a]
    by (simp del: of_nat_add of_nat_numeral cont_loop.simps(2) add: cont_loop_byte)
  show "a < 16 \<Longrightarrow> b < 64 \<Longrightarrow> c < 64 \<Longrightarrow> keyboard_next_codepoint (chr (0xE0 + a) # chr (0x80 + b) # chr (0x80 + c) # s) =
     Some ((a * 64 + b) * 64 + c, s)"
    using lead_byte [of "0xE0 + a" "Suc (Suc 0)" "chr (0x80 + b) # chr (0x80 + c) # s", unfolded lead_masks] lead_bytes(3) [of a]
    by (simp del: of_nat_add of_nat_numeral cont_loop.simps(2) add: cont_loop_byte)
  show "a < 8 \<Longrightarrow> b < 64 \<Longrightarrow> c < 64 \<Longrightarrow> d < 64 \<Longrightarrow>
     keyboard_next_codepoint (chr (0xF0 + a) # chr (0x80 + b) # chr (0x80 + c) # chr (0x80 + d) # s) =
     Some (((a * 64 + b) * 64 + c) * 64 + d, s)"
    using lead_byte [of "0xF0 + a" "Suc (Suc (Suc 0))" "chr (0x80 + b) # chr (0x80 + c) # chr (0x80 + d) # s", unfolded lead_masks] lead_bytes(4) [of a]
    by (simp del: of_nat_add of_nat_numeral cont_loop.simps(2) add: cont_loop_byte)
qed

lemma next_codepoint_utf8:
  assumes "0 < cp" and "cp < 0x200000"
  shows "keyboard_next_codepoint (utf8 cp @ s) = Some (cp, s)"
proof -
  have h: "cp div 4096 = cp div 64 div 64" "cp div 262144 = cp div 64 div 64 div 64"
    by (simp_all flip: div_mult2_eq)
  consider "cp < 0x80" | "0x80 \<le> cp" "cp < 0x800" | "0x800 \<le> cp" "cp < 0x10000" | "0x10000 \<le> cp" by linarith
  then show ?thesis
  proof cases
    case 1
    then show ?thesis using assms by (simp add: utf8_def decode_seqs(1))
  next
    case 2
    then have "utf8 cp = [chr (0xC0 + cp div 64), chr (0x80 + cp mod 64)]" by (simp add: utf8_def)
    moreover from 2 have "cp div 64 < 32" by (simp add: less_mult_imp_div_less)
    ultimately show ?thesis using decode_seqs(2) [of "cp div 64" "cp mod 64" s] by simp
  next
    case 3
    then have "utf8 cp = [chr (0xE0 + cp div 4096), chr (0x80 + cp div 64 mod 64), chr (0x80 + cp mod 64)]" by (simp add: utf8_def)
    moreover from 3 have "cp div 4096 < 16" by (simp add: less_mult_imp_div_less)
    ultimately show ?thesis using decode_seqs(3) [of "cp div 4096" "cp div 64 mod 64" "cp mod 64" s] by (simp add: h)
  next
    case 4
    then have "utf8 cp = [chr (0xF0 + cp div 262144), chr (0x80 + cp div 4096 mod 64), chr (0x80 + cp div 64 mod 64), chr (0x80 + cp mod 64)]"
      by (simp add: utf8_def)
    moreover from assms have "cp div 262144 < 8" by (simp add: less_mult_imp_div_less)
    ultimately show ?thesis
      using decode_seqs(4) [of "cp div 262144" "cp div 4096 mod 64" "cp div 64 mod 64" "cp mod 64" s] by (simp add: h)
  qed
qed

section \<open>Accepted text\<close>

definition typable :: "int \<Rightarrow> nat \<Rightarrow> bool" where
  "typable l cp \<longleftrightarrow> keyboard_strokes l cp \<noteq> []"

definition strokes_of :: "int \<Rightarrow> nat list \<Rightarrow> KeyStroke list" where
  "strokes_of l cps = concat (map (keyboard_strokes l) cps)"

lemma unsupported_loop_spec:
  "unsupported_loop l off s = - 1 \<or> int off \<le> unsupported_loop l off s"
proof (induction l off s rule: unsupported_loop.induct)
  case (1 l off s)
  show ?case
  proof (cases "keyboard_next_codepoint s")
    case (Some p)
    have "unsupported_loop l off s = - 1 \<or> int off \<le> unsupported_loop l off s"
      if "unsupported_loop l (off + d) s' = - 1 \<or> int (off + d) \<le> unsupported_loop l (off + d) s'"
        "unsupported_loop l off s = unsupported_loop l (off + d) s'" for d s'
      using that by auto
    with Some 1 show ?thesis by (cases p) (auto simp: unsupported_loop.simps [of l off s])
  qed (simp add: unsupported_loop.simps [of l off s])
qed

lemma unsupported_loop_codepoints:
  "unsupported_loop l off s = - 1 \<Longrightarrow> list_all (typable l) (codepoints s)"
proof (induction l off s rule: unsupported_loop.induct)
  case (1 l off s)
  show ?case
  proof (cases "keyboard_next_codepoint s")
    case None
    then show ?thesis by (simp add: codepoints.simps [of s])
  next
    case (Some p)
    then have "s \<noteq> []" by (auto simp: keyboard_next_codepoint_def str_at_def)
    with Some 1 show ?thesis
      by (cases p) (auto simp: codepoints.simps [of s] typable_def unsupported_loop.simps [of l off s] split: if_splits)
  qed
qed

lemma unsupported_utf8:
  assumes "list_all (\<lambda>cp. 0 < cp \<and> cp < 0x110000) cps"
  shows "unsupported_loop l off (concat (map utf8 cps)) = - 1 \<longleftrightarrow> list_all (typable l) cps"
  using assms
proof (induction cps arbitrary: off)
  case Nil
  then show ?case by (simp add: unsupported_loop.simps)
next
  case (Cons cp cps)
  have "utf8 cp \<noteq> []" by (simp add: utf8_def)
  then show ?case
    by (subst unsupported_loop.simps) (use Cons.prems in \<open>auto simp: next_codepoint_utf8 typable_def [abs_def] Cons.IH\<close>)
qed

lemma codepoints_utf8:
  assumes "list_all (\<lambda>cp. 0 < cp \<and> cp < 0x110000) cps"
  shows "codepoints (concat (map utf8 cps)) = cps"
  using assms
proof (induction cps)
  case Nil
  then show ?case by (simp add: codepoints.simps keyboard_next_codepoint_def str_at_def)
next
  case (Cons cp cps)
  then show ?case by (subst codepoints.simps) (simp add: next_codepoint_utf8)
qed

text \<open>
  A text in UTF-8 is accepted for a layout exactly when the layout is supported and can type each of its
  characters, and the decoder the typist uses reads back those characters.
\<close>

theorem utf8_text_accepted:
  assumes "list_all (\<lambda>cp. 0 < cp \<and> cp < 0x110000) cps"
  shows "(keyboard_check_text l (concat (map utf8 cps)) n = None \<longleftrightarrow>
      keyboard_layout_supported l \<and> list_all (typable l) cps) \<and>
    codepoints (concat (map utf8 cps)) = cps"
proof -
  have "l \<ge> 0" if "keyboard_layout_supported l"
    using that by (auto simp: keyboard_layout_supported_def KEYBOARD_LAYOUT_ENGLISH_US_def KEYBOARD_LAYOUT_ENGLISH_UK_def KEYBOARD_LAYOUT_FRENCH_def)
  moreover have "\<not> 0 \<le> keyboard_find_unsupported l s \<longleftrightarrow> unsupported_loop l 0 s = - 1" for s
    using unsupported_loop_spec [of l 0 s] by (auto simp: keyboard_find_unsupported_def)
  ultimately show ?thesis
    using unsupported_utf8 [OF assms, of l 0] codepoints_utf8 [OF assms] by (auto simp: keyboard_check_text_def Let_def)
qed

text \<open>T, u umlaut (a dead key and a letter) and the euro sign on the French layout.\<close>

theorem utf8_text_accepted_witness:
  "keyboard_check_text KEYBOARD_LAYOUT_FRENCH (concat (map utf8 [0x54, 0xFC, 0x20AC])) 160 = None \<and>
   codepoints (concat (map utf8 [0x54, 0xFC, 0x20AC])) = [0x54, 0xFC, 0x20AC]"
proof -
  have "keyboard_layout_supported KEYBOARD_LAYOUT_FRENCH" "list_all (typable KEYBOARD_LAYOUT_FRENCH) [0x54, 0xFC, 0x20AC]"
    by (simp_all add: typable_def keyboard_strokes_def keyboard_layout_supported_def lookup_def find_key_def kFr_def ascii_def
      KEYBOARD_LAYOUT_ENGLISH_US_def KEYBOARD_LAYOUT_ENGLISH_UK_def KEYBOARD_LAYOUT_FRENCH_def)
  with utf8_text_accepted [of "[0x54, 0xFC, 0x20AC]" KEYBOARD_LAYOUT_FRENCH 160] show ?thesis by simp
qed

section \<open>The keys determine the characters\<close>

lemma layout_keys_all:
  assumes "keyboard_layout_supported l" and "\<And>k. k \<in> set (common_keys l) \<Longrightarrow> P k"
    and "list_all P us_table" and "list_all P kUk" and "list_all P kFr" and "e \<in> set (layout_keys l)"
  shows "P e"
  using assms by (auto simp: layout_keys_def us_table_def [symmetric] Let_def list_all_iff split: if_splits)

lemma common_entry:
  assumes "k \<in> set (common_keys l)"
  shows "e_usage k \<le> 51 \<and> e_usage k \<noteq> 47 \<and> e_then k = 0"
proof -
  have l47: "letter_usage l c \<le> 51 \<and> letter_usage l c \<noteq> 47" if "97 \<le> c" "c \<le> 122" for c
    using that unfolding letter_usage_def ord_consts by auto
  from assms consider "k \<in> set [KeyEntry 10 40 0 0, KeyEntry 8 42 0 0, KeyEntry 9 43 0 0, KeyEntry 32 44 0 0]"
    | c where "c \<in> set [97..<123]" "k = KeyEntry c (letter_usage l c) 0 0"
    | c where "c \<in> set [65..<91]" "k = KeyEntry c (letter_usage l (c + 32)) KEY_MOD_SHIFT 0"
    unfolding common_keys_def set_append set_map by blast
  then show ?thesis
  proof cases
    case 2
    then have "97 \<le> c" "c \<le> 122" by (simp_all only: set_upt atLeastLessThan_iff) linarith+
    with 2 l47 show ?thesis by simp
  next
    case 3
    then have "97 \<le> c + 32" "c + 32 \<le> 122" by (simp_all only: set_upt atLeastLessThan_iff) linarith+
    with 3 l47 show ?thesis by simp
  qed auto
qed

lemma usages: "list_all (\<lambda>e. e_usage e \<le> 100) us_table" "list_all (\<lambda>e. e_usage e \<le> 100) kUk" "list_all (\<lambda>e. e_usage e \<le> 100) kFr"
  by code_simp+

lemma dead_keys_apart:
  assumes "keyboard_layout_supported l" and "x \<in> set (layout_keys l)" and "y \<in> set (layout_keys l)" and "e_usage x = e_usage y"
  shows "e_then x = 0 \<longleftrightarrow> e_then y = 0"
proof (cases "l = KEYBOARD_LAYOUT_FRENCH")
  case False
  have "list_all (\<lambda>e. e_then e = 0) us_table" "list_all (\<lambda>e. e_then e = 0) kUk" by code_simp+
  with False assms common_entry [of _ l] show ?thesis
    by (auto simp: list_all_iff layout_keys_def us_table_def [symmetric] Let_def split: if_splits)
next
  case True
  have "list_all (\<lambda>e. e_then e = 0 \<longleftrightarrow> e_usage e \<noteq> 47) kFr" by (simp add: kFr_def ascii_def)
  with True common_entry [of _ l] have "e_then e = 0 \<longleftrightarrow> e_usage e \<noteq> 47" if "e \<in> set (layout_keys l)" for e
    using that by (auto simp: list_all_iff layout_keys_def)
  with assms show ?thesis by metis
qed

text \<open>What \<open>keyboard_strokes\<close> returns, by the entry it found.\<close>

lemma strokes_entry:
  assumes "typable l cp"
  obtains e where "keyboard_layout_supported l" "e \<in> set (layout_keys l)" "e_cp e = cp" "e_then e = 0"
      "keyboard_strokes l cp = [KeyStroke (e_usage e) (e_mods e)]"
    | e n where "keyboard_layout_supported l" "e \<in> set (layout_keys l)" "e_cp e = cp" "e_then e \<noteq> 0"
      "n \<in> set (layout_keys l)" "e_cp n = e_then e" "e_then n = 0"
      "keyboard_strokes l cp = [KeyStroke (e_usage e) (e_mods e), KeyStroke (e_usage n) (e_mods n)]"
proof -
  from assms obtain e where l: "keyboard_layout_supported l" and e: "lookup l cp = Some e"
    and s: "keyboard_strokes l cp = (if e_then e = 0 then [KeyStroke (e_usage e) (e_mods e)]
      else case lookup l (e_then e) of None \<Rightarrow> []
      | Some n \<Rightarrow> if e_then n \<noteq> 0 then [] else [KeyStroke (e_usage e) (e_mods e), KeyStroke (e_usage n) (e_mods n)])"
    by (cases "lookup l cp") (auto simp: typable_def keyboard_strokes_def split: if_splits)
  from lookup_keys [OF e l] have k: "e \<in> set (layout_keys l)" "e_cp e = cp" by simp_all
  show thesis
  proof (cases "e_then e = 0")
    case True
    with that(1) l k s show thesis by simp
  next
    case False
    with s assms obtain n where n: "lookup l (e_then e) = Some n" "e_then n = 0"
      by (auto simp: typable_def split: option.splits if_splits)
    from lookup_keys [OF n(1) l] have m: "n \<in> set (layout_keys l)" "e_cp n = e_then e" by simp_all
    show thesis by (rule that(2) [OF l k False m n(2)]) (use s False n in simp)
  qed
qed

lemma same_entry:
  assumes "keyboard_layout_supported l" and "x \<in> set (layout_keys l)" and "y \<in> set (layout_keys l)" and "key_of x = key_of y"
  shows "x = y"
  using layout_keys_distinct [OF assms(1)] assms(2-4) by (auto simp: distinct_map inj_on_def)

lemma strokes_prefix_free:
  assumes "typable l a" and "typable l b" and "keyboard_strokes l a @ xs = keyboard_strokes l b @ ys"
  shows "a = b"
proof -
  obtain e where e: "keyboard_layout_supported l" "e \<in> set (layout_keys l)" "e_cp e = a" "hd (keyboard_strokes l a) = KeyStroke (e_usage e) (e_mods e)"
    "e_then e = 0 \<longrightarrow> keyboard_strokes l a = [KeyStroke (e_usage e) (e_mods e)]"
    "e_then e \<noteq> 0 \<longrightarrow> (\<exists>n \<in> set (layout_keys l). e_cp n = e_then e \<and> e_then n = 0 \<and> keyboard_strokes l a = [KeyStroke (e_usage e) (e_mods e), KeyStroke (e_usage n) (e_mods n)])"
    using assms(1) by (rule strokes_entry) fastforce+
  obtain f where f: "f \<in> set (layout_keys l)" "e_cp f = b" "hd (keyboard_strokes l b) = KeyStroke (e_usage f) (e_mods f)"
    "e_then f = 0 \<longrightarrow> keyboard_strokes l b = [KeyStroke (e_usage f) (e_mods f)]"
    "e_then f \<noteq> 0 \<longrightarrow> (\<exists>n \<in> set (layout_keys l). e_cp n = e_then f \<and> e_then n = 0 \<and> keyboard_strokes l b = [KeyStroke (e_usage f) (e_mods f), KeyStroke (e_usage n) (e_mods n)])"
    using assms(2) by (rule strokes_entry) fastforce+
  have "keyboard_strokes l a \<noteq> []" "keyboard_strokes l b \<noteq> []" using assms(1,2) by (simp_all add: typable_def)
  then have "hd (keyboard_strokes l a) = hd (keyboard_strokes l b)" using assms(3) by (metis hd_append2)
  with e(4) f(3) have u: "e_usage e = e_usage f" "e_mods e = e_mods f" by simp_all
  with dead_keys_apart [OF e(1,2) f(1)] have d: "e_then e = 0 \<longleftrightarrow> e_then f = 0" by simp
  have "e_then e = e_then f"
  proof (cases "e_then e = 0")
    case False
    with e(6) f(5) d obtain n m where n: "n \<in> set (layout_keys l)" "e_cp n = e_then e" "e_then n = 0"
      "keyboard_strokes l a = [KeyStroke (e_usage e) (e_mods e), KeyStroke (e_usage n) (e_mods n)]"
      and m: "m \<in> set (layout_keys l)" "e_cp m = e_then f" "e_then m = 0"
      "keyboard_strokes l b = [KeyStroke (e_usage f) (e_mods f), KeyStroke (e_usage m) (e_mods m)]" by blast
    from n(3,4) m(3,4) assms(3) have "key_of n = key_of m" by (simp add: key_of_def)
    from same_entry [OF e(1) n(1) m(1) this] n(2) m(2) show ?thesis by simp
  qed (use d in simp)
  with u have "key_of e = key_of f" by (simp add: key_of_def)
  from same_entry [OF e(1,2) f(1) this] e(3) f(2) show ?thesis by simp
qed

text \<open>
  C19: two accepted texts typed with the same key presses spell the same characters: no combination stands for two
  characters, and no character's presses begin another's.
\<close>

theorem keys_determine_the_text:
  assumes "keyboard_check_text l s n = None" and "keyboard_check_text l t m = None"
    and "strokes_of l (codepoints s) = strokes_of l (codepoints t)"
  shows "codepoints s = codepoints t"
proof -
  have tk: "list_all (typable l) (codepoints u)" if "keyboard_check_text l u k = None" for u k
    using that unsupported_loop_spec [of l 0 u] unsupported_loop_codepoints [of l 0 u]
    by (auto simp: keyboard_check_text_def Let_def keyboard_find_unsupported_def split: if_splits)
  have "cs = ds" if "list_all (typable l) cs" "list_all (typable l) ds" "strokes_of l cs = strokes_of l ds" for cs ds
    using that
  proof (induction cs arbitrary: ds)
    case Nil
    then show ?case by (cases ds) (auto simp: strokes_of_def typable_def)
  next
    case (Cons a cs)
    from Cons.prems obtain b es where ds: "ds = b # es" by (cases ds) (auto simp: strokes_of_def typable_def)
    with Cons.prems have "a = b" by (intro strokes_prefix_free) (auto simp: strokes_of_def)
    with Cons ds show ?case by (auto simp: strokes_of_def)
  qed
  with tk assms show ?thesis by blast
qed

lemma noop_is_no_stroke:
  assumes "k \<in> set (keyboard_strokes l cp)"
  shows "st_usage k \<noteq> KEY_USAGE_NOOP"
proof -
  have t: "typable l cp" using assms by (auto simp: typable_def)
  have u: "e_usage e \<noteq> KEY_USAGE_NOOP" if "keyboard_layout_supported l" "e \<in> set (layout_keys l)" for e
    using layout_keys_all [OF that(1) _ usages that(2)] common_entry [of _ l] by (fastforce simp: KEY_USAGE_NOOP_def)
  from t show ?thesis by (cases rule: strokes_entry) (use assms u in auto)
qed

text \<open>The second text encodes its first letter in two bytes, which the decoder takes; both are typed alike.\<close>

theorem keys_determine_the_text_witness:
  "codepoints [CHR 0x41, CHR 0xC3, CHR 0xA9] = codepoints [CHR 0xC1, CHR 0x81, CHR 0xC3, CHR 0xA9]"
proof (rule keys_determine_the_text)
  let ?s = "[CHR 0x41, CHR 0xC3, CHR 0xA9]" let ?t = "[CHR 0xC1, CHR 0x81, CHR 0xC3, CHR 0xA9]"
  have n: "keyboard_next_codepoint ?s = Some (0x41, drop 1 ?s)" "keyboard_next_codepoint ?t = Some (0x41, drop 2 ?t)"
    "keyboard_next_codepoint [CHR 0xC3, CHR 0xA9] = Some (0xE9, [])" "keyboard_next_codepoint [] = None" by code_simp+
  have k: "keyboard_strokes KEYBOARD_LAYOUT_FRENCH 0x41 = [KeyStroke 20 1]" "keyboard_strokes KEYBOARD_LAYOUT_FRENCH 0xE9 = [KeyStroke 31 0]"
    by (simp_all add: keyboard_strokes_def keyboard_layout_supported_def lookup_def find_key_def kFr_def ascii_def letter_usage_def
      KEYBOARD_LAYOUT_ENGLISH_US_def KEYBOARD_LAYOUT_ENGLISH_UK_def KEYBOARD_LAYOUT_FRENCH_def KEY_MOD_SHIFT_def)
  have s: "keyboard_layout_supported KEYBOARD_LAYOUT_FRENCH" "\<not> KEYBOARD_LAYOUT_FRENCH < 0" by code_simp+
  show "keyboard_check_text KEYBOARD_LAYOUT_FRENCH ?s 160 = None" "keyboard_check_text KEYBOARD_LAYOUT_FRENCH ?t 160 = None"
    using n k s by (simp_all add: keyboard_check_text_def keyboard_find_unsupported_def unsupported_loop.simps)
  show "strokes_of KEYBOARD_LAYOUT_FRENCH (codepoints ?s) = strokes_of KEYBOARD_LAYOUT_FRENCH (codepoints ?t)"
    using n by (simp add: codepoints.simps)
qed

end
