(* ===== verification/Input.thy ===== *)
theory Input
  imports Keyboard "HOL-Library.Signed_Division"
begin

text \<open>
  \<open>source/features/input/input.c\<close>: the virtual controller, the touch screen and the USB keyboard. Calls to the hid
  services and to the kernel's sleep are events appended to the history of the world; what a call returns is a function
  of that history, so nothing is assumed about the services. The session and the device handle they hand out are not
  kept. Sticks hold integers; the conversion from floating point is an argument. Log lines are left out.
\<close>

section \<open>State\<close>

definition INPUT_DEFAULT_TAP_MS :: int where "INPUT_DEFAULT_TAP_MS = 100"
definition INPUT_MAX_DURATION_MS :: int where "INPUT_MAX_DURATION_MS = 10000"
definition INPUT_TOUCH_WIDTH :: int where "INPUT_TOUCH_WIDTH = 1280"
definition INPUT_TOUCH_HEIGHT :: int where "INPUT_TOUCH_HEIGHT = 720"
definition INPUT_DEFAULT_KEY_MS :: int where "INPUT_DEFAULT_KEY_MS = 40"
definition INPUT_DEFAULT_TOUCH_MS :: int where "INPUT_DEFAULT_TOUCH_MS = 100"
definition INPUT_DEFAULT_SWIPE_MS :: int where "INPUT_DEFAULT_SWIPE_MS = 300"
definition TOUCH_FRAME_MS :: int where "TOUCH_FRAME_MS = 16"
definition TOUCH_DIAMETER :: nat where "TOUCH_DIAMETER = 20"

definition input_clamp_ms :: "int \<Rightarrow> int \<Rightarrow> int" where
  "input_clamp_ms ms fallback = (if ms \<le> 0 then fallback else if ms > INPUT_MAX_DURATION_MS then INPUT_MAX_DURATION_MS else ms)"

record HdlsState =
  battery_level :: nat
  buttons :: u64
  analog_stick_l :: "int \<times> int"
  analog_stick_r :: "int \<times> int"

record TouchState =
  delta_time :: int
  attributes :: u32
  touch_x :: int
  touch_y :: int
  diameter_x :: nat
  diameter_y :: nat

datatype KbState = KbState (modifiers: u64) (kb_keys: "u64 list")

text \<open>
  A virtual device is described by its four colours; its type and interface are constants of libnx. The calls of the last
  four lines are those of the process feature, which suspends these devices.
\<close>

datatype hidcall =
    AttachWorkBuffer | ReleaseWorkBuffer
  | AttachDevice "(nat \<times> nat \<times> nat) list" | DetachDevice | SetHdlsState HdlsState
  | SetTouch "TouchState list" | UnsetTouch
  | SetKeyboard KbState | UnsetKeyboard | GetKeyboardLayout
  | SleepThread int
  | SmInitialize | SmExit | HiddbgInitialize | HiddbgExit
  | PmshellInitialize | PmshellExit | PminfoInitialize | PminfoExit
  | GetProcessList | GetProgramId u64
  | LaunchProgram u64 | TerminateProgram u64 | BoostMemory nat

record hid_world =
  hcalls :: "hidcall list"
  hrc :: "hidcall list \<Rightarrow> u32"
  hlayout :: "hidcall list \<Rightarrow> int"
  g_workbuf_attached :: bool
  g_attached :: bool
  g_touch_active :: bool
  g_state :: HdlsState

definition hid_do :: "hidcall \<Rightarrow> 'a hid_world_scheme \<Rightarrow> u32 \<times> 'a hid_world_scheme" where
  "hid_do c w = (let w = w\<lparr>hcalls := hcalls w @ [c]\<rparr> in (hrc w (hcalls w), w))"

definition hid_run :: "hidcall \<Rightarrow> 'a hid_world_scheme \<Rightarrow> 'a hid_world_scheme" where
  "hid_run c w = snd (hid_do c w)"

text \<open>What the source takes from libnx: the touch attributes and the keyboard modifiers.\<close>

record hid_nx =
  attr_start :: u32
  attr_end :: u32
  mod_shift :: u64
  mod_right_alt :: u64

definition ensure_workbuf :: "'a hid_world_scheme \<Rightarrow> u32 \<times> 'a hid_world_scheme" where
  "ensure_workbuf w =
     (if g_workbuf_attached w then (0, w)
      else let (rc, w) = hid_do AttachWorkBuffer w in
        if rc \<noteq> 0 then (rc, w) else (0, w\<lparr>g_workbuf_attached := True\<rparr>))"

section \<open>Touch\<close>

definition sleep_ms :: "int \<Rightarrow> 'a hid_world_scheme \<Rightarrow> 'a hid_world_scheme" where
  "sleep_ms ms w = hid_run (SleepThread (ms * 1000000)) w"

definition touch_frame :: "u32 \<Rightarrow> int \<Rightarrow> int \<Rightarrow> TouchState" where
  "touch_frame attr x y = \<lparr>delta_time = TOUCH_FRAME_MS * 1000000, attributes = attr, touch_x = x, touch_y = y,
     diameter_x = TOUCH_DIAMETER, diameter_y = TOUCH_DIAMETER\<rparr>"

definition touch_push :: "u32 \<Rightarrow> int \<Rightarrow> int \<Rightarrow> 'a hid_world_scheme \<Rightarrow> u32 \<times> 'a hid_world_scheme" where
  "touch_push attr x y w =
     (let (rc, w) = hid_do (SetTouch [touch_frame attr x y]) w in
      if rc \<noteq> 0 then (rc, w) else (0, w\<lparr>g_touch_active := True\<rparr>))"

definition touch_release :: "'a hid_world_scheme \<Rightarrow> 'a hid_world_scheme" where
  "touch_release w =
     (if \<not> g_touch_active w then w
      else let w = hid_run (SetTouch []) w; w = sleep_ms TOUCH_FRAME_MS w; w = hid_run UnsetTouch w
        in w\<lparr>g_touch_active := False\<rparr>)"

definition clamp_coord :: "int \<Rightarrow> int \<Rightarrow> int" where
  "clamp_coord v maxv = (if v < 0 then 0 else if v > maxv then maxv else v)"

definition clamp_touch_duration :: "int \<Rightarrow> int \<Rightarrow> int" where
  "clamp_touch_duration ms fallback =
     (let ms = (if ms \<le> 0 then fallback else ms) in
      if ms < 2 * TOUCH_FRAME_MS then 2 * TOUCH_FRAME_MS
      else if ms > INPUT_MAX_DURATION_MS then INPUT_MAX_DURATION_MS else ms)"

section \<open>Controller\<close>

definition neutral :: HdlsState where
  "neutral = \<lparr>battery_level = 4, buttons = 0, analog_stick_l = (0, 0), analog_stick_r = (0, 0)\<rparr>"

definition reset_state :: "'a hid_world_scheme \<Rightarrow> 'a hid_world_scheme" where
  "reset_state w = w\<lparr>g_state := neutral\<rparr>"

definition input_suspend :: "'a hid_world_scheme \<Rightarrow> 'a hid_world_scheme" where
  "input_suspend w =
     (let w = touch_release w;
          w = (if g_attached w then (hid_run DetachDevice w)\<lparr>g_attached := False\<rparr> else w);
          w = (if g_workbuf_attached w then (hid_run ReleaseWorkBuffer w)\<lparr>g_workbuf_attached := False\<rparr> else w)
      in reset_state w)"

definition apply_state :: "'a hid_world_scheme \<Rightarrow> u32 \<times> 'a hid_world_scheme" where
  "apply_state w = hid_do (SetHdlsState (g_state w)) w"

definition device_colors :: "(nat \<times> nat \<times> nat) list" where
  "device_colors = [(60, 60, 60), (230, 230, 230), (60, 60, 230), (230, 60, 60)]"

definition input_attach :: "'a hid_world_scheme \<Rightarrow> u32 \<times> 'a hid_world_scheme" where
  "input_attach w =
     (let (rc, w) = ensure_workbuf w in
      if rc \<noteq> 0 then (rc, w)
      else if g_attached w then (0, w)
      else let (rc, w) = hid_do (AttachDevice device_colors) w in
        if rc \<noteq> 0 then (rc, w) else apply_state (reset_state (w\<lparr>g_attached := True\<rparr>)))"

definition input_detach :: "'a hid_world_scheme \<Rightarrow> u32 \<times> 'a hid_world_scheme" where
  "input_detach w =
     (if \<not> g_attached w then (0, w)
      else let (rc, w) = hid_do DetachDevice w in (rc, if rc = 0 then w\<lparr>g_attached := False\<rparr> else w))"

definition press :: "u64 \<Rightarrow> 'a hid_world_scheme \<Rightarrow> 'a hid_world_scheme" where
  "press btns w = w\<lparr>g_state := (g_state w)\<lparr>buttons := buttons (g_state w) OR btns\<rparr>\<rparr>"

definition let_go :: "u64 \<Rightarrow> 'a hid_world_scheme \<Rightarrow> 'a hid_world_scheme" where
  "let_go btns w = w\<lparr>g_state := (g_state w)\<lparr>buttons := buttons (g_state w) AND NOT btns\<rparr>\<rparr>"

definition input_tap :: "u64 \<Rightarrow> int \<Rightarrow> 'a hid_world_scheme \<Rightarrow> u32 \<times> 'a hid_world_scheme" where
  "input_tap btns duration_ms w =
     (let (rc, w) = input_attach w in
      if rc \<noteq> 0 then (rc, w)
      else let duration_ms = input_clamp_ms duration_ms INPUT_DEFAULT_TAP_MS; (rc, w) = apply_state (press btns w) in
        if rc \<noteq> 0 then (rc, w) else apply_state (let_go btns (sleep_ms duration_ms w)))"

definition input_hold :: "u64 \<Rightarrow> 'a hid_world_scheme \<Rightarrow> u32 \<times> 'a hid_world_scheme" where
  "input_hold btns w = (let (rc, w) = input_attach w in if rc \<noteq> 0 then (rc, w) else apply_state (press btns w))"

definition input_release :: "u64 \<Rightarrow> 'a hid_world_scheme \<Rightarrow> u32 \<times> 'a hid_world_scheme" where
  "input_release btns w = (let (rc, w) = input_attach w in if rc \<noteq> 0 then (rc, w) else apply_state (let_go btns w))"

definition input_clear :: "'a hid_world_scheme \<Rightarrow> u32 \<times> 'a hid_world_scheme" where
  "input_clear w =
     (let w = touch_release w in
      if \<not> g_attached w then (0, w)
      else apply_state (w\<lparr>g_state := (g_state w)\<lparr>buttons := 0, analog_stick_l := (0, 0), analog_stick_r := (0, 0)\<rparr>\<rparr>))"

definition set_stick :: "int \<Rightarrow> int \<Rightarrow> int \<Rightarrow> 'a hid_world_scheme \<Rightarrow> 'a hid_world_scheme" where
  "set_stick side x y w =
     w\<lparr>g_state := (if side = 0 then (g_state w)\<lparr>analog_stick_l := (x, y)\<rparr> else (g_state w)\<lparr>analog_stick_r := (x, y)\<rparr>)\<rparr>"

text \<open>\<open>stick_value\<close> turns a floating point position into the service's range.\<close>

definition input_stick :: "('f \<Rightarrow> int) \<Rightarrow> int \<Rightarrow> 'f \<Rightarrow> 'f \<Rightarrow> int \<Rightarrow> 'a hid_world_scheme \<Rightarrow> u32 \<times> 'a hid_world_scheme" where
  "input_stick stick_value side x y duration_ms w =
     (let (rc, w) = input_attach w in
      if rc \<noteq> 0 then (rc, w)
      else let (rc, w) = apply_state (set_stick side (stick_value x) (stick_value y) w) in
        if rc \<noteq> 0 then (rc, w)
        else if duration_ms > 0 then
          let duration_ms = (if duration_ms > INPUT_MAX_DURATION_MS then INPUT_MAX_DURATION_MS else duration_ms)
          in apply_state (set_stick side 0 0 (sleep_ms duration_ms w))
        else (rc, w))"

section \<open>Gestures\<close>

definition input_touch_tap :: "hid_nx \<Rightarrow> int \<Rightarrow> int \<Rightarrow> int \<Rightarrow> 'a hid_world_scheme \<Rightarrow> u32 \<times> 'a hid_world_scheme" where
  "input_touch_tap nxc x y duration_ms w =
     (let x = clamp_coord x (INPUT_TOUCH_WIDTH - 1);
          y = clamp_coord y (INPUT_TOUCH_HEIGHT - 1);
          duration_ms = clamp_touch_duration duration_ms INPUT_DEFAULT_TOUCH_MS;
          (rc, w) = touch_push (attr_start nxc) x y w;
          (rc, w) = (if rc = 0 then touch_push 0 x y (sleep_ms TOUCH_FRAME_MS w) else (rc, w));
          (rc, w) = (if rc = 0 then
                       let (rc, w) = touch_push (attr_end nxc) x y (sleep_ms (duration_ms - 2 * TOUCH_FRAME_MS) w)
                       in (rc, sleep_ms TOUCH_FRAME_MS w)
                     else (rc, w))
      in (rc, touch_release w))"

definition along :: "int \<Rightarrow> int \<Rightarrow> int \<Rightarrow> int \<Rightarrow> int" where
  "along a b i steps = a + ((b - a) * i) sdiv steps"

function swipe_loop ::
    "int \<times> int \<Rightarrow> int \<times> int \<Rightarrow> int \<Rightarrow> int \<Rightarrow> u32 \<Rightarrow> 'a hid_world_scheme \<Rightarrow> u32 \<times> 'a hid_world_scheme" where
  "swipe_loop a b steps i rc w =
     (if rc = 0 \<and> i < steps then
        let w = sleep_ms TOUCH_FRAME_MS w;
            (rc, w) = touch_push 0 (along (fst a) (fst b) i steps) (along (snd a) (snd b) i steps) w
        in swipe_loop a b steps (i + 1) rc w
      else (rc, w))"
  by pat_completeness auto
termination by (relation "measure (\<lambda>(a, b, steps, i, rc, w). nat (steps - i))") auto

declare swipe_loop.simps [simp del]

definition input_touch_swipe ::
    "hid_nx \<Rightarrow> int \<Rightarrow> int \<Rightarrow> int \<Rightarrow> int \<Rightarrow> int \<Rightarrow> 'a hid_world_scheme \<Rightarrow> u32 \<times> 'a hid_world_scheme" where
  "input_touch_swipe nxc from_x from_y to_x to_y duration_ms w =
     (let from_x = clamp_coord from_x (INPUT_TOUCH_WIDTH - 1);
          from_y = clamp_coord from_y (INPUT_TOUCH_HEIGHT - 1);
          to_x = clamp_coord to_x (INPUT_TOUCH_WIDTH - 1);
          to_y = clamp_coord to_y (INPUT_TOUCH_HEIGHT - 1);
          duration_ms = clamp_touch_duration duration_ms INPUT_DEFAULT_SWIPE_MS;
          steps = duration_ms div TOUCH_FRAME_MS;
          (rc, w) = touch_push (attr_start nxc) from_x from_y w;
          (rc, w) = swipe_loop (from_x, from_y) (to_x, to_y) steps 1 rc w;
          (rc, w) = (if rc = 0 then
                       let (rc, w) = touch_push (attr_end nxc) to_x to_y (sleep_ms TOUCH_FRAME_MS w)
                       in (rc, sleep_ms TOUCH_FRAME_MS w)
                     else (rc, w))
      in (rc, touch_release w))"

section \<open>Keyboard\<close>

definition input_keyboard_layout :: "'a hid_world_scheme \<Rightarrow> int \<times> 'a hid_world_scheme" where
  "input_keyboard_layout w =
     (let (rc, w) = hid_do GetKeyboardLayout w in (if rc \<noteq> 0 then - 1 else hlayout w (hcalls w), w))"

definition kb_none :: KbState where
  "kb_none = KbState 0 [0, 0, 0, 0]"

definition set_key :: "nat \<Rightarrow> KbState \<Rightarrow> KbState" where
  "set_key usage st =
     KbState (modifiers st) ((kb_keys st)[usage div 64 := kb_keys st ! (usage div 64) OR push_bit (usage mod 64) 1])"

definition kb_down :: "hid_nx \<Rightarrow> nat \<Rightarrow> u8 \<Rightarrow> KbState" where
  "kb_down nxc usage mods =
     (let st = kb_none;
          st = (if mods AND KEY_MOD_SHIFT \<noteq> 0 then set_key KEY_USAGE_LEFT_SHIFT (KbState (modifiers st OR mod_shift nxc) (kb_keys st)) else st);
          st = (if mods AND KEY_MOD_ALTGR \<noteq> 0 then set_key KEY_USAGE_RIGHT_ALT (KbState (modifiers st OR mod_right_alt nxc) (kb_keys st)) else st)
      in set_key usage st)"

definition key_tap :: "hid_nx \<Rightarrow> nat \<Rightarrow> u8 \<Rightarrow> int \<Rightarrow> 'a hid_world_scheme \<Rightarrow> u32 \<times> 'a hid_world_scheme" where
  "key_tap nxc usage mods key_ms w =
     (let (rc, w) = hid_do (SetKeyboard (kb_down nxc usage mods)) w; w = sleep_ms key_ms w in
      if rc \<noteq> 0 then (rc, w)
      else let (rc, w) = hid_do (SetKeyboard kb_none) w in (rc, sleep_ms key_ms w))"

fun strokes_loop :: "hid_nx \<Rightarrow> int \<Rightarrow> KeyStroke list \<Rightarrow> nat \<Rightarrow> u32 \<Rightarrow> 'a hid_world_scheme \<Rightarrow> u32 \<times> nat \<times> 'a hid_world_scheme" where
  "strokes_loop nxc key_ms [] prev rc w = (rc, prev, w)"
| "strokes_loop nxc key_ms (k # ks) prev rc w =
     (if rc \<noteq> 0 then (rc, prev, w)
      else let (rc, w) = (if st_usage k = prev then key_tap nxc KEY_USAGE_NOOP 0 key_ms w else (rc, w));
               (rc, w) = (if rc = 0 then key_tap nxc (st_usage k) (st_mods k) key_ms w else (rc, w))
        in strokes_loop nxc key_ms ks (st_usage k) rc w)"

function type_loop :: "hid_nx \<Rightarrow> int \<Rightarrow> int \<Rightarrow> string \<Rightarrow> nat \<Rightarrow> u32 \<Rightarrow> 'a hid_world_scheme \<Rightarrow> u32 \<times> 'a hid_world_scheme" where
  "type_loop nxc l key_ms s prev rc w =
     (if rc \<noteq> 0 then (rc, w)
      else case keyboard_next_codepoint s of
        None \<Rightarrow> (rc, w)
      | Some (cp, s') \<Rightarrow>
          let (rc, prev, w) = strokes_loop nxc key_ms (keyboard_strokes l cp) prev rc w
          in type_loop nxc l key_ms s' prev rc w)"
  by pat_completeness auto
termination by (relation "measure (\<lambda>(nxc, l, key_ms, s, prev, rc, w). length s)") (auto simp: next_codepoint_shorter)

declare type_loop.simps [simp del]

definition input_type_text :: "hid_nx \<Rightarrow> int \<Rightarrow> string \<Rightarrow> int \<Rightarrow> 'a hid_world_scheme \<Rightarrow> u32 \<times> 'a hid_world_scheme" where
  "input_type_text nxc l s key_ms w =
     (let key_ms = (if key_ms < 1 then 1 else key_ms);
          key_ms = (if key_ms > 500 then 500 else key_ms);
          (rc, w) = key_tap nxc KEY_USAGE_NOOP 0 key_ms w;
          (rc, w) = type_loop nxc l key_ms s KEY_USAGE_NOOP rc w
      in (rc, hid_run UnsetKeyboard w))"

section \<open>What is held from the services\<close>

text \<open>
  Read off the history: the work buffer, the virtual device, the touch panel and the keyboard, each taken by a call that
  succeeds and given back by one that succeeds.
\<close>

fun held_upd :: "hidcall \<Rightarrow> bool \<Rightarrow> bool \<times> bool \<times> bool \<times> bool \<Rightarrow> bool \<times> bool \<times> bool \<times> bool" where
  "held_upd AttachWorkBuffer ok (wb, dv, tp, kb) = (wb \<or> ok, dv, tp, kb)"
| "held_upd ReleaseWorkBuffer ok (wb, dv, tp, kb) = (wb \<and> \<not> ok, dv, tp, kb)"
| "held_upd (AttachDevice cs) ok (wb, dv, tp, kb) = (wb, dv \<or> ok, tp, kb)"
| "held_upd DetachDevice ok (wb, dv, tp, kb) = (wb, dv \<and> \<not> ok, tp, kb)"
| "held_upd (SetTouch ts) ok (wb, dv, tp, kb) = (wb, dv, tp \<or> ok, kb)"
| "held_upd UnsetTouch ok (wb, dv, tp, kb) = (wb, dv, tp \<and> \<not> ok, kb)"
| "held_upd (SetKeyboard st) ok (wb, dv, tp, kb) = (wb, dv, tp, kb \<or> ok)"
| "held_upd UnsetKeyboard ok (wb, dv, tp, kb) = (wb, dv, tp, kb \<and> \<not> ok)"
| "held_upd c ok h = h"

fun held_rev :: "(hidcall list \<Rightarrow> u32) \<Rightarrow> hidcall list \<Rightarrow> bool \<times> bool \<times> bool \<times> bool" where
  "held_rev rc [] = (False, False, False, False)"
| "held_rev rc (c # h) = held_upd c (rc (rev h @ [c]) = 0) (held_rev rc h)"

definition held :: "'a hid_world_scheme \<Rightarrow> bool \<times> bool \<times> bool \<times> bool" where
  "held w = held_rev (hrc w) (rev (hcalls w))"

definition releases_accepted :: "'a hid_world_scheme \<Rightarrow> bool" where
  "releases_accepted w \<longleftrightarrow>
     (\<forall>h. \<forall>c \<in> {ReleaseWorkBuffer, DetachDevice, UnsetTouch, UnsetKeyboard}. hrc w (h @ [c]) = 0)"

text \<open>What a call returns, and how it and the flags show.\<close>

definition hid_rc :: "hidcall \<Rightarrow> 'a hid_world_scheme \<Rightarrow> u32" where
  "hid_rc c w = hrc w (hcalls w @ [c])"

lemma hid_do_run: "hid_do c w = (hid_rc c w, hid_run c w)"
  by (simp add: hid_run_def hid_do_def hid_rc_def)

lemma hid_run_fields [simp]:
  "hcalls (hid_run c w) = hcalls w @ [c]" "hrc (hid_run c w) = hrc w" "g_workbuf_attached (hid_run c w) = g_workbuf_attached w"
  "g_attached (hid_run c w) = g_attached w" "g_touch_active (hid_run c w) = g_touch_active w" "g_state (hid_run c w) = g_state w"
  by (simp_all add: hid_run_def hid_do_def)

lemma held_run [simp]: "held (hid_run c w) = held_upd c (hid_rc c w = 0) (held w)"
  by (simp add: held_def hid_rc_def)

lemma held_flags [simp]:
  "held (w\<lparr>g_workbuf_attached := b\<rparr>) = held w" "held (w\<lparr>g_attached := b\<rparr>) = held w"
  "held (w\<lparr>g_touch_active := b\<rparr>) = held w" "held (w\<lparr>g_state := s\<rparr>) = held w"
  by (simp_all add: held_def)

lemma accepted [simp]:
  "releases_accepted (hid_run c w) = releases_accepted w" "releases_accepted (w\<lparr>g_workbuf_attached := b\<rparr>) = releases_accepted w"
  "releases_accepted (w\<lparr>g_attached := b\<rparr>) = releases_accepted w" "releases_accepted (w\<lparr>g_touch_active := b\<rparr>) = releases_accepted w"
  "releases_accepted (w\<lparr>g_state := s\<rparr>) = releases_accepted w"
  by (simp_all add: releases_accepted_def)

text \<open>
  What was taken, by a call that succeeded, and not asked back since: the same account, in which a call to give back
  counts whatever it returns. No promise of the services is needed to follow it.
\<close>

definition gives_back_call :: "hidcall \<Rightarrow> bool" where
  "gives_back_call c \<longleftrightarrow> c \<in> {ReleaseWorkBuffer, DetachDevice, UnsetTouch, UnsetKeyboard}"

fun owed_rev :: "(hidcall list \<Rightarrow> u32) \<Rightarrow> hidcall list \<Rightarrow> bool \<times> bool \<times> bool \<times> bool" where
  "owed_rev rc [] = (False, False, False, False)"
| "owed_rev rc (c # h) = held_upd c (gives_back_call c \<or> rc (rev h @ [c]) = 0) (owed_rev rc h)"

definition owed :: "'a hid_world_scheme \<Rightarrow> bool \<times> bool \<times> bool \<times> bool" where
  "owed w = owed_rev (hrc w) (rev (hcalls w))"

lemma gives_back_calls [simp]:
  "gives_back_call ReleaseWorkBuffer" "gives_back_call DetachDevice" "gives_back_call UnsetTouch" "gives_back_call UnsetKeyboard"
  by (simp_all add: gives_back_call_def)

lemma takes_call [simp]:
  "\<not> gives_back_call AttachWorkBuffer" "\<not> gives_back_call (AttachDevice cs)" "\<not> gives_back_call (SetTouch ts)"
  "\<not> gives_back_call (SetKeyboard st)"
  by (simp_all add: gives_back_call_def)

lemma owed_run [simp]: "owed (hid_run c w) = held_upd c (gives_back_call c \<or> hid_rc c w = 0) (owed w)"
  by (simp add: owed_def hid_rc_def)

lemma owed_flags [simp]:
  "owed (w\<lparr>g_workbuf_attached := b\<rparr>) = owed w" "owed (w\<lparr>g_attached := b\<rparr>) = owed w"
  "owed (w\<lparr>g_touch_active := b\<rparr>) = owed w" "owed (w\<lparr>g_state := s\<rparr>) = owed w"
  by (simp_all add: owed_def)

text \<open>What is held is owed at most; when the services accept what is given back, it is the same.\<close>

lemma owed_held: "releases_accepted w \<Longrightarrow> owed w = held w"
proof -
  assume "releases_accepted w"
  then have "(gives_back_call c \<or> hrc w (h @ [c]) = 0) = (hrc w (h @ [c]) = 0)" for c h
    by (auto simp: releases_accepted_def gives_back_call_def)
  then have "owed_rev (hrc w) h = held_rev (hrc w) h" for h by (induction h) simp_all
  then show ?thesis by (simp add: owed_def held_def)
qed

text \<open>
  Nothing is owed that the flags of the program do not say; \<open>kb\<close> tells about the keyboard, which has none. When the
  services accept what is given back (\<open>pledged\<close>), the flags say exactly what is owed.
\<close>

fun within :: "bool \<times> bool \<times> bool \<times> bool \<Rightarrow> bool \<times> bool \<times> bool \<times> bool \<Rightarrow> bool" where
  "within (a, b, c, d) (a', b', c', d') \<longleftrightarrow> (a \<longrightarrow> a') \<and> (b \<longrightarrow> b') \<and> (c \<longrightarrow> c') \<and> (d \<longrightarrow> d')"

definition agrees :: "bool \<Rightarrow> bool \<Rightarrow> 'a hid_world_scheme \<Rightarrow> bool" where
  "agrees pledged kb w \<longleftrightarrow> within (owed w) (g_workbuf_attached w, g_attached w, g_touch_active w, kb) \<and>
     (pledged \<longrightarrow> releases_accepted w \<and> owed w = (g_workbuf_attached w, g_attached w, g_touch_active w, kb))"

lemma acceptedD: "releases_accepted w \<Longrightarrow> gives_back_call c \<Longrightarrow> hid_rc c w = 0"
  by (auto simp: releases_accepted_def hid_rc_def gives_back_call_def)

named_theorems held_keeps \<open>operations that keep the flags truthful\<close>

lemma sleep_agrees [held_keeps]: "agrees pledged kb w \<Longrightarrow> agrees pledged kb (sleep_ms ms w)"
  by (cases "owed w") (auto simp: sleep_ms_def agrees_def)

lemma held_upd_state: "held_upd (SetHdlsState st) b h = h"
  by (cases h) simp

lemma state_agrees [held_keeps]:
  assumes "agrees pledged kb w"
  shows "agrees pledged kb (press m w)" "agrees pledged kb (let_go m w)" "agrees pledged kb (reset_state w)" "agrees pledged kb (set_stick s x y w)"
    "agrees pledged kb (w\<lparr>g_state := st\<rparr>)" "agrees pledged kb (snd (apply_state w))"
  using assms by (simp_all add: held_upd_state press_def let_go_def reset_state_def set_stick_def apply_state_def hid_do_run agrees_def)

lemma touch_push_agrees [held_keeps]: "agrees pledged kb w \<Longrightarrow> agrees pledged kb (snd (touch_push a x y w))"
  by (cases "owed w") (auto simp: touch_push_def hid_do_run agrees_def)

lemma touch_release_agrees [held_keeps]: "agrees pledged kb w \<Longrightarrow> agrees pledged kb (touch_release w)"
  by (cases "owed w") (auto simp: touch_release_def sleep_ms_def agrees_def)

lemma touch_release_off: "\<not> g_touch_active (touch_release w)"
  by (simp add: touch_release_def)

lemma attach_agrees [held_keeps]: "agrees pledged kb w \<Longrightarrow> agrees pledged kb (snd (input_attach w))"
  by (cases "owed w") (auto simp: input_attach_def ensure_workbuf_def hid_do_run apply_state_def reset_state_def Let_def agrees_def)

lemma detach_agrees [held_keeps]: "agrees pledged kb w \<Longrightarrow> agrees pledged kb (snd (input_detach w))"
  by (cases "owed w") (auto simp: input_detach_def hid_do_run agrees_def acceptedD)

lemma suspend_agrees [held_keeps]: "agrees pledged kb w \<Longrightarrow> agrees pledged kb (input_suspend w)"
proof -
  assume "agrees pledged kb w"
  then have "agrees pledged kb (touch_release w)" by (rule held_keeps)
  then show ?thesis by (cases "owed (touch_release w)") (auto simp: input_suspend_def Let_def reset_state_def agrees_def)
qed

text \<open>An operation is a sequence of calls, each a pair of a result and a world.\<close>

lemma bind_keeps: "P (snd p) \<Longrightarrow> (\<And>rc w. P w \<Longrightarrow> P (snd (F rc w))) \<Longrightarrow> P (snd (case p of (rc, w) \<Rightarrow> F rc w))"
  by (cases p) simp

lemma if_keeps: "(b \<Longrightarrow> P (snd x)) \<Longrightarrow> (\<not> b \<Longrightarrow> P (snd y)) \<Longrightarrow> P (snd (if b then x else y))"
  by simp

lemma pair_keeps: "P w \<Longrightarrow> P (snd (rc, w))"
  by simp

lemmas agrees_seq = bind_keeps [of "agrees pledged kb" for pledged kb] if_keeps [of _ "agrees pledged kb" for pledged kb] pair_keeps [of "agrees pledged kb" for pledged kb]

lemma swipe_loop_agrees [held_keeps]: "agrees pledged kb w \<Longrightarrow> agrees pledged kb (snd (swipe_loop a b steps i rc w))"
proof (induction "nat (steps - i)" arbitrary: i rc w rule: less_induct)
  case less
  show ?case
    by (subst swipe_loop.simps, unfold Let_def) (intro agrees_seq held_keeps less; simp)
qed

definition truthful :: "bool \<Rightarrow> 'a hid_world_scheme \<Rightarrow> bool" where
  "truthful pledged w \<longleftrightarrow> (\<exists>kb. agrees pledged kb w)"

lemma key_tap_truthful: "truthful pledged w \<Longrightarrow> truthful pledged (snd (key_tap nxc u m ms w))"
  by (cases "owed w") (auto simp: truthful_def key_tap_def hid_do_run sleep_ms_def agrees_def Let_def)

text \<open>Typing is a sequence of key taps: what they keep, it keeps.\<close>

lemma strokes_loop_keeps:
  assumes tap: "\<And>u m w. P w \<Longrightarrow> P (snd (key_tap nxc u m ms w))"
  shows "P w \<Longrightarrow> P (snd (snd (strokes_loop nxc ms ks prev rc w)))"
proof (induction ks arbitrary: prev rc w)
  case (Cons k ks)
  obtain rc1 w1 where p: "(if st_usage k = prev then key_tap nxc KEY_USAGE_NOOP 0 ms w else (rc, w)) = (rc1, w1)" by (rule prod.exhaust)
  then have a: "P w1" using tap [OF Cons.prems] Cons.prems by (metis snd_conv)
  obtain rc2 w2 where q: "(if rc1 = 0 then key_tap nxc (st_usage k) (st_mods k) ms w1 else (rc1, w1)) = (rc2, w2)" by (rule prod.exhaust)
  then have "P w2" using tap [OF a] a by (metis snd_conv)
  with Cons p q show ?case by (simp add: Let_def)
qed simp

lemma type_loop_keeps:
  assumes tap: "\<And>u m w. P w \<Longrightarrow> P (snd (key_tap nxc u m ms w))"
  shows "P w \<Longrightarrow> P (snd (type_loop nxc l ms s prev rc w))"
proof (induction s arbitrary: prev rc w rule: length_induct)
  case (1 s)
  show ?case
  proof (cases "rc = 0 \<and> keyboard_next_codepoint s \<noteq> None")
    case True
    then obtain cp s' where n: "keyboard_next_codepoint s = Some (cp, s')" by auto
    obtain rc1 prev1 w1 where p: "strokes_loop nxc ms (keyboard_strokes l cp) prev rc w = (rc1, prev1, w1)" by (rule prod_cases3)
    then have "P w1" using strokes_loop_keeps [of P, OF tap 1(2)] by (metis snd_conv)
    with 1(1) next_codepoint_shorter [OF n] n p True show ?thesis by (subst type_loop.simps) simp
  next
    case False
    then have "rc \<noteq> 0 \<or> keyboard_next_codepoint s = None" by (cases "keyboard_next_codepoint s") auto
    then have "type_loop nxc l ms s prev rc w = (rc, w)" by (subst type_loop.simps) auto
    with 1(2) show ?thesis by simp
  qed
qed

lemma type_text_keeps:
  assumes tap: "\<And>u m ms w. P w \<Longrightarrow> P (snd (key_tap nxc u m ms w))" and "P w"
  obtains w' where "P w'" and "snd (input_type_text nxc l s ms w) = hid_run UnsetKeyboard w'"
proof -
  define m where "m = (if (if ms < 1 then 1 else ms) > 500 then 500 else if ms < 1 then 1 else ms)"
  obtain rc1 w1 where k: "key_tap nxc KEY_USAGE_NOOP 0 m w = (rc1, w1)" by (rule prod.exhaust)
  obtain rc2 w2 where t: "type_loop nxc l m s KEY_USAGE_NOOP rc1 w1 = (rc2, w2)" by (rule prod.exhaust)
  from k have "P w1" using tap [OF assms(2)] by (metis snd_conv)
  with t have "P w2" using type_loop_keeps [of P, OF tap] by (metis snd_conv)
  then show thesis using that [of w2] k t by (simp add: input_type_text_def Let_def m_def)
qed

lemma unset_keyboard: "truthful pledged w \<Longrightarrow> agrees pledged False (hid_run UnsetKeyboard w)"
  by (cases "owed w") (auto simp: truthful_def agrees_def)

lemma type_text_agrees [held_keeps]:
  assumes "agrees pledged False w"
  shows "agrees pledged False (snd (input_type_text nxc l s ms w))"
proof -
  have "truthful pledged w" using assms by (auto simp: truthful_def)
  from type_text_keeps [of "truthful pledged", OF key_tap_truthful this] unset_keyboard show ?thesis by metis
qed

lemma layout_agrees [held_keeps]: "agrees pledged kb w \<Longrightarrow> agrees pledged kb (snd (input_keyboard_layout w))"
  by (auto simp: input_keyboard_layout_def hid_do_run agrees_def)

lemma buttons_agree [held_keeps]:
  assumes "agrees pledged kb w"
  shows "agrees pledged kb (snd (input_tap m d w))" "agrees pledged kb (snd (input_hold m w))" "agrees pledged kb (snd (input_release m w))"
    "agrees pledged kb (snd (input_clear w))" "agrees pledged kb (snd (input_stick sv side x y d w))"
  using assms unfolding input_tap_def input_hold_def input_release_def input_clear_def input_stick_def Let_def
  by (intro agrees_seq held_keeps; simp)+

lemma gestures_agree [held_keeps]:
  assumes "agrees pledged kb w"
  shows "agrees pledged kb (snd (input_touch_tap nxc x y d w))" "agrees pledged kb (snd (input_touch_swipe nxc x y x' y' d w))"
  using assms unfolding input_touch_tap_def input_touch_swipe_def Let_def
  by (intro agrees_seq held_keeps; simp)+

section \<open>Sequences of requests\<close>

datatype input_op =
    OpAttach | OpDetach | OpTap u64 int | OpHold u64 | OpRelease u64 | OpClear | OpStick int int int int
  | OpTouch int int int | OpSwipe int int int int int | OpType int string int | OpLayout | OpSuspend

fun run_op :: "hid_nx \<Rightarrow> input_op \<Rightarrow> 'a hid_world_scheme \<Rightarrow> 'a hid_world_scheme" where
  "run_op nxc OpAttach w = snd (input_attach w)"
| "run_op nxc OpDetach w = snd (input_detach w)"
| "run_op nxc (OpTap m d) w = snd (input_tap m d w)"
| "run_op nxc (OpHold m) w = snd (input_hold m w)"
| "run_op nxc (OpRelease m) w = snd (input_release m w)"
| "run_op nxc OpClear w = snd (input_clear w)"
| "run_op nxc (OpStick side x y d) w = snd (input_stick (\<lambda>v. v) side x y d w)"
| "run_op nxc (OpTouch x y d) w = snd (input_touch_tap nxc x y d w)"
| "run_op nxc (OpSwipe x y x' y' d) w = snd (input_touch_swipe nxc x y x' y' d w)"
| "run_op nxc (OpType l s ms) w = snd (input_type_text nxc l s ms w)"
| "run_op nxc OpLayout w = snd (input_keyboard_layout w)"
| "run_op nxc OpSuspend w = input_suspend w"

definition run_ops :: "hid_nx \<Rightarrow> input_op list \<Rightarrow> 'a hid_world_scheme \<Rightarrow> 'a hid_world_scheme" where
  "run_ops nxc ops w = fold (run_op nxc) ops w"


lemma run_op_agrees: "agrees pledged False w \<Longrightarrow> agrees pledged False (run_op nxc op w)"
  by (cases op) (simp_all add: held_keeps)

lemma run_ops_agrees: "agrees pledged False w \<Longrightarrow> agrees pledged False (run_ops nxc ops w)"
  by (induction ops arbitrary: w) (simp_all add: run_ops_def run_op_agrees)

text \<open>Every request leaves the touch panel with the player: gestures hand it back, the others do not take it.\<close>

definition untouched :: "bool \<Rightarrow> 'a hid_world_scheme \<Rightarrow> bool" where
  "untouched b w \<longleftrightarrow> g_touch_active w = b"

lemmas touch_seq = bind_keeps [of "untouched b" for b] if_keeps [of _ "untouched b" for b] pair_keeps [of "untouched b" for b]

lemma untouched_calls [intro]:
  assumes "untouched b w"
  shows "untouched b (sleep_ms ms w)" "untouched b (hid_run c w)" "untouched b (snd (hid_do c w))" "untouched b (press m w)"
    "untouched b (let_go m w)" "untouched b (reset_state w)" "untouched b (set_stick s x y w)" "untouched b (snd (apply_state w))"
    "untouched b (w\<lparr>g_state := st\<rparr>)" "untouched b (w\<lparr>g_attached := f\<rparr>)" "untouched b (w\<lparr>g_workbuf_attached := f\<rparr>)"
  using assms by (simp_all add: untouched_def sleep_ms_def press_def let_go_def reset_state_def set_stick_def apply_state_def hid_do_run)

lemma untouched_attach [intro]: "untouched b w \<Longrightarrow> untouched b (snd (ensure_workbuf w))" "untouched b w \<Longrightarrow> untouched b (snd (input_attach w))"
  by (auto simp: untouched_def input_attach_def ensure_workbuf_def apply_state_def reset_state_def hid_do_run Let_def)

lemma untouched_key [intro]: "untouched b w \<Longrightarrow> untouched b (snd (key_tap nxc u m ms w))"
  by (auto simp: untouched_def key_tap_def hid_do_run sleep_ms_def Let_def)

lemma untouched_released: "untouched False (touch_release w)"
  by (simp add: untouched_def touch_release_off)

lemma untouched_buttons:
  assumes "untouched b w"
  shows "untouched b (snd (input_tap m d w))" "untouched b (snd (input_hold m w))" "untouched b (snd (input_release m w))"
    "untouched b (snd (input_detach w))" "untouched b (snd (input_stick sv side x y d w))" "untouched b (snd (input_keyboard_layout w))"
  using assms unfolding input_tap_def input_hold_def input_release_def input_detach_def input_stick_def input_keyboard_layout_def Let_def
  by (intro touch_seq untouched_calls untouched_attach; simp add: untouched_calls)+

lemma untouched_ended:
  "untouched False (snd (input_clear w))" "untouched False (input_suspend w)"
  "untouched False (snd (input_touch_tap nxc x y d w))" "untouched False (snd (input_touch_swipe nxc x y x' y' d w))"
proof -
  have r: "\<not> g_touch_active (touch_release w)" for w :: "'b hid_world_scheme" by (rule touch_release_off)
  show "untouched False (snd (input_clear w))" "untouched False (input_suspend w)"
    by (auto simp: input_clear_def input_suspend_def Let_def untouched_def apply_state_def hid_do_run reset_state_def r)
  show "untouched False (snd (input_touch_tap nxc x y d w))" "untouched False (snd (input_touch_swipe nxc x y x' y' d w))"
    by (auto simp: input_touch_tap_def input_touch_swipe_def Let_def untouched_def r split: prod.split)
qed

lemma untouched_typed: "untouched b w \<Longrightarrow> untouched b (snd (input_type_text nxc l s ms w))"
  using type_text_keeps [of "untouched b", OF untouched_key] untouched_calls(2) by metis

lemma run_op_untouched: "untouched False w \<Longrightarrow> untouched False (run_op nxc op w)"
  by (cases op) (auto simp: untouched_buttons untouched_ended untouched_typed)

lemma run_ops_untouched: "untouched False w \<Longrightarrow> untouched False (run_ops nxc ops w)"
  by (induction ops arbitrary: w) (simp_all add: run_ops_def run_op_untouched)

text \<open>
  C32: when the services accept what is given back to them, then after any sequence of requests the program's flags say
  exactly what is held from the services, the touch panel and the keyboard are with the player again, and going to sleep
  gives everything back, work buffer and virtual device included, with the controller neutral.
\<close>

theorem nothing_held_in_sleep:
  assumes "hcalls w = []" and "\<not> g_workbuf_attached w" and "\<not> g_attached w" and "\<not> g_touch_active w" and "releases_accepted w"
    and v_def: "v = run_ops nxc ops w"
  shows "held v = (g_workbuf_attached v, g_attached v, False, False) \<and>
    held (input_suspend v) = (False, False, False, False) \<and> g_state (input_suspend v) = neutral"
proof -
  have "agrees True False w" using assms by (simp add: agrees_def owed_def)
  then have a: "agrees True False v" unfolding v_def by (rule run_ops_agrees)
  have "untouched False w" using assms by (simp add: untouched_def)
  then have u: "\<not> g_touch_active v" using run_ops_untouched [of w nxc ops] by (simp add: v_def untouched_def)
  have i: "agrees True False (input_suspend v)" using a by (rule suspend_agrees)
  then have r: "releases_accepted v" "releases_accepted (input_suspend v)" using a by (simp_all add: agrees_def)
  moreover have "\<not> g_workbuf_attached (input_suspend v)" "\<not> g_attached (input_suspend v)" "\<not> g_touch_active (input_suspend v)"
    "g_state (input_suspend v) = neutral"
    using untouched_ended(2) [of v] by (simp_all add: input_suspend_def Let_def reset_state_def untouched_def)
  ultimately show ?thesis using a i u owed_held [OF r(1)] owed_held [OF r(2)] by (simp add: agrees_def)
qed

definition demo_hid :: hid_world where
  "demo_hid = \<lparr>hcalls = [], hrc = (\<lambda>h. 0), hlayout = (\<lambda>h. 1), g_workbuf_attached = False, g_attached = False,
     g_touch_active = False, g_state = neutral\<rparr>"

definition demo_hidnx :: hid_nx where
  "demo_hidnx = \<lparr>attr_start = 1, attr_end = 2, mod_shift = 2, mod_right_alt = 64\<rparr>"

theorem nothing_held_in_sleep_witness:
  "held (run_ops demo_hidnx [OpHold 1, OpTouch 10 20 100] demo_hid) = (True, True, False, False) \<and>
   held (input_suspend (run_ops demo_hidnx [OpHold 1, OpTouch 10 20 100] demo_hid)) = (False, False, False, False)"
proof -
  let ?v = "run_ops demo_hidnx [OpHold 1, OpTouch 10 20 100] demo_hid"
  have "g_workbuf_attached ?v" "g_attached ?v" by code_simp+
  moreover have "hcalls demo_hid = []" "\<not> g_workbuf_attached demo_hid" "\<not> g_attached demo_hid" "\<not> g_touch_active demo_hid" "releases_accepted demo_hid"
    by (simp_all add: demo_hid_def releases_accepted_def)
  from nothing_held_in_sleep [OF this refl, of demo_hidnx "[OpHold 1, OpTouch 10 20 100]"]
  have "held ?v = (g_workbuf_attached ?v, g_attached ?v, False, False)" "held (input_suspend ?v) = (False, False, False, False)" by simp_all
  ultimately show ?thesis by simp
qed

section \<open>Swipes\<close>

text \<open>The frames pushed to the touch panel, with a finger on it.\<close>

definition touches :: "hidcall list \<Rightarrow> TouchState list" where
  "touches h = concat (map (\<lambda>c. case c of SetTouch ts \<Rightarrow> ts | _ \<Rightarrow> []) h)"

lemma touches_simps [simp]:
  "touches [] = []" "touches (h @ k) = touches h @ touches k" "touches (SetTouch ts # h) = ts @ touches h"
  "touches (SleepThread n # h) = touches h" "touches (UnsetTouch # h) = touches h"
  by (simp_all add: touches_def)

definition swipe_frames :: "hid_nx \<Rightarrow> int \<times> int \<Rightarrow> int \<times> int \<Rightarrow> int \<Rightarrow> TouchState list" where
  "swipe_frames nxc a b steps =
     touch_frame (attr_start nxc) (fst a) (snd a) #
     map (\<lambda>i. touch_frame 0 (along (fst a) (fst b) i steps) (along (snd a) (snd b) i steps)) [1..steps - 1] @
     [touch_frame (attr_end nxc) (fst b) (snd b)]"

lemma touch_push_frames:
  "touch_push attr x y w = (rc, w') \<Longrightarrow> touches (hcalls w') = touches (hcalls w) @ [touch_frame attr x y]"
  by (auto simp: touch_push_def hid_do_run split: if_splits)

lemma touches_sleep [simp]: "touches (hcalls (sleep_ms ms w)) = touches (hcalls w)"
  by (simp add: sleep_ms_def)

lemma touches_release [simp]: "touches (hcalls (touch_release w)) = touches (hcalls w)"
  by (simp add: touch_release_def Let_def)

lemma swipe_loop_frames:
  "swipe_loop a b steps i rc w = (rc', w') \<Longrightarrow>
    \<exists>n. touches (hcalls w') = touches (hcalls w) @
        take n (map (\<lambda>i. touch_frame 0 (along (fst a) (fst b) i steps) (along (snd a) (snd b) i steps)) [i..steps - 1]) \<and>
      (rc' = 0 \<longrightarrow> length [i..steps - 1] \<le> n) \<and> (rc \<noteq> 0 \<longrightarrow> n = 0 \<and> rc' = rc)"
proof (induction "nat (steps - i)" arbitrary: i rc w rule: less_induct)
  case less
  show ?case
  proof (cases "rc = 0 \<and> i < steps")
    case False
    with less.prems show ?thesis by (subst (asm) swipe_loop.simps) (auto intro: exI [of _ 0])
  next
    case True
    obtain rc1 w1 where p: "touch_push 0 (along (fst a) (fst b) i steps) (along (snd a) (snd b) i steps) (sleep_ms TOUCH_FRAME_MS w) = (rc1, w1)"
      by (rule prod.exhaust)
    with True less.prems have l: "swipe_loop a b steps (i + 1) rc1 w1 = (rc', w')" by (subst (asm) swipe_loop.simps) simp
    from True have "nat (steps - (i + 1)) < nat (steps - i)" by simp
    from less.hyps [OF this l] obtain n where
      n: "touches (hcalls w') = touches (hcalls w1) @
        take n (map (\<lambda>i. touch_frame 0 (along (fst a) (fst b) i steps) (along (snd a) (snd b) i steps)) [i + 1..steps - 1])"
      "rc' = 0 \<longrightarrow> length [i + 1..steps - 1] \<le> n" by blast
    have u: "[i..steps - 1] = i # [i + 1..steps - 1]" using True by (simp add: upto_rec1)
    show ?thesis by (rule exI [of _ "Suc n"]) (use True n touch_push_frames [OF p] in \<open>simp add: u\<close>)
  qed
qed

lemma along_up: "a \<le> b \<Longrightarrow> 0 \<le> i \<Longrightarrow> 0 < n \<Longrightarrow> along a b i n = a + ((b - a) * i) div n"
proof -
  assume h: "a \<le> b" "0 \<le> i" "0 < n"
  then have "0 \<le> (b - a) * i" by simp
  then show ?thesis using h by (auto simp: along_def signed_divide_int_def sgn_if)
qed

lemma along_down: "b \<le> a \<Longrightarrow> 0 \<le> i \<Longrightarrow> 0 < n \<Longrightarrow> along a b i n = a - ((a - b) * i) div n"
proof -
  assume h: "b \<le> a" "0 \<le> i" "0 < n"
  have "(b - a) * i = - ((a - b) * i)" by (simp add: algebra_simps)
  then show ?thesis using h by (auto simp: along_def signed_divide_int_def sgn_if)
qed

lemma div_between: "0 \<le> d \<Longrightarrow> 0 \<le> i \<Longrightarrow> i \<le> n \<Longrightarrow> 0 < n \<Longrightarrow> 0 \<le> d * i div n \<and> d * i div n \<le> (d :: int)"
proof -
  assume h: "0 \<le> d" "0 \<le> i" "i \<le> n" "0 < n"
  then have "d * i \<le> d * n" by (simp add: mult_left_mono)
  then have "d * i div n \<le> d * n div n" using h by (intro zdiv_mono1) auto
  with h show ?thesis by (simp add: pos_imp_zdiv_nonneg_iff)
qed

lemma along_mono: "a \<le> b \<Longrightarrow> 0 \<le> i \<Longrightarrow> i \<le> j \<Longrightarrow> 0 < n \<Longrightarrow> along a b i n \<le> along a b j n"
  by (simp add: along_up zdiv_mono1 mult_left_mono)

lemma along_antimono: "b \<le> a \<Longrightarrow> 0 \<le> i \<Longrightarrow> i \<le> j \<Longrightarrow> 0 < n \<Longrightarrow> along a b j n \<le> along a b i n"
  by (simp add: along_down zdiv_mono1 mult_left_mono)

lemma along_between: "0 \<le> i \<Longrightarrow> i \<le> n \<Longrightarrow> 0 < n \<Longrightarrow> min a b \<le> along a b i n \<and> along a b i n \<le> max a b"
  using div_between [of "b - a" i n] div_between [of "a - b" i n] by (cases "a \<le> b") (auto simp: along_up along_down)

text \<open>The frames of a swipe: on the panel when its ends are, and moving one way along each axis.\<close>

definition one_way :: "int list \<Rightarrow> bool" where
  "one_way xs \<longleftrightarrow> sorted_wrt (\<le>) xs \<or> sorted_wrt (\<ge>) xs"

lemma one_way_along:
  assumes "0 < n"
  shows "one_way (a # map (\<lambda>i. along a b i n) [1..n - 1] @ [b])"
proof -
  have i: "sorted_wrt (\<lambda>i j. i \<le> j \<and> 0 \<le> i \<and> j \<le> n) [1..n - 1]"
    by (rule sorted_wrt_mono_rel [OF _ sorted_upto]) auto
  show ?thesis
  proof (cases "a \<le> b")
    case True
    have "sorted_wrt (\<le>) (map (\<lambda>i. along a b i n) [1..n - 1])"
      unfolding sorted_wrt_map by (rule sorted_wrt_mono_rel [OF _ i]) (use True assms along_mono in auto)
    then show ?thesis using True along_between [of _ n a b] assms by (auto simp: one_way_def sorted_wrt_append)
  next
    case False
    have "sorted_wrt (\<ge>) (map (\<lambda>i. along a b i n) [1..n - 1])"
      unfolding sorted_wrt_map by (rule sorted_wrt_mono_rel [OF _ i]) (use False assms along_antimono in auto)
    then show ?thesis using False along_between [of _ n a b] assms by (auto simp: one_way_def sorted_wrt_append)
  qed
qed

definition on_panel :: "TouchState \<Rightarrow> bool" where
  "on_panel t \<longleftrightarrow> 0 \<le> touch_x t \<and> touch_x t < INPUT_TOUCH_WIDTH \<and> 0 \<le> touch_y t \<and> touch_y t < INPUT_TOUCH_HEIGHT"

lemma touch_duration_bounds:
  "2 * TOUCH_FRAME_MS \<le> clamp_touch_duration d INPUT_DEFAULT_SWIPE_MS \<and> clamp_touch_duration d INPUT_DEFAULT_SWIPE_MS \<le> INPUT_MAX_DURATION_MS"
  by (simp add: clamp_touch_duration_def Let_def TOUCH_FRAME_MS_def INPUT_MAX_DURATION_MS_def INPUT_DEFAULT_SWIPE_MS_def)

lemma frame_xy [simp]: "touch_x (touch_frame at x y) = x" "touch_y (touch_frame at x y) = y"
  by (simp_all add: touch_frame_def)

lemma swipe_frames_ok:
  assumes "0 \<le> fst a" "fst a < INPUT_TOUCH_WIDTH" "0 \<le> snd a" "snd a < INPUT_TOUCH_HEIGHT"
    "0 \<le> fst b" "fst b < INPUT_TOUCH_WIDTH" "0 \<le> snd b" "snd b < INPUT_TOUCH_HEIGHT" and n: "0 < n"
  shows "list_all on_panel (swipe_frames nxc a b n) \<and> one_way (map touch_x (swipe_frames nxc a b n)) \<and> one_way (map touch_y (swipe_frames nxc a b n))"
proof -
  have "on_panel (touch_frame 0 (along (fst a) (fst b) i n) (along (snd a) (snd b) i n))" if "1 \<le> i" "i \<le> n - 1" for i
    using along_between [of i n "fst a" "fst b"] along_between [of i n "snd a" "snd b"] that assms by (auto simp: on_panel_def)
  then have "list_all on_panel (swipe_frames nxc a b n)" using assms by (simp add: swipe_frames_def list_all_iff on_panel_def)
  moreover have "map touch_x (swipe_frames nxc a b n) = fst a # map (\<lambda>i. along (fst a) (fst b) i n) [1..n - 1] @ [fst b]"
    "map touch_y (swipe_frames nxc a b n) = snd a # map (\<lambda>i. along (snd a) (snd b) i n) [1..n - 1] @ [snd b]"
    by (simp_all add: swipe_frames_def comp_def)
  ultimately show ?thesis using one_way_along [OF n] by simp
qed

text \<open>
  C33: whatever the service answers, a swipe pushes an initial part of a straight drag from one point to the other, one
  frame each 16 ms, all of it when it reports success; every frame is on the panel, each coordinate moves one way only,
  and the panel is handed back.
\<close>

theorem swipe_is_a_drag:
  assumes "input_touch_swipe nxc x y x' y' d w = (rc, w')"
  defines "fs \<equiv> swipe_frames nxc (clamp_coord x 1279, clamp_coord y 719) (clamp_coord x' 1279, clamp_coord y' 719)
      (clamp_touch_duration d INPUT_DEFAULT_SWIPE_MS div 16)"
  shows "(\<exists>n. touches (hcalls w') = touches (hcalls w) @ take n fs \<and> (rc = 0 \<longrightarrow> length fs \<le> n)) \<and>
    list_all on_panel fs \<and> one_way (map touch_x fs) \<and> one_way (map touch_y fs) \<and> \<not> g_touch_active w'"
proof -
  let ?a = "(clamp_coord x 1279, clamp_coord y 719)" and ?b = "(clamp_coord x' 1279, clamp_coord y' 719)"
  let ?n = "clamp_touch_duration d INPUT_DEFAULT_SWIPE_MS div 16"
  have "16 \<le> clamp_touch_duration d INPUT_DEFAULT_SWIPE_MS" using touch_duration_bounds [of d] by (simp add: TOUCH_FRAME_MS_def)
  then have n: "0 < ?n" by (simp add: pos_imp_zdiv_pos_iff)
  have ok: "list_all on_panel fs \<and> one_way (map touch_x fs) \<and> one_way (map touch_y fs)"
    unfolding fs_def by (rule swipe_frames_ok) (use n in \<open>simp_all add: INPUT_TOUCH_WIDTH_def INPUT_TOUCH_HEIGHT_def clamp_coord_def\<close>)
  obtain rc1 w1 where p: "touch_push (attr_start nxc) (fst ?a) (snd ?a) w = (rc1, w1)" by (rule prod.exhaust)
  obtain rc2 w2 where l: "swipe_loop ?a ?b ?n 1 rc1 w1 = (rc2, w2)" by (rule prod.exhaust)
  obtain rc3 w3 where e: "touch_push (attr_end nxc) (fst ?b) (snd ?b) (sleep_ms TOUCH_FRAME_MS w2) = (rc3, w3)" by (rule prod.exhaust)
  have r: "rc = (if rc2 = 0 then rc3 else rc2)" "w' = touch_release (if rc2 = 0 then sleep_ms TOUCH_FRAME_MS w3 else w2)"
    using assms(1) p l e unfolding input_touch_swipe_def Let_def
    by (auto simp: INPUT_TOUCH_WIDTH_def INPUT_TOUCH_HEIGHT_def TOUCH_FRAME_MS_def split: if_splits)
  let ?ms = "map (\<lambda>i. touch_frame 0 (along (fst ?a) (fst ?b) i ?n) (along (snd ?a) (snd ?b) i ?n)) [1..?n - 1]"
  from swipe_loop_frames [OF l] obtain k where k: "touches (hcalls w2) = touches (hcalls w1) @ take k ?ms" "rc2 = 0 \<longrightarrow> length [1..?n - 1] \<le> k" by blast
  have fs: "fs = touch_frame (attr_start nxc) (fst ?a) (snd ?a) # ?ms @ [touch_frame (attr_end nxc) (fst ?b) (snd ?b)]"
    by (simp add: fs_def swipe_frames_def)
  have "\<exists>n. touches (hcalls w') = touches (hcalls w) @ take n fs \<and> (rc = 0 \<longrightarrow> length fs \<le> n)"
  proof (cases "rc2 = 0")
    case True
    then show ?thesis
      by (intro exI [of _ "length fs"]) (use True r k fs touch_push_frames [OF p] touch_push_frames [OF e] in simp)
  next
    case False
    then show ?thesis
      by (intro exI [of _ "Suc (min k (length ?ms))"]) (use False r k fs touch_push_frames [OF p] in \<open>simp add: min_def\<close>)
  qed
  moreover have "\<not> g_touch_active w'" by (simp add: r touch_release_off)
  ultimately show ?thesis using ok by blast
qed

theorem swipe_is_a_drag_witness:
  "touches (hcalls (snd (input_touch_swipe demo_hidnx (- 5) 10 100 900 48 demo_hid))) =
     [touch_frame 1 0 10, touch_frame 0 33 246, touch_frame 0 66 482, touch_frame 2 100 719]"
proof -
  have "fst (input_touch_swipe demo_hidnx (- 5) 10 100 900 48 demo_hid) = 0" by code_simp
  then obtain w' where w: "input_touch_swipe demo_hidnx (- 5) 10 100 900 48 demo_hid = (0, w')" by (metis prod.collapse)
  have f: "swipe_frames demo_hidnx (clamp_coord (- 5) 1279, clamp_coord 10 719) (clamp_coord 100 1279, clamp_coord 900 719)
      (clamp_touch_duration 48 INPUT_DEFAULT_SWIPE_MS div 16) =
    [touch_frame 1 0 10, touch_frame 0 33 246, touch_frame 0 66 482, touch_frame 2 100 719]" by code_simp
  from swipe_is_a_drag [OF w, unfolded f] w show ?thesis by (auto simp: demo_hid_def)
qed


section \<open>Typing\<close>

text \<open>One key pressed and let go.\<close>

definition tap_calls :: "hid_nx \<Rightarrow> int \<Rightarrow> KeyStroke \<Rightarrow> hidcall list" where
  "tap_calls nxc ms k =
     [SetKeyboard (kb_down nxc (st_usage k) (st_mods k)), SleepThread (ms * 1000000), SetKeyboard kb_none, SleepThread (ms * 1000000)]"

definition taps :: "hid_nx \<Rightarrow> int \<Rightarrow> KeyStroke list \<Rightarrow> hidcall list" where
  "taps nxc ms ks = concat (map (tap_calls nxc ms) ks)"

definition real_keys :: "KeyStroke list \<Rightarrow> KeyStroke list" where
  "real_keys ks = filter (\<lambda>k. st_usage k \<noteq> KEY_USAGE_NOOP) ks"

lemma taps_simps [simp]: "taps nxc ms [] = []" "taps nxc ms (ks @ js) = taps nxc ms ks @ taps nxc ms js" "taps nxc ms (k # ks) = tap_calls nxc ms k @ taps nxc ms ks"
  by (simp_all add: taps_def)

lemma key_tap_calls: "key_tap nxc u m ms w = (0, w') \<Longrightarrow> hcalls w' = hcalls w @ tap_calls nxc ms (KeyStroke u m)"
  by (auto simp: key_tap_def hid_do_run sleep_ms_def tap_calls_def Let_def split: if_splits)

text \<open>After a key \<open>prev\<close>: the keys tapped for some strokes, no key twice in a row.\<close>

definition typed :: "hid_nx \<Rightarrow> int \<Rightarrow> nat \<Rightarrow> 'a hid_world_scheme \<Rightarrow> KeyStroke list \<Rightarrow> nat \<Rightarrow> 'a hid_world_scheme \<Rightarrow> bool" where
  "typed nxc ms prev w ks prev' w' \<longleftrightarrow>
     (\<exists>js. hcalls w' = hcalls w @ taps nxc ms js \<and> real_keys js = ks \<and> successively (\<noteq>) (prev # map st_usage js) \<and>
        prev' = last (prev # map st_usage js))"

lemma typed_refl: "typed nxc ms prev w [] prev w"
  by (auto simp: typed_def real_keys_def intro: exI [of _ "[]"])

lemma typed_trans:
  assumes "typed nxc ms p w ks q w1" and "typed nxc ms q w1 ls r w2"
  shows "typed nxc ms p w (ks @ ls) r w2"
proof -
  from assms(1) obtain js where j: "hcalls w1 = hcalls w @ taps nxc ms js" "real_keys js = ks" "successively (\<noteq>) (p # map st_usage js)"
    "q = last (p # map st_usage js)" by (auto simp: typed_def)
  from assms(2) obtain is' where i: "hcalls w2 = hcalls w1 @ taps nxc ms is'" "real_keys is' = ls" "successively (\<noteq>) (q # map st_usage is')"
    "r = last (q # map st_usage is')" by (auto simp: typed_def)
  have "successively (\<noteq>) ((p # map st_usage js) @ map st_usage is')"
    using j(3,4) i(3) unfolding successively_append_iff by (cases is') (auto simp: successively_Cons)
  moreover have "r = last (p # map st_usage (js @ is'))" using i(4) j(4) by (cases is') auto
  ultimately show ?thesis using i j
    unfolding typed_def by (intro exI [of _ "js @ is'"]) (simp add: real_keys_def)
qed

lemma key_tap_typed:
  assumes "key_tap nxc u m ms w = (0, w')" and "u \<noteq> prev"
  shows "typed nxc ms prev w (real_keys [KeyStroke u m]) u w'"
  unfolding typed_def by (rule exI [of _ "[KeyStroke u m]"]) (use key_tap_calls [OF assms(1)] assms(2) in auto)

lemma strokes_loop_typed:
  "strokes_loop nxc ms ks prev rc w = (0, prev', w') \<Longrightarrow> \<forall>k \<in> set ks. st_usage k \<noteq> KEY_USAGE_NOOP \<Longrightarrow>
    rc = 0 \<and> typed nxc ms prev w ks prev' w'"
proof (induction ks arbitrary: prev rc w)
  case Nil
  then show ?case by (simp add: typed_refl)
next
  case (Cons k ks)
  obtain rc1 w1 where p: "(if st_usage k = prev then key_tap nxc KEY_USAGE_NOOP 0 ms w else (rc, w)) = (rc1, w1)" by (rule prod.exhaust)
  obtain rc2 w2 where q: "(if rc1 = 0 then key_tap nxc (st_usage k) (st_mods k) ms w1 else (rc1, w1)) = (rc2, w2)" by (rule prod.exhaust)
  from Cons.prems(1) p q have rc: "rc = 0" and l: "strokes_loop nxc ms ks (st_usage k) rc2 w2 = (0, prev', w')"
    by (simp_all add: Let_def split: if_splits)
  from Cons.IH [OF l] Cons.prems(2) have r2: "rc2 = 0" and t: "typed nxc ms (st_usage k) w2 ks prev' w'" by simp_all
  from q r2 have r1: "rc1 = 0" and k: "key_tap nxc (st_usage k) (st_mods k) ms w1 = (0, w2)" by (auto split: if_splits)
  have n: "real_keys [KeyStroke KEY_USAGE_NOOP 0] = []" "real_keys [k] = [k]" using Cons.prems(2) by (simp_all add: real_keys_def)
  have "typed nxc ms prev w [k] (st_usage k) w2"
  proof (cases "st_usage k = prev")
    case False
    then have "w1 = w" using p by simp
    then show ?thesis using key_tap_typed [OF k, of prev] False n by simp
  next
    case True
    then have t: "key_tap nxc KEY_USAGE_NOOP 0 ms w = (0, w1)" using p r1 by simp
    have "KEY_USAGE_NOOP \<noteq> prev" "st_usage k \<noteq> KEY_USAGE_NOOP" using True Cons.prems(2) by auto
    from typed_trans [OF key_tap_typed [OF t this(1)] key_tap_typed [OF k this(2)]] show ?thesis using n by simp
  qed
  from typed_trans [OF this t] rc show ?case by simp
qed

lemma type_loop_typed:
  "type_loop nxc l ms s prev rc w = (0, w') \<Longrightarrow> rc = 0 \<and> (\<exists>prev'. typed nxc ms prev w (strokes_of l (codepoints s)) prev' w')"
proof (induction s arbitrary: prev rc w rule: length_induct)
  case (1 s)
  then have rc: "rc = 0" by (subst (asm) (2) type_loop.simps) (auto split: if_splits)
  show ?case
  proof (cases "keyboard_next_codepoint s")
    case None
    with 1(2) rc have "w' = w" by (simp add: type_loop.simps [of nxc l ms s])
    with rc None show ?thesis by (auto simp: codepoints.simps [of s] strokes_of_def intro: typed_refl)
  next
    case (Some p)
    obtain cp s' where p: "p = (cp, s')" by (rule prod.exhaust)
    obtain rc1 prev1 w1 where t: "strokes_loop nxc ms (keyboard_strokes l cp) prev rc w = (rc1, prev1, w1)" by (rule prod_cases3)
    with 1(2) Some p rc have tl: "type_loop nxc l ms s' prev1 rc1 w1 = (0, w')" by (simp add: type_loop.simps [of nxc l ms s])
    from 1(1) next_codepoint_shorter Some p tl obtain prev' where
      r: "rc1 = 0" and y: "typed nxc ms prev1 w1 (strokes_of l (codepoints s')) prev' w'" by blast
    have "typed nxc ms prev w (keyboard_strokes l cp) prev1 w1"
      using strokes_loop_typed [of nxc ms _ prev rc w prev1 w1] t r noop_is_no_stroke by blast
    from typed_trans [OF this y] rc Some p show ?thesis by (auto simp: codepoints.simps [of s] strokes_of_def)
  qed
qed

text \<open>
  C34: when typing reports success, the calls made are: the no-op key, then keys pressed and let go one at a time, then
  the keyboard given back. Without the no-op presses the keys are exactly the strokes of the text's characters, in
  order, and no key is pressed twice in a row, which the console would ignore.
\<close>

theorem text_is_typed:
  assumes "input_type_text nxc l s ms w = (0, w')"
  shows "\<exists>js. hcalls w' = hcalls w @ taps nxc (min 500 (max 1 ms)) (KeyStroke KEY_USAGE_NOOP 0 # js) @ [UnsetKeyboard] \<and>
    real_keys js = strokes_of l (codepoints s) \<and> successively (\<noteq>) (KEY_USAGE_NOOP # map st_usage js)"
proof -
  define t where "t = min 500 (max 1 ms)"
  have t: "t = (if (if ms < 1 then 1 else ms) > 500 then 500 else if ms < 1 then 1 else ms)" by (simp add: t_def)
  obtain rc1 w1 where k: "key_tap nxc KEY_USAGE_NOOP 0 t w = (rc1, w1)" by (rule prod.exhaust)
  obtain rc2 w2 where y: "type_loop nxc l t s KEY_USAGE_NOOP rc1 w1 = (rc2, w2)" by (rule prod.exhaust)
  from assms k y have r: "rc2 = 0" "w' = hid_run UnsetKeyboard w2" by (simp_all add: input_type_text_def Let_def t)
  from type_loop_typed [of nxc l t s] y r k obtain js where
    "hcalls w2 = hcalls w1 @ taps nxc t js" "real_keys js = strokes_of l (codepoints s)" "successively (\<noteq>) (KEY_USAGE_NOOP # map st_usage js)" "rc1 = 0"
    unfolding typed_def by blast
  then show ?thesis using key_tap_calls [of nxc KEY_USAGE_NOOP 0 t w w1] k r
    unfolding t_def [symmetric] by (intro exI [of _ js]) simp
qed

text \<open>Two spaces: the no-op key comes between them.\<close>

theorem text_is_typed_witness:
  "\<exists>js. hcalls (snd (input_type_text demo_hidnx KEYBOARD_LAYOUT_FRENCH ''  '' 40 demo_hid)) =
      taps demo_hidnx 40 (KeyStroke KEY_USAGE_NOOP 0 # js) @ [UnsetKeyboard] \<and>
    real_keys js = [KeyStroke 44 0, KeyStroke 44 0]"
proof -
  have n: "keyboard_next_codepoint ''  '' = Some (32, '' '')" "keyboard_next_codepoint '' '' = Some (32, [])" "keyboard_next_codepoint [] = None"
    by code_simp+
  have f: "keyboard_strokes KEYBOARD_LAYOUT_FRENCH 32 = [KeyStroke 44 0]"
    by (simp add: keyboard_strokes_def keyboard_layout_supported_def lookup_def KEYBOARD_LAYOUT_FRENCH_def)
  have k: "\<exists>w'. key_tap demo_hidnx u m 40 w = (0, w') \<and> hrc w' = (\<lambda>h. 0)" if "hrc w = (\<lambda>h. 0)" for u m and w :: hid_world
    using that by (simp add: key_tap_def hid_do_run sleep_ms_def hid_rc_def)
  have s: "\<exists>w'. strokes_loop demo_hidnx 40 [KeyStroke 44 0] prev 0 w = (0, 44, w') \<and> hrc w' = (\<lambda>h. 0)" if h0: "hrc w = (\<lambda>h. 0)" for prev and w :: hid_world
  proof -
    obtain w1 where "(if 44 = prev then key_tap demo_hidnx KEY_USAGE_NOOP 0 40 w else (0, w)) = (0, w1)" and h: "hrc w1 = (\<lambda>h. 0)"
      using k [OF h0, of KEY_USAGE_NOOP 0] h0 by (cases "44 = prev") auto
    with k [OF h, of 44 0] show ?thesis by auto
  qed
  obtain w1 where w1: "key_tap demo_hidnx KEY_USAGE_NOOP 0 40 demo_hid = (0, w1)" "hrc w1 = (\<lambda>h. 0)" using k [of demo_hid] by (auto simp: demo_hid_def)
  obtain w2 where w2: "strokes_loop demo_hidnx 40 [KeyStroke 44 0] KEY_USAGE_NOOP 0 w1 = (0, 44, w2)" "hrc w2 = (\<lambda>h. 0)" using s [OF w1(2)] by blast
  obtain w3 where w3: "strokes_loop demo_hidnx 40 [KeyStroke 44 0] 44 0 w2 = (0, 44, w3)" using s [OF w2(2)] by blast
  have "type_loop demo_hidnx KEYBOARD_LAYOUT_FRENCH 40 ''  '' KEY_USAGE_NOOP 0 w1 = (0, w3)"
    by (simp only: type_loop.simps [of _ _ _ "''  ''"] type_loop.simps [of _ _ _ "'' ''"] type_loop.simps [of _ _ _ "[]"] n f w2 w3 option.case prod.case Let_def) simp
  then have w: "input_type_text demo_hidnx KEYBOARD_LAYOUT_FRENCH ''  '' 40 demo_hid = (0, hid_run UnsetKeyboard w3)"
    by (simp add: input_type_text_def w1)
  have c: "strokes_of KEYBOARD_LAYOUT_FRENCH (codepoints ''  '') = [KeyStroke 44 0, KeyStroke 44 0]"
    by (simp add: strokes_of_def codepoints.simps n f)
  have h: "hcalls demo_hid = []" by (simp add: demo_hid_def)
  from text_is_typed [OF w, unfolded c] show ?thesis unfolding w snd_conv by (auto simp: h)
qed

end
