(* ===== verification/Input_Api.thy ===== *)
theory Input_Api
  imports Input Mcp_Server
begin

text \<open>
  \<open>source/features/input/input_args.c\<close>, \<open>input_http.c\<close> and \<open>input_mcp.c\<close>: the arguments of input requests, the REST
  routes and the MCP tools. Floating point numbers are of any type: reading one (\<open>json_get_double\<close>) and scaling a stick
  position (\<open>stick_value\<close>) are fields of \<open>stick_ops\<close>. Screen capture, which a tool appends on request, is an argument,
  as are the generated tool definitions. A message is cut to its buffer as \<open>snprintf\<close> cuts it.
\<close>

section \<open>Arguments\<close>

definition ARGS_TOUCH_MAX_X :: int where "ARGS_TOUCH_MAX_X = 1279"
definition ARGS_TOUCH_MAX_Y :: int where "ARGS_TOUCH_MAX_Y = 719"

fun buttons_loop :: "JsonDoc \<Rightarrow> int \<Rightarrow> int list \<Rightarrow> u64 \<Rightarrow> string + u64" where
  "buttons_loop doc arr [] btns = Inr btns"
| "buttons_loop doc arr (i # is') btns =
     (case Option.bind (json_get_string doc (json_arr_get doc arr i) 24) button_from_name of
        None \<Rightarrow> Inl (''unknown button name in '' @ [SQUOTE] @ ''buttons'' @ [SQUOTE])
      | Some m \<Rightarrow> buttons_loop doc arr is' (btns OR m))"

definition args_get_buttons :: "JsonDoc \<Rightarrow> int \<Rightarrow> string + u64" where
  "args_get_buttons doc obj =
     (let arr = json_obj_get doc obj ''buttons'' in
      if arr < 0 then Inl (''missing '' @ [SQUOTE] @ ''buttons'' @ [SQUOTE] @ '' (array of button names)'')
      else let n = json_arr_len doc arr in
        if n \<le> 0 then Inl ([SQUOTE] @ ''buttons'' @ [SQUOTE] @ '' must be a non-empty array'')
        else buttons_loop doc arr [0..n - 1] 0)"

definition args_get_duration :: "JsonDoc \<Rightarrow> int \<Rightarrow> int \<Rightarrow> int" where
  "args_get_duration doc obj fallback = json_obj_int doc obj ''durationMs'' fallback"

record 'f stick_ops =
  json_get_double :: "JsonDoc \<Rightarrow> int \<Rightarrow> 'f option"
  zero_pos :: 'f
  stick_value :: "'f \<Rightarrow> int"

definition stick_axis :: "'f stick_ops \<Rightarrow> JsonDoc \<Rightarrow> int \<Rightarrow> string \<Rightarrow> string + 'f" where
  "stick_axis ops doc obj axis =
     (let t = json_obj_get doc obj axis in
      if t \<ge> 0 then
        (case json_get_double ops doc t of
           None \<Rightarrow> Inl ([SQUOTE] @ axis @ [SQUOTE] @ '' must be a number'')
         | Some v \<Rightarrow> Inr v)
      else Inr (zero_pos ops))"

definition side_values :: string where
  "side_values = '' ('' @ [DQUOTE] @ ''left'' @ [DQUOTE] @ '' or '' @ [DQUOTE] @ ''right'' @ [DQUOTE] @ '')''"

definition args_get_stick :: "'f stick_ops \<Rightarrow> JsonDoc \<Rightarrow> int \<Rightarrow> string + int \<times> 'f \<times> 'f \<times> int" where
  "args_get_stick ops doc obj =
     (let t = json_obj_get doc obj ''side'' in
      case (if t < 0 then None else json_get_string doc t 16) of
        None \<Rightarrow> Inl (''missing '' @ [SQUOTE] @ ''side'' @ [SQUOTE] @ side_values)
      | Some side \<Rightarrow>
          if \<not> strcaseeq side ''left'' \<and> \<not> strcaseeq side ''right''
          then Inl (''invalid '' @ [SQUOTE] @ ''side'' @ [SQUOTE] @ side_values)
          else case stick_axis ops doc obj ''x'' of
            Inl e \<Rightarrow> Inl e
          | Inr x \<Rightarrow>
              (case stick_axis ops doc obj ''y'' of
                 Inl e \<Rightarrow> Inl e
               | Inr y \<Rightarrow> Inr (if strcaseeq side ''left'' then 0 else 1, x, y, args_get_duration doc obj 0)))"

definition get_coord :: "JsonDoc \<Rightarrow> int \<Rightarrow> string \<Rightarrow> int \<Rightarrow> string + int" where
  "get_coord doc obj k maxv =
     (let t = json_obj_get doc obj k;
          bad = Inl (fit 64 ([SQUOTE] @ k @ [SQUOTE] @ '' must be an integer 0..'' @ dec_int maxv))
      in case (if t < 0 then None else json_get_int doc t) of
           None \<Rightarrow> bad
         | Some v \<Rightarrow> if v < 0 \<or> v > maxv then bad else Inr v)"

definition args_get_touch :: "JsonDoc \<Rightarrow> int \<Rightarrow> string + int \<times> int \<times> int" where
  "args_get_touch doc obj =
     (case get_coord doc obj ''x'' ARGS_TOUCH_MAX_X of
        Inl e \<Rightarrow> Inl e
      | Inr x \<Rightarrow>
          (case get_coord doc obj ''y'' ARGS_TOUCH_MAX_Y of
             Inl e \<Rightarrow> Inl e
           | Inr y \<Rightarrow> Inr (x, y, args_get_duration doc obj 0)))"

definition args_get_swipe :: "JsonDoc \<Rightarrow> int \<Rightarrow> string + int \<times> int \<times> int \<times> int \<times> int" where
  "args_get_swipe doc obj =
     (case get_coord doc obj ''fromX'' ARGS_TOUCH_MAX_X of
        Inl e \<Rightarrow> Inl e
      | Inr x0 \<Rightarrow>
     (case get_coord doc obj ''fromY'' ARGS_TOUCH_MAX_Y of
        Inl e \<Rightarrow> Inl e
      | Inr y0 \<Rightarrow>
     (case get_coord doc obj ''toX'' ARGS_TOUCH_MAX_X of
        Inl e \<Rightarrow> Inl e
      | Inr x1 \<Rightarrow>
     (case get_coord doc obj ''toY'' ARGS_TOUCH_MAX_Y of
        Inl e \<Rightarrow> Inl e
      | Inr y1 \<Rightarrow> Inr (x0, y0, x1, y1, args_get_duration doc obj 0)))))"

section \<open>REST\<close>

definition send_input_result :: "u32 \<times> 'w \<Rightarrow> HttpRequest \<Rightarrow> 'w \<times> HttpRequest" where
  "send_input_result res r =
     (let (rc, w) = res in
      (w, if rc \<noteq> 0
          then reply_json 500 (json_obj [member ''error'' (quoted ''input failed''), member ''rc'' (quoted (''0x'' @ hex (unat rc)))]) r
          else reply_json 200 (json_obj [member ''ok'' ''true'']) r))"

text \<open>What the handlers with a JSON body share: the body, then its arguments, then the action.\<close>

definition with_args ::
    "(JsonDoc \<Rightarrow> string + 'x) \<Rightarrow> (JsonDoc \<Rightarrow> 'x \<Rightarrow> 'a hid_world_scheme \<Rightarrow> u32 \<times> 'a hid_world_scheme) \<Rightarrow> 'a hid_world_scheme handler" where
  "with_args get act wr =
     (let (w, r) = wr in
      case request_read_json r of
        (None, r) \<Rightarrow> (w, r)
      | (Some doc, r) \<Rightarrow>
          (case get doc of
             Inl e \<Rightarrow> (w, reply_error 400 e r)
           | Inr x \<Rightarrow> send_input_result (act doc x w) r))"

definition post_tap :: "'a hid_world_scheme handler" where
  "post_tap = with_args (\<lambda>doc. args_get_buttons doc 0)
     (\<lambda>doc m w. input_tap m (args_get_duration doc 0 INPUT_DEFAULT_TAP_MS) w)"

definition hold_or_release :: "bool \<Rightarrow> 'a hid_world_scheme handler" where
  "hold_or_release hold = with_args (\<lambda>doc. args_get_buttons doc 0)
     (\<lambda>doc m w. if hold then input_hold m w else input_release m w)"

definition post_hold :: "'a hid_world_scheme handler" where "post_hold = hold_or_release True"
definition post_release :: "'a hid_world_scheme handler" where "post_release = hold_or_release False"

definition post_touch :: "hid_nx \<Rightarrow> 'a hid_world_scheme handler" where
  "post_touch nxc = with_args (\<lambda>doc. args_get_touch doc 0) (\<lambda>doc (x, y, d) w. input_touch_tap nxc x y d w)"

definition post_swipe :: "hid_nx \<Rightarrow> 'a hid_world_scheme handler" where
  "post_swipe nxc = with_args (\<lambda>doc. args_get_swipe doc 0) (\<lambda>doc (x0, y0, x1, y1, d) w. input_touch_swipe nxc x0 y0 x1 y1 d w)"

definition post_stick :: "'f stick_ops \<Rightarrow> 'a hid_world_scheme handler" where
  "post_stick ops = with_args (\<lambda>doc. args_get_stick ops doc 0) (\<lambda>doc (side, x, y, d) w. input_stick (stick_value ops) side x y d w)"

definition missing_text :: string where
  "missing_text = ''missing '' @ [SQUOTE] @ ''text'' @ [SQUOTE] @ '' (non-empty string, at most 256 bytes)''"

definition post_text :: "hid_nx \<Rightarrow> 'a hid_world_scheme handler" where
  "post_text nxc wr =
     (let (w, r) = wr in
      case request_read_json r of
        (None, r) \<Rightarrow> (w, r)
      | (Some doc, r) \<Rightarrow>
          let t = json_obj_get doc 0 ''text'' in
          case (if t < 0 then None else json_get_string doc t (KEYBOARD_TEXT_MAX + 1)) of
            None \<Rightarrow> (w, reply_error 400 missing_text r)
          | Some txt' \<Rightarrow>
              if txt' = [] then (w, reply_error 400 missing_text r)
              else let (l, w) = input_keyboard_layout w in
                case keyboard_check_text l txt' 160 of
                  Some msg \<Rightarrow> (w, reply_error 400 msg r)
                | None \<Rightarrow> send_input_result (input_type_text nxc l txt' (json_obj_int doc 0 ''keyMs'' INPUT_DEFAULT_KEY_MS) w) r)"

definition post_clear :: "'a hid_world_scheme handler" where
  "post_clear wr = (let (w, r) = wr in send_input_result (input_clear w) r)"

definition post_attach :: "'a hid_world_scheme handler" where
  "post_attach wr = (let (w, r) = wr in send_input_result (input_attach w) r)"

definition post_detach :: "'a hid_world_scheme handler" where
  "post_detach wr = (let (w, r) = wr in send_input_result (input_detach w) r)"

definition input_http_register :: "hid_nx \<Rightarrow> 'f stick_ops \<Rightarrow> 'a hid_world_scheme Server \<Rightarrow> 'a hid_world_scheme Server" where
  "input_http_register nxc ops s =
     fold (\<lambda>(p, h) s. snd (http_server_register_route ''POST'' p h s))
       [(''/input/tap'', post_tap), (''/input/hold'', post_hold), (''/input/release'', post_release),
        (''/input/stick'', post_stick ops), (''/input/touch'', post_touch nxc), (''/input/swipe'', post_swipe nxc),
        (''/input/text'', post_text nxc), (''/input/clear'', post_clear), (''/controller/attach'', post_attach),
        (''/controller/detach'', post_detach)] s"

section \<open>MCP\<close>

definition TAP_SEQ_MAX :: int where "TAP_SEQ_MAX = 32"

text \<open>The screen feature: options from a call, and a capture or its error.\<close>

record 'o screen_ops =
  parse_opts :: "McpCall \<Rightarrow> string + 'o"
  capture :: "'o \<Rightarrow> HttpRequest \<Rightarrow> (string + u8 list) \<times> HttpRequest"

definition reply_input ::
    "'o screen_ops \<Rightarrow> (nat \<Rightarrow> char) \<Rightarrow> McpCall \<Rightarrow> u32 \<times> 'a hid_world_scheme \<Rightarrow> string \<Rightarrow> HttpRequest \<Rightarrow> 'a hid_world_scheme \<times> HttpRequest" where
  "reply_input scr stale call res ok_msg r =
     (let (rc, w) = res in
      if rc \<noteq> 0 then (w, mcp_reply_error stale call (fit 64 (''input failed (rc=0x'' @ hex (unat rc) @ '')'')) r)
      else if mcp_arg_bool call ''screenshot'' \<noteq> Some True then (w, mcp_reply_text stale call ok_msg r)
      else case parse_opts scr call of
        Inl e \<Rightarrow> (w, mcp_reply_text stale call (fit 160 (ok_msg @ '' (no screenshot: '' @ e @ '')'')) r)
      | Inr opts \<Rightarrow>
          let delay = input_clamp_ms (mcp_arg_int call ''screenshotDelayMs'' 250) 0;
              w = (if delay > 0 then sleep_ms delay w else w);
              (shot, r) = capture scr opts r
          in case shot of
               Inl e \<Rightarrow> (w, mcp_reply_text stale call (fit 160 (ok_msg @ '' (screenshot failed: '' @ e @ '')'')) r)
             | Inr jpeg \<Rightarrow> (w, mcp_reply_image stale call (Some ok_msg) jpeg r))"

definition tool_with_args ::
    "'o screen_ops \<Rightarrow> (nat \<Rightarrow> char) \<Rightarrow> (McpCall \<Rightarrow> string + 'x) \<Rightarrow>
     (McpCall \<Rightarrow> 'x \<Rightarrow> 'a hid_world_scheme \<Rightarrow> u32 \<times> 'a hid_world_scheme) \<Rightarrow> 'a hid_world_scheme tool_handler" where
  "tool_with_args scr stale get act call wr =
     (let (w, r) = wr in
      case get call of
        Inl e \<Rightarrow> (w, mcp_reply_error stale call e r)
      | Inr x \<Rightarrow> reply_input scr stale call (act call x w) ''ok'' r)"

definition call_buttons :: "McpCall \<Rightarrow> string + u64" where
  "call_buttons call = args_get_buttons (call_doc call) (call_args call)"

definition tool_tap_buttons :: "'o screen_ops \<Rightarrow> (nat \<Rightarrow> char) \<Rightarrow> 'a hid_world_scheme tool_handler" where
  "tool_tap_buttons scr stale = tool_with_args scr stale call_buttons
     (\<lambda>call m w. input_tap m (args_get_duration (call_doc call) (call_args call) INPUT_DEFAULT_TAP_MS) w)"

definition step_message :: "int \<Rightarrow> string \<Rightarrow> string" where
  "step_message i msg = fit 96 (''step '' @ dec_int i @ '': '' @ msg)"

definition tap_delay :: "JsonDoc \<Rightarrow> int \<Rightarrow> int" where
  "tap_delay doc el =
     (let t = json_obj_get doc el ''delayAfterMs'';
          delay = (if t \<ge> 0 then (case json_get_int doc t of Some v \<Rightarrow> v | None \<Rightarrow> 150) else 150)
      in input_clamp_ms (wrap32 delay) 0)"

fun tap_seq_loop :: "JsonDoc \<Rightarrow> int \<Rightarrow> int \<Rightarrow> int list \<Rightarrow> 'a hid_world_scheme \<Rightarrow> (string + unit) \<times> 'a hid_world_scheme" where
  "tap_seq_loop doc tps n [] w = (Inr (), w)"
| "tap_seq_loop doc tps n (i # is') w =
     (let el = json_arr_get doc tps i in
      case args_get_buttons doc el of
        Inl e \<Rightarrow> (Inl (step_message i e), w)
      | Inr m \<Rightarrow>
          let (rc, w) = input_tap m (args_get_duration doc el INPUT_DEFAULT_TAP_MS) w in
          if rc \<noteq> 0 then (Inl (step_message i (''input failed (rc=0x'' @ hex (unat rc) @ '')'')), w)
          else tap_seq_loop doc tps n is' (if i + 1 < n then sleep_ms (tap_delay doc el) w else w))"

definition tool_tap_sequence :: "'o screen_ops \<Rightarrow> (nat \<Rightarrow> char) \<Rightarrow> 'a hid_world_scheme tool_handler" where
  "tool_tap_sequence scr stale call wr =
     (let (w, r) = wr; doc = call_doc call; tps = json_obj_get doc (call_args call) ''taps''; n = json_arr_len doc tps in
      if n \<le> 0 then (w, mcp_reply_error stale call (''missing '' @ [SQUOTE] @ ''taps'' @ [SQUOTE] @ '' (non-empty array)'') r)
      else if n > TAP_SEQ_MAX then (w, mcp_reply_error stale call ''too many taps (max 32)'' r)
      else case tap_seq_loop doc tps n [0..n - 1] w of
        (Inl e, w) \<Rightarrow> (w, mcp_reply_error stale call e r)
      | (Inr u, w) \<Rightarrow> reply_input scr stale call (0, w) (fit 48 (''performed '' @ dec_int n @ '' taps'')) r)"

definition tool_hold_or_release :: "'o screen_ops \<Rightarrow> (nat \<Rightarrow> char) \<Rightarrow> bool \<Rightarrow> 'a hid_world_scheme tool_handler" where
  "tool_hold_or_release scr stale hold = tool_with_args scr stale call_buttons
     (\<lambda>call m w. if hold then input_hold m w else input_release m w)"

definition tool_set_stick :: "'f stick_ops \<Rightarrow> 'o screen_ops \<Rightarrow> (nat \<Rightarrow> char) \<Rightarrow> 'a hid_world_scheme tool_handler" where
  "tool_set_stick ops scr stale = tool_with_args scr stale (\<lambda>call. args_get_stick ops (call_doc call) (call_args call))
     (\<lambda>call (side, x, y, d) w. input_stick (stick_value ops) side x y d w)"

definition tool_tap_screen :: "hid_nx \<Rightarrow> 'o screen_ops \<Rightarrow> (nat \<Rightarrow> char) \<Rightarrow> 'a hid_world_scheme tool_handler" where
  "tool_tap_screen nxc scr stale = tool_with_args scr stale (\<lambda>call. args_get_touch (call_doc call) (call_args call))
     (\<lambda>call (x, y, d) w. input_touch_tap nxc x y d w)"

definition tool_swipe_screen :: "hid_nx \<Rightarrow> 'o screen_ops \<Rightarrow> (nat \<Rightarrow> char) \<Rightarrow> 'a hid_world_scheme tool_handler" where
  "tool_swipe_screen nxc scr stale = tool_with_args scr stale (\<lambda>call. args_get_swipe (call_doc call) (call_args call))
     (\<lambda>call (x0, y0, x1, y1, d) w. input_touch_swipe nxc x0 y0 x1 y1 d w)"

definition tool_clear_input :: "'o screen_ops \<Rightarrow> (nat \<Rightarrow> char) \<Rightarrow> 'a hid_world_scheme tool_handler" where
  "tool_clear_input scr stale call wr = (let (w, r) = wr in reply_input scr stale call (input_clear w) ''ok'' r)"

definition tool_type_text :: "hid_nx \<Rightarrow> 'o screen_ops \<Rightarrow> (nat \<Rightarrow> char) \<Rightarrow> 'a hid_world_scheme tool_handler" where
  "tool_type_text nxc scr stale call wr =
     (let (w, r) = wr in
      case mcp_arg_string call ''text'' (KEYBOARD_TEXT_MAX + 1) of
        None \<Rightarrow> (w, mcp_reply_error stale call missing_text r)
      | Some txt' \<Rightarrow>
          if txt' = [] then (w, mcp_reply_error stale call missing_text r)
          else let (l, w) = input_keyboard_layout w in
            case keyboard_check_text l txt' 160 of
              Some msg \<Rightarrow> (w, mcp_reply_error stale call msg r)
            | None \<Rightarrow> reply_input scr stale call (input_type_text nxc l txt' (mcp_arg_int call ''keyMs'' INPUT_DEFAULT_KEY_MS) w) ''typed'' r)"

definition input_mcp_register ::
    "(string \<Rightarrow> string list) \<Rightarrow> hid_nx \<Rightarrow> 'f stick_ops \<Rightarrow> 'o screen_ops \<Rightarrow> (nat \<Rightarrow> char) \<Rightarrow>
     'a hid_world_scheme Tool list \<Rightarrow> 'a hid_world_scheme Tool list" where
  "input_mcp_register defs nxc ops scr stale tools =
     fold (\<lambda>(def, h). mcp_server_register_tool (defs def) h)
       [(''kToolTapButtons'', tool_tap_buttons scr stale), (''kToolTapSequence'', tool_tap_sequence scr stale),
        (''kToolHoldButtons'', tool_hold_or_release scr stale True), (''kToolReleaseButtons'', tool_hold_or_release scr stale False),
        (''kToolSetStick'', tool_set_stick ops scr stale), (''kToolTapScreen'', tool_tap_screen nxc scr stale),
        (''kToolSwipeScreen'', tool_swipe_screen nxc scr stale), (''kToolClearInput'', tool_clear_input scr stale),
        (''kToolTypeText'', tool_type_text nxc scr stale)] tools"

section \<open>Checked before acted on\<close>

lemma get_coord_bounds: "get_coord doc obj k m = Inr v \<Longrightarrow> 0 \<le> v \<and> v \<le> m"
  by (auto simp: get_coord_def Let_def split: if_splits option.splits)

lemma touch_args_on_panel:
  "args_get_touch doc obj = Inr (x, y, d) \<Longrightarrow> clamp_coord x 1279 = x \<and> clamp_coord y 719 = y"
  using get_coord_bounds by (fastforce simp: args_get_touch_def clamp_coord_def ARGS_TOUCH_MAX_X_def ARGS_TOUCH_MAX_Y_def split: sum.splits)

lemma swipe_args_on_panel:
  "args_get_swipe doc obj = Inr (x, y, x', y', d) \<Longrightarrow>
    clamp_coord x 1279 = x \<and> clamp_coord y 719 = y \<and> clamp_coord x' 1279 = x' \<and> clamp_coord y' 719 = y'"
  using get_coord_bounds by (fastforce simp: args_get_swipe_def clamp_coord_def ARGS_TOUCH_MAX_X_def ARGS_TOUCH_MAX_Y_def split: sum.splits)

end
