(* ===== verification/Process.thy ===== *)
theory Process
  imports Input_Api
begin

text \<open>
  \<open>source/features/process/process.c\<close>: programs started, stopped and watched by title id through pm, and what a launch
  lends the program: the hid:dbg session and a boost of the system memory. The calls go into the history of the virtual
  input devices, so that their order is kept; what they return is a function of that history. \<open>hiddbg_refs\<close> is libnx's
  count of open hid:dbg sessions. The clock is a function of the history too; waiting is an argument. The host build's
  fake is left out, as are log lines.
\<close>

section \<open>State\<close>

definition PROCESS_LIST_MAX :: nat where "PROCESS_LIST_MAX = 96"
definition PROCESS_RC_ALREADY_RUNNING :: u32 where "PROCESS_RC_ALREADY_RUNNING = 0xffffffff"
definition PROCESS_RC_NOT_RUNNING :: u32 where "PROCESS_RC_NOT_RUNNING = 0xfffffffe"
definition PROCESS_WAIT_DEFAULT_TIMEOUT_MS :: int where "PROCESS_WAIT_DEFAULT_TIMEOUT_MS = 10000"
definition PROCESS_WAIT_POLL_MS :: int where "PROCESS_WAIT_POLL_MS = 100"
definition SYSTEM_MEMORY_BOOST :: nat where "SYSTEM_MEMORY_BOOST = 0x4000000"

record ProcessStatus =
  running :: bool
  status_pid :: u64

record ProcessEntry =
  entry_pid :: u64
  program_id :: u64
  has_program_id :: bool

record proc_world = hid_world +
  pids_at :: "hidcall list \<Rightarrow> u64 list"
  id_at :: "hidcall list \<Rightarrow> u64"
  launched_at :: "hidcall list \<Rightarrow> u64"
  now_at :: "hidcall list \<Rightarrow> nat"
  hiddbg_refs :: nat
  g_initialized :: bool
  g_last_pid :: u64
  g_last_program_id :: u64
  g_boosted :: bool

fun hex_digits_loop :: "string \<Rightarrow> u64 \<Rightarrow> u64 option" where
  "hex_digits_loop [] v = Some v"
| "hex_digits_loop (c # cs) v =
     (if is_digit c then hex_digits_loop cs (push_bit 4 v OR word_of_nat (ord c - ord CHR ''0''))
      else if between CHR ''a'' c CHR ''f'' then hex_digits_loop cs (push_bit 4 v OR word_of_nat (ord c - ord CHR ''a'' + 10))
      else if between CHR ''A'' c CHR ''F'' then hex_digits_loop cs (push_bit 4 v OR word_of_nat (ord c - ord CHR ''A'' + 10))
      else None)"

definition process_parse_title_id :: "string \<Rightarrow> u64 option" where
  "process_parse_title_id s =
     (let p = (if starts_with ''0x'' s \<or> starts_with ''0X'' s then drop 2 s else s)
      in if p = [] then None else hex_digits_loop p 0)"

section \<open>Sessions\<close>

definition reopen_hiddbg :: "'a proc_world_scheme \<Rightarrow> 'a proc_world_scheme" where
  "reopen_hiddbg w =
     (if hiddbg_refs w > 0 then w
      else let (rc, w) = hid_do SmInitialize w in
        if rc \<noteq> 0 then w
        else let (rc, w) = hid_do HiddbgInitialize w
          in hid_run SmExit (if rc = 0 then w\<lparr>hiddbg_refs := hiddbg_refs w + 1\<rparr> else w))"

definition hiddbg_exit :: "'a proc_world_scheme \<Rightarrow> 'a proc_world_scheme" where
  "hiddbg_exit w = (hid_run HiddbgExit w)\<lparr>hiddbg_refs := hiddbg_refs w - 1\<rparr>"

definition process_init :: "'a proc_world_scheme \<Rightarrow> bool \<times> 'a proc_world_scheme" where
  "process_init w =
     (let (rc, w) = hid_do PmshellInitialize w in if rc \<noteq> 0 then (False, w) else (True, w\<lparr>g_initialized := True\<rparr>))"

definition process_exit :: "'a proc_world_scheme \<Rightarrow> 'a proc_world_scheme" where
  "process_exit w = (if \<not> g_initialized w then w else (hid_run PmshellExit w)\<lparr>g_initialized := False\<rparr>)"

definition open_pminfo :: "'a proc_world_scheme \<Rightarrow> bool \<times> 'a proc_world_scheme" where
  "open_pminfo w =
     (let (rc, w) = hid_do SmInitialize w;
          (rc, w) = (if rc = 0 then let (rc, w) = hid_do PminfoInitialize w in (rc, hid_run SmExit w) else (rc, w))
      in (rc = 0, w))"

definition get_program_id :: "u64 \<Rightarrow> 'a proc_world_scheme \<Rightarrow> u64 option \<times> 'a proc_world_scheme" where
  "get_program_id pid w =
     (let (rc, w) = hid_do (GetProgramId pid) w in (if rc = 0 then Some (id_at w (hcalls w)) else None, w))"

definition get_process_list :: "nat \<Rightarrow> 'a proc_world_scheme \<Rightarrow> (u32 + u64 list) \<times> 'a proc_world_scheme" where
  "get_process_list maxn w =
     (let (rc, w) = hid_do GetProcessList w in (if rc \<noteq> 0 then Inl rc else Inr (take maxn (pids_at w (hcalls w))), w))"

fun list_entries :: "bool \<Rightarrow> u64 list \<Rightarrow> 'a proc_world_scheme \<Rightarrow> ProcessEntry list \<times> 'a proc_world_scheme" where
  "list_entries have_info [] w = ([], w)"
| "list_entries have_info (pid # pids) w =
     (let (i, w) = (if have_info then get_program_id pid w else (None, w));
          e = \<lparr>entry_pid = pid, program_id = (case i of Some v \<Rightarrow> v | None \<Rightarrow> 0), has_program_id = (i \<noteq> None)\<rparr>;
          (es, w) = list_entries have_info pids w
      in (e # es, w))"

definition process_list :: "nat \<Rightarrow> 'a proc_world_scheme \<Rightarrow> (u32 + ProcessEntry list) \<times> 'a proc_world_scheme" where
  "process_list maxn w =
     (let maxn = (if maxn > PROCESS_LIST_MAX then PROCESS_LIST_MAX else maxn) in
      case get_process_list maxn w of
        (Inl rc, w) \<Rightarrow> (Inl rc, w)
      | (Inr pids, w) \<Rightarrow>
          let (have_info, w) = open_pminfo w;
              (es, w) = list_entries have_info pids w
          in (Inr es, if have_info then hid_run PminfoExit w else w))"

fun find_loop :: "u64 \<Rightarrow> u64 list \<Rightarrow> 'a proc_world_scheme \<Rightarrow> u64 \<times> 'a proc_world_scheme" where
  "find_loop pid_of [] w = (0, w)"
| "find_loop pid_of (pid # pids) w =
     (let (i, w) = get_program_id pid w in
      if i = Some pid_of \<and> pid \<noteq> 0 then (pid, w) else find_loop pid_of pids w)"

definition find_pid :: "u64 \<Rightarrow> 'a proc_world_scheme \<Rightarrow> u64 \<times> 'a proc_world_scheme" where
  "find_pid pgid w =
     (case get_process_list PROCESS_LIST_MAX w of
        (Inl rc, w) \<Rightarrow> (0, w)
      | (Inr pids, w) \<Rightarrow>
          (case open_pminfo w of
             (False, w) \<Rightarrow> (0, w)
           | (True, w) \<Rightarrow> let (pid, w) = find_loop pgid pids w in (pid, hid_run PminfoExit w)))"

section \<open>The loan of a launch\<close>

definition set_boost :: "nat \<Rightarrow> 'a proc_world_scheme \<Rightarrow> 'a proc_world_scheme" where
  "set_boost sz w = (let (rc, w) = hid_do (BoostMemory sz) w in if rc = 0 then w\<lparr>g_boosted := (sz \<noteq> 0)\<rparr> else w)"

definition take_back :: "'a proc_world_scheme \<Rightarrow> 'a proc_world_scheme" where
  "take_back w =
     (let w = w\<lparr>g_last_pid := 0\<rparr>;
          w = (if g_boosted w then set_boost 0 w else w)
      in reopen_hiddbg w)"

definition process_status :: "u64 \<Rightarrow> 'a proc_world_scheme \<Rightarrow> ProcessStatus \<times> 'a proc_world_scheme" where
  "process_status pgid w =
     (if g_last_pid w \<noteq> 0 \<and> g_last_program_id w = pgid then
        (case open_pminfo w of
           (False, w) \<Rightarrow> (\<lparr>running = False, status_pid = 0\<rparr>, w)
         | (True, w) \<Rightarrow>
             let (resolved, w) = get_program_id (g_last_pid w) w;
                 w = hid_run PminfoExit w;
                 alive = (resolved = Some pgid);
                 st = \<lparr>running = alive, status_pid = (if alive then g_last_pid w else 0)\<rparr>
             in (st, if alive then w else take_back w))
      else let (pid, w) = find_pid pgid w in (\<lparr>running = (pid \<noteq> 0), status_pid = pid\<rparr>, w))"

text \<open>The results of a start: success, the process id (0 when not given), the result code.\<close>

definition process_start :: "u64 \<Rightarrow> 'a proc_world_scheme \<Rightarrow> (bool \<times> u64 \<times> u32) \<times> 'a proc_world_scheme" where
  "process_start pgid w =
     (if \<not> g_initialized w then ((False, 0, 0), w)
      else let (st, w) = process_status pgid w in
        if running st then ((False, status_pid st, PROCESS_RC_ALREADY_RUNNING), w)
        else let w = (if \<not> g_boosted w then set_boost SYSTEM_MEMORY_BOOST w else w);
                 w = hiddbg_exit (input_suspend w);
                 (rc, w) = hid_do (LaunchProgram pgid) w
          in if rc \<noteq> 0 then ((False, 0, rc), reopen_hiddbg (if g_boosted w then set_boost 0 w else w))
             else let pid = launched_at w (hcalls w)
               in ((True, pid, 0), w\<lparr>g_last_pid := pid, g_last_program_id := pgid\<rparr>))"

definition process_reclaim :: "'a proc_world_scheme \<Rightarrow> 'a proc_world_scheme" where
  "process_reclaim w = (if g_last_pid w = 0 then w else snd (process_status (g_last_program_id w) w))"

definition process_stop :: "u64 \<Rightarrow> 'a proc_world_scheme \<Rightarrow> (bool \<times> u32) \<times> 'a proc_world_scheme" where
  "process_stop pgid w =
     (if \<not> g_initialized w then ((False, 0), w)
      else let (st, w) = process_status pgid w in
        if \<not> running st then ((False, PROCESS_RC_NOT_RUNNING), w)
        else let (rc, w) = hid_do (TerminateProgram pgid) w
          in if rc \<noteq> 0 then ((False, rc), w) else ((True, 0), take_back w))"

section \<open>Waiting\<close>

definition proc_now :: "'a proc_world_scheme \<Rightarrow> nat" where
  "proc_now w = now_at w (hcalls w)"

partial_function (option) process_wait_loop ::
    "(int \<Rightarrow> 'a proc_world_scheme \<Rightarrow> bool \<times> 'a proc_world_scheme) \<Rightarrow> u64 \<Rightarrow> bool \<Rightarrow> int \<Rightarrow> nat \<Rightarrow> 'a proc_world_scheme \<Rightarrow>
      ((bool \<times> ProcessStatus \<times> int) \<times> 'a proc_world_scheme) option" where
  "process_wait_loop wait pgid want timeout start w =
     (let (st, w) = process_status pgid w;
          elapsed = wrap32 (int (proc_now w) - int start)
      in if running st = want then Some ((True, st, elapsed), w)
         else if elapsed \<ge> timeout then Some ((False, st, elapsed), w)
         else let left = timeout - elapsed;
                  (go, w) = wait (if left < PROCESS_WAIT_POLL_MS then left else PROCESS_WAIT_POLL_MS) w
           in if \<not> go then Some ((False, st, elapsed), w)
              else process_wait_loop wait pgid want timeout start w)"

definition process_wait ::
    "(int \<Rightarrow> 'a proc_world_scheme \<Rightarrow> bool \<times> 'a proc_world_scheme) \<Rightarrow> u64 \<Rightarrow> bool \<Rightarrow> int \<Rightarrow> 'a proc_world_scheme \<Rightarrow>
      ((bool \<times> ProcessStatus \<times> int) \<times> 'a proc_world_scheme) option" where
  "process_wait wait pgid want timeout_ms w =
     (let timeout = (if timeout_ms < 0 then 0 else timeout_ms);
          timeout = (if timeout > HTTP_MAX_WAIT_MS then HTTP_MAX_WAIT_MS else timeout)
      in process_wait_loop wait pgid want timeout (proc_now w) w)"

definition process_restart ::
    "(int \<Rightarrow> 'a proc_world_scheme \<Rightarrow> bool \<times> 'a proc_world_scheme) \<Rightarrow> u64 \<Rightarrow> 'a proc_world_scheme \<Rightarrow>
      ((bool \<times> u64 \<times> u32) \<times> 'a proc_world_scheme) option" where
  "process_restart wait pgid w =
     (if \<not> g_initialized w then Some ((False, 0, 0), w)
      else let (st, w) = process_status pgid w in
        if \<not> running st then Some (process_start pgid w)
        else case process_stop pgid w of
          ((False, rc), w) \<Rightarrow> Some ((False, 0, rc), w)
        | ((True, rc), w) \<Rightarrow>
            (case process_wait wait pgid False 3000 w of
               None \<Rightarrow> None
             | Some ((False, _, _), w) \<Rightarrow> Some ((False, 0, rc), w)
             | Some ((True, _, _), w) \<Rightarrow> Some (process_start pgid w)))"

section \<open>Title ids\<close>

lemma push4_or: "d < 16 \<Longrightarrow> push_bit 4 v OR word_of_nat d = v * 16 + (word_of_nat d :: u64)"
proof -
  assume d: "d < 16"
  have "push_bit 4 v AND (word_of_nat d :: u64) = 0"
  proof (rule bit_eqI)
    fix n
    have "\<not> bit d n" if "4 \<le> n"
      using d that power_increasing [of 4 n "2 :: nat"] by (auto simp: bit_iff_odd)
    then show "bit (push_bit 4 v AND (word_of_nat d :: u64)) n \<longleftrightarrow> bit (0 :: u64) n"
      by (auto simp: bit_simps)
  qed
  then have "push_bit 4 v + (word_of_nat d :: u64) = push_bit 4 v OR word_of_nat d" by (rule disjunctive_add_eq_or)
  then show ?thesis by (simp add: push_bit_eq_mult mult.commute)
qed

lemma hex_digit_step:
  assumes "d < 16"
  shows "hex_digits_loop (digit d # cs) v = hex_digits_loop cs (v * 16 + word_of_nat d)"
proof (cases "d < 10")
  case True
  then have "is_digit (digit d)" "ord (digit d) - ord CHR ''0'' = d" by (simp_all add: digit_def is_digit_def between_def ord_chr)
  then show ?thesis using push4_or [OF assms] by simp
next
  case False
  then have "\<not> is_digit (digit d)" "between CHR ''a'' (digit d) CHR ''f''" "ord (digit d) - ord CHR ''a'' + 10 = d"
    using assms by (simp_all add: digit_def is_digit_def between_def ord_chr)
  then show ?thesis using push4_or [OF assms] by simp
qed

declare hex_digits_loop.simps(2) [simp del]

lemma hex_digits_loop_hex: "hex_digits_loop (hex n @ cs) v = hex_digits_loop cs (v * 16 ^ length (hex n) + word_of_nat n)"
proof (induction n arbitrary: v cs rule: hex.induct)
  case (1 n)
  show ?case
  proof (cases "n < 16")
    case True
    then show ?thesis using hex_digit_step [of n cs v] by (simp add: hex.simps [of n])
  next
    case False
    have h: "hex n = hex (n div 16) @ [digit (n mod 16)]" using False by (simp add: hex.simps [of n])
    let ?k = "length (hex (n div 16))"
    have w: "word_of_nat (n div 16) * 16 + word_of_nat (n mod 16) = (word_of_nat n :: u64)"
      by (metis div_mult_mod_eq of_nat_add of_nat_mult of_nat_numeral)
    have len: "length (hex n) = Suc ?k" by (simp add: h)
    have e: "(v * 16 ^ ?k + word_of_nat (n div 16)) * 16 + word_of_nat (n mod 16) = v * 16 ^ Suc ?k + word_of_nat n"
      by (simp add: w [symmetric] distrib_right mult.assoc mult.commute [of 16])
    have c: "hex_digits_loop (hex n @ cs) v = hex_digits_loop cs ((v * 16 ^ ?k + word_of_nat (n div 16)) * 16 + word_of_nat (n mod 16))"
      using 1 [OF False, of "[digit (n mod 16)] @ cs" v] hex_digit_step [of "n mod 16" cs] unfolding h by simp
    show ?thesis by (simp only: len c e)
  qed
qed

lemma zeros_loop: "hex_digits_loop (replicate k (CHR ''0'') @ cs) 0 = hex_digits_loop cs 0"
proof (induction k)
  case (Suc k)
  have "CHR ''0'' = digit 0" by code_simp
  with hex_digit_step [of 0 _ 0] Suc show ?case by simp
qed simp

lemma hex_no_x: "c \<in> set (hex n) \<Longrightarrow> c \<noteq> CHR ''x'' \<and> c \<noteq> CHR ''X''"
proof (induction n rule: hex.induct)
  case (1 n)
  have d: "list_all (\<lambda>d. digit d \<noteq> CHR ''x'' \<and> digit d \<noteq> CHR ''X'') [0..<16]" by code_simp
  then have "digit (n mod 16) \<noteq> CHR ''x'' \<and> digit (n mod 16) \<noteq> CHR ''X''" "n < 16 \<Longrightarrow> digit n \<noteq> CHR ''x'' \<and> digit n \<noteq> CHR ''X''"
    by (simp_all add: list_all_iff)
  with 1 show ?case by (subst (asm) (2) hex.simps) (auto split: if_splits)
qed

text \<open>A title id printed as the interface prints it, 16 hex digits, is parsed back, with or without a \<open>0x\<close>.\<close>

theorem title_id_roundtrip:
  "process_parse_title_id (pad0 16 (hex (unat v))) = Some v \<and> process_parse_title_id (''0x'' @ pad0 16 (hex (unat v))) = Some v"
proof -
  let ?s = "pad0 16 (hex (unat v))"
  have l: "hex_digits_loop ?s 0 = Some v"
    using hex_digits_loop_hex [of "unat v" "[]" 0] by (simp add: pad0_def zeros_loop)
  have nx: "c \<noteq> CHR ''x'' \<and> c \<noteq> CHR ''X''" if "c \<in> set ?s" for c
    using that hex_no_x by (auto simp: pad0_def)
  have "16 \<le> length ?s" by (simp add: length_pad0)
  then obtain a b t where s: "?s = a # b # t" by (cases ?s; cases "tl ?s") auto
  have "\<not> starts_with ''0x'' ?s" "\<not> starts_with ''0X'' ?s" using nx [of b] by (auto simp: s starts_with_def)
  moreover have "starts_with ''0x'' (''0x'' @ ?s)" "drop 2 (''0x'' @ ?s) = ?s" by (simp_all only: starts_with_append) simp
  ultimately show ?thesis using l s unfolding process_parse_title_id_def Let_def by simp
qed

section \<open>What a launch lends is taken back\<close>

lemma proc_run_fields [simp]:
  "pids_at (hid_run c w) = pids_at w" "id_at (hid_run c w) = id_at w" "launched_at (hid_run c w) = launched_at w"
  "hiddbg_refs (hid_run c w) = hiddbg_refs w" "g_initialized (hid_run c w) = g_initialized w"
  "g_last_pid (hid_run c w) = g_last_pid w" "g_last_program_id (hid_run c w) = g_last_program_id w"
  "g_boosted (hid_run c w) = g_boosted w"
  by (simp_all add: hid_run_def hid_do_def)

text \<open>
  What was lent is taken back, but for what the services refuse: since the call that last lent it, one of the calls that
  take it back returned an error. A launched program is named by a process id that is not 0.
\<close>

definition back_refused :: "hidcall set \<Rightarrow> hidcall \<Rightarrow> 'a proc_world_scheme \<Rightarrow> bool" where
  "back_refused cs lend w \<longleftrightarrow> (\<exists>h c t. hcalls w = h @ c # t \<and> c \<in> cs \<and> hrc w (h @ [c]) \<noteq> 0 \<and> lend \<notin> set t)"

definition boost_refused :: "'a proc_world_scheme \<Rightarrow> bool" where
  "boost_refused w \<longleftrightarrow> back_refused {BoostMemory 0} (BoostMemory SYSTEM_MEMORY_BOOST) w"

definition hid_refused :: "'a proc_world_scheme \<Rightarrow> bool" where
  "hid_refused w \<longleftrightarrow> back_refused {SmInitialize, HiddbgInitialize} HiddbgExit w"

definition returned :: "'a proc_world_scheme \<Rightarrow> bool" where
  "returned w \<longleftrightarrow> (g_boosted w \<longrightarrow> boost_refused w) \<and> (hiddbg_refs w = 1 \<or> hid_refused w)"

definition settled :: "'a proc_world_scheme \<Rightarrow> bool" where
  "settled w \<longleftrightarrow> (\<forall>h. launched_at w h \<noteq> 0) \<and> hiddbg_refs w \<le> 1 \<and> (g_last_pid w = 0 \<longrightarrow> returned w)"

text \<open>Calls that lend nothing.\<close>

definition lends :: "hidcall \<Rightarrow> bool" where
  "lends c \<longleftrightarrow> c = HiddbgExit \<or> c = BoostMemory SYSTEM_MEMORY_BOOST"

lemma lends_calls [simp]:
  "\<not> lends SmInitialize" "\<not> lends SmExit" "\<not> lends HiddbgInitialize" "\<not> lends PminfoInitialize" "\<not> lends PminfoExit"
  "\<not> lends GetProcessList" "\<not> lends (GetProgramId p)" "\<not> lends (LaunchProgram p)" "\<not> lends (TerminateProgram p)" "\<not> lends (BoostMemory 0)"
  by (simp_all add: lends_def SYSTEM_MEMORY_BOOST_def)

text \<open>Asking changes nothing of the loan.\<close>

definition same_loan :: "'a proc_world_scheme \<Rightarrow> 'a proc_world_scheme \<Rightarrow> bool" where
  "same_loan w w' \<longleftrightarrow> hrc w' = hrc w \<and> launched_at w' = launched_at w \<and> hiddbg_refs w' = hiddbg_refs w \<and> g_boosted w' = g_boosted w \<and>
     g_last_pid w' = g_last_pid w \<and> g_last_program_id w' = g_last_program_id w \<and> g_initialized w' = g_initialized w \<and>
     g_workbuf_attached w' = g_workbuf_attached w \<and> g_attached w' = g_attached w \<and> g_touch_active w' = g_touch_active w \<and>
     owed w' = owed w \<and> (\<exists>t. hcalls w' = hcalls w @ t \<and> (\<forall>c \<in> set t. \<not> lends c))"

lemma same_loan_refl [intro, simp]: "same_loan w w"
  by (simp add: same_loan_def)

lemma same_loan_trans: "same_loan u v \<Longrightarrow> same_loan v w \<Longrightarrow> same_loan u w"
  by (fastforce simp: same_loan_def)

definition asking :: "hidcall \<Rightarrow> bool" where
  "asking c \<longleftrightarrow> (\<forall>ok h. held_upd c ok h = h)"

lemma asking_calls [simp]:
  "asking SmInitialize" "asking SmExit" "asking HiddbgInitialize" "asking HiddbgExit" "asking PminfoInitialize" "asking PminfoExit"
  "asking GetProcessList" "asking (GetProgramId p)" "asking (LaunchProgram p)" "asking (TerminateProgram p)" "asking (BoostMemory n)"
  by (simp_all add: asking_def)

lemma same_loan_run [simp]: "same_loan u w \<Longrightarrow> asking c \<Longrightarrow> \<not> lends c \<Longrightarrow> same_loan u (hid_run c w)"
  by (cases "owed u") (auto simp: same_loan_def asking_def)

lemma back_refused_grows:
  assumes "back_refused cs lend v" and "hrc w = hrc v" and "hcalls w = hcalls v @ t" and "lend \<notin> set t"
  shows "back_refused cs lend w"
  using assms unfolding back_refused_def by (metis append_Cons append_assoc set_append Un_iff)

lemma back_refused_now:
  assumes "hcalls w = hcalls v @ c # t" and "c \<in> cs" and "hid_rc c v \<noteq> 0" and "hrc w = hrc v" and "lend \<notin> set t"
  shows "back_refused cs lend w"
  using assms by (auto simp: back_refused_def hid_rc_def)

lemma refused_grows:
  assumes "hrc w = hrc v" and "hcalls w = hcalls v @ t" and "\<forall>c \<in> set t. \<not> lends c"
  shows "boost_refused v \<Longrightarrow> boost_refused w" and "hid_refused v \<Longrightarrow> hid_refused w"
  using back_refused_grows [OF _ assms(1,2)] assms(3) by (auto simp: boost_refused_def hid_refused_def lends_def)

lemma returned_same: "same_loan v w \<Longrightarrow> returned v \<Longrightarrow> returned w"
  using refused_grows [of w v] by (fastforce simp: same_loan_def returned_def)

lemma settled_same: "same_loan v w \<Longrightarrow> settled v \<Longrightarrow> settled w"
  using returned_same [of v w] by (auto simp: settled_def same_loan_def)

lemma open_pminfo_same: "same_loan u w \<Longrightarrow> same_loan u (snd (open_pminfo w))"
  by (simp add: open_pminfo_def hid_do_run)

lemma get_program_id_same: "same_loan u w \<Longrightarrow> same_loan u (snd (get_program_id pid w))"
  by (simp add: get_program_id_def hid_do_run)

lemma get_process_list_same: "same_loan u w \<Longrightarrow> same_loan u (snd (get_process_list n w))"
  by (simp add: get_process_list_def hid_do_run)

lemma find_loop_same: "same_loan u w \<Longrightarrow> same_loan u (snd (find_loop pg pids w))"
proof (induction pids arbitrary: w)
  case (Cons pid pids)
  then show ?case using get_program_id_same [OF Cons.prems, of pid] by (cases "get_program_id pid w") simp
qed simp

lemma find_pid_same: "same_loan u w \<Longrightarrow> same_loan u (snd (find_pid pg w))"
proof -
  assume w: "same_loan u w"
  obtain r v where r: "get_process_list PROCESS_LIST_MAX w = (r, v)" by (cases "get_process_list PROCESS_LIST_MAX w")
  have v: "same_loan u v" using get_process_list_same [OF w, of PROCESS_LIST_MAX] r by simp
  obtain ok x where o': "open_pminfo v = (ok, x)" by (cases "open_pminfo v")
  have x: "same_loan u x" using open_pminfo_same [OF v] o' by simp
  show ?thesis
    using v x find_loop_same [OF x] by (auto simp: find_pid_def r o' case_prod_beta split: sum.split bool.split)
qed

lemma list_entries_same: "same_loan u w \<Longrightarrow> same_loan u (snd (list_entries b pids w))"
proof (induction pids arbitrary: w)
  case (Cons pid pids)
  have "same_loan u (snd (if b then get_program_id pid w else (None, w)))"
    using Cons.prems get_program_id_same [OF Cons.prems, of pid] by simp
  then show ?case using Cons.IH by (simp add: case_prod_beta Let_def)
qed simp

lemma process_list_same: "same_loan w (snd (process_list n w))"
proof -
  define m where "m = (if n > PROCESS_LIST_MAX then PROCESS_LIST_MAX else n)"
  obtain r v where r: "get_process_list m w = (r, v)" by (cases "get_process_list m w")
  have v: "same_loan w v" using get_process_list_same [of w w m] r by auto
  obtain ok x where o': "open_pminfo v = (ok, x)" by (cases "open_pminfo v")
  have x: "same_loan w x" using open_pminfo_same [OF v] o' by simp
  show ?thesis
    using v list_entries_same [OF x, of ok] by (auto simp: process_list_def m_def [symmetric] Let_def r o' case_prod_beta split: sum.split)
qed

lemma reopen_keeps [simp]:
  "hrc (reopen_hiddbg w) = hrc w" "launched_at (reopen_hiddbg w) = launched_at w" "g_boosted (reopen_hiddbg w) = g_boosted w"
  "g_last_pid (reopen_hiddbg w) = g_last_pid w" "g_last_program_id (reopen_hiddbg w) = g_last_program_id w"
  "g_initialized (reopen_hiddbg w) = g_initialized w"
  by (simp_all add: reopen_hiddbg_def hid_do_run)

lemma set_boost_keeps [simp]:
  "hrc (set_boost n w) = hrc w" "launched_at (set_boost n w) = launched_at w" "hiddbg_refs (set_boost n w) = hiddbg_refs w"
  "g_last_pid (set_boost n w) = g_last_pid w" "g_last_program_id (set_boost n w) = g_last_program_id w"
  "g_initialized (set_boost n w) = g_initialized w"
  by (simp_all add: set_boost_def hid_do_run)

lemma reopen_calls: "\<exists>t. hcalls (reopen_hiddbg w) = hcalls w @ t \<and> (\<forall>c \<in> set t. \<not> lends c)"
  by (simp add: reopen_hiddbg_def hid_do_run)

lemma reopen_or_refused:
  assumes "hiddbg_refs w \<le> 1"
  shows "hiddbg_refs (reopen_hiddbg w) \<le> 1 \<and> (hiddbg_refs (reopen_hiddbg w) = 1 \<or> hid_refused (reopen_hiddbg w))"
proof (cases "hiddbg_refs w > 0")
  case False
  let ?v = "hid_run SmInitialize w"
  consider "hid_rc SmInitialize w \<noteq> 0" | "hid_rc SmInitialize w = 0" "hid_rc HiddbgInitialize ?v \<noteq> 0"
    | "hid_rc SmInitialize w = 0" "hid_rc HiddbgInitialize ?v = 0" by blast
  then show ?thesis
  proof cases
    case 1
    then have "reopen_hiddbg w = ?v" using False by (simp add: reopen_hiddbg_def hid_do_run)
    then show ?thesis using False back_refused_now [of ?v w SmInitialize "[]"] 1 by (simp add: hid_refused_def)
  next
    case 2
    then have "reopen_hiddbg w = hid_run SmExit (hid_run HiddbgInitialize ?v)" using False by (simp add: reopen_hiddbg_def hid_do_run)
    then show ?thesis using False back_refused_now [of "hid_run SmExit (hid_run HiddbgInitialize ?v)" ?v HiddbgInitialize "[SmExit]"] 2
      by (simp add: hid_refused_def)
  next
    case 3
    then show ?thesis using False by (simp add: reopen_hiddbg_def hid_do_run)
  qed
qed (use assms in \<open>simp add: reopen_hiddbg_def\<close>)

lemma boost_off: "g_boosted (set_boost 0 w) \<Longrightarrow> boost_refused (set_boost 0 w)"
  using back_refused_now [of "hid_run (BoostMemory 0) w" w "BoostMemory 0" "[]"]
  by (auto simp: set_boost_def hid_do_run boost_refused_def split: if_splits)

text \<open>Giving up the boost, when there is one, and reopening hid:dbg.\<close>

lemma give_back_all:
  assumes "hiddbg_refs w \<le> 1" and x_def: "x = reopen_hiddbg (if g_boosted w then set_boost 0 w else w)"
  shows "returned x" "hiddbg_refs x \<le> 1" "g_last_pid x = g_last_pid w" "launched_at x = launched_at w"
proof -
  let ?b = "if g_boosted w then set_boost 0 w else w"
  have r: "hiddbg_refs ?b \<le> 1" and b: "g_boosted ?b \<Longrightarrow> boost_refused ?b" using assms(1) boost_off [of w] by auto
  note o = reopen_or_refused [OF r, folded x_def]
  obtain t where t: "hcalls x = hcalls ?b @ t" "\<forall>c \<in> set t. \<not> lends c" using reopen_calls [of ?b] unfolding x_def by blast
  have "g_boosted x \<Longrightarrow> boost_refused x" using b refused_grows(1) [OF _ t] unfolding x_def by (simp only: reopen_keeps)
  with o show "returned x" "hiddbg_refs x \<le> 1" by (simp_all add: returned_def)
  show "g_last_pid x = g_last_pid w" "launched_at x = launched_at w" by (simp_all add: x_def)
qed

lemma take_back_returned:
  assumes "hiddbg_refs w \<le> 1"
  shows "returned (take_back w)" "hiddbg_refs (take_back w) \<le> 1" "g_last_pid (take_back w) = 0" "launched_at (take_back w) = launched_at w"
proof -
  have "hiddbg_refs (w\<lparr>g_last_pid := 0\<rparr>) \<le> 1" using assms by simp
  from give_back_all [OF this refl] show "returned (take_back w)" "hiddbg_refs (take_back w) \<le> 1" "g_last_pid (take_back w) = 0"
    "launched_at (take_back w) = launched_at w"
    by (simp_all add: take_back_def Let_def)
qed

lemma settled_take_back: "settled w \<Longrightarrow> settled (take_back w)"
  using take_back_returned [of w] unfolding settled_def by simp

text \<open>A status either only asks, or finds the launched program gone and takes the loan back.\<close>

definition launched_gone :: "'a proc_world_scheme \<Rightarrow> bool" where
  "launched_gone w \<longleftrightarrow> fst (open_pminfo w) \<and> fst (get_program_id (g_last_pid w) (snd (open_pminfo w))) \<noteq> Some (g_last_program_id w)"

lemma status_cases:
  obtains v where "same_loan w v" and "snd (process_status pg w) = v"
  | v where "same_loan w v" and "snd (process_status pg w) = take_back v" and "\<not> running (fst (process_status pg w))"
proof (cases "g_last_pid w \<noteq> 0 \<and> g_last_program_id w = pg")
  case False
  show ?thesis
    using that(1) [of "snd (find_pid pg w)"] find_pid_same [of w w pg] False by (auto simp: process_status_def split: prod.split)
next
  case True
  obtain ok v where o': "open_pminfo w = (ok, v)" by (cases "open_pminfo w")
  have v: "same_loan w v" using open_pminfo_same [of w w] o' by auto
  obtain i x where g: "get_program_id (g_last_pid v) v = (i, x)" by (cases "get_program_id (g_last_pid v) v")
  have x: "same_loan w x" using get_program_id_same [OF v, of "g_last_pid v"] g by simp
  have xp: "same_loan w (hid_run PminfoExit x)" using x by simp
  show ?thesis
    using that(1) [OF v] that(1) [OF xp] that(2) [OF xp] True g by (cases ok; cases "i = Some pg") (auto simp: process_status_def o' Let_def)
qed

lemma settled_status: "settled w \<Longrightarrow> settled (snd (process_status pg w))"
  by (rule status_cases [of w pg]) (auto dest: settled_same intro: settled_take_back)

lemma reclaim_gone:
  assumes "settled w" and "g_last_pid w \<noteq> 0" and "launched_gone w"
  shows "returned (process_reclaim w)" and "g_last_pid (process_reclaim w) = 0"
proof -
  obtain v where o': "open_pminfo w = (True, v)" using assms(3) by (cases "open_pminfo w") (simp add: launched_gone_def)
  have v: "same_loan w v" using open_pminfo_same [of w w] o' by auto
  obtain i x where g: "get_program_id (g_last_pid v) v = (i, x)" by (cases "get_program_id (g_last_pid v) v")
  have x: "same_loan w (hid_run PminfoExit x)" using get_program_id_same [OF v, of "g_last_pid v"] g by simp
  have i: "i \<noteq> Some (g_last_program_id w)" using assms(3) g v by (simp add: launched_gone_def o' same_loan_def)
  have "process_reclaim w = take_back (hid_run PminfoExit x)"
    using assms(2) i g by (simp add: process_reclaim_def process_status_def o' Let_def)
  moreover have "hiddbg_refs (hid_run PminfoExit x) \<le> 1" using x assms(1) by (simp add: same_loan_def settled_def)
  ultimately show "returned (process_reclaim w)" "g_last_pid (process_reclaim w) = 0"
    using take_back_returned [of "hid_run PminfoExit x"] by simp_all
qed

lemma suspend_keeps [simp]:
  fixes w :: "'a proc_world_scheme"
  shows "hrc (input_suspend w) = hrc w" "launched_at (input_suspend w) = launched_at w" "hiddbg_refs (input_suspend w) = hiddbg_refs w"
  "g_last_pid (input_suspend w) = g_last_pid w" "g_last_program_id (input_suspend w) = g_last_program_id w"
  "g_initialized (input_suspend w) = g_initialized w" "g_boosted (input_suspend w) = g_boosted w"
  by (simp_all add: input_suspend_def touch_release_def reset_state_def sleep_ms_def Let_def)

lemma settled_start: "settled w \<Longrightarrow> settled (snd (process_start pg w))"
proof -
  assume w: "settled w"
  obtain st v where s: "process_status pg w = (st, v)" by (cases "process_status pg w")
  have v: "settled v" using settled_status [OF w, of pg] s by simp
  define x where "x = (if \<not> g_boosted v then set_boost SYSTEM_MEMORY_BOOST v else v)"
  define y where "y = hid_run (LaunchProgram pg) (hiddbg_exit (input_suspend x))"
  have y: "\<forall>h. launched_at y h \<noteq> 0" "hiddbg_refs y = 0" "g_last_pid y = g_last_pid v"
    using v by (auto simp: y_def x_def hiddbg_exit_def settled_def)
  have "settled (reopen_hiddbg (if g_boosted y then set_boost 0 y else y))"
    using give_back_all [OF _ refl, of y] y by (simp add: settled_def)
  moreover have "settled (y\<lparr>g_last_pid := launched_at y (hcalls y), g_last_program_id := pg\<rparr>)"
    using y by (simp add: settled_def)
  ultimately show ?thesis
    using w v by (cases "g_boosted y") (simp_all add: process_start_def s hid_do_run Let_def x_def [symmetric] y_def [symmetric])
qed

lemma settled_stop: "settled w \<Longrightarrow> settled (snd (process_stop pg w))"
proof -
  assume w: "settled w"
  obtain st v where s: "process_status pg w = (st, v)" by (cases "process_status pg w")
  have v: "settled v" using settled_status [OF w, of pg] s by simp
  then have "settled (hid_run (TerminateProgram pg) v)" using settled_same [of v "hid_run (TerminateProgram pg) v"] by simp
  moreover from this have "settled (take_back (hid_run (TerminateProgram pg) v))" by (rule settled_take_back)
  ultimately show ?thesis using w v by (simp add: process_stop_def s hid_do_run)
qed

datatype process_op = StartOp u64 | StopOp u64 | StatusOp u64 | ReclaimOp | ListOp nat

fun process_op_run :: "process_op \<Rightarrow> 'a proc_world_scheme \<Rightarrow> 'a proc_world_scheme" where
  "process_op_run (StartOp pg) w = snd (process_start pg w)"
| "process_op_run (StopOp pg) w = snd (process_stop pg w)"
| "process_op_run (StatusOp pg) w = snd (process_status pg w)"
| "process_op_run ReclaimOp w = process_reclaim w"
| "process_op_run (ListOp n) w = snd (process_list n w)"

lemma settled_op: "settled w \<Longrightarrow> settled (process_op_run oper w)"
  using settled_same [OF process_list_same [of w]]
  by (cases oper) (simp_all add: settled_start settled_stop settled_status process_reclaim_def)

lemma settled_ops: "settled w \<Longrightarrow> settled (fold process_op_run ops w)"
  by (induction ops arbitrary: w) (simp_all add: settled_op)

lemma hrc_kept: "hrc (process_op_run oper w) = hrc w" "hrc (process_reclaim w) = hrc w"
proof -
  have st: "hrc (snd (process_status pg w)) = hrc w" for pg and w :: "'a proc_world_scheme"
    by (rule status_cases [of w pg]) (auto simp: same_loan_def take_back_def Let_def)
  then show "hrc (process_reclaim w) = hrc w" by (simp add: process_reclaim_def)
  have "hrc (snd (process_start pg w)) = hrc w" "hrc (snd (process_stop pg w)) = hrc w" for pg
    using st [of pg w] by (auto simp: process_start_def process_stop_def hid_do_run hiddbg_exit_def take_back_def Let_def split: prod.split)
  then show "hrc (process_op_run oper w) = hrc w"
    using st process_list_same [of w] by (cases oper) (auto simp: process_reclaim_def same_loan_def)
qed

text \<open>
  C35: whatever sequence of starts, stops and questions, and whatever the services answer, hid:dbg is never opened twice;
  and when no launched program is on record, what a launch lends (the hid:dbg session and the memory boost) is with the
  server, unless since it was last lent a service refused one of the very calls that take it back: pm the release of the
  boost, sm or hid the reopening of the session. When the launched program is gone, the next \<open>process_reclaim\<close> has taken
  it off the record, and so has everything back but what was so refused. That pm names a launched program by a process id
  other than 0, which the code takes for none, is a hypothesis.
\<close>

theorem loan_taken_back:
  assumes "\<forall>h. launched_at w h \<noteq> 0" and "hiddbg_refs w = 1" and "\<not> g_boosted w" and "g_last_pid w = 0"
    and v_def: "v = fold process_op_run ops w"
  shows "hiddbg_refs v \<le> 1 \<and>
    (g_last_pid v = 0 \<longrightarrow> (g_boosted v \<longrightarrow> boost_refused v) \<and> (hiddbg_refs v = 1 \<or> hid_refused v)) \<and>
    (launched_gone v \<longrightarrow> (let r = process_reclaim v in
       g_last_pid r = 0 \<and> (g_boosted r \<longrightarrow> boost_refused r) \<and> (hiddbg_refs r = 1 \<or> hid_refused r)))"
proof -
  have "settled v" unfolding v_def by (rule settled_ops) (use assms in \<open>simp add: settled_def returned_def\<close>)
  with reclaim_gone [of v] show ?thesis by (cases "g_last_pid v = 0") (simp_all add: settled_def returned_def process_reclaim_def Let_def)
qed

section \<open>What a launched program finds\<close>

lemma owed_proc [simp]:
  "owed (w\<lparr>hiddbg_refs := n\<rparr>) = owed w" "owed (w\<lparr>g_boosted := b\<rparr>) = owed w" "owed (w\<lparr>g_last_pid := p\<rparr>) = owed w"
  by (simp_all add: owed_def)

lemma agrees_run [simp]: "asking c \<Longrightarrow> agrees False b (hid_run c w) = agrees False b w"
  by (cases "owed w") (simp add: agrees_def asking_def)

lemma agrees_proc [simp]:
  "agrees False f (w\<lparr>hiddbg_refs := n\<rparr>) = agrees False f w" "agrees False f (w\<lparr>g_boosted := b\<rparr>) = agrees False f w"
  "agrees False f (w\<lparr>g_last_pid := p\<rparr>) = agrees False f w"
  by (simp_all add: agrees_def)

lemma agrees_started: "agrees False f (w\<lparr>g_last_pid := p, g_last_program_id := q\<rparr>) = agrees False f w"
  by (simp add: agrees_def owed_def)

lemma agrees_boost: "agrees False f (set_boost n w) = agrees False f w" "g_touch_active (set_boost n w) = g_touch_active w"
  by (simp_all add: set_boost_def hid_do_run)

lemma agrees_reopen: "agrees False f (reopen_hiddbg w) = agrees False f w" "g_touch_active (reopen_hiddbg w) = g_touch_active w"
  by (simp_all add: reopen_hiddbg_def hid_do_run)

lemma agrees_take_back: "agrees False f (take_back w) = agrees False f w"
  by (simp add: take_back_def Let_def agrees_reopen agrees_boost)

lemma agrees_same: "same_loan v w \<Longrightarrow> agrees False f w = agrees False f v"
  by (simp add: same_loan_def agrees_def)

lemma agrees_status: "agrees False f w \<Longrightarrow> agrees False f (snd (process_status pg w))"
  by (rule status_cases [of w pg]) (simp_all add: agrees_same agrees_take_back)

lemma suspended_released:
  assumes "agrees False False w"
  shows "owed (input_suspend w) = (False, False, False, False)"
proof -
  have "agrees False False (input_suspend w)" using assms by (rule suspend_agrees)
  moreover have "\<not> g_workbuf_attached (input_suspend w)" "\<not> g_attached (input_suspend w)" "\<not> g_touch_active (input_suspend w)"
    using untouched_ended(2) [of w] by (simp_all add: input_suspend_def Let_def reset_state_def untouched_def)
  ultimately show ?thesis by (cases "owed (input_suspend w)") (simp add: agrees_def)
qed

text \<open>
  What the next theorem assumes of the state are invariants: \<open>agrees\<close> is kept by every operation of input
  (\<open>run_op_agrees\<close>) and of process (\<open>agrees_op\<close>), \<open>settled\<close> by every operation of process (\<open>settled_op\<close>) and by any
  call that lends nothing, as those of input are.
\<close>

lemma agrees_op: "agrees False False w \<Longrightarrow> agrees False False (process_op_run oper w)"
proof (cases oper)
  case (StartOp pg)
  assume w: "agrees False False w"
  obtain st v where s: "process_status pg w = (st, v)" by (cases "process_status pg w")
  have v: "agrees False False v" using agrees_status [OF w, of pg] s by simp
  have "agrees False False (hiddbg_exit (input_suspend (if \<not> g_boosted v then set_boost SYSTEM_MEMORY_BOOST v else v)))"
    using v by (simp add: hiddbg_exit_def suspend_agrees agrees_boost)
  then show ?thesis using w v StartOp by (auto simp: process_start_def s hid_do_run Let_def agrees_reopen agrees_boost agrees_started)
next
  case (StopOp pg)
  assume w: "agrees False False w"
  obtain st v where s: "process_status pg w = (st, v)" by (cases "process_status pg w")
  have v: "agrees False False v" using agrees_status [OF w, of pg] s by simp
  then show ?thesis using w StopOp by (simp add: process_stop_def s hid_do_run agrees_take_back)
qed (use agrees_status agrees_same [OF process_list_same [of w]] in \<open>auto simp: process_reclaim_def\<close>)

lemma settled_input_call: "\<not> lends c \<Longrightarrow> settled w \<Longrightarrow> settled (hid_run c w)"
  using refused_grows [of "hid_run c w" w "[c]"] by (auto simp: settled_def returned_def)

text \<open>
  C36: when a program is launched, the server has, before the call, given back or asked to give back everything of the
  input services it had taken (the work buffer, the virtual device, the touch panel, the keyboard) and closed its hid:dbg
  session, whatever the services answer; a successful launch leaves it closed and the program on record. A launch that
  fails has the session reopened and the memory boost released at once, unless a service refuses that very call; it does so
  even when a program launched earlier still runs. That the flags tell what was taken (\<open>agrees\<close>) and that the loan is
  settled are the invariants of input and of process.
\<close>

theorem launch_hands_over_input:
  assumes "agrees False False w" and "settled w" and "g_initialized w" and "\<not> running (fst (process_status pg w))"
    and "process_start pg w = ((good, pid, rc), v)"
  shows "\<exists>h t. hcalls v = h @ [HiddbgExit, LaunchProgram pg] @ t \<and> owed_rev (hrc w) (rev h) = (False, False, False, False) \<and>
    (if good then t = [] \<and> hiddbg_refs v = 0 \<and> g_last_pid v = pid \<and> g_last_program_id v = pg \<and> pid \<noteq> 0
     else (g_boosted v \<longrightarrow> boost_refused v) \<and> (hiddbg_refs v = 1 \<or> hid_refused v))"
proof -
  obtain st u where s: "process_status pg w = (st, u)" by (cases "process_status pg w")
  have u: "settled u" "agrees False False u" using settled_status [OF assms(2), of pg] agrees_status [OF assms(1), of pg] s by simp_all
  have hu: "hrc u = hrc w"
    by (rule status_cases [of w pg]) (auto simp: s same_loan_def take_back_def Let_def)
  define x where "x = (if \<not> g_boosted u then set_boost SYSTEM_MEMORY_BOOST u else u)"
  define e where "e = hiddbg_exit (input_suspend x)"
  define y where "y = hid_run (LaunchProgram pg) e"
  define z where "z = reopen_hiddbg (if g_boosted y then set_boost 0 y else y)"
  have x: "agrees False False x" "hrc x = hrc w" using u hu by (simp_all add: x_def agrees_boost)
  have h: "owed_rev (hrc w) (rev (hcalls (input_suspend x))) = (False, False, False, False)"
    using suspended_released [OF x(1)] x(2) by (simp add: owed_def)
  have y: "hiddbg_refs y = 0" "hcalls y = hcalls (input_suspend x) @ [HiddbgExit, LaunchProgram pg]"
    using u by (auto simp: y_def e_def x_def hiddbg_exit_def settled_def)
  have "launched_at y = launched_at u" by (simp add: y_def e_def x_def hiddbg_exit_def)
  then have lp: "launched_at y (hcalls y) \<noteq> 0" using u(1) by (simp add: settled_def)
  have z: "returned z" "\<exists>t. hcalls z = hcalls y @ t"
    using give_back_all(1) [OF _ z_def] y(1) by (auto simp: z_def reopen_hiddbg_def set_boost_def hid_do_run)
  have st: "\<not> running st" using assms(4) s by simp
  have "process_start pg w = (let (rc, w) = hid_do (LaunchProgram pg) e in
      if rc \<noteq> 0 then ((False, 0, rc), reopen_hiddbg (if g_boosted w then set_boost 0 w else w))
      else let pid = launched_at w (hcalls w) in ((True, pid, 0), w\<lparr>g_last_pid := pid, g_last_program_id := pg\<rparr>))"
    using assms(3) st by (simp only: process_start_def s x_def [symmetric] e_def [symmetric] Let_def prod.case) simp
  then have "process_start pg w = (if hid_rc (LaunchProgram pg) e \<noteq> 0 then ((False, 0, hid_rc (LaunchProgram pg) e), z)
      else ((True, launched_at y (hcalls y), 0), y\<lparr>g_last_pid := launched_at y (hcalls y), g_last_program_id := pg\<rparr>))"
    by (simp only: hid_do_run y_def [symmetric] z_def [symmetric] Let_def prod.case)
  with assms(5) show ?thesis
    using h y lp z by (cases "hid_rc (LaunchProgram pg) e = 0") (auto simp: returned_def)
qed

definition demo_pm :: proc_world where
  "demo_pm = hid_world.extend demo_hid \<lparr>pids_at = (\<lambda>h. [1, 2]), id_at = (\<lambda>h. 7), launched_at = (\<lambda>h. 66), now_at = length,
     hiddbg_refs = 1, g_initialized = True, g_last_pid = 0, g_last_program_id = 0, g_boosted = False\<rparr>"

lemma demo_pm_ok: "\<forall>h. launched_at demo_pm h \<noteq> 0" "hiddbg_refs demo_pm = 1" "\<not> g_boosted demo_pm" "g_last_pid demo_pm = 0"
  "agrees False False demo_pm" "settled demo_pm" "g_initialized demo_pm"
  by (simp_all add: demo_pm_def demo_hid_def hid_world.extend_def agrees_def owed_def settled_def returned_def)

lemmas demo_runs = demo_pm_def demo_hid_def hid_world.extend_def process_start_def process_status_def find_pid_def get_process_list_def
  open_pminfo_def get_program_id_def hid_run_def hid_do_def set_boost_def SYSTEM_MEMORY_BOOST_def hiddbg_exit_def
  input_suspend_def touch_release_def reset_state_def PROCESS_LIST_MAX_def launched_gone_def

lemma demo_pm_rc: "hrc demo_pm h = 0"
  by (simp add: demo_pm_def demo_hid_def hid_world.extend_def)

text \<open>A program started and gone: its record is cleared, hid:dbg is open again and the boost released. When hid refuses the session, it is not.\<close>

definition demo_refused :: proc_world where
  "demo_refused = demo_pm\<lparr>hrc := (\<lambda>h. if last h = HiddbgInitialize then 0xE401 else 0)\<rparr>"

theorem loan_taken_back_witness:
  "(let r = process_reclaim (fold process_op_run [StartOp 5] demo_pm) in g_last_pid r = 0 \<and> \<not> g_boosted r \<and> hiddbg_refs r = 1) \<and>
   (let r = process_reclaim (fold process_op_run [StartOp 5] demo_refused) in g_last_pid r = 0 \<and> hiddbg_refs r = 0 \<and> hid_refused r)"
proof
  have g: "launched_gone (fold process_op_run [StartOp 5] demo_pm)" by (simp add: demo_runs)
  let ?r = "process_reclaim (fold process_op_run [StartOp 5] demo_pm)"
  have "\<not> boost_refused ?r" "\<not> hid_refused ?r"
    by (simp_all only: boost_refused_def hid_refused_def back_refused_def hrc_kept demo_pm_rc fold_simps simp_thms ex_simps)
  with loan_taken_back [OF demo_pm_ok(1-4) refl, of "[StartOp 5]"] g
  show "let r = ?r in g_last_pid r = 0 \<and> \<not> g_boosted r \<and> hiddbg_refs r = 1" by (simp add: Let_def)
next
  have ok: "\<forall>h. launched_at demo_refused h \<noteq> 0" "hiddbg_refs demo_refused = 1" "\<not> g_boosted demo_refused" "g_last_pid demo_refused = 0"
    using demo_pm_ok by (simp_all add: demo_refused_def)
  have g: "launched_gone (fold process_op_run [StartOp 5] demo_refused)" by (simp add: demo_runs demo_refused_def)
  let ?r = "process_reclaim (fold process_op_run [StartOp 5] demo_refused)"
  have "hiddbg_refs ?r = 0"
    by (simp add: demo_runs demo_refused_def process_reclaim_def take_back_def reopen_hiddbg_def)
  with loan_taken_back [OF ok refl, of "[StartOp 5]"] g
  show "let r = ?r in g_last_pid r = 0 \<and> hiddbg_refs r = 0 \<and> hid_refused r" by (simp add: Let_def)
qed

theorem launch_hands_over_input_witness:
  "\<exists>h. hcalls (snd (process_start 5 demo_pm)) = h @ [HiddbgExit, LaunchProgram 5] \<and> owed_rev (hrc demo_pm) (rev h) = (False, False, False, False)"
proof -
  have r: "\<not> running (fst (process_status 5 demo_pm))" by (simp add: demo_runs)
  obtain good pid rc v where s: "process_start 5 demo_pm = ((good, pid, rc), v)" by (metis prod.exhaust)
  have "fst (fst (process_start 5 demo_pm))" by (simp add: demo_runs)
  then have good by (simp add: s)
  then show ?thesis
    using launch_hands_over_input [OF demo_pm_ok(5-7) r s] by (auto simp: s)
qed

end
