(* ===== verification/Json_Buffer.thy ===== *)
theory Json_Buffer
  imports Json
begin

text \<open>
  What a buffer holds after \<open>json_get_string\<close> (\<open>source/util/json.c\<close>) when the caller does not look at its result: the
  text, or, when the loop gave up, what it had written over the buffer's old text. The buffer is zero after that text.
\<close>

function unescape_partial :: "nat \<Rightarrow> string \<Rightarrow> string \<Rightarrow> string" where
  "unescape_partial outsz [] out = out"
| "unescape_partial outsz (c # cs) out =
     (if length out + 4 \<ge> outsz then out
      else if c \<noteq> BACKSLASH then unescape_partial outsz cs (out @ [c])
      else if cs = [] then out
      else if hd cs = CHR ''u'' then
        (if length (tl cs) < 4 then out
         else unescape_partial outsz (drop 4 (tl cs)) (out @ utf8_bmp (strtoul16 (take 4 (tl cs)))))
      else (case unescape_simple (hd cs) of
              None \<Rightarrow> out
            | Some d \<Rightarrow> unescape_partial outsz (tl cs) (out @ [d])))"
  by pat_completeness auto
termination by (relation "measure (\<lambda>(n, cs, out). length cs)") auto

definition json_string_into :: "JsonDoc \<Rightarrow> int \<Rightarrow> nat \<Rightarrow> string \<Rightarrow> string" where
  "json_string_into doc i outsz old =
     (if \<not> has_type doc i JSMN_STRING then old
      else case json_get_string doc i outsz of
        Some s \<Rightarrow> s
      | None \<Rightarrow> (let out = unescape_partial outsz (tok_text doc i) [] in c_str (out @ drop (length out) old)))"

text \<open>On success the two loops agree.\<close>

lemma unescape_partial_total: "json_unescape n cs out = Some s \<Longrightarrow> unescape_partial n cs out = s"
  by (induction n cs out rule: json_unescape.induct) (auto split: if_splits option.splits)

lemma json_string_into_ok: "json_get_string doc i n = Some s \<Longrightarrow> json_string_into doc i n old = s"
  by (auto simp: json_string_into_def json_get_string_def split: if_splits)

end
