(* ===== verification/Process_Api.thy ===== *)
theory Process_Api
  imports Process Json_Buffer
begin

text \<open>
  \<open>source/features/process/process_http.c\<close> and \<open>process_mcp.c\<close>: the REST routes and MCP tools of process control. The wait
  of the server and the generated tool definitions are arguments; a wait that never returns leaves the request without a
  reply.
\<close>

section \<open>REST\<close>

definition tid16 :: "u64 \<Rightarrow> string" where
  "tid16 v = pad0 16 (hex (unat v))"

definition rc08 :: "u32 \<Rightarrow> string" where
  "rc08 rc = ''0x'' @ pad0 8 (hex (unat rc))"

definition arg_title_id :: "bool \<Rightarrow> HttpRequest \<Rightarrow> u64 option \<times> HttpRequest" where
  "arg_title_id available r =
     (if \<not> available then (None, reply_error 500 ''process control unavailable'' r)
      else let (raw, r) =
          (if rmethod r = ''GET'' then
             (case http_query_get r ''titleId'' 32 of
                None \<Rightarrow> (None, reply_error 400 ''missing 'titleId' query parameter'' r)
              | Some s \<Rightarrow> (Some s, r))
           else case request_read_json r of
             (None, r) \<Rightarrow> (None, r)
           | (Some doc, r) \<Rightarrow>
               let t = json_obj_get doc 0 ''titleId'' in
               (case (if t < 0 then None else json_get_string doc t 32) of
                  None \<Rightarrow> (None, reply_error 400 (''missing string 'titleId'' @ [SQUOTE]) r)
                | Some s \<Rightarrow> (Some s, r)))
        in case raw of
             None \<Rightarrow> (None, r)
           | Some s \<Rightarrow>
               (case process_parse_title_id s of
                  None \<Rightarrow> (None, reply_error 400 ''malformed 'titleId' (expected hex)'' r)
                | Some v \<Rightarrow> (Some v, r)))"

definition send_process_error :: "string \<Rightarrow> u32 \<Rightarrow> HttpRequest \<Rightarrow> HttpRequest" where
  "send_process_error what rc r =
     reply_json 500 (json_obj [member ''ok'' ''false'', member ''error'' (quoted what), member ''rc'' (quoted (rc08 rc))]) r"

text \<open>What the handlers with a title id share.\<close>

definition with_title :: "(u64 \<Rightarrow> 'a proc_world_scheme handler) \<Rightarrow> 'a proc_world_scheme handler" where
  "with_title act wr =
     (let (w, r) = wr in
      case arg_title_id (g_initialized w) r of (None, r) \<Rightarrow> (w, r) | (Some tid, r) \<Rightarrow> act tid (w, r))"

definition get_status :: "'a proc_world_scheme handler" where
  "get_status = with_title (\<lambda>tid (w, r).
     let (st, w) = process_status tid w in
     (w, reply_json 200 (json_obj (member ''titleId'' (quoted (tid16 tid)) #
        (if running st then [member ''running'' ''true'', member ''pid'' (quoted (dec (unat (status_pid st))))]
         else [member ''running'' ''false'']))) r))"

definition ENTRY_SIZE :: nat where "ENTRY_SIZE = 64"
definition LIST_BODY_SIZE :: nat where "LIST_BODY_SIZE = PROCESS_LIST_MAX * ENTRY_SIZE + 32"
definition sizeof_ProcessEntry :: nat where "sizeof_ProcessEntry = 24"

definition entry_json :: "ProcessEntry \<Rightarrow> string" where
  "entry_json e = ''{'' @ member ''pid'' (quoted (dec (unat (entry_pid e)))) @
     (if has_program_id e then '','' @ member ''titleId'' (quoted (tid16 (program_id e))) else []) @ ''}''"

fun list_loop :: "nat \<Rightarrow> ProcessEntry list \<Rightarrow> string \<Rightarrow> string" where
  "list_loop i [] body = body"
| "list_loop i (e # es) body =
     (if length body < LIST_BODY_SIZE - ENTRY_SIZE
      then list_loop (i + 1) es (body @ (if i \<noteq> 0 then '','' else []) @ entry_json e) else body)"

definition list_body :: "ProcessEntry list \<Rightarrow> string" where
  "list_body es = list_loop 0 es (''{'' @ quoted ''processes'' @ '':['') @ '']}''"

definition get_list :: "'a proc_world_scheme handler" where
  "get_list wr =
     (let (w, r) = wr in
      if \<not> g_initialized w then (w, reply_error 500 ''process control unavailable'' r)
      else let (procs, r) = request_alloc (sizeof_ProcessEntry * PROCESS_LIST_MAX) r;
               (body, r) = request_alloc LIST_BODY_SIZE r
        in if procs = None \<or> body = None then (w, reply_error 500 ''out of request memory'' r)
           else case process_list PROCESS_LIST_MAX w of
             (Inl rc, w) \<Rightarrow> (w, send_process_error ''process list failed'' rc r)
           | (Inr es, w) \<Rightarrow> (w, r\<lparr>fd := http_send_response 200 json_type (list_body es) (fd r)\<rparr>))"

definition started_json :: "u64 \<Rightarrow> u64 \<Rightarrow> string" where
  "started_json tid pid =
     json_obj [member ''ok'' ''true'', member ''titleId'' (quoted (tid16 tid)), member ''pid'' (quoted (dec (unat pid)))]"

definition post_start :: "'a proc_world_scheme handler" where
  "post_start = with_title (\<lambda>tid (w, r).
     let ((started, pid, rc), w) = process_start tid w in
     (w, if \<not> started then
           (if rc = PROCESS_RC_ALREADY_RUNNING
            then reply_json 409 (json_obj [member ''ok'' ''false'', member ''error'' (quoted ''already running''),
                                           member ''pid'' (quoted (dec (unat pid)))]) r
            else send_process_error ''launch failed'' rc r)
         else reply_json 200 (started_json tid pid) r))"

definition post_stop :: "'a proc_world_scheme handler" where
  "post_stop = with_title (\<lambda>tid (w, r).
     let ((stopped, rc), w) = process_stop tid w in
     (w, if \<not> stopped then
           (if rc = PROCESS_RC_NOT_RUNNING
            then reply_json 404 (json_obj [member ''ok'' ''false'', member ''error'' (quoted ''not running'')]) r
            else send_process_error ''terminate failed'' rc r)
         else reply_json 200 (json_obj [member ''ok'' ''true'', member ''titleId'' (quoted (tid16 tid))]) r))"

definition post_restart ::
    "(int \<Rightarrow> 'a proc_world_scheme \<Rightarrow> bool \<times> 'a proc_world_scheme) \<Rightarrow> 'a proc_world_scheme handler" where
  "post_restart wait = with_title (\<lambda>tid (w, r).
     case process_restart wait tid w of
       None \<Rightarrow> (w, r)
     | Some ((started, pid, rc), w) \<Rightarrow>
         (w, if \<not> started then send_process_error ''restart failed'' rc r else reply_json 200 (started_json tid pid) r))"

definition get_process_wait ::
    "(int \<Rightarrow> 'a proc_world_scheme \<Rightarrow> bool \<times> 'a proc_world_scheme) \<Rightarrow> 'a proc_world_scheme handler" where
  "get_process_wait wait = with_title (\<lambda>tid (w, r).
     let val = (case http_query_get r ''state'' 16 of Some v \<Rightarrow> v | None \<Rightarrow> ''running'');
         want = (val = ''running'')
     in if \<not> want \<and> val \<noteq> ''stopped'' then (w, reply_error 400 ''invalid 'state' (running or stopped)'' r)
        else let timeout = (case http_query_get r ''timeoutMs'' 16 of Some v \<Rightarrow> atoi v | None \<Rightarrow> PROCESS_WAIT_DEFAULT_TIMEOUT_MS)
          in case process_wait wait tid want timeout w of
               None \<Rightarrow> (w, r)
             | Some ((met', st, elapsed), w) \<Rightarrow>
                 (w, reply_json 200 (json_obj [member ''met'' (json_bool met'), member ''elapsedMs'' (dec_int elapsed),
                    member ''titleId'' (quoted (tid16 tid)), member ''running'' (json_bool (running st)),
                    member ''pid'' (quoted (dec (unat (status_pid st))))]) r))"

definition process_http_register ::
    "(int \<Rightarrow> 'a proc_world_scheme \<Rightarrow> bool \<times> 'a proc_world_scheme) \<Rightarrow> 'a proc_world_scheme Server \<Rightarrow> 'a proc_world_scheme Server" where
  "process_http_register wait s =
     fold (\<lambda>(m, p, h) s. snd (http_server_register_route m p h s))
       [(''GET'', ''/process'', get_status), (''GET'', ''/process/list'', get_list), (''POST'', ''/process/start'', post_start),
        (''POST'', ''/process/stop'', post_stop), (''POST'', ''/process/restart'', post_restart wait),
        (''GET'', ''/wait/process'', get_process_wait wait)] s"

section \<open>MCP\<close>

definition mcp_title_id :: "(nat \<Rightarrow> char) \<Rightarrow> bool \<Rightarrow> McpCall \<Rightarrow> HttpRequest \<Rightarrow> u64 option \<times> HttpRequest" where
  "mcp_title_id stale available call r =
     (if \<not> available then (None, mcp_reply_error stale call ''process control unavailable'' r)
      else case mcp_arg_string call ''titleId'' 32 of
        None \<Rightarrow> (None, mcp_reply_error stale call (''missing string 'titleId'' @ [SQUOTE]) r)
      | Some raw \<Rightarrow>
          if raw = [] then (None, mcp_reply_error stale call (''missing string 'titleId'' @ [SQUOTE]) r)
          else case process_parse_title_id raw of
            None \<Rightarrow> (None, mcp_reply_error stale call ''malformed 'titleId' (expected 16 hex digits)'' r)
          | Some v \<Rightarrow> (Some v, r))"

text \<open>What the tools with a title id share: the id, then the action, then its message as text or as an error.\<close>

definition title_tool ::
    "(nat \<Rightarrow> char) \<Rightarrow> (McpCall \<Rightarrow> u64 \<Rightarrow> 'a proc_world_scheme \<Rightarrow> ((string + string) \<times> 'a proc_world_scheme) option) \<Rightarrow>
     'a proc_world_scheme tool_handler" where
  "title_tool stale act call wr =
     (let (w, r) = wr in
      case mcp_title_id stale (g_initialized w) call r of
        (None, r) \<Rightarrow> (w, r)
      | (Some tid, r) \<Rightarrow>
          (case act call tid w of
             None \<Rightarrow> (w, r)
           | Some (Inl e, w) \<Rightarrow> (w, mcp_reply_error stale call (fit 160 e) r)
           | Some (Inr msg, w) \<Rightarrow> (w, mcp_reply_text stale call (fit 160 msg) r)))"

definition pid_text :: "u64 \<Rightarrow> string" where
  "pid_text pid = '' (pid '' @ dec (unat pid) @ '')''"

definition rc_text :: "u32 \<Rightarrow> string" where
  "rc_text rc = '' (rc '' @ rc08 rc @ '')''"

definition tool_process_status :: "(nat \<Rightarrow> char) \<Rightarrow> 'a proc_world_scheme tool_handler" where
  "tool_process_status stale = title_tool stale (\<lambda>call tid w.
     let (st, w) = process_status tid w in
     Some (Inr (if running st then tid16 tid @ '' is running'' @ pid_text (status_pid st) else tid16 tid @ '' is not running''), w))"

definition LINE_SIZE :: nat where "LINE_SIZE = 48"
definition LIST_TEXT_SIZE :: nat where "LIST_TEXT_SIZE = PROCESS_LIST_MAX * LINE_SIZE + 32"

definition entry_line :: "ProcessEntry \<Rightarrow> string" where
  "entry_line e =
     (let d = dec (unat (entry_pid e)) in
      ''pid '' @ d @ replicate (6 - length d) (CHR '' '') @ '' '' @
      (if has_program_id e then tid16 (program_id e) else ''(no title id)''))"

fun lines_loop :: "nat \<Rightarrow> ProcessEntry list \<Rightarrow> string \<Rightarrow> string" where
  "lines_loop i [] lns = lns"
| "lines_loop i (e # es) lns =
     (if length lns < LIST_TEXT_SIZE - LINE_SIZE
      then lines_loop (i + 1) es (lns @ (if i \<noteq> 0 then [CHR 10] else []) @ entry_line e) else lns)"

definition tool_process_list :: "(nat \<Rightarrow> char) \<Rightarrow> 'a proc_world_scheme tool_handler" where
  "tool_process_list stale call wr =
     (let (w, r) = wr in
      if \<not> g_initialized w then (w, mcp_reply_error stale call ''process control unavailable'' r)
      else let (procs, r) = request_alloc (sizeof_ProcessEntry * PROCESS_LIST_MAX) r;
               (txt', r) = request_alloc LIST_TEXT_SIZE r
        in if procs = None \<or> txt' = None then (w, mcp_reply_rpc_error stale call (-32603) ''out of request memory'' r)
           else case process_list PROCESS_LIST_MAX w of
             (Inl rc, w) \<Rightarrow> (w, mcp_reply_error stale call (fit 80 (''failed to list processes'' @ rc_text rc)) r)
           | (Inr es, w) \<Rightarrow> (w, mcp_reply_text stale call (lines_loop 0 es []) r))"

definition tool_process_start :: "(nat \<Rightarrow> char) \<Rightarrow> 'a proc_world_scheme tool_handler" where
  "tool_process_start stale = title_tool stale (\<lambda>call tid w.
     let ((started, pid, rc), w) = process_start tid w in
     Some (if \<not> started then
             Inl (if rc = PROCESS_RC_ALREADY_RUNNING then tid16 tid @ '' is already running'' @ pid_text pid
                  else ''failed to launch '' @ tid16 tid @ rc_text rc)
           else Inr (''launched '' @ tid16 tid @ pid_text pid), w))"

definition tool_process_stop :: "(nat \<Rightarrow> char) \<Rightarrow> 'a proc_world_scheme tool_handler" where
  "tool_process_stop stale = title_tool stale (\<lambda>call tid w.
     let ((stopped, rc), w) = process_stop tid w in
     Some (if \<not> stopped then
             Inl (if rc = PROCESS_RC_NOT_RUNNING then tid16 tid @ '' is not running''
                  else ''failed to terminate '' @ tid16 tid @ rc_text rc)
           else Inr (''terminated '' @ tid16 tid), w))"

definition tool_process_restart ::
    "(int \<Rightarrow> 'a proc_world_scheme \<Rightarrow> bool \<times> 'a proc_world_scheme) \<Rightarrow> (nat \<Rightarrow> char) \<Rightarrow> 'a proc_world_scheme tool_handler" where
  "tool_process_restart wait stale = title_tool stale (\<lambda>call tid w.
     map_option (\<lambda>((started, pid, rc), w).
       (if \<not> started then Inl (''failed to restart '' @ tid16 tid @ rc_text rc)
        else Inr (''restarted '' @ tid16 tid @ pid_text pid), w)) (process_restart wait tid w))"

definition wait_text :: "u64 \<Rightarrow> bool \<Rightarrow> bool \<times> ProcessStatus \<times> int \<Rightarrow> string" where
  "wait_text tid want res =
     (let (met', st, elapsed) = res in
      if met' then
        (if want then tid16 tid @ '' is running'' @ pid_text (status_pid st) @ '' after '' @ dec_int elapsed @ '' ms''
         else tid16 tid @ '' is not running after '' @ dec_int elapsed @ '' ms'')
      else ''timed out after '' @ dec_int elapsed @ '' ms: '' @ tid16 tid @ '' is '' @
        (if running st then ''still running'' else ''still not running''))"

definition tool_wait_for_process ::
    "(int \<Rightarrow> 'a proc_world_scheme \<Rightarrow> bool \<times> 'a proc_world_scheme) \<Rightarrow> (nat \<Rightarrow> char) \<Rightarrow> 'a proc_world_scheme tool_handler" where
  "tool_wait_for_process wait stale = title_tool stale (\<lambda>call tid w.
     let t = json_obj_get (call_doc call) (call_args call) ''state'';
         val = (if t \<ge> 0 then json_string_into (call_doc call) t 16 ''running'' else ''running'');
         want = (val = ''running'')
     in if \<not> want \<and> val \<noteq> ''stopped'' then Some (Inl ''invalid 'state' (running or stopped)'', w)
        else map_option (\<lambda>(res, w). (Inr (wait_text tid want res), w))
          (process_wait wait tid want (mcp_arg_int call ''timeoutMs'' PROCESS_WAIT_DEFAULT_TIMEOUT_MS) w))"

definition process_mcp_register ::
    "(string \<Rightarrow> string list) \<Rightarrow> (int \<Rightarrow> 'a proc_world_scheme \<Rightarrow> bool \<times> 'a proc_world_scheme) \<Rightarrow> (nat \<Rightarrow> char) \<Rightarrow>
     'a proc_world_scheme Tool list \<Rightarrow> 'a proc_world_scheme Tool list" where
  "process_mcp_register defs wait stale tools =
     fold (\<lambda>(def, h). mcp_server_register_tool (defs def) h)
       [(''kToolProcessStatus'', tool_process_status stale), (''kToolProcessList'', tool_process_list stale),
        (''kToolProcessStart'', tool_process_start stale), (''kToolProcessStop'', tool_process_stop stale),
        (''kToolProcessRestart'', tool_process_restart wait stale), (''kToolWaitForProcess'', tool_wait_for_process wait stale)] tools"


section \<open>Listings are complete\<close>

lemma length_hex: "0 < k \<Longrightarrow> n < 16 ^ k \<Longrightarrow> length (hex n) \<le> k"
proof (induction k arbitrary: n)
  case (Suc k)
  show ?case
  proof (cases "n < 16 \<or> k = 0")
    case True
    then show ?thesis using Suc.prems by (auto simp: hex.simps [of n])
  next
    case False
    then have "length (hex (n div 16)) \<le> k" using Suc by (auto simp: less_mult_imp_div_less mult.commute)
    then show ?thesis using False by (simp add: hex.simps [of n])
  qed
qed simp

lemma length_tid16: "length (tid16 v) = 16"
proof -
  have "unat v < 2 ^ LENGTH(64)" by (rule unsigned_less)
  then have "unat v < 2 ^ 64" by simp
  then have "length (hex (unat v)) \<le> 16" by (intro length_hex) simp_all
  then show ?thesis by (simp add: tid16_def length_pad0)
qed

lemma length_dec_u64: "length (dec (unat (v :: u64))) \<le> 20"
proof (rule length_dec)
  have "unat v < 2 ^ LENGTH(64)" by (rule unsigned_less)
  then have "unat v < 2 ^ 64" by simp
  also have "(2 :: nat) ^ 64 \<le> 10 ^ 20" by simp
  finally show "unat v < 10 ^ 20" .
qed simp

lemma length_entry_json: "length (entry_json e) \<le> 60"
  using length_dec_u64 [of "entry_pid e"] by (simp add: entry_json_def member_def quoted_def length_tid16)

lemma length_entry_line: "length (entry_line e) \<le> 43"
  using length_dec_u64 [of "entry_pid e"] by (simp add: entry_line_def Let_def length_tid16; linarith)

lemma list_loop_all:
  assumes "length body + 61 * length es < 6112" and "0 < i"
  shows "list_loop i es body = body @ concat (map (\<lambda>e. '','' @ entry_json e) es)"
  using assms
proof (induction es arbitrary: i body)
  case (Cons e es)
  have "length (body @ '','' @ entry_json e) + 61 * length es < 6112" using Cons.prems(1) length_entry_json [of e] by simp
  from Cons.IH [OF this, of "i + 1"] Cons.prems show ?case
    by (simp add: LIST_BODY_SIZE_def ENTRY_SIZE_def PROCESS_LIST_MAX_def)
qed simp

lemma json_members_concat: "json_members (m # ms) = m @ concat (map (\<lambda>m. '','' @ m) ms)"
  by (induction ms arbitrary: m) simp_all

lemma concat_length: "(\<And>e. e \<in> set es \<Longrightarrow> length (f e) \<le> n) \<Longrightarrow> length (concat (map f es)) \<le> n * length es"
  by (induction es) (simp, fastforce)

lemma lines_loop_all:
  assumes "length lns + 44 * length es < 4592" and "0 < i"
  shows "lines_loop i es lns = lns @ concat (map (\<lambda>e. CHR 10 # entry_line e) es)"
  using assms
proof (induction es arbitrary: i lns)
  case (Cons e es)
  have "length (lns @ CHR 10 # entry_line e) + 44 * length es < 4592" using Cons.prems(1) length_entry_line [of e] by simp
  from Cons.IH [OF this, of "i + 1"] Cons.prems show ?case
    by (simp add: LIST_TEXT_SIZE_def LINE_SIZE_def PROCESS_LIST_MAX_def)
qed simp

text \<open>
  The buffers of the process listings hold every process there can be: the REST reply is the JSON array of all entries,
  the tool's text has a line for each, and both fit with their terminator.
\<close>

theorem listings_are_complete:
  assumes "length es \<le> PROCESS_LIST_MAX"
  shows "list_body es = ''{'' @ quoted ''processes'' @ '':['' @ json_members (map entry_json es) @ '']}'' \<and>
    length (list_body es) < LIST_BODY_SIZE \<and>
    lines_loop 0 es [] = drop 1 (concat (map (\<lambda>e. CHR 10 # entry_line e) es)) \<and> length (lines_loop 0 es []) < LIST_TEXT_SIZE"
proof (cases es)
  case Nil
  then show ?thesis by (simp add: list_body_def quoted_def LIST_BODY_SIZE_def LIST_TEXT_SIZE_def)
next
  case (Cons e t)
  have t: "length t \<le> 95" using assms Cons by (simp add: PROCESS_LIST_MAX_def)
  let ?h = "''{'' @ quoted ''processes'' @ '':[''"
  have h: "length ?h = 14" by (simp add: quoted_def)
  have "length (?h @ entry_json e) + 61 * length t < 6112" using t h length_entry_json [of e] by simp
  from list_loop_all [OF this, of 1]
  have b: "list_body es = ?h @ (entry_json e @ concat (map (\<lambda>e. '','' @ entry_json e) t)) @ '']}''"
    using h by (simp add: list_body_def Cons LIST_BODY_SIZE_def ENTRY_SIZE_def PROCESS_LIST_MAX_def)
  have lb: "length (concat (map (\<lambda>e. '','' @ entry_json e) t)) \<le> 61 * length t"
    by (rule concat_length) (use length_entry_json in \<open>simp add: le_Suc_eq\<close>)
  have "length (entry_line e) + 44 * length t < 4592" using t length_entry_line [of e] by simp
  from lines_loop_all [OF this, of 1]
  have l: "lines_loop 0 es [] = entry_line e @ concat (map (\<lambda>e. CHR 10 # entry_line e) t)"
    by (simp add: Cons LIST_TEXT_SIZE_def LINE_SIZE_def PROCESS_LIST_MAX_def)
  have ll: "length (concat (map (\<lambda>e. CHR 10 # entry_line e) t)) \<le> 44 * length t"
    by (rule concat_length) (use length_entry_line in simp)
  have "list_body es = ?h @ json_members (map entry_json es) @ '']}''"
    using b by (simp only: Cons list.map json_members_concat map_map comp_def append_assoc)
  moreover have "length (list_body es) < LIST_BODY_SIZE"
    using t h lb length_entry_json [of e] unfolding b by (simp add: LIST_BODY_SIZE_def ENTRY_SIZE_def PROCESS_LIST_MAX_def)
  moreover have "length (lines_loop 0 es []) < LIST_TEXT_SIZE"
    using t ll length_entry_line [of e] unfolding l by (simp add: LIST_TEXT_SIZE_def LINE_SIZE_def PROCESS_LIST_MAX_def)
  moreover have "lines_loop 0 es [] = drop 1 (concat (map (\<lambda>e. CHR 10 # entry_line e) es))" unfolding l by (simp add: Cons)
  ultimately show ?thesis by (simp only: append_assoc simp_thms)
qed

theorem listings_are_complete_witness:
  "lines_loop 0 (replicate 96 \<lparr>entry_pid = 1, program_id = 5, has_program_id = True\<rparr>) [] =
     drop 1 (concat (map (\<lambda>e. CHR 10 # entry_line e) (replicate 96 \<lparr>entry_pid = 1, program_id = 5, has_program_id = True\<rparr>)))"
  using listings_are_complete [of "replicate 96 \<lparr>entry_pid = 1, program_id = 5, has_program_id = True\<rparr>"]
  by (simp only: length_replicate PROCESS_LIST_MAX_def order_refl simp_thms)

end
