(* ===== verification/Nro.thy ===== *)
theory Nro
  imports Mcp_Server Power_Control
begin

text \<open>
  \<open>source/features/nro/nro.c\<close>, \<open>nro_http.c\<close> and \<open>nro_mcp.c\<close>: a homebrew program is handed to the Homebrew Menu's netloader
  over loopback, as a zlib stream of stored blocks, and its file, moved aside meanwhile, is put back when that fails.

  What a \<open>connect\<close> to an address gives (\<open>dial\<close>), the console's own address (\<open>lan\<close>) and what the menu does to the card
  once it has been sent something (\<open>hbm\<close>) are arguments, as is the wait of the server. Error messages are shorter than
  their buffer of 160 bytes; log lines are left out.
\<close>

section \<open>Little- and big-endian words\<close>

definition le32c :: "u32 \<Rightarrow> string" where
  "le32c v = map (\<lambda>k. chr (unat (drop_bit k v))) [0, 8, 16, 24]"

definition be32c :: "u32 \<Rightarrow> string" where
  "be32c v = map (\<lambda>k. chr (unat (drop_bit k v))) [24, 16, 8, 0]"

definition rd_i32 :: "string \<Rightarrow> int" where
  "rd_i32 s = sint (foldr (\<lambda>c v. push_bit 8 v OR word_of_nat (ord c)) s (0 :: u32))"

section \<open>The connection\<close>

definition BLOCK_DATA :: nat where "BLOCK_DATA = 16000"
definition NRO_BUF_SIZE :: nat where "NRO_BUF_SIZE = 0x4000"
definition NRO_ARGS_MAX :: nat where "NRO_ARGS_MAX = 1024"
definition LAUNCH_SUFFIX :: string where "LAUNCH_SUFFIX = ''.launch''"
definition NRO_SETTLE_TRIES :: nat where "NRO_SETTLE_TRIES = 30"
definition kPrefix :: string where "kPrefix = ''/switch/''"
definition LOOPBACK :: ipv4 where "LOOPBACK = (127, 0, 0, 1)"

text \<open>What \<open>socket\<close>, \<open>connect\<close>, \<open>poll\<close> and \<open>getsockopt\<close> report: a pending connect gives the result of the poll and
  whether the socket then has no error.\<close>

datatype dial_event = NoSocket | DialOk conn | DialFailed | DialPending int bool conn

definition connect_to :: "(ipv4 \<Rightarrow> dial_event) \<Rightarrow> ipv4 \<Rightarrow> conn option" where
  "connect_to dial a =
     (case dial a of
        NoSocket \<Rightarrow> None
      | DialOk c \<Rightarrow> Some c
      | DialFailed \<Rightarrow> None
      | DialPending pr fine c \<Rightarrow> if pr \<le> 0 \<or> \<not> fine then None else Some c)"

definition connect_netloader :: "(ipv4 \<Rightarrow> dial_event) \<Rightarrow> ipv4 option \<Rightarrow> conn option" where
  "connect_netloader dial lan =
     (case connect_to dial LOOPBACK of
        Some c \<Rightarrow> Some c
      | None \<Rightarrow> (case lan of Some ip \<Rightarrow> if ip \<noteq> LOOPBACK then connect_to dial ip else None | None \<Rightarrow> None))"

function recv_all :: "nat \<Rightarrow> conn \<Rightarrow> string option \<times> conn" where
  "recv_all len c =
     (if len = 0 then (Some [], c)
      else case rx c of
        [] \<Rightarrow> (None, c)
      | RecvData d # r \<Rightarrow>
          if d = [] then (None, c)
          else let (rest, c) = recv_all (len - length (take len d)) (c\<lparr>rx := (if length d \<le> len then r else RecvData (drop len d) # r)\<rparr>)
            in (map_option (\<lambda>s. take len d @ s) rest, c)
      | RecvIntr # r \<Rightarrow> recv_all len (c\<lparr>rx := r\<rparr>)
      | RecvErr # r \<Rightarrow> (None, c)
      | RecvAgain # r \<Rightarrow>
          (case polls c of
             [] \<Rightarrow> recv_all len (c\<lparr>rx := r\<rparr>)
           | PollRet pr hit # ps \<Rightarrow> if pr \<le> 0 then (None, c\<lparr>rx := r, polls := ps\<rparr>) else recv_all len (c\<lparr>rx := r, polls := ps\<rparr>)
           | PollIntr # ps \<Rightarrow> (None, c\<lparr>rx := r, polls := ps\<rparr>)))"
  by pat_completeness auto
termination
  by (relation "measure (\<lambda>(len, c). length (rx c) + len)") (auto simp: min_def split: if_splits)

declare recv_all.simps [simp del]

definition send_i32 :: "int \<Rightarrow> conn \<Rightarrow> bool \<times> conn" where
  "send_i32 v c = http_write_all (le32c (word_of_int v)) c"

definition recv_i32 :: "conn \<Rightarrow> int option \<times> conn" where
  "recv_i32 c = (let (s, c) = recv_all 4 c in (map_option rd_i32 s, c))"

section \<open>The zlib stream\<close>

definition adler_step :: "u32 \<times> u32 \<Rightarrow> char \<Rightarrow> u32 \<times> u32" where
  "adler_step ab c = (let (a, b) = ab; a = (a + of_char c) mod 65521 in (a, (b + a) mod 65521))"

text \<open>A stored block's header: the final flag and the length, twice.\<close>

definition block_head :: "bool \<Rightarrow> bool \<Rightarrow> nat \<Rightarrow> string" where
  "block_head first final n =
     (let nw = NOT (word_of_nat n :: u64) in
      (if first then [CHR 0x78, CHR 0x01] else []) @
      [if final then CHR 0x01 else CHR 0x00, chr n, chr (n div 256), chr (unat nw), chr (unat (drop_bit 8 nw))])"

function send_stream ::
    "bool \<Rightarrow> nat \<Rightarrow> string \<Rightarrow> u32 \<times> u32 \<Rightarrow> conn \<Rightarrow> 'a disk_scheme \<Rightarrow> (string + unit) \<times> conn \<times> 'a disk_scheme" where
  "send_stream first left f ab c d =
     (if left = 0 then (Inr (), c, d)
      else let n = (if left > BLOCK_DATA then BLOCK_DATA else left);
               final = (n = left);
               (got, d) = sd_read n f d
        in case got of
             None \<Rightarrow> (Inl ''reading the NRO failed'', c, d)
           | Some dat \<Rightarrow>
               if length dat \<noteq> n then (Inl ''reading the NRO failed'', c, d)
               else let (a, b) = foldl adler_step ab dat;
                        payload = block_head first final n @ dat @ (if final then be32c (push_bit 16 b OR a) else []);
                        (good, c) = http_write_all (le32c (word_of_nat (length payload)) @ payload) c
                 in if \<not> good then (Inl ''connection to hbmenu lost during the transfer'', c, d)
                    else send_stream False (left - n) (drop n f) (a, b) c d)"
  by pat_completeness auto
termination
  by (relation "measure (\<lambda>(first, left, f, ab, c, d). left)") (auto simp: BLOCK_DATA_def)

declare send_stream.simps [simp del]

definition nro_converse ::
    "string \<Rightarrow> string \<Rightarrow> nat \<Rightarrow> string \<Rightarrow> conn \<Rightarrow> 'a disk_scheme \<Rightarrow> (string + unit) \<times> conn \<times> 'a disk_scheme" where
  "nro_converse f name sz args c d =
     (let noans = Inl (''hbmenu'' @ [SQUOTE] @ ''s netloader did not answer'');
          (good, c) = send_i32 (int (length name)) c
      in if \<not> good then (noans, c, d)
      else let (good, c) = http_write_all name c in if \<not> good then (noans, c, d)
      else let (good, c) = send_i32 (int sz) c in if \<not> good then (noans, c, d)
      else let (resp, c) = recv_i32 c in case resp of
        None \<Rightarrow> (noans, c, d)
      | Some v \<Rightarrow>
          if v \<noteq> 0 then (Inl (''hbmenu refused the file (error '' @ dec_int v @ '')''), c, d)
          else let (res, c, d) = send_stream True sz f (1, 0) c d in case res of
            Inl e \<Rightarrow> (Inl e, c, d)
          | Inr u \<Rightarrow>
              let (resp, c) = recv_i32 c in
              if resp \<noteq> Some 0 then (Inl ''hbmenu did not confirm the transfer'', c, d)
              else let (good, c) = send_i32 (int (length args)) c in
                if \<not> good then (Inl ''sending the arguments failed'', c, d)
                else if args = [] then (Inr (), c, d)
                else let (good, c) = http_write_all args c in
                  if \<not> good then (Inl ''sending the arguments failed'', c, d) else (Inr (), c, d))"

section \<open>Launching\<close>

text \<open>The \<open>st_size\<close> of a node; the card's driver reports none for a directory.\<close>

fun node_size :: "node \<Rightarrow> nat" where
  "node_size (Reg c t) = length c"
| "node_size Dir = 0"

fun settle :: "(int \<Rightarrow> 'a disk_scheme \<Rightarrow> bool \<times> 'a disk_scheme) \<Rightarrow> string \<Rightarrow> nat \<Rightarrow> nat \<Rightarrow> 'a disk_scheme \<Rightarrow> bool \<times> 'a disk_scheme" where
  "settle wait fspath sz 0 d = (False, d)"
| "settle wait fspath sz (Suc k) d =
     (if (case sd_stat d fspath of Some n \<Rightarrow> node_size n = sz | None \<Rightarrow> False) then (True, d)
      else settle wait fspath sz k (snd (wait 100 d)))"

text \<open>After the transfer: the copy goes when the menu has written the file, otherwise the original is put back.\<close>

definition put_back :: "(int \<Rightarrow> 'a disk_scheme \<Rightarrow> bool \<times> 'a disk_scheme) \<Rightarrow> string \<Rightarrow> string \<Rightarrow> nat \<Rightarrow> bool \<Rightarrow> 'a disk_scheme \<Rightarrow> 'a disk_scheme" where
  "put_back wait fspath tmp sz good d =
     (let (written, d) = (if good then settle wait fspath sz NRO_SETTLE_TRIES d else (False, d)) in
      if written then snd (sd_remove tmp d) else snd (sd_rename tmp fspath (snd (sd_remove fspath d))))"

definition nro_launch ::
    "(ipv4 \<Rightarrow> dial_event) \<Rightarrow> ipv4 option \<Rightarrow> (string \<Rightarrow> 'a disk_scheme \<Rightarrow> 'a disk_scheme) \<Rightarrow>
     (int \<Rightarrow> 'a disk_scheme \<Rightarrow> bool \<times> 'a disk_scheme) \<Rightarrow> string \<Rightarrow> string \<Rightarrow> 'a disk_scheme \<Rightarrow> (string + unit) \<times> 'a disk_scheme" where
  "nro_launch dial lan hbm wait p args d =
     (if \<not> starts_with kPrefix p \<or> length p \<le> length kPrefix + 4 \<or> \<not> strcaseeq (drop (length p - 4) p) ''.nro''
      then (Inl (''path must be an .nro under /switch/ (where hbmenu'' @ [SQUOTE] @ ''s netloader saves it)''), d)
      else if length args > NRO_ARGS_MAX then (Inl (''arguments too long (max '' @ dec NRO_ARGS_MAX @ '' bytes)''), d)
      else case files_resolve p 768 of
        Inl e \<Rightarrow> (Inl e, d)
      | Inr fspath \<Rightarrow>
          (case sd_stat d fspath of
             Some (Reg fc t) \<Rightarrow>
               if length fc = 0 \<or> length fc > 0x7fffffff then (Inl ''unexpected file size'', d)
               else (case connect_netloader dial lan of
                 None \<Rightarrow> (Inl (''hbmenu'' @ [SQUOTE] @ ''s netloader is not listening: open the Homebrew Menu, press Y to start the netloader, then retry''), d)
               | Some c \<Rightarrow>
                   let tmp = fit 800 (fspath @ LAUNCH_SUFFIX);
                       d = snd (sd_remove tmp d);
                       (moved, d) = sd_rename fspath tmp d
                   in if \<not> moved then (Inl ''could not move the NRO aside for the transfer'', d)
                      else let (f, d) = sd_open tmp d in
                        (case f of
                           None \<Rightarrow> (Inl ''could not open the NRO'', put_back wait fspath tmp (length fc) False d)
                         | Some s \<Rightarrow>
                             let (res, c, d) = nro_converse s (drop (length kPrefix) p) (length fc) args c d
                             in (res, put_back wait fspath tmp (length fc) (res = Inr ()) (hbm (sent c) d))))
           | _ \<Rightarrow> (Inl ''no such file'', d)))"

fun args_loop :: "JsonDoc \<Rightarrow> int \<Rightarrow> int list \<Rightarrow> string \<Rightarrow> string + string" where
  "args_loop doc arr [] args = Inr args"
| "args_loop doc arr (i # is') args =
     (case json_get_string doc (json_arr_get doc arr i) (NRO_ARGS_MAX - length args) of
        None \<Rightarrow> Inl ([SQUOTE] @ ''args'' @ [SQUOTE] @ '' must be strings, 1 KB in all'')
      | Some s \<Rightarrow> args_loop doc arr is' (args @ s @ [NUL]))"

definition nro_args_from_json :: "JsonDoc \<Rightarrow> int \<Rightarrow> string + string" where
  "nro_args_from_json doc obj =
     (let arr = json_obj_get doc obj ''args'' in if arr < 0 then Inr [] else args_loop doc arr [0..json_arr_len doc arr - 1] [])"

section \<open>REST and MCP\<close>

definition post_launch ::
    "(ipv4 \<Rightarrow> dial_event) \<Rightarrow> ipv4 option \<Rightarrow> (string \<Rightarrow> 'a disk_scheme \<Rightarrow> 'a disk_scheme) \<Rightarrow>
     (int \<Rightarrow> 'a disk_scheme \<Rightarrow> bool \<times> 'a disk_scheme) \<Rightarrow> 'a disk_scheme handler" where
  "post_launch dial lan hbm wait dr =
     (let (d, r) = dr in
      case request_read_json r of
        (None, r) \<Rightarrow> (d, r)
      | (Some doc, r) \<Rightarrow>
          let t = json_obj_get doc 0 ''path'' in
          case (if t < 0 then None else json_get_string doc t 512) of
            None \<Rightarrow> (d, reply_error 400 (''missing string 'path'' @ [SQUOTE]) r)
          | Some p \<Rightarrow>
              let (a1, r) = request_alloc NRO_ARGS_MAX r; (b1, r) = request_alloc NRO_BUF_SIZE r in
              if a1 = None \<or> b1 = None then (d, reply_error 500 ''out of request memory'' r)
              else case nro_args_from_json doc 0 of
                Inl e \<Rightarrow> (d, reply_error 400 e r)
              | Inr args \<Rightarrow>
                  (case nro_launch dial lan hbm wait p args d of
                     (Inl e, d) \<Rightarrow> (d, reply_error (if has_text e ''not listening'' then 503 else 400) e r)
                   | (Inr u, d) \<Rightarrow> (d, reply_json 200 (json_obj [member ''ok'' ''true'']) r)))"

definition nro_http_register ::
    "(ipv4 \<Rightarrow> dial_event) \<Rightarrow> ipv4 option \<Rightarrow> (string \<Rightarrow> 'a disk_scheme \<Rightarrow> 'a disk_scheme) \<Rightarrow>
     (int \<Rightarrow> 'a disk_scheme \<Rightarrow> bool \<times> 'a disk_scheme) \<Rightarrow> 'a disk_scheme Server \<Rightarrow> 'a disk_scheme Server" where
  "nro_http_register dial lan hbm wait s = snd (http_server_register_route ''POST'' ''/nro/launch'' (post_launch dial lan hbm wait) s)"

definition tool_launch_nro ::
    "(ipv4 \<Rightarrow> dial_event) \<Rightarrow> ipv4 option \<Rightarrow> (string \<Rightarrow> 'a disk_scheme \<Rightarrow> 'a disk_scheme) \<Rightarrow>
     (int \<Rightarrow> 'a disk_scheme \<Rightarrow> bool \<times> 'a disk_scheme) \<Rightarrow> (nat \<Rightarrow> char) \<Rightarrow> 'a disk_scheme tool_handler" where
  "tool_launch_nro dial lan hbm wait stale call wr =
     (let (w, r) = wr in
      case mcp_arg_string call ''path'' 512 of
        None \<Rightarrow> (w, mcp_reply_error stale call (''missing 'path'' @ [SQUOTE]) r)
      | Some p \<Rightarrow>
          let (a1, r) = request_alloc NRO_ARGS_MAX r; (b1, r) = request_alloc NRO_BUF_SIZE r in
          if a1 = None \<or> b1 = None then (w, mcp_reply_rpc_error stale call (-32603) ''out of request memory'' r)
          else case nro_args_from_json (call_doc call) (call_args call) of
            Inl e \<Rightarrow> (w, mcp_reply_error stale call e r)
          | Inr args \<Rightarrow>
              (case nro_launch dial lan hbm wait p args w of
                 (Inl e, w) \<Rightarrow> (w, mcp_reply_error stale call e r)
               | (Inr u, w) \<Rightarrow> (w, mcp_reply_text stale call (fit 600 (''sent '' @ p @ '' to hbmenu, which is starting it'')) r)))"

definition nro_mcp_register ::
    "(string \<Rightarrow> string list) \<Rightarrow> (ipv4 \<Rightarrow> dial_event) \<Rightarrow> ipv4 option \<Rightarrow> (string \<Rightarrow> 'a disk_scheme \<Rightarrow> 'a disk_scheme) \<Rightarrow>
     (int \<Rightarrow> 'a disk_scheme \<Rightarrow> bool \<times> 'a disk_scheme) \<Rightarrow> (nat \<Rightarrow> char) \<Rightarrow> 'a disk_scheme Tool list \<Rightarrow> 'a disk_scheme Tool list" where
  "nro_mcp_register defs dial lan hbm wait stale tools =
     mcp_server_register_tool (defs ''kToolLaunchNro'') (tool_launch_nro dial lan hbm wait stale) tools"

section \<open>The checksum\<close>

text \<open>Adler-32 as its definition has it: sums over the bytes, modulo 65521.\<close>

definition adler_a :: "string \<Rightarrow> nat" where
  "adler_a s = (1 + sum_list (map ord s)) mod 65521"

definition adler_b :: "string \<Rightarrow> nat" where
  "adler_b s = sum_list (map (\<lambda>i. adler_a (take i s)) [1..<Suc (length s)]) mod 65521"

lemma unat_small: "m < 2 ^ 32 \<Longrightarrow> unat (word_of_nat m :: u32) = m"
  by (subst unat_of_nat) simp

lemma adler_small: "adler_a s < 65521" "adler_b s < 65521" "adler_a s < 2 ^ 31" "adler_a s < 65536" "adler_b s < 65536"
proof -
  show a: "adler_a s < 65521" "adler_b s < 65521" by (simp_all add: adler_a_def adler_b_def)
  show "adler_a s < 2 ^ 31" "adler_a s < 65536" "adler_b s < 65536" by (rule order.strict_trans2 [OF a(1)] order.strict_trans2 [OF a(2)]; simp)+
qed

lemma word_mod_step:
  assumes "m < 65521" and "k < 2 ^ 31"
  shows "(word_of_nat m + word_of_nat k) mod (65521 :: u32) = word_of_nat ((m + k) mod 65521)"
proof -
  have "(word_of_nat m + word_of_nat k :: u32) = word_of_nat (m + k)" by simp
  moreover have "m + k < 2 ^ 32" using assms by simp
  then have u: "unat (word_of_nat (m + k) :: u32) = m + k" by (rule unat_small)
  have "unat (word_of_nat (m + k) mod (65521 :: u32)) = (m + k) mod 65521" by (simp only: unat_mod_distrib u) simp
  moreover have "(m + k) mod 65521 < 2 ^ 32" by (rule order.strict_trans2 [OF mod_less_divisor]) simp_all
  then have "unat (word_of_nat ((m + k) mod 65521) :: u32) = (m + k) mod 65521" by (rule unat_small)
  ultimately show ?thesis by (metis word_unat_eq_iff)
qed

lemma adler_a_snoc: "adler_a (s @ [c]) = (adler_a s + ord c) mod 65521"
  by (simp add: adler_a_def mod_add_left_eq add.assoc)

lemma adler_b_snoc: "adler_b (s @ [c]) = (adler_b s + adler_a (s @ [c])) mod 65521"
proof -
  have m: "map (\<lambda>i. adler_a (take i (s @ [c]))) [1..<Suc (length s)] = map (\<lambda>i. adler_a (take i s)) [1..<Suc (length s)]"
    by (rule map_cong) auto
  have u: "[1..<Suc (length (s @ [c]))] = [1..<Suc (length s)] @ [Suc (length s)]" by simp
  have t: "take (Suc (length s)) (s @ [c]) = s @ [c]" by simp
  show ?thesis unfolding adler_b_def u map_append m by (simp only: list.map t sum_list_append sum_list.Cons sum_list.Nil add_0_right mod_add_left_eq)
qed

lemma adler_loop: "foldl adler_step (1, 0) s = (word_of_nat (adler_a s), word_of_nat (adler_b s))"
proof (induction s rule: rev_induct)
  case Nil
  then show ?case by (simp add: adler_a_def adler_b_def)
next
  case (snoc c s)
  have c: "(of_char c :: u32) = word_of_nat (ord c)" by (simp add: of_nat_of_char)
  have "ord c < 2 ^ 31" by (rule order.strict_trans2 [OF ord_less_256]) simp
  from word_mod_step [OF adler_small(1) this] word_mod_step [OF adler_small(2) adler_small(3), of s "s @ [c]"] snoc show ?case
    by (simp only: foldl_append foldl.simps adler_step_def Let_def prod.case c adler_a_snoc [symmetric] adler_b_snoc)
qed

interpretation adler: chunked_consumer "foldl adler_step"
  by unfold_locales simp_all

section \<open>A reader of stored streams\<close>

text \<open>
  The reader follows the format documents: a block is its final flag, its length and the length's complement, little
  endian, and the bytes; the stream has a two byte header, a multiple of 31 for method 8, and the checksum of what the
  blocks hold, most significant byte first.
\<close>

function read_stored :: "string \<Rightarrow> (string \<times> string) option" where
  "read_stored s =
     (if length s < 5 then None
      else let n = ord (s ! 1) + 256 * ord (s ! 2); nc = ord (s ! 3) + 256 * ord (s ! 4); r = drop 5 s in
        if ord (s ! 0) > 1 \<or> n + nc \<noteq> 65535 \<or> length r < n then None
        else if ord (s ! 0) = 1 then Some (take n r, drop n r)
        else (case read_stored (drop n r) of None \<Rightarrow> None | Some (d, t) \<Rightarrow> Some (take n r @ d, t)))"
  by pat_completeness auto
termination by (relation "measure length") auto

declare read_stored.simps [simp del]

definition read_zlib :: "string \<Rightarrow> string option" where
  "read_zlib s =
     (if length s < 2 \<or> ord (s ! 0) mod 16 \<noteq> 8 \<or> (256 * ord (s ! 0) + ord (s ! 1)) mod 31 \<noteq> 0 \<or> bit (ord (s ! 1)) 5 then None
      else case read_stored (drop 2 s) of
        Some (d, [k3, k2, k1, k0]) \<Rightarrow>
          if ((ord k3 * 256 + ord k2) * 256 + ord k1) * 256 + ord k0 = adler_b d * 65536 + adler_a d then Some d else None
      | _ \<Rightarrow> None)"

text \<open>The blocks the program writes.\<close>

function blocks :: "string \<Rightarrow> string" where
  "blocks f =
     (if length f \<le> BLOCK_DATA then block_head False True (length f) @ f
      else block_head False False BLOCK_DATA @ take BLOCK_DATA f @ blocks (drop BLOCK_DATA f))"
  by pat_completeness auto
termination by (relation "measure length") (auto simp: BLOCK_DATA_def)

declare blocks.simps [simp del]

lemma ord_chr_mod: "ord (chr n) = n mod 256"
  by (simp add: of_char_of)

lemma length_head: "length (block_head first final n) = (if first then 7 else 5)"
  by (simp add: block_head_def Let_def)

lemma head_first: "block_head True final n = [CHR 0x78, CHR 0x01] @ block_head False final n"
  by (simp add: block_head_def Let_def)

lemma complement_bytes:
  assumes "n < 65536"
  shows "unat (NOT (word_of_nat n :: u64)) mod 256 + 256 * (unat (drop_bit 8 (NOT (word_of_nat n :: u64))) mod 256) = 65535 - n"
proof -
  let ?w = "NOT (word_of_nat n :: u64)"
  have e: "unat ?w = 2 ^ 64 - 1 - n"
  proof -
    have "word_of_nat (2 ^ 64 - 1 - n) + word_of_nat n = (word_of_nat (2 ^ 64 - 1) :: u64)"
      using assms by (simp only: of_nat_add [symmetric]) simp
    also have "\<dots> = - 1" by simp
    finally have "word_of_nat (2 ^ 64 - 1 - n) = - 1 - (word_of_nat n :: u64)" by (metis add_diff_cancel_right')
    then have "?w = word_of_nat (2 ^ 64 - 1 - n)" by (simp only: not_eq_complement) simp
    moreover have "unat (word_of_nat (2 ^ 64 - 1 - n) :: u64) = (2 ^ 64 - 1 - n) mod 2 ^ LENGTH(64)" by (rule unat_of_nat)
    ultimately show ?thesis by simp
  qed
  have d: "unat (drop_bit 8 ?w) = unat ?w div 256" by (subst unat_drop_bit_eq) (simp add: drop_bit_eq_div)
  have "unat ?w mod 65536 = 65535 - n"
  proof -
    have "2 ^ 64 - 1 - n = (65535 - n) + 65536 * (2 ^ 48 - 1)" using assms by simp
    then have "(2 ^ 64 - 1 - n) mod 65536 = (65535 - n) mod 65536" by (metis mod_mult_self2)
    then show ?thesis using e by simp
  qed
  moreover have "unat ?w mod (256 * 256) = unat ?w mod 256 + 256 * (unat ?w div 256 mod 256)"
    by (subst mod_mult2_eq) (rule add.commute)
  ultimately show ?thesis by (simp add: d)
qed

lemma read_block:
  assumes "length b = n" and "n < 65536"
  shows "read_stored (block_head False final n @ b @ t) =
    (if final then Some (b, t) else map_option (\<lambda>(d, r). (b @ d, r)) (read_stored t))"
proof -
  define s where "s = block_head False final n @ b @ t"
  have nb: "n div 256 < 256" using assms(2) by (simp add: less_mult_imp_div_less)
  have c': "unat (NOT (word_of_nat n :: u64)) mod 256 + 256 * (unat (drop_bit 8 (NOT (word_of_nat n :: u64))) mod 256) = 65535 - n"
    by (rule complement_bytes [OF assms(2)])
  have e: "s = [if final then CHR 0x01 else CHR 0x00, chr n, chr (n div 256), chr (unat (NOT (word_of_nat n :: u64))),
      chr (unat (drop_bit 8 (NOT (word_of_nat n :: u64))))] @ b @ t" by (simp add: s_def block_head_def Let_def)
  have f: "s ! 0 = (if final then CHR 0x01 else CHR 0x00)" "s ! 1 = chr n" "s ! 2 = chr (n div 256)"
    "s ! 3 = chr (unat (NOT (word_of_nat n :: u64)))" "s ! 4 = chr (unat (drop_bit 8 (NOT (word_of_nat n :: u64))))"
    "drop 5 s = b @ t" "\<not> length s < 5"
    unfolding e by simp_all
  have n: "ord (s ! 1) + 256 * ord (s ! 2) = n" using nb unfolding f ord_chr_mod by simp
  have c: "ord (s ! 3) + 256 * ord (s ! 4) = 65535 - n" unfolding f ord_chr_mod by (rule c')
  have g: "ord (s ! 0) = (if final then 1 else 0)" unfolding f by simp
  have "n + (65535 - n) = 65535" using assms(2) by simp
  then show ?thesis using assms(1) unfolding s_def [symmetric]
    by (subst read_stored.simps) (simp add: n [unfolded One_nat_def] c g f(6,7) Let_def split: option.split prod.split)
qed

lemma read_blocks: "read_stored (blocks f @ t) = Some (f, t)"
proof (induction f rule: blocks.induct)
  case (1 f)
  show ?case
  proof (cases "length f \<le> BLOCK_DATA")
    case True
    then have "length f < 65536" by (simp add: BLOCK_DATA_def)
    from read_block [OF refl this, of True t] True show ?thesis by (simp add: blocks.simps [of f])
  next
    case False
    have "length (take BLOCK_DATA f) = BLOCK_DATA" using False by simp
    from read_block [OF this, of False "blocks (drop BLOCK_DATA f) @ t"] 1 [OF False] False
    show ?thesis by (simp add: blocks.simps [of f] BLOCK_DATA_def)
  qed
qed

lemma four_bytes:
  assumes "v < (2 :: nat) ^ 32"
  shows "((v div 2 ^ 24 mod 256 * 256 + v div 2 ^ 16 mod 256) * 256 + v div 2 ^ 8 mod 256) * 256 + v div 2 ^ 0 mod 256 = v"
proof -
  define x y z where "x = v div 256" and "y = x div 256" and "z = y div 256"
  have d: "v div 2 ^ 8 = x" "v div 2 ^ 16 = y" "v div 2 ^ 24 = z" by (simp_all add: x_def y_def z_def div_mult2_eq [symmetric])
  have "z < 256" using assms by (simp add: d(3) [symmetric] less_mult_imp_div_less)
  moreover have "z * 256 + y mod 256 = y" "y * 256 + x mod 256 = x" "x * 256 + v mod 256 = v"
    unfolding z_def y_def x_def by (simp_all add: div_mult_mod_eq)
  ultimately show ?thesis by (simp add: d [simplified])
qed

lemma sum_bytes:
  assumes "a < 65536" and "b < 65536"
  shows "\<exists>k3 k2 k1 k0. be32c (push_bit 16 (word_of_nat b) OR word_of_nat a) = [k3, k2, k1, k0] \<and>
    ((ord k3 * 256 + ord k2) * 256 + ord k1) * 256 + ord k0 = b * 65536 + a"
proof -
  let ?w = "push_bit 16 (word_of_nat b) OR word_of_nat a :: u32"
  have "push_bit 16 (word_of_nat b) AND word_of_nat a = (0 :: u32)"
  proof (rule bit_eqI)
    fix n
    have "\<not> bit a n" if "16 \<le> n"
      using assms(1) that power_increasing [of 16 n "2 :: nat"] by (auto simp: bit_iff_odd)
    then show "bit (push_bit 16 (word_of_nat b) AND word_of_nat a :: u32) n \<longleftrightarrow> bit (0 :: u32) n" by (auto simp: bit_simps)
  qed
  then have "?w = push_bit 16 (word_of_nat b) + word_of_nat a" by (rule disjunctive_add_eq_or [symmetric])
  then have "?w = word_of_nat (b * 65536 + a)" by (simp only: push_bit_eq_mult of_nat_add of_nat_mult) simp
  moreover have "b * 65536 + a < 2 ^ 32" using assms by simp
  ultimately have u: "unat ?w = b * 65536 + a" by (simp only: unat_small)
  let ?v = "b * 65536 + a"
  have k: "ord (chr (unat (drop_bit k ?w))) = ?v div 2 ^ k mod 256" for k
    unfolding ord_chr_mod unat_drop_bit_eq u by (simp only: drop_bit_eq_div)
  have "?v < 2 ^ 32" using assms by simp
  then have "((?v div 2 ^ 24 mod 256 * 256 + ?v div 2 ^ 16 mod 256) * 256 + ?v div 2 ^ 8 mod 256) * 256 + ?v div 2 ^ 0 mod 256 = ?v"
    by (rule four_bytes)
  then have "((ord (chr (unat (drop_bit 24 ?w))) * 256 + ord (chr (unat (drop_bit 16 ?w)))) * 256 + ord (chr (unat (drop_bit 8 ?w)))) * 256 +
      ord (chr (unat (drop_bit 0 ?w))) = ?v" by (simp only: k)
  moreover have "be32c ?w = [chr (unat (drop_bit 24 ?w)), chr (unat (drop_bit 16 ?w)), chr (unat (drop_bit 8 ?w)), chr (unat (drop_bit 0 ?w))]"
    by (simp only: be32c_def list.map)
  ultimately show ?thesis by blast
qed

lemma read_whole:
  "read_zlib ([CHR 0x78, CHR 0x01] @ blocks f @ be32c (push_bit 16 (word_of_nat (adler_b f)) OR word_of_nat (adler_a f))) = Some f"
proof -
  from sum_bytes [OF adler_small(4) adler_small(5)] obtain k3 k2 k1 k0 where
    k: "be32c (push_bit 16 (word_of_nat (adler_b f)) OR word_of_nat (adler_a f)) = [k3, k2, k1, k0]"
    "((ord k3 * 256 + ord k2) * 256 + ord k1) * 256 + ord k0 = adler_b f * 65536 + adler_a f" by blast
  have "16777216 * ord k3 + 65536 * ord k2 + ord k1 * 256 + ord k0 = adler_b f * 65536 + adler_a f" using k(2) by simp
  then show ?thesis by (simp add: k(1) read_zlib_def read_blocks bit_iff_odd)
qed


section \<open>What goes over the wire\<close>

text \<open>A chunk as the protocol frames it: its length and at most 16 KiB.\<close>

definition chunk_frame :: "string \<Rightarrow> string" where
  "chunk_frame p = le32c (word_of_nat (length p)) @ p"

lemma send_stream_step:
  assumes "left \<noteq> 0" and "n = (if left > BLOCK_DATA then BLOCK_DATA else left)" and "sd_read n f d = (Some dat, d1)" and "length dat = n"
    and "foldl adler_step ab dat = (a, b)"
    and "p = block_head first (n = left) n @ dat @ (if n = left then be32c (push_bit 16 b OR a) else [])"
    and "http_write_all (chunk_frame p) c = (good, c1)"
  shows "send_stream first left f ab c d =
    (if \<not> good then (Inl ''connection to hbmenu lost during the transfer'', c1, d1) else send_stream False (left - n) (drop n f) (a, b) c1 d1)"
  by (subst send_stream.simps)
    (simp only: assms(1) assms(2) [symmetric] assms(3,4,5) assms(6) [symmetric] assms(7) [unfolded chunk_frame_def] Let_def prod.case option.case
      if_False simp_thms)

lemma send_stream_sent:
  assumes "send_stream first left f (foldl adler_step (1, 0) pre) c d = (Inr u, c', d')" and "left = length f" and "f \<noteq> []"
  shows "\<exists>ps. sent c' = sent c @ concat (map chunk_frame ps) \<and> list_all (\<lambda>p. length p \<le> 16384) ps \<and>
    concat ps = (if first then [CHR 0x78, CHR 0x01] else []) @ blocks f @
      be32c (push_bit 16 (word_of_nat (adler_b (pre @ f))) OR word_of_nat (adler_a (pre @ f)))"
  using assms
proof (induction left arbitrary: first f pre c d rule: less_induct)
  case (less left)
  define n where "n = (if left > BLOCK_DATA then BLOCK_DATA else left)"
  have nf: "n \<le> length f" "n \<noteq> 0" "left \<noteq> 0" using less.prems by (auto simp: n_def BLOCK_DATA_def)
  obtain got d1 where g: "sd_read n f d = (got, d1)" by (cases "sd_read n f d")
  have got: "got = Some (take n f)"
    using less.prems(1) nf(3) g
    by (auto simp: send_stream.simps [of first left] n_def [symmetric] Let_def sd_read_def split: if_splits prod.splits)
  let ?pre = "pre @ take n f"
  let ?sum = "be32c (push_bit 16 (word_of_nat (adler_b ?pre)) OR word_of_nat (adler_a ?pre))"
  define p where "p = block_head first (n = left) n @ take n f @ (if n = left then ?sum else [])"
  obtain good c1 where w: "http_write_all (chunk_frame p) c = (good, c1)" by (cases "http_write_all (chunk_frame p) c")
  have ab: "foldl adler_step (foldl adler_step (1, 0) pre) (take n f) = (word_of_nat (adler_a ?pre), word_of_nat (adler_b ?pre))"
    using adler_loop [of ?pre] by simp
  have ln: "length (take n f) = n" using nf(1) by simp
  note e = send_stream_step [OF nf(3) n_def g [unfolded got] ln ab p_def w]
  have good: good using less.prems(1) e by (cases good) auto
  then have s1: "sent c1 = sent c @ chunk_frame p" using http_write_all_prefix [of "chunk_frame p" c] w by auto
  have rest: "send_stream False (left - n) (drop n f) (foldl adler_step (1, 0) ?pre) c1 d1 = (Inr u, c', d')"
    using less.prems(1) e good ab by (simp only: foldl_append) simp
  have n16: "n \<le> 16000" by (simp add: n_def BLOCK_DATA_def)
  then have lp: "length p \<le> 16384" using ln by (simp add: p_def length_head be32c_def)
  show ?case
  proof (cases "n = left")
    case True
    then have n: "n = length f" using less.prems by simp
    have c': "c' = c1" using rest True by (simp add: send_stream.simps)
    have "length f \<le> BLOCK_DATA" using n less.prems(2) True by (auto simp: n_def split: if_splits)
    then have b: "blocks f = block_head False True (length f) @ f" by (simp add: blocks.simps [of f])
    have p: "p = (if first then [CHR 0x78, CHR 0x01] else []) @ blocks f @ ?sum"
      using True n head_first [of True "length f"] by (cases first) (simp_all add: p_def b)
    show ?thesis by (rule exI [of _ "[p]"]) (use s1 c' lp n p in simp)
  next
    case False
    then have n: "n = BLOCK_DATA" "BLOCK_DATA < length f" using less.prems(2) by (auto simp: n_def split: if_splits)
    have b: "blocks f = block_head False False BLOCK_DATA @ take BLOCK_DATA f @ blocks (drop BLOCK_DATA f)"
      using n by (simp add: blocks.simps [of f])
    have "left - n < left" "left - n = length (drop n f)" "drop n f \<noteq> []" using nf n less.prems(2) by simp_all
    from less.IH [OF this(1) rest this(2,3)] obtain ps where
      ps: "sent c' = sent c1 @ concat (map chunk_frame ps)" "list_all (\<lambda>p. length p \<le> 16384) ps"
      "concat ps = blocks (drop n f) @
        be32c (push_bit 16 (word_of_nat (adler_b (?pre @ drop n f))) OR word_of_nat (adler_a (?pre @ drop n f)))" by auto
    have pf: "?pre @ drop n f = pre @ f" by simp
    have p: "p = (if first then [CHR 0x78, CHR 0x01] else []) @ block_head False False BLOCK_DATA @ take BLOCK_DATA f"
      using False n head_first [of False BLOCK_DATA] by (cases first) (simp_all add: p_def)
    show ?thesis
      by (rule exI [of _ "p # ps"]) (use s1 lp ps p n b in \<open>simp add: pf [unfolded append_assoc]\<close>)
  qed
qed


text \<open>The rest of the conversation.\<close>

lemma recv_all_sent: "sent (snd (recv_all len c)) = sent c"
  by (induction len c rule: recv_all.induct)
    (subst recv_all.simps, auto simp: Let_def split: prod.splits list.splits recv_event.splits poll_event.splits)

lemma recv_i32_sent: "recv_i32 c = (v, c') \<Longrightarrow> sent c' = sent c"
  using recv_all_sent [of 4 c] by (auto simp: recv_i32_def split: prod.splits)

lemma write_sent: "http_write_all p c = (True, c') \<Longrightarrow> sent c' = sent c @ p"
  using http_write_all_prefix [of p c] by auto

text \<open>
  C37: what the menu is sent is the name, the size, the file and the arguments as its protocol frames them; the chunks
  of the file are at most 16 KiB and together a zlib stream that decompresses, checksum included, to the file.
\<close>

theorem nro_sent_as_zlib:
  assumes "nro_converse f name (length f) args c d = (Inr u, c', d')" and "f \<noteq> []"
  shows "\<exists>ps. sent c' = sent c @ le32c (word_of_nat (length name)) @ name @ le32c (word_of_nat (length f)) @
      concat (map chunk_frame ps) @ le32c (word_of_nat (length args)) @ args \<and>
    list_all (\<lambda>p. length p \<le> 16384) ps \<and> read_zlib (concat ps) = Some f"
proof -
  note i = send_i32_def of_int_of_nat_eq
  obtain c1 where 1: "http_write_all (le32c (word_of_nat (length name))) c = (True, c1)"
    using assms(1) by (auto simp: nro_converse_def i Let_def split: prod.splits if_splits)
  obtain c2 where 2: "http_write_all name c1 = (True, c2)"
    using assms(1) by (auto simp: nro_converse_def i 1 Let_def split: prod.splits if_splits)
  obtain c3 where 3: "http_write_all (le32c (word_of_nat (length f))) c2 = (True, c3)"
    using assms(1) by (auto simp: nro_converse_def i 1 2 Let_def split: prod.splits if_splits)
  obtain c4 where 4: "recv_i32 c3 = (Some 0, c4)"
    using assms(1) by (auto simp: nro_converse_def i 1 2 3 Let_def split: prod.splits option.splits if_splits)
  obtain c5 d5 where 5: "send_stream True (length f) f (1, 0) c4 d = (Inr (), c5, d5)"
    using assms(1) by (auto simp: nro_converse_def i 1 2 3 4 Let_def split: prod.splits sum.splits)
  obtain c6 where 6: "recv_i32 c5 = (Some 0, c6)"
    using assms(1) by (auto simp: nro_converse_def i 1 2 3 4 5 Let_def split: prod.splits if_splits)
  obtain c7 where 7: "http_write_all (le32c (word_of_nat (length args))) c6 = (True, c7)"
    using assms(1) by (auto simp: nro_converse_def i 1 2 3 4 5 6 Let_def split: prod.splits if_splits)
  have 8: "http_write_all args c7 = (True, c')"
    using assms(1) by (auto simp: nro_converse_def i 1 2 3 4 5 6 7 Let_def http_write_all.simps [of "[]"] split: prod.splits if_splits)
  have "send_stream True (length f) f (foldl adler_step (1, 0) []) c4 d = (Inr (), c5, d5)" using 5 by simp
  from send_stream_sent [OF this refl assms(2)] obtain ps where
    ps: "sent c5 = sent c4 @ concat (map chunk_frame ps)" "list_all (\<lambda>p. length p \<le> 16384) ps"
    "concat ps = [CHR 0x78, CHR 0x01] @ blocks f @ be32c (push_bit 16 (word_of_nat (adler_b f)) OR word_of_nat (adler_a f))" by auto
  have "read_zlib (concat ps) = Some f" unfolding ps(3) by (rule read_whole)
  with ps(1,2) write_sent [OF 1] write_sent [OF 2] write_sent [OF 3] recv_i32_sent [OF 4] recv_i32_sent [OF 6] write_sent [OF 7] write_sent [OF 8]
  show ?thesis by (intro exI [of _ ps]) simp
qed

section \<open>The original survives\<close>

lemma file_renamed:
  assumes ok: "tree_ok d" and f: "node_at d (key p) = Some (Reg c t)" and r: "sd_rename p q d = (True, e)"
  shows "node_at e = (node_at d)(key p := None, key q := Some (Reg c t))"
proof
  fix k
  note rc = sd_rename_cases [OF r] and rn = sd_rename_nodes [OF ok r, of k]
  have no_below: "node_at d (key p @ x) = None" if "x \<noteq> []" for x
    using tree_ok_ancestor [OF ok, of "key p" x] f that by fastforce
  have no_below_q: "node_at d (key q @ x) = None" if "x \<noteq> []" for x
    using tree_ok_ancestor [OF ok, of "key q" x] rc(5) that by fastforce
  show "node_at e k = ((node_at d)(key p := None, key q := Some (Reg c t))) k"
  proof (cases "prefix (key q) k")
    case True
    then obtain x where x: "k = key q @ x" by (auto simp: prefix_def)
    show ?thesis using rn f x no_below [of x] no_below_q [of x] by (cases "x = []") auto
  next
    case False
    then have "k \<noteq> key q" by auto
    show ?thesis
    proof (cases "prefix (key p) k")
      case True
      then obtain x where "k = key p @ x" by (auto simp: prefix_def)
      with False \<open>k \<noteq> key q\<close> True rn no_below [of x] show ?thesis by (cases "x = []") simp_all
    next
      case f: False
      then have "k \<noteq> key p" by auto
      with f False \<open>k \<noteq> key q\<close> rn show ?thesis by simp
    qed
  qed
qed

text \<open>What the menu and the passing of time may do to the card: only the node the transfer writes.\<close>

definition only_writes :: "string list \<Rightarrow> ('a disk_scheme \<Rightarrow> 'a disk_scheme) \<Rightarrow> bool" where
  "only_writes k f \<longleftrightarrow> (\<forall>d. tree_ok d \<longrightarrow> tree_ok (f d) \<and> (\<forall>j. j \<noteq> k \<longrightarrow> node_at (f d) j = node_at d j) \<and>
     (\<not> is_dir d k \<longrightarrow> \<not> is_dir (f d) k) \<and> (faults d = [] \<longrightarrow> faults (f d) = []))"

text \<open>While the original is aside: it is at the temporary name, nothing else has changed.\<close>

definition aside :: "'a disk_scheme \<Rightarrow> string list \<Rightarrow> string list \<Rightarrow> node \<Rightarrow> 'a disk_scheme \<Rightarrow> bool" where
  "aside d0 kp kt n d \<longleftrightarrow> tree_ok d \<and> node_at d kt = Some n \<and> \<not> is_dir d kp \<and> (\<forall>j. j \<noteq> kp \<and> j \<noteq> kt \<longrightarrow> node_at d j = node_at d0 j)"

lemma aside_env: "only_writes kp f \<Longrightarrow> kp \<noteq> kt \<Longrightarrow> aside d0 kp kt n d \<Longrightarrow> aside d0 kp kt n (f d)"
  by (simp add: only_writes_def aside_def)

lemma aside_same: "aside d0 kp kt n d \<Longrightarrow> node_at e = node_at d \<Longrightarrow> tree_ok e \<Longrightarrow> aside d0 kp kt n e"
  by (simp add: aside_def is_dir_def)

lemma sd_read_same: "sd_read n f d = (g, e) \<Longrightarrow> node_at e = node_at d \<and> tree_ok e = tree_ok d \<and> (faults d = [] \<longrightarrow> faults e = [])"
  by (auto simp: sd_read_def no_faults split: prod.splits) (metis node_at_attempt snd_conv, metis tree_ok_attempt snd_conv, metis tree_ok_attempt snd_conv)

lemma sd_open_same: "sd_open p d = (g, e) \<Longrightarrow> node_at e = node_at d \<and> tree_ok e = tree_ok d \<and> (faults d = [] \<longrightarrow> faults e = [])"
  using node_at_attempt [of d] tree_ok_attempt [of d] no_faults [of d]
  by (cases "attempt d") (auto simp: sd_open_def split: option.splits node.splits)

definition card_kept :: "'a disk_scheme \<Rightarrow> 'a disk_scheme \<Rightarrow> bool" where
  "card_kept d e \<longleftrightarrow> node_at e = node_at d \<and> tree_ok e = tree_ok d \<and> (faults d = [] \<longrightarrow> faults e = [])"

lemma send_stream_same: "send_stream first left f ab c d = (r, c', e) \<Longrightarrow> card_kept d e"
proof (induction first left f ab c d rule: send_stream.induct)
  case (1 first left f ab c d)
  define n where "n = (if left > BLOCK_DATA then BLOCK_DATA else left)"
  obtain got d1 where g: "sd_read n f d = (got, d1)" by (cases "sd_read n f d")
  have s: "card_kept d d1" using sd_read_same [OF g] by (simp add: card_kept_def)
  show ?case
  proof (cases "left \<noteq> 0 \<and> (\<exists>dat. got = Some dat \<and> length dat = n)")
    case False
    then show ?thesis
      using "1.prems" s g by (auto simp: send_stream.simps [of first left] n_def [symmetric] Let_def card_kept_def split: option.splits if_splits)
  next
    case True
    then obtain dat where d: "left \<noteq> 0" "got = Some dat" "length dat = n" by blast
    obtain a b where ab: "foldl adler_step ab dat = (a, b)" by (cases "foldl adler_step ab dat")
    define p where "p = block_head first (n = left) n @ dat @ (if n = left then be32c (push_bit 16 b OR a) else [])"
    obtain good c1 where w: "http_write_all (chunk_frame p) c = (good, c1)" by (cases "http_write_all (chunk_frame p) c")
    note e = send_stream_step [OF d(1) n_def g [unfolded d(2)] d(3) ab p_def w]
    show ?thesis
    proof (cases good)
      case False
      then show ?thesis using "1.prems" e s by simp
    next
      case t: True
      then have "send_stream False (left - n) (drop n f) (a, b) c1 d1 = (r, c', e)" using "1.prems" e by simp
      moreover have "\<not> length dat \<noteq> n" "\<not> \<not> good" using d t by simp_all
      ultimately have "card_kept d1 e"
        using "1.IH" [OF d(1) n_def refl refl g [symmetric] d(2) _ refl ab [symmetric] p_def refl w [symmetric, unfolded chunk_frame_def]] by blast
      then show ?thesis using s by (simp add: card_kept_def)
    qed
  qed
qed

lemma converse_same: "nro_converse f name sz args c d = (r, c', e) \<Longrightarrow> card_kept d e"
proof -
  assume a: "nro_converse f name sz args c d = (r, c', e)"
  have s: "card_kept d d" by (simp add: card_kept_def)
  show ?thesis
    using a s send_stream_same
    unfolding nro_converse_def Let_def by (auto split: prod.splits if_splits option.splits sum.splits)
qed

lemma node_size_pos: "0 < node_size n \<Longrightarrow> \<exists>c. (\<exists>t. n = Reg c t) \<and> length c = node_size n"
  by (cases n) simp_all

lemma settle_aside:
  assumes "only_writes kp (\<lambda>d. snd (wait 100 d))" and "kp \<noteq> kt" and "kp = key fspath" and "aside d0 kp kt n d"
    and "settle wait fspath sz k d = (w, e)" and "0 < sz"
  shows "aside d0 kp kt n e" and "w \<Longrightarrow> \<exists>c t. node_at e kp = Some (Reg c t) \<and> length c = sz" and "faults d = [] \<Longrightarrow> faults e = []"
proof -
  have "aside d0 kp kt n e \<and> (w \<longrightarrow> (\<exists>c t. node_at e kp = Some (Reg c t) \<and> length c = sz)) \<and> (faults d = [] \<longrightarrow> faults e = [])"
    using assms(4,5)
  proof (induction k arbitrary: d)
    case (Suc k)
    let ?hit = "case sd_stat d fspath of Some n \<Rightarrow> node_size n = sz | None \<Rightarrow> False"
    show ?case
    proof (cases ?hit)
      case True
      then show ?thesis using Suc.prems assms(3,6) node_size_pos by (auto simp: sd_stat_def split: option.splits)
    next
      case False
      have "aside d0 kp kt n (snd (wait 100 d))" using aside_env [OF assms(1,2) Suc.prems(1)] .
      moreover have "settle wait fspath sz k (snd (wait 100 d)) = (w, e)" using Suc.prems(2) False by simp
      ultimately have "aside d0 kp kt n e \<and> (w \<longrightarrow> (\<exists>c t. node_at e kp = Some (Reg c t) \<and> length c = sz)) \<and>
          (faults (snd (wait 100 d)) = [] \<longrightarrow> faults e = [])" by (rule Suc.IH)
      moreover have "faults d = [] \<longrightarrow> faults (snd (wait 100 d)) = []" using assms(1) Suc.prems(1) by (simp add: only_writes_def aside_def)
      ultimately show ?thesis by blast
    qed
  qed simp
  then show "aside d0 kp kt n e" "w \<Longrightarrow> \<exists>c t. node_at e kp = Some (Reg c t) \<and> length c = sz" "faults d = [] \<Longrightarrow> faults e = []"
    by blast+
qed

lemma kept_aside: "card_kept d e \<Longrightarrow> aside d0 kp kt n d \<Longrightarrow> aside d0 kp kt n e"
  by (simp add: card_kept_def aside_def is_dir_def)

text \<open>Putting back: the original ends at its place or stays at the temporary name.\<close>

lemma restored:
  assumes a: "aside d0 (key fspath) (key tmp) (Reg fc t) d" and ne: "key tmp \<noteq> key fspath" "\<not> prefix (key tmp) (key fspath)"
    and dir: "is_dir d0 (butlast (key fspath))" "butlast (key fspath) \<noteq> key tmp" "key fspath \<noteq> []"
    and e_def: "e = snd (sd_rename tmp fspath (snd (sd_remove fspath d)))"
  shows "(node_at e (key fspath) = Some (Reg fc t) \<or> node_at e (key tmp) = Some (Reg fc t)) \<and>
    (\<forall>j. j \<noteq> key fspath \<and> j \<noteq> key tmp \<longrightarrow> node_at e j = node_at d0 j) \<and> (faults d = [] \<longrightarrow> node_at e (key fspath) = Some (Reg fc t))"
proof -
  define d1 where "d1 = snd (sd_remove fspath d)"
  have n1: "node_at d1 = (if fst (sd_remove fspath d) then (node_at d)(key fspath := None) else node_at d)" "tree_ok d1"
    using sd_remove_nodes(1) [of fspath d] sd_remove_nodes(3) [of d fspath] a by (simp_all add: d1_def aside_def)
  have a1: "aside d0 (key fspath) (key tmp) (Reg fc t) d1" using a n1 ne(1) by (auto simp: aside_def is_dir_def)
  obtain good e' where r: "sd_rename tmp fspath d1 = (good, e')" by (cases "sd_rename tmp fspath d1")
  have e: "e = e'" using r by (simp add: e_def d1_def)
  have good: good if "faults d = []"
  proof -
    have kp: "node_at d1 (key fspath) = None"
      using a n1(1) that by (cases "node_at d (key fspath)") (auto simp: aside_def is_dir_def sd_remove_def sd_stat_def no_faults
        node_at_drop [OF dir(3)] d1_def split: node.splits)
    have "faults d1 = []" using that by (auto simp: d1_def sd_remove_def no_faults drop_node_def split: option.splits node.splits)
    moreover have "node_at d1 (butlast (key fspath)) = Some Dir"
    proof -
      have "butlast (key fspath) \<noteq> key fspath" using dir(3) by (metis append_butlast_last_id append_self_conv not_Cons_self2)
      then show ?thesis using a1 dir(1,2) by (simp add: aside_def is_dir_def)
    qed
    moreover have "node_at d1 (key tmp) = Some (Reg fc t)" "key tmp \<noteq> []" using a1 ne(2) by (auto simp: aside_def)
    ultimately show good using r ne(2) kp by (auto simp: sd_rename_def no_faults is_dir_def Let_def split: if_splits)
  qed
  show ?thesis
  proof (cases good)
    case True
    then have "node_at e = (node_at d1)(key tmp := None, key fspath := Some (Reg fc t))"
      using file_renamed [of d1 tmp fc t fspath e'] r a1 e by (simp add: aside_def)
    then show ?thesis using a1 by (auto simp: aside_def)
  next
    case False
    then have "node_at e = node_at d1" using sd_rename_failed(1) [of tmp fspath d1] r e by simp
    then show ?thesis using a1 good False by (auto simp: aside_def)
  qed
qed

lemma put_back_spec:
  assumes a: "aside d0 (key fspath) (key tmp) (Reg fc t) d" and ne: "key tmp \<noteq> key fspath" "\<not> prefix (key tmp) (key fspath)"
    and dir: "is_dir d0 (butlast (key fspath))" "butlast (key fspath) \<noteq> key tmp" "key fspath \<noteq> []"
    and w: "only_writes (key fspath) (\<lambda>d. snd (wait 100 d))" and nz: "0 < length fc"
    and e_def: "e = put_back wait fspath tmp (length fc) good d"
  shows "(node_at e (key fspath) = Some (Reg fc t) \<or> node_at e (key tmp) = Some (Reg fc t) \<or>
      good \<and> (\<exists>c u. node_at e (key fspath) = Some (Reg c u) \<and> length c = length fc)) \<and>
    (\<forall>j. j \<noteq> key fspath \<and> j \<noteq> key tmp \<longrightarrow> node_at e j = node_at d0 j) \<and>
    (faults d = [] \<and> \<not> good \<longrightarrow> node_at e (key fspath) = Some (Reg fc t))"
proof -
  obtain written d1 where s: "(if good then settle wait fspath (length fc) NRO_SETTLE_TRIES d else (False, d)) = (written, d1)"
    by (cases "if good then settle wait fspath (length fc) NRO_SETTLE_TRIES d else (False, d)")
  have a1: "aside d0 (key fspath) (key tmp) (Reg fc t) d1" and wr: "written \<Longrightarrow> good \<and> (\<exists>c u. node_at d1 (key fspath) = Some (Reg c u) \<and> length c = length fc)"
    using s a settle_aside(1,2) [where wait = wait and kp = "key fspath" and kt = "key tmp" and fspath = fspath, OF w ne(1) [symmetric] refl a _ nz] by (auto split: if_splits)
  show ?thesis
  proof (cases written)
    case True
    then have e: "e = snd (sd_remove tmp d1)" using s by (simp add: e_def put_back_def)
    then have "node_at e = node_at d1 \<or> node_at e = (node_at d1)(key tmp := None)" using sd_remove_nodes(1) [of tmp d1] by auto
    then show ?thesis using a1 wr [OF True] ne(1) by (auto simp: aside_def)
  next
    case False
    then have e: "e = snd (sd_rename tmp fspath (snd (sd_remove fspath d1)))" using s by (simp add: e_def put_back_def)
    have "\<not> good \<Longrightarrow> d1 = d" using s by simp
    with restored [OF a1 ne dir e] show ?thesis by blast
  qed
qed

text \<open>The copy's name and the file's are in one directory.\<close>

lemma launch_names:
  assumes "files_resolve p 768 = Inr fspath" and "strcaseeq (drop (length p - 4) p) ''.nro''" and "length p > 4"
  shows "\<exists>up l. key fspath = up @ [l] \<and> key (fspath @ LAUNCH_SUFFIX) = up @ [l @ LAUNCH_SUFFIX] \<and> fit 800 (fspath @ LAUNCH_SUFFIX) = fspath @ LAUNCH_SUFFIX"
proof -
  define x where "x = drop (length p - 4) p"
  have lx: "length x = 4" using assms(3) by (simp add: x_def)
  have "map to_lower x = map to_lower ''.nro''" using assms(2) by (simp add: x_def strcaseeq_def)
  moreover have "to_lower (CHR ''/'') = CHR ''/''" "CHR ''/'' \<notin> set (map to_lower ''.nro'')" by code_simp+
  ultimately have nx: "CHR ''/'' \<notin> set x" by (metis image_eqI list.set_map)
  have "split_on (CHR ''/'') p = butlast (split_on (CHR ''/'') (take (length p - 4) p)) @ [last (split_on (CHR ''/'') (take (length p - 4) p)) @ x]"
    using split_on_append_nosep [OF nx, of "take (length p - 4) p"] by (simp add: x_def)
  then have "4 \<le> length (last (split_on (CHR ''/'') p))" using lx by simp
  then have l: "last (split_on (CHR ''/'') p) \<noteq> []" "last (split_on (CHR ''/'') p) \<noteq> ''.''" by auto
  have sx: "CHR ''/'' \<notin> set LAUNCH_SUFFIX" "2 < length LAUNCH_SUFFIX" by (simp_all add: LAUNCH_SUFFIX_def)
  have "length fspath < 768" using assms(1) by (auto simp: files_resolve_iff FILES_ROOT_def)
  then have "fit 800 (fspath @ LAUNCH_SUFFIX) = fspath @ LAUNCH_SUFFIX" by (intro fit_id) (simp add: LAUNCH_SUFFIX_def)
  with key_suffixed_at [OF assms(1) sx refl refl] l show ?thesis by auto
qed

text \<open>
  C38: whatever the link, the card and the menu do, launching does not lose the program's file: it is in place, or it is
  still under its temporary name, or the menu has written a file of its size in its place. When the card works and the
  launch fails the file is in place, and no other file has changed. The menu and the waits write nothing but that file.
\<close>

theorem nro_file_survives:
  assumes "sd_stat d (FILES_ROOT @ p) = Some (Reg fc t)" and "tree_ok d" and "nro_launch dial lan hbm wait p args d = (res, e)"
    and "\<And>s. only_writes (key (FILES_ROOT @ p)) (hbm s)" and "only_writes (key (FILES_ROOT @ p)) (\<lambda>d. snd (wait 100 d))"
  shows "(sd_stat e (FILES_ROOT @ p) = Some (Reg fc t) \<or> sd_stat e (FILES_ROOT @ p @ LAUNCH_SUFFIX) = Some (Reg fc t) \<or>
      res = Inr () \<and> (\<exists>c u. sd_stat e (FILES_ROOT @ p) = Some (Reg c u) \<and> length c = length fc)) \<and>
    (faults d = [] \<and> res \<noteq> Inr () \<longrightarrow> sd_stat e (FILES_ROOT @ p) = Some (Reg fc t)) \<and>
    (\<forall>j. j \<noteq> key (FILES_ROOT @ p) \<and> j \<noteq> key (FILES_ROOT @ p @ LAUNCH_SUFFIX) \<longrightarrow> node_at e j = node_at d j)"
    (is "?goal e res")
proof (cases "e = d \<and> res \<noteq> Inr ()")
  case True
  then show ?thesis using assms(1) by simp
next
  case False
  have P: "length p > 4" "strcaseeq (drop (length p - 4) p) ''.nro''" "\<not> length args > NRO_ARGS_MAX" "files_resolve p 768 = Inr (FILES_ROOT @ p)"
  proof -
    show g: "length p > 4" "strcaseeq (drop (length p - 4) p) ''.nro''" "\<not> length args > NRO_ARGS_MAX"
      using False assms(3) by (auto simp: nro_launch_def kPrefix_def split: if_splits)
    show "files_resolve p 768 = Inr (FILES_ROOT @ p)"
      using False assms(3) g by (cases "files_resolve p 768") (auto simp: nro_launch_def files_resolve_iff split: if_splits)
  qed
  define fspath where "fspath = FILES_ROOT @ p"
  define tmp where "tmp = fspath @ LAUNCH_SUFFIX"
  have res: "files_resolve p 768 = Inr fspath" by (simp add: P(4) fspath_def)
  from launch_names [OF res P(2) P(1)] obtain up l where
    k: "key fspath = up @ [l]" "key tmp = up @ [l @ LAUNCH_SUFFIX]" "fit 800 (fspath @ LAUNCH_SUFFIX) = tmp" by (auto simp: tmp_def)
  have ne: "key tmp \<noteq> key fspath" "\<not> prefix (key tmp) (key fspath)" "key fspath \<noteq> []" "butlast (key fspath) \<noteq> key tmp"
    using k by (auto simp: LAUNCH_SUFFIX_def dest: arg_cong [of _ _ length])
  have st: "sd_stat d fspath = Some (Reg fc t)" using assms(1) by (simp add: fspath_def)
  have dir: "is_dir d (butlast (key fspath))"
    using assms(2) st ne(3) unfolding tree_ok_iff sd_stat_def is_dir_def by (metis option.distinct(1))
  obtain c where c: "connect_netloader dial lan = Some c" and sz: "\<not> (length fc = 0 \<or> length fc > 0x7fffffff)"
    using False assms(3) P(3) by (auto simp: nro_launch_def res st split: if_splits option.splits)
  have nz: "0 < length fc" using sz by simp
  define d1 where "d1 = snd (sd_remove tmp d)"
  have n1: "node_at d1 = node_at d \<or> node_at d1 = (node_at d)(key tmp := None)" "tree_ok d1" "faults d = [] \<Longrightarrow> faults d1 = []"
    using sd_remove_nodes(1) [of tmp d] sd_remove_nodes(3) [of d tmp] assms(2)
    by (auto simp: d1_def sd_remove_def no_faults drop_node_def split: option.splits node.splits)
  have f1: "node_at d1 (key fspath) = Some (Reg fc t)" using n1(1) st ne(1) by (auto simp: sd_stat_def)
  obtain moved d2 where r: "sd_rename fspath tmp d1 = (moved, d2)" by (cases "sd_rename fspath tmp d1")
  have L: "nro_launch dial lan hbm wait p args d =
     (if \<not> moved then (Inl ''could not move the NRO aside for the transfer'', d2)
      else let (f, d) = sd_open tmp d2 in
        (case f of
           None \<Rightarrow> (Inl ''could not open the NRO'', put_back wait fspath tmp (length fc) False d)
         | Some s \<Rightarrow>
             let (res, c, d) = nro_converse s (drop (length kPrefix) p) (length fc) args c d
             in (res, put_back wait fspath tmp (length fc) (res = Inr ()) (hbm (sent c) d))))"
  proof -
    have "\<not> (\<not> starts_with kPrefix p \<or> length p \<le> length kPrefix + 4 \<or> \<not> strcaseeq (drop (length p - 4) p) ''.nro'')"
      using False assms(3) by (auto simp: nro_launch_def split: if_splits)
    then show ?thesis
      using P(3) sz by (simp add: nro_launch_def res st c k(3) d1_def [symmetric] r Let_def)
  qed
  show ?thesis
  proof (cases moved)
    case False
    then have "node_at d2 = node_at d1" "e = d2" "res \<noteq> Inr ()" using sd_rename_failed(1) [of fspath tmp d1] r L assms(3) by auto
    then show ?thesis using f1 n1(1) unfolding fspath_def [symmetric] append_assoc [symmetric] tmp_def [symmetric] by (auto simp: sd_stat_def)
  next
    case True
    have n2: "node_at d2 = (node_at d1)(key fspath := None, key tmp := Some (Reg fc t))"
      using file_renamed [OF n1(2) f1] r True by simp
    have t2: "tree_ok d2" using sd_rename_tree [OF n1(2), of fspath tmp] r by simp
    have a2: "aside d (key fspath) (key tmp) (Reg fc t) d2" using n2 t2 n1(1) ne(1) by (auto simp: aside_def is_dir_def)
    have f2: "faults d = [] \<Longrightarrow> faults d2 = []" using n1(3) r by (auto simp: sd_rename_def no_faults Let_def split: if_splits)
    obtain f d3 where o': "sd_open tmp d2 = (f, d3)" by (cases "sd_open tmp d2")
    have c3: "card_kept d2 d3" using sd_open_same [OF o'] by (simp add: card_kept_def)
    note a3 = kept_aside [OF c3 a2]
    note pb = put_back_spec [where wait = wait and fspath = fspath and tmp = tmp, OF _ ne(1,2) dir ne(4,3) assms(5) [folded fspath_def] nz refl]
    show ?thesis unfolding fspath_def [symmetric] append_assoc [symmetric] tmp_def [symmetric] sd_stat_def
    proof (cases f)
      case None
      then have "e = put_back wait fspath tmp (length fc) False d3" "res \<noteq> Inr ()" using L assms(3) True o' by auto
      with pb [OF a3, of False] f2 c3 show "(node_at e (key fspath) = Some (Reg fc t) \<or> node_at e (key tmp) = Some (Reg fc t) \<or>
          res = Inr () \<and> (\<exists>c u. node_at e (key fspath) = Some (Reg c u) \<and> length c = length fc)) \<and>
        (faults d = [] \<and> res \<noteq> Inr () \<longrightarrow> node_at e (key fspath) = Some (Reg fc t)) \<and>
        (\<forall>j. j \<noteq> key fspath \<and> j \<noteq> key tmp \<longrightarrow> node_at e j = node_at d j)" by (auto simp: card_kept_def)
    next
      case (Some s)
      obtain re c4 d4 where cv: "nro_converse s (drop (length kPrefix) p) (length fc) args c d3 = (re, c4, d4)" by (metis prod.exhaust)
      have c4: "card_kept d3 d4" by (rule converse_same [OF cv])
      have a4: "aside d (key fspath) (key tmp) (Reg fc t) (hbm (sent c4) d4)"
        using aside_env [OF assms(4) [folded fspath_def] ne(1) [symmetric] kept_aside [OF c4 a3]] .
      have f4: "faults (hbm (sent c4) d4) = []" if "faults d = []"
        using f2 [OF that] c3 c4 a3 assms(4) [folded fspath_def, of "sent c4"] by (auto simp: card_kept_def only_writes_def aside_def)
      have "e = put_back wait fspath tmp (length fc) (res = Inr ()) (hbm (sent c4) d4)" using L assms(3) True o' Some cv by auto
      with pb [OF a4, of "res = Inr ()"] f4 show "(node_at e (key fspath) = Some (Reg fc t) \<or> node_at e (key tmp) = Some (Reg fc t) \<or>
          res = Inr () \<and> (\<exists>c u. node_at e (key fspath) = Some (Reg c u) \<and> length c = length fc)) \<and>
        (faults d = [] \<and> res \<noteq> Inr () \<longrightarrow> node_at e (key fspath) = Some (Reg fc t)) \<and>
        (\<forall>j. j \<noteq> key fspath \<and> j \<noteq> key tmp \<longrightarrow> node_at e j = node_at d j)" by auto
    qed
  qed
qed

definition nro_card :: disk where
  "nro_card = \<lparr>nodes = [([''switch''], Dir), ([''switch'', ''a.nro''], Reg ''NRO'' 0)], faults = [], now_ms = 0, rename_over = False\<rparr>"

definition demo_menu :: conn where
  "demo_menu = \<lparr>rx = [RecvData [NUL, NUL, NUL, NUL], RecvIntr, RecvData [NUL, NUL, NUL, NUL]], tx = [], polls = [], sent = [], g_keep_alive = False\<rparr>"

lemma nro_card_tree: "tree_ok nro_card"
  by (simp add: tree_ok_def nro_card_def is_dir_def node_at_def)

theorem nro_sent_as_zlib_witness:
  "\<exists>ps. sent (fst (snd (nro_converse ''NRO'' ''a.nro'' 3 ''x'' demo_menu nro_card))) =
      le32c 5 @ ''a.nro'' @ le32c 3 @ concat (map chunk_frame ps) @ le32c 1 @ ''x'' \<and> read_zlib (concat ps) = Some ''NRO''"
proof -
  obtain r c' d' where e: "nro_converse ''NRO'' ''a.nro'' (length ''NRO'') ''x'' demo_menu nro_card = (r, c', d')" by (metis prod.exhaust)
  have "foldl adler_step (1, 0) ''NRO'' = (word_of_nat (adler_a ''NRO''), word_of_nat (adler_b ''NRO''))" by (rule adler_loop)
  then have "fst (nro_converse ''NRO'' ''a.nro'' (length ''NRO'') ''x'' demo_menu nro_card) = Inr ()"
    by (simp add: nro_converse_def send_i32_def recv_i32_def recv_all.simps http_write_all_healthy demo_menu_def rd_i32_def send_stream.simps
        BLOCK_DATA_def sd_read_def attempt_def nro_card_def del: foldl.simps)
  then have "nro_converse ''NRO'' ''a.nro'' (length ''NRO'') ''x'' demo_menu nro_card = (Inr (), c', d')" by (simp only: e fst_conv)
  from nro_sent_as_zlib [OF this] obtain ps where
    "sent c' = sent demo_menu @ le32c (word_of_nat (length ''a.nro'')) @ ''a.nro'' @ le32c (word_of_nat (length ''NRO'')) @
      concat (map chunk_frame ps) @ le32c (word_of_nat (length ''x'')) @ ''x''" "read_zlib (concat ps) = Some ''NRO''" by blast
  then show ?thesis using e by (intro exI [of _ ps]) (simp add: demo_menu_def numeral_3_eq_3)
qed

theorem nro_file_survives_witness:
  "sd_stat (snd (nro_launch (\<lambda>a. DialOk (demo_menu\<lparr>rx := [RecvErr]\<rparr>)) None (\<lambda>s d. d) (\<lambda>ms d. (True, d)) ''/switch/a.nro'' [] nro_card))
     (FILES_ROOT @ ''/switch/a.nro'') = Some (Reg ''NRO'' 0)"
proof -
  let ?l = "nro_launch (\<lambda>a. DialOk (demo_menu\<lparr>rx := [RecvErr]\<rparr>)) None (\<lambda>s d. d) (\<lambda>ms d. (True, d)) ''/switch/a.nro'' [] nro_card"
  have s: "sd_stat nro_card (FILES_ROOT @ ''/switch/a.nro'') = Some (Reg ''NRO'' 0)" by code_simp
  have m: "key ''sdmc:/switch/a.nro'' = [''switch'', ''a.nro'']" "key ''sdmc:/switch/a.nro.launch'' = [''switch'', ''a.nro.launch'']" by code_simp+
  have q: "files_resolve ''/switch/a.nro'' 768 = Inr ''sdmc:/switch/a.nro''" "strcaseeq ''.nro'' ''.nro''" "starts_with kPrefix ''/switch/a.nro''" by code_simp+
  have r: "fst ?l \<noteq> Inr ()"
    by (simp add: nro_launch_def q kPrefix_def [THEN arg_cong, of length] NRO_ARGS_MAX_def LAUNCH_SUFFIX_def fit_def m sd_stat_def node_at_def nro_card_def connect_netloader_def connect_to_def
        sd_remove_def attempt_def sd_rename_def is_dir_def rekey_def sd_open_def nro_converse_def send_i32_def recv_i32_def recv_all.simps
        http_write_all_healthy demo_menu_def Let_def)
  have f: "faults nro_card = []" by (simp add: nro_card_def)
  have w: "only_writes k (\<lambda>d. d)" "only_writes k (\<lambda>d. snd ((\<lambda>ms d. (True, d)) (100 :: int) d))" for k by (simp_all add: only_writes_def)
  obtain re e where l: "?l = (re, e)" by (cases ?l)
  from nro_file_survives [where hbm = "\<lambda>s d. d" and wait = "\<lambda>ms d. (True, d)", OF s nro_card_tree l w] f r l show ?thesis by simp
qed

end
