(* ===== verification/Crash.thy ===== *)
theory Crash
  imports Oauth_Tokens Files_Mcp "HOL-Library.Multiset"
begin

text \<open>
  \<open>source/features/crash/crash.c\<close>, \<open>crash_http.c\<close> and \<open>crash_mcp.c\<close>: the crash and fatal reports on the card, the newest
  first, with what their headers say. The calendar split of a time (\<open>gm\<close>) is an argument. The bodies are sized so that
  every entry fits.
\<close>

section \<open>Reports\<close>

definition CRASH_MAX_REPORTS :: int where "CRASH_MAX_REPORTS = 32"
definition CRASH_DEFAULT_LIMIT :: int where "CRASH_DEFAULT_LIMIT = 10"

record CrashReport =
  report_path :: string
  fatal :: bool
  timestamp :: nat
  report_program :: nat
  report_size :: nat
  report_result :: string
  report_process :: string
  has_screenshot :: bool

definition kDirs :: "(string \<times> bool) list" where
  "kDirs = [(''/atmosphere/crash_reports'', False), (''/atmosphere/fatal_reports'', True)]"

text \<open>\<open>strtoull(s, &end, 16)\<close>: the value and the rest of the string.\<close>

definition strtoull16 :: "string \<Rightarrow> nat \<times> string" where
  "strtoull16 s =
     (let t = dropWhile is_space s;
          neg = (t \<noteq> [] \<and> hd t = CHR ''-'');
          u = (if t \<noteq> [] \<and> (hd t = CHR ''-'' \<or> hd t = CHR ''+'') then tl t else t);
          v = (if (starts_with ''0x'' u \<or> starts_with ''0X'' u) \<and> length u > 2 \<and> is_xdigit (u ! 2) then drop 2 u else u);
          ds = takeWhile is_xdigit v; n = digits_val 16 ds
      in if ds = [] then (0, s)
         else (if n \<ge> 2 ^ 64 then 2 ^ 64 - 1 else if neg then (2 ^ 64 - n) mod 2 ^ 64 else n, dropWhile is_xdigit v))"

definition parse_name :: "string \<Rightarrow> (nat \<times> nat) option" where
  "parse_name name =
     (if length name \<noteq> 32 \<or> name ! 11 \<noteq> CHR ''_'' \<or> drop 28 name \<noteq> ''.log'' then None
      else if snd (strtol10 name) \<noteq> drop 11 name then None
      else let (pid, e) = strtoull16 (drop 12 name) in if e \<noteq> drop 28 name then None else Some (strtoull10 name, pid))"

definition header_value :: "string \<Rightarrow> string \<Rightarrow> nat \<Rightarrow> string \<Rightarrow> string" where
  "header_value head k outsz old =
     (case strstr k head of
        None \<Rightarrow> old
      | Some i \<Rightarrow>
          let p = dropWhile (\<lambda>c. c = CHR '' '' \<or> c = TAB) (drop (i + length k) head)
          in fit outsz (takeWhile (\<lambda>c. c \<noteq> CR \<and> c \<noteq> LF) p))"

definition read_header :: "CrashReport \<Rightarrow> 'a disk_scheme \<Rightarrow> CrashReport \<times> 'a disk_scheme" where
  "read_header r d =
     (let fspath = fit 128 (FILES_ROOT @ report_path r);
          r = (case sd_stat d fspath of Some (Reg c t) \<Rightarrow> r\<lparr>report_size := length c\<rparr> | _ \<Rightarrow> r)
      in case sd_open fspath d of
           (None, d) \<Rightarrow> (r, d)
         | (Some c, d) \<Rightarrow>
             let (got, d) = sd_read 1023 c d;
                 head = c_str (case got of Some s \<Rightarrow> s | None \<Rightarrow> []);
                 shot = take (length fspath - 4) fspath @ ''.jpg''
             in (r\<lparr>report_result := header_value head ''Result:'' 32 (report_result r),
                    report_process := header_value head ''Process Name:'' 20 (report_process r),
                    has_screenshot := (sd_stat d shot \<noteq> None)\<rparr>, d))"

definition new_report :: "string \<times> bool \<Rightarrow> string \<Rightarrow> nat \<times> nat \<Rightarrow> CrashReport" where
  "new_report kd name tp =
     \<lparr>report_path = fit 80 (fst kd @ ''/'' @ take 32 name), fatal = snd kd, timestamp = fst tp, report_program = snd tp,
      report_size = 0, report_result = [], report_process = [], has_screenshot = False\<rparr>"

text \<open>Keeping the newest \<open>m\<close>, newest first.\<close>

definition keep_newest :: "nat \<Rightarrow> CrashReport \<Rightarrow> CrashReport list \<Rightarrow> CrashReport list" where
  "keep_newest m r out =
     (let at = length out - length (takeWhile (\<lambda>x. timestamp x < timestamp r) (rev out)) in
      if at \<ge> m then out
      else let final = (if length out < m then length out else m - 1)
        in take at out @ r # take (final - at) (drop at out))"

fun names_loop :: "nat \<Rightarrow> string \<times> bool \<Rightarrow> string list \<Rightarrow> CrashReport list \<Rightarrow> CrashReport list" where
  "names_loop m kd [] out = out"
| "names_loop m kd (n # ns) out =
     names_loop m kd ns (case parse_name n of None \<Rightarrow> out | Some tp \<Rightarrow> keep_newest m (new_report kd n tp) out)"

fun dirs_loop :: "nat \<Rightarrow> (string \<times> bool) list \<Rightarrow> CrashReport list \<Rightarrow> 'a disk_scheme \<Rightarrow> CrashReport list \<times> 'a disk_scheme" where
  "dirs_loop m [] out d = (out, d)"
| "dirs_loop m (kd # kds) out d =
     (let fsdir = fit 96 (FILES_ROOT @ fst kd); (works, d) = attempt d in
      if \<not> works \<or> \<not> is_dir d (key fsdir) then dirs_loop m kds out d
      else dirs_loop m kds (names_loop m kd (readdir_names d (key fsdir)) out) d)"

fun headers_loop :: "CrashReport list \<Rightarrow> 'a disk_scheme \<Rightarrow> CrashReport list \<times> 'a disk_scheme" where
  "headers_loop [] d = ([], d)"
| "headers_loop (r # rs) d = (let (r, d) = read_header r d; (rs, d) = headers_loop rs d in (r # rs, d))"

definition crash_list :: "nat \<Rightarrow> 'a disk_scheme \<Rightarrow> CrashReport list \<times> 'a disk_scheme" where
  "crash_list m d = (let (out, d) = dirs_loop m kDirs [] d in headers_loop out d)"

definition crash_format_time :: "(int \<Rightarrow> tm) \<Rightarrow> nat \<Rightarrow> string" where
  "crash_format_time gm t =
     (if t < 1483228800 \<or> t > 4102444800 then ''tick '' @ dec t
      else let v = gm (int t) in
        pad0 4 (dec (tm_year v + 1900)) @ ''-'' @ pad0 2 (dec (tm_mon v + 1)) @ ''-'' @ pad0 2 (dec (tm_mday v)) @ '' '' @
        pad0 2 (dec (tm_hour v)) @ '':'' @ pad0 2 (dec (tm_min v)) @ '':'' @ pad0 2 (dec (tm_sec v)) @ '' UTC'')"

section \<open>REST and MCP\<close>

definition report_json :: "(int \<Rightarrow> tm) \<Rightarrow> CrashReport \<Rightarrow> HttpRequest \<Rightarrow> string \<times> HttpRequest" where
  "report_json gm x r =
     (let (pn, r) = request_json_escape (report_process x) r; (res, r) = request_json_escape (report_result x) r
      in (json_obj [member ''path'' (quoted (report_path x)), member ''kind'' (quoted (if fatal x then ''fatal'' else ''crash'')),
            member ''time'' (quoted (crash_format_time gm (timestamp x))), member ''timestamp'' (quoted (dec (timestamp x))),
            member ''titleId'' (quoted (pad0 16 (hex (report_program x)))), member ''processName'' (quoted pn),
            member ''result'' (quoted res), member ''size'' (dec (report_size x)), member ''screenshot'' (json_bool (has_screenshot x))], r))"

fun reports_loop :: "(int \<Rightarrow> tm) \<Rightarrow> CrashReport list \<Rightarrow> HttpRequest \<Rightarrow> string list \<times> HttpRequest" where
  "reports_loop gm [] r = ([], r)"
| "reports_loop gm (x # xs) r = (let (j, r) = report_json gm x r; (js, r) = reports_loop gm xs r in (j # js, r))"

definition sizeof_CrashReport :: nat where "sizeof_CrashReport = 168"
definition REPORTS_BODY_SIZE :: nat where "REPORTS_BODY_SIZE = 32 * 640 + 32"
definition REPORTS_TEXT_SIZE :: nat where "REPORTS_TEXT_SIZE = 32 * 256 + 128"

definition get_reports :: "(int \<Rightarrow> tm) \<Rightarrow> 'a disk_scheme handler" where
  "get_reports gm dr =
     (let (d, r) = dr;
          limit = (case http_query_get r ''limit'' 16 of Some v \<Rightarrow> atoi v | None \<Rightarrow> CRASH_DEFAULT_LIMIT)
      in if limit < 1 \<or> limit > CRASH_MAX_REPORTS then (d, reply_error 400 ''invalid 'limit' (1-32)'' r)
         else let (a, r) = request_alloc (sizeof_CrashReport * nat CRASH_MAX_REPORTS) r; (b, r) = request_alloc REPORTS_BODY_SIZE r in
           if a = None \<or> b = None then (d, reply_error 500 ''out of request memory'' r)
           else let (xs, d) = crash_list (nat limit) d; (js, r) = reports_loop gm xs r in
             (d, r\<lparr>fd := http_send_response 200 json_type (''{'' @ quoted ''reports'' @ '':['' @ json_members js @ '']}'') (fd r)\<rparr>))"

definition crash_http_register :: "(int \<Rightarrow> tm) \<Rightarrow> 'a disk_scheme Server \<Rightarrow> 'a disk_scheme Server" where
  "crash_http_register gm s = snd (http_server_register_route ''GET'' ''/crash-reports'' (get_reports gm) s)"

definition report_line :: "(int \<Rightarrow> tm) \<Rightarrow> CrashReport \<Rightarrow> string" where
  "report_line gm x =
     crash_format_time gm (timestamp x) @ ''  '' @ (if fatal x then ''fatal'' else ''crash'') @ ''  '' @ pad0 16 (hex (report_program x)) @
     (if report_process x \<noteq> [] then '' ('' @ report_process x @ '')'' else []) @ ''  '' @
     (if report_result x \<noteq> [] then report_result x else ''result unknown'') @ ''  '' @ report_path x @
     (if has_screenshot x then ''  [+ .jpg screenshot]'' else []) @ [LF]"

definition tool_list_crash_reports :: "(int \<Rightarrow> tm) \<Rightarrow> (nat \<Rightarrow> char) \<Rightarrow> 'a disk_scheme tool_handler" where
  "tool_list_crash_reports gm stale call wr =
     (let (d, r) = wr; limit = mcp_arg_int call ''limit'' CRASH_DEFAULT_LIMIT in
      if limit < 1 \<or> limit > CRASH_MAX_REPORTS then (d, mcp_reply_error stale call ''invalid 'limit' (1-32)'' r)
      else let (a, r) = request_alloc (sizeof_CrashReport * nat CRASH_MAX_REPORTS) r; (b, r) = request_alloc REPORTS_TEXT_SIZE r in
        if a = None \<or> b = None then (d, mcp_reply_rpc_error stale call (-32603) ''out of request memory'' r)
        else let (xs, d) = crash_list (nat limit) d in
          (d, if xs = [] then mcp_reply_text stale call ''no crash or fatal reports in /atmosphere'' r
              else mcp_reply_text stale call
                (fit REPORTS_TEXT_SIZE (concat (map (report_line gm) xs) @
                   ''Newest first. read_file a report for the registers and stack trace.'')) r))"

definition crash_mcp_register ::
    "(string \<Rightarrow> string list) \<Rightarrow> (int \<Rightarrow> tm) \<Rightarrow> (nat \<Rightarrow> char) \<Rightarrow> 'a disk_scheme Tool list \<Rightarrow> 'a disk_scheme Tool list" where
  "crash_mcp_register defs gm stale tools = mcp_server_register_tool (defs ''kToolListCrashReports'') (tool_list_crash_reports gm stale) tools"

section \<open>The newest reports, newest first\<close>

text \<open>Keeping in order is a stable sort, cut to length.\<close>

definition age :: "CrashReport \<Rightarrow> int" where
  "age r = - int (timestamp r)"

lemma sorted_split:
  assumes "sorted (map f xs)"
  shows "\<forall>x \<in> set (dropWhile (\<lambda>x. f x \<le> k) xs). k < f x"
  using assms
proof (induction xs)
  case (Cons x xs)
  then show ?case by (auto dest: order.strict_trans2)
qed simp

lemma from_the_end:
  assumes "sorted (map f xs)"
  shows "takeWhile (\<lambda>x. k < f x) (rev xs) = rev (dropWhile (\<lambda>x. f x \<le> k) xs)"
proof -
  have s: "rev xs = rev (dropWhile (\<lambda>x. f x \<le> k) xs) @ rev (takeWhile (\<lambda>x. f x \<le> k) xs)" by (metis rev_append takeWhile_dropWhile_id)
  have "takeWhile (\<lambda>x. k < f x) (rev (takeWhile (\<lambda>x. f x \<le> k) xs)) = []"
  proof (cases "takeWhile (\<lambda>x. f x \<le> k) xs = []")
    case False
    then have "last (takeWhile (\<lambda>x. f x \<le> k) xs) \<in> set (takeWhile (\<lambda>x. f x \<le> k) xs)" by simp
    then have "f (last (takeWhile (\<lambda>x. f x \<le> k) xs)) \<le> k" by (blast dest: set_takeWhileD)
    then show ?thesis using False by (simp add: takeWhile_eq_Nil_iff hd_rev)
  qed simp
  then show ?thesis using sorted_split [OF assms, of k] unfolding s by (subst takeWhile_append2) simp_all
qed

lemma sort_between:
  assumes "a @ b = sort_key f xs" and sa: "\<forall>x \<in> set a. f x \<le> f r" and sb: "\<forall>x \<in> set b. f r < f x"
  shows "sort_key f (xs @ [r]) = a @ r # b"
proof (rule properties_for_sort_key)
  have "mset a + mset b = mset xs" using assms(1) by (metis mset_append mset_sort)
  then show "mset (a @ r # b) = mset (xs @ [r])" by simp
  have "sorted (map f (a @ b))" using assms(1) by simp
  then have "sorted (map f a)" "sorted (map f b)" by (simp_all add: sorted_append)
  moreover have "f x \<le> f y" if "x \<in> set a" "y \<in> set b" for x y using that sa sb by (meson less_imp_le order.trans)
  ultimately show "sorted (map f (a @ r # b))" using sa sb by (simp add: sorted_append less_imp_le)
  fix k assume "k \<in> set (a @ r # b)"
  have ab: "filter (\<lambda>x. f k = f x) a @ filter (\<lambda>x. f k = f x) b = filter (\<lambda>x. f k = f x) xs"
    unfolding filter_append [symmetric] assms(1) using sort_key_stable [of f "f k" xs] by (simp add: eq_commute)
  show "filter (\<lambda>x. f k = f x) (a @ r # b) = filter (\<lambda>x. f k = f x) (xs @ [r])"
  proof (cases "f k = f r")
    case True
    then have "filter (\<lambda>x. f k = f x) b = []" using sb by (auto simp: filter_empty_conv)
    with ab True show ?thesis by simp
  next
    case False
    with ab show ?thesis by simp
  qed
qed

lemma sort_snoc:
  "sort_key f (xs @ [r]) = takeWhile (\<lambda>x. f x \<le> f r) (sort_key f xs) @ r # dropWhile (\<lambda>x. f x \<le> f r) (sort_key f xs)"
proof (rule sort_between [OF takeWhile_dropWhile_id])
  show "\<forall>x \<in> set (takeWhile (\<lambda>x. f x \<le> f r) (sort_key f xs)). f x \<le> f r" by (auto dest: set_takeWhileD)
  show "\<forall>x \<in> set (dropWhile (\<lambda>x. f x \<le> f r) (sort_key f xs)). f r < f x" by (rule sorted_split) simp
qed

lemma keep_newest_sorted:
  assumes "0 < m"
  shows "keep_newest m r (take m (sort_key age rs)) = take m (sort_key age (rs @ [r]))"
proof -
  let ?g = "sort_key age rs" and ?P = "\<lambda>x. age x \<le> age r"
  have d: "timestamp x < timestamp r \<longleftrightarrow> age r < age x" for x by (simp add: age_def)
  have "sorted (map age (take m ?g))" using sorted_wrt_take [of "(\<le>)" "map age ?g" m] by (simp add: take_map)
  from from_the_end [OF this, of "age r"] have "length (takeWhile (\<lambda>x. timestamp x < timestamp r) (rev (take m ?g))) = length (dropWhile ?P (take m ?g))"
    by (simp add: d)
  moreover have "length (takeWhile ?P (take m ?g)) + length (dropWhile ?P (take m ?g)) = length (take m ?g)"
    by (metis length_append takeWhile_dropWhile_id)
  ultimately have at: "length (take m ?g) - length (takeWhile (\<lambda>x. timestamp x < timestamp r) (rev (take m ?g))) = length (takeWhile ?P (take m ?g))"
    by simp
  define j where "j = length (takeWhile ?P ?g)"
  have tj: "takeWhile ?P ?g = take j ?g" "dropWhile ?P ?g = drop j ?g" by (simp_all add: j_def takeWhile_eq_take [symmetric] dropWhile_eq_drop [symmetric])
  have lt: "length (takeWhile ?P (take m ?g)) = min m j"
  proof -
    have "takeWhile P (take m g) = take m (takeWhile P g)" for P and g :: "CrashReport list"
      by (induction g arbitrary: m) (auto simp: take_Cons')
    then show ?thesis by (simp add: j_def)
  qed
  have jl: "j \<le> length ?g" unfolding j_def by (rule length_takeWhile_le)
  show ?thesis
  proof (cases "m \<le> j")
    case True
    then show ?thesis using jl unfolding keep_newest_def at lt sort_snoc tj Let_def by simp
  next
    case False
    then show ?thesis
      unfolding keep_newest_def at lt sort_snoc tj Let_def
      using jl assms by (cases "length ?g < m") (simp_all add: min_def take_Cons' drop_take)
  qed
qed

text \<open>All reports a working card holds, in directory order.\<close>

definition named_reports :: "string \<times> bool \<Rightarrow> string list \<Rightarrow> CrashReport list" where
  "named_reports kd ns = concat (map (\<lambda>n. case parse_name n of None \<Rightarrow> [] | Some tp \<Rightarrow> [new_report kd n tp]) ns)"

definition all_reports :: "'a disk_scheme \<Rightarrow> CrashReport list" where
  "all_reports d = concat (map (\<lambda>kd. let k = key (FILES_ROOT @ fst kd) in if is_dir d k then named_reports kd (readdir_names d k) else []) kDirs)"

lemma names_loop_sorted:
  "0 < m \<Longrightarrow> names_loop m kd ns (take m (sort_key age rs)) = take m (sort_key age (rs @ named_reports kd ns))"
proof (induction ns arbitrary: rs)
  case (Cons n ns)
  then show ?case
    using Cons.IH [of rs] Cons.IH [where rs = "rs @ [r]" for r]
    by (cases "parse_name n") (simp_all add: named_reports_def keep_newest_sorted)
qed (simp add: named_reports_def)

lemma headers_keep:
  "map (\<lambda>r. (report_path r, fatal r, timestamp r, report_program r)) (fst (headers_loop rs d)) =
     map (\<lambda>r. (report_path r, fatal r, timestamp r, report_program r)) rs"
proof (induction rs arbitrary: d)
  case (Cons r rs)
  have "(\<lambda>r. (report_path r, fatal r, timestamp r, report_program r)) (fst (read_header r d)) = (report_path r, fatal r, timestamp r, report_program r)"
    by (simp add: read_header_def Let_def split: option.split node.split prod.split)
  then show ?case using Cons by (simp add: case_prod_beta)
qed simp

text \<open>
  C39: of all the crash and fatal reports on a working card the listing has the newest, newest first, those of one time
  in directory order, as many as asked for.
\<close>

theorem newest_reports_first:
  assumes "faults d = []" and "0 < m"
  shows "map (\<lambda>r. (report_path r, fatal r, timestamp r, report_program r)) (fst (crash_list m d)) =
    map (\<lambda>r. (report_path r, fatal r, timestamp r, report_program r)) (take m (sort_key (\<lambda>r. - int (timestamp r)) (all_reports d)))"
proof -
  have at: "attempt d = (True, d)" using assms(1) by (rule no_faults)
  have f: "fit 96 (FILES_ROOT @ fst kd) = FILES_ROOT @ fst kd" if "kd \<in> set kDirs" for kd
    using that by (intro fit_id) (auto simp: kDirs_def FILES_ROOT_def)
  have l: "fst (dirs_loop m kds (take m (sort_key age rs)) d) = take m (sort_key age (rs @ concat (map (\<lambda>kd. let k = key (FILES_ROOT @ fst kd) in
      if is_dir d k then named_reports kd (readdir_names d k) else []) kds)))" if "set kds \<subseteq> set kDirs" for kds rs
    using that
  proof (induction kds arbitrary: rs)
    case (Cons kd kds)
    show ?case
      using Cons.IH [of rs] Cons.IH [of "rs @ named_reports kd (readdir_names d (key (FILES_ROOT @ fst kd)))"] Cons.prems f [of kd]
      by (simp add: at names_loop_sorted [OF assms(2)] Let_def)
  qed simp
  have "fst (dirs_loop m kDirs [] d) = take m (sort_key age (all_reports d))"
    using l [of kDirs "[]"] by (simp add: all_reports_def)
  then show ?thesis unfolding age_def [abs_def] crash_list_def by (simp add: case_prod_beta headers_keep)
qed

definition crash_card :: disk where
  "crash_card = \<lparr>nodes = [([''atmosphere''], Dir), ([''atmosphere'', ''crash_reports''], Dir),
     ([''atmosphere'', ''crash_reports'', ''01700000000_0100000000000001.log''], Reg ''Result: 0x2A8'' 0),
     ([''atmosphere'', ''crash_reports'', ''01700000009_0100000000000002.log''], Reg ''Result: 0x1'' 0)],
     faults = [], now_ms = 0, rename_over = False\<rparr>"

theorem newest_reports_first_witness:
  "map report_program (fst (crash_list 1 crash_card)) = [0x0100000000000002]"
proof -
  let ?f = "\<lambda>r. (report_path r, fatal r, timestamp r, report_program r)"
  have "map ?f (fst (crash_list 1 crash_card)) = map ?f (take 1 (sort_key (\<lambda>r. - int (timestamp r)) (all_reports crash_card)))"
    by (rule newest_reports_first) (simp_all add: crash_card_def)
  then have "map (\<lambda>(p, f, t, g). g) (map ?f (fst (crash_list 1 crash_card))) =
      map (\<lambda>(p, f, t, g). g) (map ?f (take 1 (sort_key (\<lambda>r. - int (timestamp r)) (all_reports crash_card))))" by (rule arg_cong)
  then have "map report_program (fst (crash_list 1 crash_card)) = map report_program (take 1 (sort_key (\<lambda>r. - int (timestamp r)) (all_reports crash_card)))"
    by (simp add: comp_def)
  moreover have k: "key (FILES_ROOT @ ''/atmosphere/crash_reports'') = [''atmosphere'', ''crash_reports'']"
    "key (FILES_ROOT @ ''/atmosphere/fatal_reports'') = [''atmosphere'', ''fatal_reports'']" by code_simp+
  have p: "parse_name ''01700000000_0100000000000001.log'' = Some (1700000000, 0x0100000000000001)"
    "parse_name ''01700000009_0100000000000002.log'' = Some (1700000009, 0x0100000000000002)"
    by (simp_all add: parse_name_def strtol10_def strtoull10_def strtoull16_def is_space_def is_digit_def is_xdigit_def between_def
        starts_with_def digits_val_def xdigit_val_def Let_def)
  have "map report_program (take 1 (sort_key (\<lambda>r. - int (timestamp r)) (all_reports crash_card))) = [0x0100000000000002]"
    by (simp add: all_reports_def kDirs_def k named_reports_def p readdir_names_def is_dir_def node_at_def crash_card_def new_report_def)
  ultimately show ?thesis by simp
qed

end
