(* ===== verification/Network.thy ===== *)
theory Network
  imports Mcp_Server Json_Buffer Mdns
begin

text \<open>
  \<open>source/features/network/network.c\<close>, \<open>network_http.c\<close> and \<open>network_mcp.c\<close>: the DNS servers of the active connection. The
  network service is a record: the saved profile, what its servers amount to (\<open>effective\<close>) and the results of its calls in
  order. The host build's stubs and the log line are left out.
\<close>

type_synonym ip4 = "u8 \<times> u8 \<times> u8 \<times> u8"

section \<open>Addresses\<close>

fun octet :: "string \<Rightarrow> nat \<Rightarrow> nat \<Rightarrow> (nat \<times> string) option" where
  "octet [] v digits = Some (v, [])"
| "octet (c # cs) v digits =
     (if \<not> is_digit c then Some (v, c # cs)
      else let v = v * 10 + (ord c - ord CHR ''0'') in
        if digits + 1 > 3 \<or> v > 255 then None else octet cs v (digits + 1))"

text \<open>The loop with so many numbers left.\<close>

fun octets :: "nat \<Rightarrow> string \<Rightarrow> nat list \<Rightarrow> nat list option" where
  "octets 0 p vals = (if p \<noteq> [] then None else Some vals)"
| "octets (Suc k) p vals =
     (if p = [] \<or> \<not> is_digit (hd p) then None
      else case octet p 0 0 of
        None \<Rightarrow> None
      | Some (v, p) \<Rightarrow>
          if k > 0 then (if p = [] \<or> hd p \<noteq> CHR ''.'' then None else octets k (tl p) (vals @ [v])) else octets k p (vals @ [v]))"

definition str_to_ip :: "string \<Rightarrow> ip4 option" where
  "str_to_ip s =
     (if s = [] then None
      else case octets 4 s [] of
        Some [a, b, c, d] \<Rightarrow> Some (word_of_nat a, word_of_nat b, word_of_nat c, word_of_nat d)
      | _ \<Rightarrow> None)"

definition ip_text :: "ip4 \<Rightarrow> string" where
  "ip_text ip = (let (a, b, c, d) = ip in dec (unat a) @ ''.'' @ dec (unat b) @ ''.'' @ dec (unat c) @ ''.'' @ dec (unat d))"

section \<open>The network service\<close>

datatype NetworkResult = NETWORK_OK | NETWORK_INVALID | NETWORK_UNAVAILABLE | NETWORK_FAILED

record DnsSetting =
  is_automatic :: bool
  primary_dns_server :: ip4
  secondary_dns_server :: ip4

record DnsConfig =
  dns_automatic :: bool
  dns_primary :: string
  dns_secondary :: string

record net_world =
  profile :: DnsSetting
  effective :: "DnsSetting \<Rightarrow> ip4 \<times> ip4"
  nifm_rcs :: "u32 list"

definition nifm_do :: "'a net_world_scheme \<Rightarrow> u32 \<times> 'a net_world_scheme" where
  "nifm_do w = (case nifm_rcs w of [] \<Rightarrow> (0, w) | rc # rcs \<Rightarrow> (rc, w\<lparr>nifm_rcs := rcs\<rparr>))"

definition reconnecting :: "u32 \<Rightarrow> NetworkResult \<times> string" where
  "reconnecting rc = (NETWORK_UNAVAILABLE, fit 160 (''no active network connection (0x'' @ hex (unat rc) @
     ''); after a DNS change the console reconnects for a few seconds, retry then''))"

definition network_get_dns :: "'a net_world_scheme \<Rightarrow> ((NetworkResult \<times> string) + DnsConfig) \<times> 'a net_world_scheme" where
  "network_get_dns w =
     (let (rc, w) = nifm_do w in
      if rc \<noteq> 0 then (Inl (reconnecting rc), w)
      else let (d1, d2) = effective w (profile w); (rc, w) = nifm_do w in
        if rc \<noteq> 0 then (Inl (reconnecting rc), w)
        else (Inr \<lparr>dns_automatic = is_automatic (profile w), dns_primary = ip_text d1, dns_secondary = ip_text d2\<rparr>, w))"

definition apply_dns :: "bool \<Rightarrow> ip4 \<Rightarrow> ip4 \<Rightarrow> 'a net_world_scheme \<Rightarrow> (NetworkResult \<times> string) \<times> 'a net_world_scheme" where
  "apply_dns automatic p s w =
     (let (rc, w) = nifm_do w in
      if rc \<noteq> 0 then (reconnecting rc, w)
      else let prof = (profile w)\<lparr>is_automatic := automatic\<rparr>;
               prof = (if \<not> automatic then prof\<lparr>primary_dns_server := p, secondary_dns_server := s\<rparr> else prof);
               (rc, w) = nifm_do w
        in if rc \<noteq> 0 then ((NETWORK_FAILED, fit 160 (''set profile failed (0x'' @ hex (unat rc) @ '')'')), w)
           else ((NETWORK_OK, []), w\<lparr>profile := prof\<rparr>))"

definition network_set_dns :: "bool \<Rightarrow> string \<Rightarrow> string \<Rightarrow> 'a net_world_scheme \<Rightarrow> (NetworkResult \<times> string) \<times> 'a net_world_scheme" where
  "network_set_dns automatic primary secondary w =
     (if automatic then apply_dns True (0, 0, 0, 0) (0, 0, 0, 0) w
      else case str_to_ip primary of
        None \<Rightarrow> ((NETWORK_INVALID, ''invalid primary DNS (expected a dotted IPv4 address)''), w)
      | Some p \<Rightarrow>
          if secondary = [] then apply_dns False p (0, 0, 0, 0) w
          else case str_to_ip secondary of
            None \<Rightarrow> ((NETWORK_INVALID, ''invalid secondary DNS (expected a dotted IPv4 address)''), w)
          | Some s \<Rightarrow> apply_dns False p s w)"

definition NETWORK_DNS_ARG_SIZE :: nat where "NETWORK_DNS_ARG_SIZE = 64"

definition network_dns_from_json :: "JsonDoc \<Rightarrow> int \<Rightarrow> string + bool \<times> string \<times> string" where
  "network_dns_from_json doc obj =
     (let t = json_obj_get doc obj ''automatic'';
          automatic = (if t \<ge> 0 then (case json_get_bool doc t of Some b \<Rightarrow> b | None \<Rightarrow> False) else False);
          t = json_obj_get doc obj ''primary'';
          primary = (if t \<ge> 0 then json_string_into doc t NETWORK_DNS_ARG_SIZE [] else []);
          t = json_obj_get doc obj ''secondary'';
          secondary = (if t \<ge> 0 then json_string_into doc t NETWORK_DNS_ARG_SIZE [] else [])
      in if \<not> automatic \<and> primary = [] then Inl (''provide 'primary' (IPv4) or set 'automatic':true'')
         else Inr (automatic, primary, secondary))"

definition network_http_status :: "NetworkResult \<Rightarrow> nat" where
  "network_http_status r = (case r of NETWORK_OK \<Rightarrow> 200 | NETWORK_INVALID \<Rightarrow> 400 | NETWORK_UNAVAILABLE \<Rightarrow> 503 | NETWORK_FAILED \<Rightarrow> 500)"

section \<open>REST and MCP\<close>

definition get_dns :: "'a net_world_scheme handler" where
  "get_dns wr =
     (let (w, r) = wr in
      case network_get_dns w of
        (Inl (res, e), w) \<Rightarrow> (w, reply_error (network_http_status res) e r)
      | (Inr c, w) \<Rightarrow> (w, reply_json 200 (json_obj [member ''automatic'' (json_bool (dns_automatic c)),
          member ''primary'' (quoted (dns_primary c)), member ''secondary'' (quoted (dns_secondary c))]) r))"

definition post_dns :: "'a net_world_scheme handler" where
  "post_dns wr =
     (let (w, r) = wr in
      case request_read_json r of
        (None, r) \<Rightarrow> (w, r)
      | (Some doc, r) \<Rightarrow>
          (case network_dns_from_json doc 0 of
             Inl e \<Rightarrow> (w, reply_error 400 e r)
           | Inr (automatic, primary, secondary) \<Rightarrow>
               let ((res, e), w) = network_set_dns automatic primary secondary w in
               (w, if res \<noteq> NETWORK_OK then reply_error (network_http_status res) e r
                   else if automatic then reply_json 200 (json_obj [member ''ok'' ''true'', member ''automatic'' ''true'', member ''reconnecting'' ''true'']) r
                   else reply_json 200 (json_obj [member ''ok'' ''true'', member ''automatic'' ''false'', member ''primary'' (quoted primary),
                          member ''secondary'' (quoted secondary), member ''reconnecting'' ''true'']) r)))"

definition network_http_register :: "'a net_world_scheme Server \<Rightarrow> 'a net_world_scheme Server" where
  "network_http_register s =
     fold (\<lambda>(m, p, h) s. snd (http_server_register_route m p h s)) [(''GET'', ''/network/dns'', get_dns), (''POST'', ''/network/dns'', post_dns)] s"

definition tool_get_dns :: "(nat \<Rightarrow> char) \<Rightarrow> 'a net_world_scheme tool_handler" where
  "tool_get_dns stale call wr =
     (let (w, r) = wr in
      case network_get_dns w of
        (Inl (res, e), w) \<Rightarrow> (w, mcp_reply_error stale call e r)
      | (Inr c, w) \<Rightarrow> (w, mcp_reply_text stale call (fit 128
          (if dns_automatic c then ''automatic (DHCP): primary='' @ dns_primary c @ '' secondary='' @ dns_secondary c
           else ''manual: primary='' @ dns_primary c @ '' secondary='' @ (if dns_secondary c \<noteq> [] then dns_secondary c else ''(none)''))) r))"

definition tool_set_dns :: "(nat \<Rightarrow> char) \<Rightarrow> 'a net_world_scheme tool_handler" where
  "tool_set_dns stale call wr =
     (let (w, r) = wr in
      case network_dns_from_json (call_doc call) (call_args call) of
        Inl e \<Rightarrow> (w, mcp_reply_error stale call e r)
      | Inr (automatic, primary, secondary) \<Rightarrow>
          let ((res, e), w) = network_set_dns automatic primary secondary w in
          (w, if res \<noteq> NETWORK_OK then mcp_reply_error stale call e r
              else mcp_reply_text stale call (fit 256
                ((if automatic then ''DNS set to automatic (DHCP)''
                  else ''DNS set to manual: '' @ primary @ (if secondary \<noteq> [] then '', '' else []) @ secondary) @
                 ''. The console reconnects to apply it: wait a few seconds before the next call.'')) r))"

definition network_mcp_register ::
    "(string \<Rightarrow> string list) \<Rightarrow> (nat \<Rightarrow> char) \<Rightarrow> 'a net_world_scheme Tool list \<Rightarrow> 'a net_world_scheme Tool list" where
  "network_mcp_register defs stale tools =
     fold (\<lambda>(def, h). mcp_server_register_tool (defs def) h) [(''kToolGetDns'', tool_get_dns stale), (''kToolSetDns'', tool_set_dns stale)] tools"

section \<open>Dotted quads\<close>

text \<open>A dotted quad, said by its parts: four, each of one to three digits that are at most 255.\<close>

definition part_ok :: "string \<Rightarrow> bool" where
  "part_ok p \<longleftrightarrow> p \<noteq> [] \<and> length p \<le> 3 \<and> list_all is_digit p \<and> digits_val 10 p \<le> 255"

definition dotted_quad :: "string \<Rightarrow> nat list option" where
  "dotted_quad s = (let ps = split_on (CHR ''.'') s in if length ps = 4 \<and> list_all part_ok ps then Some (map (digits_val 10) ps) else None)"

lemma octet_spec:
  "octet s v k = (let ds = takeWhile is_digit s; u = foldl (\<lambda>v c. v * 10 + xdigit_val c) v ds
     in if ds \<noteq> [] \<and> (k + length ds > 3 \<or> u > 255) then None else Some (u, dropWhile is_digit s))"
proof (induction s arbitrary: v k)
  case (Cons c cs)
  have mono: "w \<le> foldl (\<lambda>v c. v * 10 + xdigit_val c) w ds" for w ds
  proof (induction ds arbitrary: w)
    case (Cons d ds)
    have "w \<le> w * 10 + xdigit_val d" by simp
    also note Cons
    finally show ?case by simp
  qed simp
  show ?case
  proof (cases "is_digit c")
    case True
    then have "ord c - ord CHR ''0'' = xdigit_val c" by (simp add: xdigit_val_def)
    with True Cons.IH [of "v * 10 + xdigit_val c" "k + 1"] mono [of "v * 10 + xdigit_val c" "takeWhile is_digit cs"]
    show ?thesis by (auto simp: Let_def)
  next
    case False
    then show ?thesis by simp
  qed
qed simp

lemma octets_spec:
  assumes "0 < k"
  shows "octets k s vals = (let ps = split_on (CHR ''.'') s in
    if length ps = k \<and> list_all part_ok ps then Some (vals @ map (digits_val 10) ps) else None)"
  using assms
proof (induction k arbitrary: s vals)
  case (Suc k)
  define ds r where "ds = takeWhile is_digit s" and "r = dropWhile is_digit s"
  have s: "s = ds @ r" by (simp add: ds_def r_def)
  have dd: "list_all is_digit ds" by (auto simp: ds_def list_all_iff dest: set_takeWhileD)
  have "\<not> is_digit (CHR ''.'')" by code_simp
  then have nd: "CHR ''.'' \<notin> set ds" using dd by (auto simp: list_all_iff)
  have dig: "s = [] \<or> \<not> is_digit (hd s) \<longleftrightarrow> ds = []" by (cases s) (auto simp: ds_def)
  have o: "octet s 0 0 = (if ds \<noteq> [] \<and> (length ds > 3 \<or> digits_val 10 ds > 255) then None else Some (digits_val 10 ds, r))"
    by (simp add: octet_spec ds_def r_def digits_val_def Let_def)
  have ok: "part_ok ds \<longleftrightarrow> ds \<noteq> [] \<and> length ds \<le> 3 \<and> digits_val 10 ds \<le> 255" using dd by (auto simp: part_ok_def)
  consider (e) "r = []" | (dot) t where "r = CHR ''.'' # t" | (other) c t where "r = c # t" "c \<noteq> CHR ''.''" by (cases r) auto
  then show ?case
  proof cases
    case e
    then have p: "split_on (CHR ''.'') s = [ds]" using split_on_nodot [OF nd] s by simp
    show ?thesis using dig o ok e by (cases k) (auto simp: p)
  next
    case dot
    then have p: "split_on (CHR ''.'') s = ds # split_on (CHR ''.'') t" using split_on_app [OF nd] s by simp
    show ?thesis
    proof (cases k)
      case 0
      then show ?thesis using dig o ok dot split_on_nonempty [of "CHR ''.''" t] by (auto simp: p)
    next
      case (Suc j)
      then show ?thesis using Suc.IH [of t] Suc.prems dig o ok dot by (auto simp: p Let_def)
    qed
  next
    case other
    have "\<not> is_digit c" using other(1) unfolding r_def by (metis dropWhile_eq_Cons_conv)
    obtain q qs where q: "split_on (CHR ''.'') s = q # qs" "c \<in> set q"
    proof -
      obtain q qs where t: "split_on (CHR ''.'') t = q # qs" using split_on_nonempty by (metis list.exhaust)
      have "split_on (CHR ''.'') (u @ c # t) = (u @ c # q) # qs" if "CHR ''.'' \<notin> set u" for u
        using that other(2) t by (induction u) auto
      from this [OF nd] that show ?thesis using s other(1) by auto
    qed
    then have "\<not> part_ok q" using \<open>\<not> is_digit c\<close> by (auto simp: part_ok_def list_all_iff)
    then show ?thesis using dig o other by (auto simp: q(1))
  qed
qed simp

text \<open>
  C40: the saved DNS servers change only by a successful request, and then to what was asked: automatic, or the dotted
  quads given, the secondary one zero when it is not given. Anything but four numbers of at most three digits, each at
  most 255, is refused before the network service is asked.
\<close>

theorem dns_set_as_asked:
  assumes "network_set_dns automatic p s w = ((res, e), v)"
  shows "(res \<noteq> NETWORK_OK \<longrightarrow> profile v = profile w) \<and>
    (res = NETWORK_OK \<longrightarrow> is_automatic (profile v) = automatic \<and>
      (\<not> automatic \<longrightarrow> (\<exists>a b c d. dotted_quad p = Some [a, b, c, d] \<and>
         primary_dns_server (profile v) = (word_of_nat a, word_of_nat b, word_of_nat c, word_of_nat d)) \<and>
       (if s = [] then secondary_dns_server (profile v) = (0, 0, 0, 0)
        else \<exists>a b c d. dotted_quad s = Some [a, b, c, d] \<and>
         secondary_dns_server (profile v) = (word_of_nat a, word_of_nat b, word_of_nat c, word_of_nat d)))) \<and>
    (\<not> automatic \<and> (dotted_quad p = None \<or> s \<noteq> [] \<and> dotted_quad s = None) \<longrightarrow> res = NETWORK_INVALID \<and> v = w)"
proof -
  have q: "str_to_ip u = (case dotted_quad u of Some [a, b, c, d] \<Rightarrow> Some (word_of_nat a, word_of_nat b, word_of_nat c, word_of_nat d) | _ \<Rightarrow> None)" for u
    using octets_spec [of 4 u "[]"] by (cases "u = []") (auto simp: str_to_ip_def dotted_quad_def Let_def)
  have four: "dotted_quad u = Some xs \<Longrightarrow> \<exists>a b c d. xs = [a, b, c, d]" for u xs
    by (auto simp: dotted_quad_def Let_def length_Suc_conv numeral_eq_Suc split: if_splits)
  have ap: "apply_dns au x y w = ((r', e'), v') \<Longrightarrow> r' \<noteq> NETWORK_INVALID \<and> (r' \<noteq> NETWORK_OK \<longrightarrow> profile v' = profile w) \<and>
      (r' = NETWORK_OK \<longrightarrow> is_automatic (profile v') = au \<and> (\<not> au \<longrightarrow> primary_dns_server (profile v') = x \<and> secondary_dns_server (profile v') = y))"
    for au x y r' e' v'
    by (auto simp: apply_dns_def nifm_do_def reconnecting_def Let_def split: list.splits if_splits)
  show ?thesis
  proof (cases automatic)
    case True
    then show ?thesis using assms ap [of True "(0, 0, 0, 0)" "(0, 0, 0, 0)" res e v] by (auto simp: network_set_dns_def)
  next
    case False
    show ?thesis
    proof (cases "str_to_ip p")
      case None
      then show ?thesis using assms False by (auto simp: network_set_dns_def)
    next
      case (Some pa)
      then obtain a b c d where p: "dotted_quad p = Some [a, b, c, d]"
        "pa = (word_of_nat a, word_of_nat b, word_of_nat c, word_of_nat d)"
        unfolding q using four [of p] by (auto split: option.splits)
      show ?thesis
      proof (cases "s = []")
        case True
        then show ?thesis using assms False Some p ap [of False pa "(0, 0, 0, 0)" res e v] by (auto simp: network_set_dns_def)
      next
        case s: False
        show ?thesis
        proof (cases "str_to_ip s")
          case None
          then show ?thesis using assms False Some s p by (auto simp: network_set_dns_def)
        next
          case (Some sa)
          then obtain a' b' c' d' where s': "dotted_quad s = Some [a', b', c', d']"
            "sa = (word_of_nat a', word_of_nat b', word_of_nat c', word_of_nat d')"
            unfolding q using four [of s] by (auto split: option.splits)
          show ?thesis using assms False \<open>str_to_ip p = Some pa\<close> Some s p s' ap [of False pa sa res e v]
            by (auto simp: network_set_dns_def)
        qed
      qed
    qed
  qed
qed

definition w_net :: net_world where
  "w_net = \<lparr>profile = \<lparr>is_automatic = True, primary_dns_server = (0, 0, 0, 0), secondary_dns_server = (0, 0, 0, 0)\<rparr>,
     effective = (\<lambda>p. (primary_dns_server p, secondary_dns_server p)), nifm_rcs = []\<rparr>"

lemma dns_set_as_asked_witness:
  "primary_dns_server (profile (snd (network_set_dns False ''9.8.25.1'' [] w_net))) = (9, 8, 25, 1) \<and>
   secondary_dns_server (profile (snd (network_set_dns False ''9.8.25.1'' [] w_net))) = (0, 0, 0, 0)"
proof -
  have p: "dotted_quad ''9.8.25.1'' = Some [9, 8, 25, 1]" by code_simp
  have r: "fst (fst (network_set_dns False ''9.8.25.1'' [] w_net)) = NETWORK_OK"
    by (simp add: network_set_dns_def apply_dns_def nifm_do_def w_net_def str_to_ip_def is_digit_def between_def numeral_eq_Suc)
  obtain res e v where w: "network_set_dns False ''9.8.25.1'' [] w_net = ((res, e), v)" by (metis surj_pair)
  show ?thesis using dns_set_as_asked [OF w] r w p by auto
qed

end
