(* ===== verification/Spec2Isabelle.thy ===== *)
theory Spec2Isabelle
  imports Base64 Sha256 Json Http Server_Loop Mdns Oauth Install_Spec Process_Api Nro Crash Network
begin

text \<open>
  A verification development for sys-autopilot (the C sources under src/source), a background program of a game console
  that serves a REST interface and an MCP endpoint on the local network: file transfer, title installation, virtual input,
  process control, launching of homebrew, crash reports, settings of the network, and OAuth tokens to protect it all.

  \<^bold>\<open>How the program is put together.\<close> One thread runs the loop of \<open>core/http_server.c\<close>: it waits for a client, a discovery
  datagram or a power transition, reads a request (\<open>core/http.c\<close>), lets the router (\<open>core/http_router.c\<close>) authenticate and
  dispatch it to a handler of a feature, drains what is left of the body and keeps or closes the connection. Handlers take
  their buffers from the request's memory (\<open>core/request.c\<close>), parse JSON with \<open>util/json.c\<close> over the vendored tokenizer, and
  reply through \<open>core/http.c\<close>. The MCP endpoint (\<open>features/mcp\<close>) is one such handler with a table of tools of its own; while
  the body of a call arrives, its scanner diverts an uploaded content to the card. Most features register routes and tools
  that end in the same functions.

  \<^bold>\<open>How it is modelled.\<close> A function of the sources is a function here, with the name it has there; the statics of a file are
  the fields of a record that goes in and comes out. A loop is recursion that ends by a measure, so every operation is
  total; the fuel of \<open>scan_loop\<close>, \<open>settle\<close> and the other counted loops is the count of the source. Words have their width
  where they wrap. Errors are left summands or \<open>None\<close>, one for each early return. What the sources call and src/ does not hold
  is an argument or a field: for sockets, what each call is going to report (\<open>conn\<close>); for the card, a tree of nodes and a
  schedule of faults (\<open>Sd_Card\<close>); for the services of the console, a history of calls and answers that are any function
  of it (\<open>svc_world\<close>, \<open>hid_world\<close>, \<open>proc_world\<close>). Log lines are left out everywhere but in \<open>Logging\<close>.

  \<^bold>\<open>Shared theories.\<close>
  \<^item> \<open>Autopilot_Prelude\<close>: C strings and the functions of the C library, the lemmas about them.
  \<^item> \<open>Interfaces\<close>: the contracts several components share, as locales: \<open>chunked_consumer\<close> (a result that does not depend on how
    a stream is cut), \<open>bounded_table\<close> (tables filled by registration), \<open>escaping_loop\<close> (bounded escaping). Each is
    interpreted where it is provided: SHA-256, base64, Adler-32 and the body scanner; routes, hooks, tools and TXT pairs; JSON,
    HTML and URL escaping. \<open>byte_source\<close> in \<open>Install_Spec\<close> is the contract of the installer's reader, interpreted on the
    request body.
  \<^item> \<open>Sd_Card\<close>: the calls of \<open>stdio\<close> and of the file system, with faults, and what each does to the nodes.

  \<^bold>\<open>Utilities.\<close>
  \<^item> \<open>Base64\<close> (\<open>util/base64.c\<close>): encoder and incremental decoder; the decoder gives encoded bytes back in any cut.
  \<^item> \<open>Sha256\<close> (\<open>util/sha256.c\<close>, \<open>util/hex.c\<close>): the streaming context computes the standard's digest of the padded message.
  \<^item> \<open>Jsmn\<close>, \<open>Json\<close>, \<open>Json_Buffer\<close> (\<open>lib/jsmn/jsmn.h\<close>, \<open>util/json.c\<close>): tokens delimit parts of the text; a string escaped,
    tokenized and unescaped is the same string.

  \<^bold>\<open>Core.\<close>
  \<^item> \<open>Http\<close> (\<open>core/http.c\<close>): the request and its body do not depend on segmentation, interruptions or short reads; the
    comparison of credentials is exact.
  \<^item> \<open>Request_Memory\<close> (\<open>core/request.c\<close>): blocks are aligned, in bounds and disjoint.
  \<^item> \<open>Router\<close> (\<open>core/http_router.c\<close>): which bearer is admitted, and dispatch as the first route that matches.
  \<^item> \<open>Server_Loop\<close> (\<open>core/http_server.c\<close>): bodies drained to their end; no I/O between the acknowledgement of sleep and the
    wake, as an invariant of the step relation \<open>loop_run\<close>.
  \<^item> \<open>Config_File\<close>, \<open>Logging\<close> (\<open>core/config.c\<close>, \<open>core/log.c\<close>): ranges of the configuration; the size of the log over any
    sequence of records, refused renames included.
  \<^item> \<open>Power_Control\<close> (\<open>platform/power.c\<close>, \<open>platform/netif.c\<close>): no transition is lost or acknowledged wrongly.
  \<^item> \<open>Mdns\<close> (\<open>core/mdns.c\<close>): an encoded query gets the records it asks for and those that go with them, byte for byte.

  \<^bold>\<open>Features.\<close>
  \<^item> \<open>Files\<close>, \<open>Files_Http\<close>, \<open>Files_Mcp\<close> (\<open>features/files\<close>): accepted paths stay below the root; moves, uploads and waits under
    faults of the card.
  \<^item> \<open>Jstream\<close>, \<open>Mcp_Server\<close> (\<open>features/mcp\<close>): the scanner stays in its buffers, diverts the content and nothing else, and an
    upload ends decoded in its temporary file, from the socket to the card.
  \<^item> \<open>Oauth_Tokens\<close>, \<open>Oauth\<close> (\<open>features/oauth\<close>): which tokens are valid, what minting and revoking do to the file, when a code is
    made and when it buys a token.
  \<^item> \<open>Install\<close>, \<open>Install_Spec\<close> (\<open>features/install\<close>): headers read back, contents registered with the bytes of their place and
    only under their hash, rollback.
  \<^item> \<open>Keyboard\<close>, \<open>Input\<close>, \<open>Input_Api\<close> (\<open>features/input\<close>): texts told apart by their key presses, typing, swipes, and what is
    held from the services.
  \<^item> \<open>Process\<close>, \<open>Process_Api\<close> (\<open>features/process\<close>): the loan of the debug session and of the memory boost to a launched program.
  \<^item> \<open>Nro\<close> (\<open>features/nro\<close>): the transfer to the menu as a zlib stream, and the program's file throughout.
  \<^item> \<open>Crash\<close>, \<open>Network\<close> (\<open>features/crash\<close>, \<open>features/network\<close>): the newest reports; the DNS servers.

  \<^bold>\<open>Bounds.\<close> The bounds are those of the sources: 32 tokens, 8 codes, 64 files of a container, 16 compression pointers of a
  name, a document of 15 levels, the arena of a request in a build with MCP. Where a component relies on a bound that its
  caller provides, the bound is a hypothesis of the lemma.

  \<^bold>\<open>What is not modelled.\<close> Start-up (\<open>main.c\<close>, \<open>core/app.c\<close>, \<open>features/feature_list.c\<close>): library calls in a fixed order.
  Device facts (\<open>platform/device_info.c\<close>), \<open>features/status\<close>, \<open>features/titles\<close>, \<open>features/settings\<close> and
  \<open>features/explorer\<close>: values passed between a service and a reply. \<open>features/power\<close>: two calls into the modelled power queue.
  Screen capture with its JPEG code (\<open>features/screen\<close>, \<open>util/jpeg.c\<close>). Floating point (parsing of numbers, stick
  positions). Opening and closing of system services and sockets, and the host build's stand-ins for the console libraries.
\<close>

end
